(* ===== verification/Prelude.thy ===== *)
theory Prelude
  imports Main "HOL-Library.Word"
begin

text \<open>
  Shared vocabulary of the development.

  \<^item> The widths of the Rust integers as \<open>word\<close> types; \<open>usize\<close> lengths and indices are
    natural numbers, and the two places where the sources call \<^verbatim>\<open>checked_add\<close> on them use
    \<open>checked_add_usize\<close> at the 64-bit bound.
  \<^item> \<open>result\<close>: the shape of Rust's \<^verbatim>\<open>Result<T, E>\<close> as a sum, with the \<^verbatim>\<open>?\<close> operator as
    \<open>res_bind\<close>.
  \<^item> Overwriting a slice of a list (\<^verbatim>\<open>clone_from_slice\<close>), moving rows inside a list, and the
    generic facts about them.
  \<^item> The collections of unfolding rules each component adds its definitions to.
\<close>

section \<open>Machine integers\<close>

type_synonym u8 = "8 word"
type_synonym u16 = "16 word"
type_synonym u32 = "32 word"
type_synonym u64 = "64 word"

text \<open>The collections that carry the component proofs.\<close>

named_theorems wire_defs \<open>unfolding rules of the wire types and their validators\<close>
named_theorems frame_defs \<open>unfolding rules of the binary frame codec\<close>
named_theorems owner_defs \<open>unfolding rules of the winsize-owner state machine\<close>
named_theorems layout_defs \<open>unfolding rules of the pane-layout engine\<close>

lemma unat_of_nat_u16 [simp]: "n < 65536 \<Longrightarrow> unat (of_nat n :: u16) = n"
  by (simp add: unat_of_nat take_bit_eq_mod)

lemma unat_u16_less [simp]: "unat (w :: u16) < 65536"
  using unsigned_less [of w] by simp

lemma unat_u64_less [simp]: "unat (w :: u64) < 18446744073709551616"
  using unsigned_less [of w] by simp

lemma unat_of_nat_u32 [simp]: "n < 4294967296 \<Longrightarrow> unat (of_nat n :: u32) = n"
  by (simp add: unat_of_nat take_bit_eq_mod)

lemma of_nat_u16_inject:
  "m < 65536 \<Longrightarrow> n < 65536 \<Longrightarrow> (of_nat m :: u16) = of_nat n \<longleftrightarrow> m = n"
  by (metis unat_of_nat_u16)

lemma of_nat_u16_less:
  "m < 65536 \<Longrightarrow> n < 65536 \<Longrightarrow> (of_nat m :: u16) < of_nat n \<longleftrightarrow> m < n"
  by (simp add: word_less_nat_alt)

lemma of_nat_u16_le:
  "m < 65536 \<Longrightarrow> n < 65536 \<Longrightarrow> (of_nat m :: u16) \<le> of_nat n \<longleftrightarrow> m \<le> n"
  by (simp add: word_le_nat_alt)

text \<open>\<^verbatim>\<open>usize::MAX\<close> on the 64-bit targets, and \<^verbatim>\<open>usize::checked_add\<close>.\<close>

definition usize_max :: nat where
  "usize_max = 2 ^ 64 - 1"

definition checked_add_usize :: "nat \<Rightarrow> nat \<Rightarrow> nat option" where
  "checked_add_usize a b = (if a + b \<le> usize_max then Some (a + b) else None)"

lemma checked_add_usize_small:
  "a + b \<le> usize_max \<Longrightarrow> checked_add_usize a b = Some (a + b)"
  by (simp add: checked_add_usize_def)

text \<open>\<^verbatim>\<open>saturating_sub\<close>, \<^verbatim>\<open>saturating_add\<close>, \<^verbatim>\<open>saturating_mul\<close> and \<^verbatim>\<open>checked_add\<close> on \<^verbatim>\<open>u64\<close>.\<close>

definition saturating_sub_u64 :: "u64 \<Rightarrow> u64 \<Rightarrow> u64" where
  "saturating_sub_u64 a b = (if a \<le> b then 0 else a - b)"

definition saturating_add_u64 :: "u64 \<Rightarrow> u64 \<Rightarrow> u64" where
  "saturating_add_u64 a b = (if unat a + unat b < 2 ^ 64 then a + b else - 1)"

definition saturating_mul_u64 :: "u64 \<Rightarrow> u64 \<Rightarrow> u64" where
  "saturating_mul_u64 a b = (if unat a * unat b < 2 ^ 64 then a * b else - 1)"

definition checked_add_u64 :: "u64 \<Rightarrow> u64 \<Rightarrow> u64 option" where
  "checked_add_u64 a b = (if unat a + unat b < 2 ^ 64 then Some (a + b) else None)"

lemma unat_max_u64 [simp]: "unat (- 1 :: u64) = 2 ^ 64 - 1"
  by (simp add: unsigned_minus_1_eq_mask mask_eq_exp_minus_1)

lemma unat_saturating_sub_u64: "unat (saturating_sub_u64 a b) = unat a - unat b"
  by (auto simp: saturating_sub_u64_def word_le_nat_alt unat_sub)

lemma unat_saturating_add_u64:
  "unat (saturating_add_u64 a b) = min (unat a + unat b) (2 ^ 64 - 1)"
  using unat_u64_less [of a] unat_u64_less [of b]
  by (auto simp: saturating_add_u64_def unat_word_ariths min_def)

lemma unat_saturating_mul_u64:
  "unat (saturating_mul_u64 a b) = min (unat a * unat b) (2 ^ 64 - 1)"
  by (auto simp: saturating_mul_u64_def unat_word_ariths min_def)

lemma checked_add_u64_one:
  "checked_add_u64 a 1 = Some b \<longleftrightarrow> unat b = Suc (unat a)"
  using unat_u64_less [of b]
  by (auto simp: checked_add_u64_def unat_word_ariths word_unat_eq_iff simp del: unat_u64_less)

section \<open>Results\<close>

text \<open>\<^verbatim>\<open>Result<T, E>\<close> as a sum: \<open>Inl\<close> the error, \<open>Inr\<close> the value; \<open>res_bind r k\<close> is \<^verbatim>\<open>k(r?)\<close>.\<close>

definition res_bind :: "'e + 'a \<Rightarrow> ('a \<Rightarrow> 'e + 'b) \<Rightarrow> 'e + 'b" where
  "res_bind r k = (case r of Inl e \<Rightarrow> Inl e | Inr a \<Rightarrow> k a)"

lemma res_bind_Inl [simp]: "res_bind (Inl e) k = Inl e"
  and res_bind_Inr [simp]: "res_bind (Inr a) k = k a"
  by (simp_all add: res_bind_def)

lemma res_bind_eq_Inr: "res_bind r k = Inr b \<longleftrightarrow> (\<exists>a. r = Inr a \<and> k a = Inr b)"
  by (cases r) auto

lemma res_bind_eq_Inl: "res_bind r k = Inl e \<longleftrightarrow> r = Inl e \<or> (\<exists>a. r = Inr a \<and> k a = Inl e)"
  by (cases r) auto

text \<open>An early \<^verbatim>\<open>return Err(e)\<close>: the rest runs only when its guard is false.\<close>

lemma guard_eq_Inr: "(if P then Inl e else r) = Inr b \<longleftrightarrow> \<not> P \<and> r = Inr b"
  by simp

section \<open>Slices and rows\<close>

text \<open>\<^verbatim>\<open>dst[start..start + cells.len()].clone_from_slice(cells)\<close>, the bounds already checked.\<close>

definition overwrite :: "'a list \<Rightarrow> nat \<Rightarrow> 'a list \<Rightarrow> 'a list" where
  "overwrite xs s ys = take s xs @ ys @ drop (s + length ys) xs"

lemma length_overwrite [simp]:
  "s + length ys \<le> length xs \<Longrightarrow> length (overwrite xs s ys) = length xs"
  by (simp add: overwrite_def)

lemma overwrite_with_slice:
  assumes "length xs = length zs" "s \<le> e" "e \<le> length zs"
    and "take s xs = take s zs" "drop e xs = drop e zs"
  shows "overwrite xs s (take (e - s) (drop s zs)) = zs"
proof -
  have len: "s + length (take (e - s) (drop s zs)) = e"
    using assms by simp
  have "take s zs @ take (e - s) (drop s zs) @ drop e zs = zs"
    using assms(2) by (metis append_take_drop_id drop_drop le_add_diff_inverse2 take_drop)
  then show ?thesis
    using assms(4,5) len by (simp add: overwrite_def)
qed

lemma list_update_overwrite_rows:
  "i < length rs \<Longrightarrow> length (rs[i := overwrite (rs ! i) s ys]) = length rs"
  by simp

text \<open>\<^verbatim>\<open>slice.chunks(n)\<close>, with \<open>n > 0\<close>: pieces of \<open>n\<close> elements, the last one shorter.\<close>

function chunks_of :: "nat \<Rightarrow> 'a list \<Rightarrow> 'a list list" where
  "chunks_of n xs = (if xs = [] \<or> n = 0 then [] else take n xs # chunks_of n (drop n xs))"
  by pat_completeness auto
termination
  by (relation "measure (length \<circ> snd)") (auto simp: length_greater_0_conv)

declare chunks_of.simps [simp del]

lemma concat_chunks_of: "0 < n \<Longrightarrow> concat (chunks_of n xs) = xs"
proof (induction n xs rule: chunks_of.induct)
  case (1 n xs)
  then show ?case unfolding chunks_of.simps [of n xs] by (cases "xs = []") simp_all
qed

text \<open>\<^verbatim>\<open>iter().position(p)\<close> and \<^verbatim>\<open>remove(i)\<close> on a vector or a deque.\<close>

fun position :: "('a \<Rightarrow> bool) \<Rightarrow> 'a list \<Rightarrow> nat option" where
  "position p [] = None"
| "position p (x # xs) = (if p x then Some 0 else map_option Suc (position p xs))"

definition remove_at :: "nat \<Rightarrow> 'a list \<Rightarrow> 'a list" where
  "remove_at i xs = take i xs @ drop (Suc i) xs"

lemma position_None: "position p xs = None \<longleftrightarrow> (\<forall>x \<in> set xs. \<not> p x)"
  by (induction xs) auto

lemma position_Some:
  "position p xs = Some i \<longleftrightarrow> i < length xs \<and> p (xs ! i) \<and> (\<forall>j < i. \<not> p (xs ! j))"
  by (induction xs arbitrary: i) (auto simp: less_Suc_eq_0_disj nth_Cons split: nat.splits)

lemma position_SomeD:
  assumes "position p xs = Some i"
  shows "i < length xs" "p (xs ! i)" "xs ! i \<in> set xs"
  using assms by (auto simp: position_Some)

lemma position_split:
  assumes "position p xs = Some i"
  obtains pre x suf where "xs = pre @ x # suf" "length pre = i" "p x" "\<forall>y \<in> set pre. \<not> p y"
proof
  show "xs = take i xs @ xs ! i # drop (Suc i) xs" "length (take i xs) = i" "p (xs ! i)"
    using assms by (simp_all add: position_Some id_take_nth_drop)
  show "\<forall>y \<in> set (take i xs). \<not> p y"
    using assms by (auto simp: position_Some in_set_conv_nth)
qed

lemma remove_at_append: "remove_at (length pre) (pre @ x # suf) = pre @ suf"
  by (simp add: remove_at_def)

text \<open>A list of rows that all have the same length.\<close>

definition rect :: "nat \<Rightarrow> nat \<Rightarrow> 'a list list \<Rightarrow> bool" where
  "rect r c rs \<longleftrightarrow> length rs = r \<and> (\<forall>row \<in> set rs. length row = c)"

lemma rect_length: "rect r c rs \<Longrightarrow> length rs = r"
  by (simp add: rect_def)

lemma rect_nth: "rect r c rs \<Longrightarrow> i < r \<Longrightarrow> length (rs ! i) = c"
  by (auto simp: rect_def)

lemma rect_update: "rect r c rs \<Longrightarrow> length row = c \<Longrightarrow> rect r c (rs[i := row])"
  by (auto simp: rect_def dest: set_update_subset_insert [THEN subsetD])

section \<open>Moving rows in place\<close>

text \<open>
  The reference reading of a scroll: every destination row is the row that was at its source
  \<^emph>\<open>before\<close> the op, although the loops overwrite the list they read from.
\<close>

lemma fold_scroll_up:
  assumes "b + lines \<le> length rs" "0 < lines"
  shows "fold (\<lambda>i rs. rs[i := rs ! (i + lines)]) [a..<b] rs
       = map (\<lambda>j. if a \<le> j \<and> j < b then rs ! (j + lines) else rs ! j) [0..<length rs]"
  using assms
proof (induction b)
  case 0
  then show ?case by (simp add: map_nth)
next
  case (Suc b)
  show ?case
  proof (cases "a \<le> b")
    case True
    with Suc show ?thesis by (auto intro!: nth_equalityI simp: nth_list_update less_Suc_eq)
  next
    case False
    with Suc.prems show ?thesis by (auto intro!: nth_equalityI)
  qed
qed

lemma fold_scroll_down:
  assumes "b \<le> length rs" "lines \<le> a" "0 < lines"
  shows "fold (\<lambda>i rs. rs[i := rs ! (i - lines)]) (rev [a..<b]) rs
       = map (\<lambda>j. if a \<le> j \<and> j < b then rs ! (j - lines) else rs ! j) [0..<length rs]"
  using assms
proof (induction "b - a" arbitrary: a)
  case 0
  then show ?case by (auto intro!: nth_equalityI)
next
  case (Suc n)
  then have "a < b" by simp
  with Suc(1) [of "Suc a"] Suc(2-) show ?case
    by (auto intro!: nth_equalityI simp: upt_conv_Cons nth_list_update)
qed

text \<open>The row that ends up at \<open>j\<close>, and the two scroll ops as one map over row indices.\<close>

definition scrolled :: "'a list \<Rightarrow> nat \<Rightarrow> nat \<Rightarrow> nat \<Rightarrow> bool \<Rightarrow> 'a list" where
  "scrolled rows rtop bottom_exclusive lines up =
     map (\<lambda>j. if up \<and> rtop \<le> j \<and> j < bottom_exclusive - lines then rows ! (j + lines)
               else if \<not> up \<and> rtop + lines \<le> j \<and> j < bottom_exclusive then rows ! (j - lines)
               else rows ! j)
       [0..<length rows]"

lemma length_scrolled [simp]: "length (scrolled rows a b l up) = length rows"
  by (simp add: scrolled_def)

lemma rect_scrolled:
  assumes "rect r c rows" "b \<le> length rows" "l \<le> b"
  shows "rect r c (scrolled rows a b l up)"
  using assms by (auto simp: rect_def scrolled_def)

section \<open>Machines that run on a sequence of events\<close>

text \<open>
  The interface the state machines of the program share: a total step function with an invariant
  it keeps, and an order on states no step goes back in. What holds of one step then holds of
  every run; each machine discharges the laws for its own step function in its own theory.
\<close>

locale stepping =
  fixes step :: "'s \<Rightarrow> 'e \<Rightarrow> 's" and inv :: "'s \<Rightarrow> bool"
  assumes step_inv: "inv s \<Longrightarrow> inv (step s e)"
begin

definition run :: "'e list \<Rightarrow> 's \<Rightarrow> 's" where
  "run es s = fold (\<lambda>e s. step s e) es s"

lemma run_simps [simp]:
  "run [] s = s" "run (e # es) s = run es (step s e)" "run (es @ es') s = run es' (run es s)"
  by (simp_all add: run_def)

lemma run_inv: "inv s \<Longrightarrow> inv (run es s)"
  by (induction es arbitrary: s) (simp_all add: step_inv)

end

locale monotone_stepping = stepping step inv
  for step :: "'s \<Rightarrow> 'e \<Rightarrow> 's" and inv :: "'s \<Rightarrow> bool" +
  fixes before :: "'s \<Rightarrow> 's \<Rightarrow> bool"
  assumes before_refl: "inv s \<Longrightarrow> before s s"
    and before_trans: "inv s \<Longrightarrow> inv t \<Longrightarrow> inv u \<Longrightarrow> before s t \<Longrightarrow> before t u \<Longrightarrow> before s u"
    and step_before: "inv s \<Longrightarrow> before s (step s e)"
begin

lemma run_before: "inv s \<Longrightarrow> before s (run es s)"
proof (induction es arbitrary: s)
  case Nil
  then show ?case by (simp add: before_refl)
next
  case (Cons e es)
  then have "before s (step s e)" "before (step s e) (run es (step s e))"
    by (simp_all add: step_before step_inv)
  then show ?case
    using before_trans [OF Cons.prems step_inv [OF Cons.prems] run_inv [OF step_inv [OF Cons.prems]]]
    by simp
qed

text \<open>A refusal that persists along the order persists along every run.\<close>

lemma run_persists:
  assumes "inv s" "P s" "\<And>s t. before s t \<Longrightarrow> P s \<Longrightarrow> P t"
  shows "P (run es s)"
  using run_before [OF assms(1)] assms(2,3) by blast

end

end
