(* ===== verification/Wire.thy ===== *)
theory Wire
  imports Prelude
begin

text \<open>
  The terminal wire types that the daemon and the renderer mirror from each other:
  \<^verbatim>\<open>maestro-renderer/src/wire.rs\<close>, \<^verbatim>\<open>maestro-protocol/src/row_copy.rs\<close> and the limits of
  \<^verbatim>\<open>maestro-protocol/src/terminal_link.rs\<close>. Cells, full grid snapshots, structured damage
  frames, and the structural validator \<^verbatim>\<open>DamageFrame::validate\<close> the renderer runs on every
  frame. The JSON layer (serde) is not modelled: a value of these types is a decoded line.
  Strings are UTF-8 byte strings, as Rust's \<^verbatim>\<open>String::len\<close> counts them.
\<close>

section \<open>Cells\<close>

datatype named_color =
    Black | Red | Green | Yellow | Blue | Magenta | Cyan | White
  | BrightBlack | BrightRed | BrightGreen | BrightYellow | BrightBlue | BrightMagenta
  | BrightCyan | BrightWhite | Foreground | Background | Cursor
  | DimBlack | DimRed | DimGreen | DimYellow | DimBlue | DimMagenta | DimCyan | DimWhite
  | BrightForeground | DimForeground

datatype color = Named named_color | Indexed u8 | Rgb u8 u8 u8

datatype cursor_shape = Block | Underline | Beam

datatype underline_style = NoUnderline | Single | Double | Curly | Dotted | Dashed

record cell =
  cell_text :: string
  cell_fg :: color
  cell_bg :: color
  cell_bold :: bool
  cell_italic :: bool
  cell_underline :: underline_style
  cell_inverse :: bool
  cell_strikeout :: bool
  cell_dim :: bool
  cell_hidden :: bool
  cell_hyperlink :: "string option"
  cell_width :: u8

type_synonym cells = "cell list list"

type_synonym session_generation = string
type_synonym revision = u64

definition MAX_TERMINAL_LINK_CELLS_PER_FRAME :: nat where
  "MAX_TERMINAL_LINK_CELLS_PER_FRAME = 256"

text \<open>\<^verbatim>\<open>cell_is_valid\<close>: width 0, 1 or 2, and a wide spacer carries no text.\<close>

definition cell_is_valid :: "cell \<Rightarrow> bool" where
  "cell_is_valid c =
     (if cell_width c = 0 then cell_text c = []
      else if cell_width c = 1 \<or> cell_width c = 2 then True
      else False)"

section \<open>Copy metadata of a row\<close>

record row_copy =
  starts_line :: "bool option"
  soft_wrap :: bool
  excluded_columns :: "u16 list"

text \<open>\<^verbatim>\<open>excluded_columns.windows(2).all(|pair| pair[0] < pair[1])\<close>.\<close>

fun windows_ascending :: "u16 list \<Rightarrow> bool" where
  "windows_ascending (a # b # xs) = (a < b \<and> windows_ascending (b # xs))"
| "windows_ascending _ = True"

definition row_copy_valid :: "row_copy list option \<Rightarrow> nat \<Rightarrow> nat \<Rightarrow> bool" where
  "row_copy_valid metadata cols rows =
     (case metadata of
        None \<Rightarrow> True
      | Some md \<Rightarrow>
          length md = rows \<and>
          list_all (\<lambda>index.
            let row = md ! index in
              list_all (\<lambda>col. unat col < cols) (excluded_columns row) \<and>
              windows_ascending (excluded_columns row) \<and>
              (index = 0 \<or>
               (case starts_line row of
                  None \<Rightarrow> True
                | Some starts \<Rightarrow> starts \<noteq> soft_wrap (md ! (index - 1)))))
            [0..<length md])"

text \<open>
  \<^verbatim>\<open>row_copy_cells_valid\<close>: the metadata fits the grid and excludes only genuine blank
  width-one placeholder cells. \<^verbatim>\<open>rows[index][col]\<close> is in range whenever it is read: the shape
  check stands before it in the conjunction.
\<close>

definition row_copy_cells_valid :: "cells \<Rightarrow> row_copy list option \<Rightarrow> bool" where
  "row_copy_cells_valid rows metadata =
     (let cols = (case rows of [] \<Rightarrow> 0 | r # _ \<Rightarrow> length r) in
        list_all (\<lambda>row. length row = cols) rows \<and>
        row_copy_valid metadata cols (length rows) \<and>
        (case metadata of
           None \<Rightarrow> True
         | Some md \<Rightarrow>
             list_all (\<lambda>index.
               list_all (\<lambda>col.
                 let c = rows ! index ! unat col in cell_width c = 1 \<and> cell_text c = '' '')
                 (excluded_columns (md ! index)))
               [0..<length md]))"

text \<open>
  \<^verbatim>\<open>terminal_link_cells_within_cap\<close>: \<^verbatim>\<open>take(CAP + 1).count() <= CAP\<close> over the linked cells.
\<close>

definition linked_cells :: "cells \<Rightarrow> cell list" where
  "linked_cells rows = filter (\<lambda>c. cell_hyperlink c \<noteq> None) (concat rows)"

definition terminal_link_cells_within_cap :: "cells \<Rightarrow> bool" where
  "terminal_link_cells_within_cap rows =
     (length (take (MAX_TERMINAL_LINK_CELLS_PER_FRAME + 1) (linked_cells rows))
        \<le> MAX_TERMINAL_LINK_CELLS_PER_FRAME)"

lemma terminal_link_cells_within_cap_iff:
  "terminal_link_cells_within_cap rows \<longleftrightarrow>
     length (linked_cells rows) \<le> MAX_TERMINAL_LINK_CELLS_PER_FRAME"
  by (auto simp: terminal_link_cells_within_cap_def min_def)

section \<open>Snapshots\<close>

text \<open>
  \<^verbatim>\<open>GridSnapshot\<close> of the renderer's mirror. The daemon's own type adds the off-wire
  \<^verbatim>\<open>row_stamps\<close> (\<^verbatim>\<open>#[serde(skip)]\<close>), modelled as a record extension in the daemon's theory.
\<close>

record grid_snapshot =
  gs_version :: u32
  gs_generation :: session_generation
  gs_revision :: revision
  gs_base_revision :: revision
  gs_cols :: nat
  gs_rows :: nat
  gs_rows_cells :: cells
  gs_row_copy :: "row_copy list option"
  gs_cursor_line :: nat
  gs_cursor_col :: nat
  gs_cursor_visible :: bool
  gs_cursor_shape :: cursor_shape
  gs_alt_screen :: bool
  gs_app_cursor :: bool
  gs_bracketed_paste :: bool
  gs_focus_reporting :: bool
  gs_mouse_report :: bool
  gs_mouse_drag :: bool
  gs_mouse_motion :: bool
  gs_mouse_sgr :: bool

section \<open>Damage frames\<close>

record cursor_state =
  cs_line :: nat
  cs_col :: nat
  cs_visible :: bool
  cs_shape :: cursor_shape

record mode_state =
  ms_alt_screen :: bool
  ms_app_cursor :: bool
  ms_bracketed_paste :: bool
  ms_focus_reporting :: bool
  ms_mouse_report :: bool
  ms_mouse_drag :: bool
  ms_mouse_motion :: bool
  ms_mouse_sgr :: bool

datatype damage_op =
    RowSpan (rs_row: u16) (rs_start: u16) (rs_cells: "cell list")
  | ClearAll cell
  | ScrollUp u16 u16 u16
  | ScrollDown u16 u16 u16

record damage_frame =
  df_schema :: u32
  df_id :: string
  df_generation :: session_generation
  df_base_revision :: revision
  df_revision :: revision
  df_cols :: u16
  df_rows :: u16
  df_cursor :: cursor_state
  df_modes :: mode_state
  df_ops :: "damage_op list"
  df_row_copy :: "row_copy list option"

datatype damage_invalid =
    UnsupportedSchema u32
  | BadDimensions string
  | TooManyOps nat
  | TooManyCells nat
  | TooManyHyperlinkCells nat
  | RowSpanOutOfBounds nat
  | EmptyRowSpan nat
  | BadScrollRegion nat
  | BadRevisionOrder revision revision
  | CursorOutOfBounds nat nat
  | BadCell nat
  | BadRowCopy

definition DAMAGE_SCHEMA :: u32 where "DAMAGE_SCHEMA = 1"
definition MAX_DAMAGE_OPS :: nat where "MAX_DAMAGE_OPS = 4096"
definition MAX_DAMAGE_CELLS :: nat where "MAX_DAMAGE_CELLS = 1000000"
definition DAMAGE_MAX_DIMENSION :: u16 where "DAMAGE_MAX_DIMENSION = 2000"

text \<open>
  The loop of \<^verbatim>\<open>DamageFrame::validate\<close> over the ops, with its index and its two running
  totals. Each early return of the source is one \<open>Inl\<close>.
\<close>

definition scroll_region_ok :: "u16 \<Rightarrow> u16 \<Rightarrow> u16 \<Rightarrow> u16 \<Rightarrow> bool" where
  "scroll_region_ok rows rtop bottom_exclusive lines \<longleftrightarrow>
     rtop < bottom_exclusive \<and> unat bottom_exclusive \<le> unat rows \<and>
     lines > 0 \<and> lines \<le> bottom_exclusive - rtop"

fun validate_ops ::
  "u16 \<Rightarrow> u16 \<Rightarrow> nat \<Rightarrow> nat \<Rightarrow> nat \<Rightarrow> damage_op list \<Rightarrow> damage_invalid + unit" where
  "validate_ops cols rows i total_cells hyperlink_cells [] = Inr ()"
| "validate_ops cols rows i total_cells hyperlink_cells (RowSpan row start cells # ops) =
     (if cells = [] then Inl (EmptyRowSpan i)
      else if unat row \<ge> unat rows then Inl (RowSpanOutOfBounds i)
      else case checked_add_usize (unat start) (length cells) of
        None \<Rightarrow> Inl (RowSpanOutOfBounds i)
      | Some e \<Rightarrow>
          if e > unat cols then Inl (RowSpanOutOfBounds i)
          else if \<not> list_all cell_is_valid cells then Inl (BadCell i)
          else case checked_add_usize hyperlink_cells
                      (length (filter (\<lambda>c. cell_hyperlink c \<noteq> None) cells)) of
            None \<Rightarrow> Inl (TooManyHyperlinkCells usize_max)
          | Some hl \<Rightarrow>
              if hl > MAX_TERMINAL_LINK_CELLS_PER_FRAME then Inl (TooManyHyperlinkCells hl)
              else case checked_add_usize total_cells (length cells) of
                None \<Rightarrow> Inl (TooManyCells usize_max)
              | Some tc \<Rightarrow>
                  if tc > MAX_DAMAGE_CELLS then Inl (TooManyCells tc)
                  else validate_ops cols rows (Suc i) tc hl ops)"
| "validate_ops cols rows i total_cells hyperlink_cells (ClearAll c # ops) =
     (if \<not> cell_is_valid c \<or> cell_width c \<noteq> 1 \<or> cell_text c \<noteq> '' '' then Inl (BadCell i)
      else if cell_hyperlink c \<noteq> None \<and>
              min (unat cols * unat rows) usize_max > MAX_TERMINAL_LINK_CELLS_PER_FRAME
        then Inl (TooManyHyperlinkCells (min (unat cols * unat rows) usize_max))
      else validate_ops cols rows (Suc i) total_cells hyperlink_cells ops)"
| "validate_ops cols rows i total_cells hyperlink_cells (ScrollUp rtop rbot lines # ops) =
     (if \<not> scroll_region_ok rows rtop rbot lines then Inl (BadScrollRegion i)
      else validate_ops cols rows (Suc i) total_cells hyperlink_cells ops)"
| "validate_ops cols rows i total_cells hyperlink_cells (ScrollDown rtop rbot lines # ops) =
     (if \<not> scroll_region_ok rows rtop rbot lines then Inl (BadScrollRegion i)
      else validate_ops cols rows (Suc i) total_cells hyperlink_cells ops)"

definition validate :: "damage_frame \<Rightarrow> damage_invalid + unit" where
  "validate f =
     (if \<not> row_copy_valid (df_row_copy f) (unat (df_cols f)) (unat (df_rows f))
        then Inl BadRowCopy
      else if df_schema f \<noteq> DAMAGE_SCHEMA then Inl (UnsupportedSchema (df_schema f))
      else if df_cols f = 0 \<or> df_rows f = 0 then Inl (BadDimensions ''zero cols or rows'')
      else if df_cols f > DAMAGE_MAX_DIMENSION \<or> df_rows f > DAMAGE_MAX_DIMENSION
        then Inl (BadDimensions ''cols or rows exceed maximum'')
      else if df_base_revision f \<ge> df_revision f
        then Inl (BadRevisionOrder (df_base_revision f) (df_revision f))
      else if cs_col (df_cursor f) \<ge> unat (df_cols f) \<or> cs_line (df_cursor f) \<ge> unat (df_rows f)
        then Inl (CursorOutOfBounds (cs_line (df_cursor f)) (cs_col (df_cursor f)))
      else if length (df_ops f) > MAX_DAMAGE_OPS then Inl (TooManyOps (length (df_ops f)))
      else validate_ops (df_cols f) (df_rows f) 0 0 0 (df_ops f))"

section \<open>What the structural validator accepts\<close>

text \<open>
  The loop is equivalent to a check of each op alone plus the two totals: the running sums
  only grow, so a cap holds at every step iff it holds at the end.
\<close>

fun op_ok :: "u16 \<Rightarrow> u16 \<Rightarrow> damage_op \<Rightarrow> bool" where
  "op_ok cols rows (RowSpan row start cells) \<longleftrightarrow>
     cells \<noteq> [] \<and> unat row < unat rows \<and> unat start + length cells \<le> unat cols \<and>
     list_all cell_is_valid cells"
| "op_ok cols rows (ClearAll c) \<longleftrightarrow>
     cell_is_valid c \<and> cell_width c = 1 \<and> cell_text c = '' '' \<and>
     (cell_hyperlink c \<noteq> None \<longrightarrow> unat cols * unat rows \<le> MAX_TERMINAL_LINK_CELLS_PER_FRAME)"
| "op_ok cols rows (ScrollUp rtop rbot lines) \<longleftrightarrow> scroll_region_ok rows rtop rbot lines"
| "op_ok cols rows (ScrollDown rtop rbot lines) \<longleftrightarrow> scroll_region_ok rows rtop rbot lines"

fun op_cells :: "damage_op \<Rightarrow> cell list" where
  "op_cells (RowSpan row start cells) = cells"
| "op_cells _ = []"

definition op_links :: "damage_op \<Rightarrow> nat" where
  "op_links op = length (filter (\<lambda>c. cell_hyperlink c \<noteq> None) (op_cells op))"

lemma op_links_simps [simp]:
  "op_links (RowSpan row start cells) = length (filter (\<lambda>c. cell_hyperlink c \<noteq> None) cells)"
  "op_links (ClearAll c) = 0"
  "op_links (ScrollUp a b d) = 0"
  "op_links (ScrollDown a b d) = 0"
  by (simp_all add: op_links_def)

lemma usize_caps:
  "unat (w :: u16) \<le> usize_max" "MAX_DAMAGE_CELLS + 1000000 \<le> usize_max"
  "MAX_TERMINAL_LINK_CELLS_PER_FRAME + 1000000 \<le> usize_max"
  using unat_u16_less [of w]
  by (simp_all add: usize_max_def MAX_DAMAGE_CELLS_def MAX_TERMINAL_LINK_CELLS_PER_FRAME_def
      del: unat_u16_less)

lemma validate_ops_iff:
  assumes "tot \<le> MAX_DAMAGE_CELLS" "hl \<le> MAX_TERMINAL_LINK_CELLS_PER_FRAME"
  shows "validate_ops cols rows i tot hl ops = Inr () \<longleftrightarrow>
     list_all (op_ok cols rows) ops \<and>
     hl + sum_list (map op_links ops) \<le> MAX_TERMINAL_LINK_CELLS_PER_FRAME \<and>
     tot + sum_list (map (length \<circ> op_cells) ops) \<le> MAX_DAMAGE_CELLS"
  using assms
proof (induction cols rows i tot hl ops rule: validate_ops.induct)
  case (2 cols rows i tot hl row start cells ops)
  let ?links = "length (filter (\<lambda>c. cell_hyperlink c \<noteq> None) cells)"
  have links: "?links \<le> length cells" by simp
  show ?case
  proof (cases "op_ok cols rows (RowSpan row start cells)")
    case True
    then have fits: "length cells \<le> unat cols" "unat start + length cells \<le> usize_max"
      using usize_caps(1) [of cols] by auto
    then have small: "hl + ?links \<le> usize_max" "tot + length cells \<le> usize_max"
      using 2(2,3) links usize_caps unat_u16_less [of cols] by linarith+
    show ?thesis
      using 2(1) [OF _ _ checked_add_usize_small [OF fits(2)] _ _ checked_add_usize_small [OF small(1)]
          _ checked_add_usize_small [OF small(2)]] True fits small
      by (auto simp: checked_add_usize_small)
  next
    case False
    then show ?thesis
      using usize_caps(1) [of cols] by (auto simp: checked_add_usize_def split: option.splits)
  qed
qed (auto simp: min_def usize_max_def MAX_TERMINAL_LINK_CELLS_PER_FRAME_def)

lemma validate_iff:
  "validate f = Inr () \<longleftrightarrow>
     row_copy_valid (df_row_copy f) (unat (df_cols f)) (unat (df_rows f)) \<and>
     df_schema f = DAMAGE_SCHEMA \<and> df_cols f \<noteq> 0 \<and> df_rows f \<noteq> 0 \<and>
     df_cols f \<le> DAMAGE_MAX_DIMENSION \<and> df_rows f \<le> DAMAGE_MAX_DIMENSION \<and>
     df_base_revision f < df_revision f \<and>
     cs_col (df_cursor f) < unat (df_cols f) \<and> cs_line (df_cursor f) < unat (df_rows f) \<and>
     length (df_ops f) \<le> MAX_DAMAGE_OPS \<and>
     list_all (op_ok (df_cols f) (df_rows f)) (df_ops f) \<and>
     sum_list (map op_links (df_ops f)) \<le> MAX_TERMINAL_LINK_CELLS_PER_FRAME \<and>
     sum_list (map (length \<circ> op_cells) (df_ops f)) \<le> MAX_DAMAGE_CELLS"
  by (auto simp: validate_def validate_ops_iff not_le not_less)

section \<open>Snapshots that both sides agree are well formed\<close>

text \<open>
  The layout of double-width glyphs, read left to right: a cell is a width-0 spacer exactly when
  the cell before it has width 2, and a row does not end on a width-2 cell.
\<close>

fun wide_from :: "bool \<Rightarrow> cell list \<Rightarrow> bool" where
  "wide_from after_lead [] \<longleftrightarrow> \<not> after_lead"
| "wide_from after_lead (c # cs) \<longleftrightarrow>
     (cell_width c = 0 \<longleftrightarrow> after_lead) \<and> wide_from (cell_width c = 2) cs"

definition wide_pairs :: "cell list \<Rightarrow> bool" where
  "wide_pairs row = wide_from False row"

lemma wide_from_nthI:
  assumes "\<And>i. i < length row \<Longrightarrow>
      cell_width (row ! i) = 0 \<longleftrightarrow> (if i = 0 then p else cell_width (row ! (i - 1)) = 2)"
    and "if row = [] then \<not> p else cell_width (last row) \<noteq> 2"
  shows "wide_from p row"
  using assms
proof (induction row arbitrary: p)
  case (Cons c cs)
  have "wide_from (cell_width c = 2) cs"
  proof (rule Cons.IH)
    fix i assume "i < length cs"
    then show "cell_width (cs ! i) = 0 \<longleftrightarrow>
        (if i = 0 then cell_width c = 2 else cell_width (cs ! (i - 1)) = 2)"
      using Cons.prems(1) [of "Suc i"] by (simp add: nth_Cons split: nat.splits)
  qed (use Cons.prems(2) in \<open>auto split: if_splits\<close>)
  with Cons.prems(1) [of 0] show ?case by simp
qed simp

definition SNAPSHOT_VERSION :: u32 where "SNAPSHOT_VERSION = 2"

definition wf_snapshot :: "'a grid_snapshot_scheme \<Rightarrow> bool" where
  "wf_snapshot g \<longleftrightarrow>
     gs_version g = SNAPSHOT_VERSION \<and>
     1 \<le> gs_cols g \<and> gs_cols g \<le> 2000 \<and> 1 \<le> gs_rows g \<and> gs_rows g \<le> 2000 \<and>
     rect (gs_rows g) (gs_cols g) (gs_rows_cells g) \<and>
     list_all (list_all cell_is_valid) (gs_rows_cells g) \<and>
     list_all wide_pairs (gs_rows_cells g) \<and>
     terminal_link_cells_within_cap (gs_rows_cells g) \<and>
     row_copy_cells_valid (gs_rows_cells g) (gs_row_copy g) \<and>
     gs_cursor_line g < gs_rows g \<and> gs_cursor_col g < gs_cols g"

end
