(* ===== verification/Damage_Gen.thy ===== *)
theory Damage_Gen
  imports Wire
begin

text \<open>
  The daemon's side of incremental rendering, \<^verbatim>\<open>pty-daemon/src/grid.rs\<close> from
  \<^verbatim>\<open>is_canonical_blank\<close> to \<^verbatim>\<open>generate_damage\<close>: two authoritative snapshots of one grid are
  diffed into row spans, one clear, or a scroll followed by row spans. The terminal parser that
  produces the snapshots (the \<^verbatim>\<open>alacritty_terminal\<close> crate) is outside the repository; what its
  snapshots satisfy is the predicate \<open>wf_snapshot\<close> and the row-stamp contract \<open>stamps_sound\<close>.
\<close>

section \<open>Snapshots of the daemon\<close>

record daemon_snapshot = grid_snapshot +
  dg_row_stamps :: "u64 list"

text \<open>\<^verbatim>\<open>#[serde(skip)]\<close>: what a client decodes has no stamps.\<close>

definition on_wire :: "daemon_snapshot \<Rightarrow> grid_snapshot" where
  "on_wire d = grid_snapshot.truncate d"

datatype damage_gen = NoChange | GenResync | Frame damage_frame

definition is_canonical_blank :: "cell \<Rightarrow> bool" where
  "is_canonical_blank c \<longleftrightarrow> cell_width c = 1 \<and> cell_text c = '' ''"

definition header_changed :: "daemon_snapshot \<Rightarrow> daemon_snapshot \<Rightarrow> bool" where
  "header_changed prev nxt \<longleftrightarrow>
     gs_cursor_line prev \<noteq> gs_cursor_line nxt \<or>
     gs_cursor_col prev \<noteq> gs_cursor_col nxt \<or>
     gs_cursor_visible prev \<noteq> gs_cursor_visible nxt \<or>
     gs_cursor_shape prev \<noteq> gs_cursor_shape nxt \<or>
     gs_alt_screen prev \<noteq> gs_alt_screen nxt \<or>
     gs_app_cursor prev \<noteq> gs_app_cursor nxt \<or>
     gs_bracketed_paste prev \<noteq> gs_bracketed_paste nxt \<or>
     gs_focus_reporting prev \<noteq> gs_focus_reporting nxt \<or>
     gs_mouse_report prev \<noteq> gs_mouse_report nxt \<or>
     gs_mouse_drag prev \<noteq> gs_mouse_drag nxt \<or>
     gs_mouse_motion prev \<noteq> gs_mouse_motion nxt \<or>
     gs_mouse_sgr prev \<noteq> gs_mouse_sgr nxt"

definition cursor_state_of :: "daemon_snapshot \<Rightarrow> cursor_state" where
  "cursor_state_of nxt =
     \<lparr>cs_line = gs_cursor_line nxt, cs_col = gs_cursor_col nxt,
      cs_visible = gs_cursor_visible nxt, cs_shape = gs_cursor_shape nxt\<rparr>"

definition mode_state_of :: "daemon_snapshot \<Rightarrow> mode_state" where
  "mode_state_of nxt =
     \<lparr>ms_alt_screen = gs_alt_screen nxt, ms_app_cursor = gs_app_cursor nxt,
      ms_bracketed_paste = gs_bracketed_paste nxt, ms_focus_reporting = gs_focus_reporting nxt,
      ms_mouse_report = gs_mouse_report nxt, ms_mouse_drag = gs_mouse_drag nxt,
      ms_mouse_motion = gs_mouse_motion nxt, ms_mouse_sgr = gs_mouse_sgr nxt\<rparr>"

section \<open>Row diffs\<close>

text \<open>The loop of \<^verbatim>\<open>row_diff_span\<close> with its two variables \<^verbatim>\<open>first\<close> and \<^verbatim>\<open>last\<close>.\<close>

definition diff_step :: "nat \<times> cell \<times> cell \<Rightarrow> nat option \<times> nat \<Rightarrow> nat option \<times> nat" where
  "diff_step = (\<lambda>(col, p, n) (fst_col, last_col).
     if p \<noteq> n then ((if fst_col = None then Some col else fst_col), col)
     else (fst_col, last_col))"

definition row_diff_span :: "cell list \<Rightarrow> cell list \<Rightarrow> (nat \<times> nat) option" where
  "row_diff_span prev nxt =
     (let (fst_col, last_col) = fold diff_step (enumerate 0 (zip prev nxt)) (None, 0)
      in map_option (\<lambda>f. (f, last_col + 1)) fst_col)"

text \<open>
  \<^verbatim>\<open>append_rowspan_diffs\<close>: the rows to compare are the candidates or all of them; \<open>None\<close> is its
  \<^verbatim>\<open>Err(())\<close>, an op or cell cap exceeded.
\<close>

fun emit_rows ::
  "cells \<Rightarrow> cells \<Rightarrow> nat list \<Rightarrow> damage_op list \<Rightarrow> nat \<Rightarrow> (damage_op list \<times> nat) option" where
  "emit_rows base nxt [] ops total_cells = Some (ops, total_cells)"
| "emit_rows base nxt (row # rows) ops total_cells =
     (if row < length base \<and> row < length nxt then
        (case row_diff_span (base ! row) (nxt ! row) of
           None \<Rightarrow> emit_rows base nxt rows ops total_cells
         | Some (start, e) \<Rightarrow>
             (let cells = take (e - start) (drop start (nxt ! row));
                  total' = total_cells + length cells;
                  ops' = ops @ [RowSpan (of_nat row) (of_nat start) cells]
              in if length ops' > MAX_DAMAGE_OPS \<or> total' > MAX_DAMAGE_CELLS then None
                 else emit_rows base nxt rows ops' total'))
      else emit_rows base nxt rows ops total_cells)"

definition append_rowspan_diffs ::
  "cells \<Rightarrow> cells \<Rightarrow> damage_op list \<Rightarrow> nat \<Rightarrow> nat list option
     \<Rightarrow> (damage_op list \<times> nat) option" where
  "append_rowspan_diffs base nxt ops total_cells candidates =
     emit_rows base nxt
       (case candidates of
          Some rows \<Rightarrow> rows
        | None \<Rightarrow> [0..<min (length base) (length nxt)])
       ops total_cells"

definition candidate_rows :: "daemon_snapshot \<Rightarrow> daemon_snapshot \<Rightarrow> nat list option" where
  "candidate_rows prev nxt =
     (let rows = length (gs_rows_cells nxt) in
        if length (dg_row_stamps prev) \<noteq> rows \<or> length (dg_row_stamps nxt) \<noteq> rows \<or> rows = 0
          then None
        else Some (filter (\<lambda>i. dg_row_stamps prev ! i \<noteq> dg_row_stamps nxt ! i) [0..<rows]))"

definition grid_changed_hinted ::
  "daemon_snapshot \<Rightarrow> daemon_snapshot \<Rightarrow> nat list option \<Rightarrow> bool" where
  "grid_changed_hinted prev nxt candidates =
     (case candidates of
        Some rows \<Rightarrow> list_ex (\<lambda>i. gs_rows_cells prev ! i \<noteq> gs_rows_cells nxt ! i) rows
      | None \<Rightarrow> gs_rows_cells prev \<noteq> gs_rows_cells nxt)"

section \<open>Scroll compression\<close>

text \<open>\<^verbatim>\<open>apply_scroll\<close> of the daemon, which the renderer's \<^verbatim>\<open>apply_scroll_op\<close> mirrors.\<close>

definition apply_scroll :: "cells \<Rightarrow> damage_op \<Rightarrow> string + cells" where
  "apply_scroll rows_cells op =
     (let move = (\<lambda>rtop bottom_exclusive lines up.
        if \<not> (rtop < bottom_exclusive \<and> bottom_exclusive \<le> length rows_cells \<and> lines > 0)
           \<or> lines > bottom_exclusive - rtop
          then Inl ''scroll region out of bounds''
        else if up
          then Inr (fold (\<lambda>i rs. rs[i := rs ! (i + lines)])
                     [rtop..<bottom_exclusive - lines] rows_cells)
        else Inr (fold (\<lambda>i rs. rs[i := rs ! (i - lines)])
                     (rev [rtop + lines..<bottom_exclusive]) rows_cells))
      in case op of
           ScrollUp rtop rbot lines \<Rightarrow> move (unat rtop) (unat rbot) (unat lines) True
         | ScrollDown rtop rbot lines \<Rightarrow> move (unat rtop) (unat rbot) (unat lines) False
         | _ \<Rightarrow> Inl ''apply_scroll called on a non-scroll op'')"

text \<open>The first acceptable shift: at least two rows and three quarters of the survivors agree.\<close>

definition best_shift :: "nat \<Rightarrow> (nat \<Rightarrow> nat) \<Rightarrow> nat option" where
  "best_shift rows matches_at =
     List.find (\<lambda>lines. matches_at lines \<ge> 2 \<and> matches_at lines * 4 \<ge> (rows - lines) * 3)
       [1..<rows]"

definition detect_scroll :: "daemon_snapshot \<Rightarrow> daemon_snapshot \<Rightarrow> damage_op option" where
  "detect_scroll prev nxt =
     (let p = gs_rows_cells prev; n = gs_rows_cells nxt; rows = length p in
        if rows < 2 \<or> length n \<noteq> rows then None
        else case best_shift rows
                    (\<lambda>lines. length (filter (\<lambda>i. n ! i = p ! (i + lines)) [0..<rows - lines])) of
          Some lines \<Rightarrow> Some (ScrollUp 0 (of_nat rows) (of_nat lines))
        | None \<Rightarrow>
            (case best_shift rows
                    (\<lambda>lines. length (filter (\<lambda>i. n ! i = p ! (i - lines)) [lines..<rows])) of
               Some lines \<Rightarrow> Some (ScrollDown 0 (of_nat rows) (of_nat lines))
             | None \<Rightarrow> None))"

text \<open>The runtime self-verification: \<open>None\<close> is \<^verbatim>\<open>applied_ok == false\<close>.\<close>

fun verify_ops :: "cells \<Rightarrow> damage_op list \<Rightarrow> cells option" where
  "verify_ops verify [] = Some verify"
| "verify_ops verify (RowSpan row start cells # ops) =
     (if unat row < length verify \<and> unat start + length cells \<le> length (verify ! unat row)
        then verify_ops (verify[unat row := overwrite (verify ! unat row) (unat start) cells]) ops
      else None)"
| "verify_ops verify (ClearAll c # ops) = None"
| "verify_ops verify (ScrollUp a b l # ops) =
     (case apply_scroll verify (ScrollUp a b l) of
        Inl _ \<Rightarrow> None
      | Inr verify' \<Rightarrow> verify_ops verify' ops)"
| "verify_ops verify (ScrollDown a b l # ops) =
     (case apply_scroll verify (ScrollDown a b l) of
        Inl _ \<Rightarrow> None
      | Inr verify' \<Rightarrow> verify_ops verify' ops)"

section \<open>The generator\<close>

definition frame_of :: "daemon_snapshot \<Rightarrow> daemon_snapshot \<Rightarrow> damage_op list \<Rightarrow> damage_frame" where
  "frame_of prev nxt ops =
     \<lparr>df_schema = DAMAGE_SCHEMA, df_id = [],
      df_generation = gs_generation nxt,
      df_base_revision = gs_revision prev, df_revision = gs_revision nxt,
      df_cols = of_nat (gs_cols nxt), df_rows = of_nat (gs_rows nxt),
      df_cursor = cursor_state_of nxt, df_modes = mode_state_of nxt,
      df_ops = ops, df_row_copy = gs_row_copy nxt\<rparr>"

text \<open>The fill of a uniform blank screen, if the next grid is one.\<close>

definition uniform_blank :: "cells \<Rightarrow> cell option" where
  "uniform_blank rows =
     (case rows of
        (fill # _) # _ \<Rightarrow>
          if is_canonical_blank fill \<and> list_all (list_all (\<lambda>c. c = fill)) rows
            then Some fill else None
      | _ \<Rightarrow> None)"

text \<open>The scroll-compressed ops, if the whole gate around them passes.\<close>

definition scroll_ops_of :: "daemon_snapshot \<Rightarrow> daemon_snapshot \<Rightarrow> nat \<Rightarrow> damage_op list option" where
  "scroll_ops_of prev nxt n_ops =
     (case detect_scroll prev nxt of
        None \<Rightarrow> None
      | Some op \<Rightarrow>
          (case apply_scroll (gs_rows_cells prev) op of
             Inl _ \<Rightarrow> None
           | Inr scratch \<Rightarrow>
               (case append_rowspan_diffs scratch (gs_rows_cells nxt) [op] 0 None of
                  None \<Rightarrow> None
                | Some (scroll_ops, _) \<Rightarrow>
                    if length scroll_ops < n_ops \<and>
                       verify_ops (gs_rows_cells prev) scroll_ops = Some (gs_rows_cells nxt)
                      then Some scroll_ops
                    else None)))"

definition generate_damage :: "daemon_snapshot \<Rightarrow> daemon_snapshot \<Rightarrow> damage_gen" where
  "generate_damage prev nxt =
     (if gs_generation prev \<noteq> gs_generation nxt \<or> gs_cols prev \<noteq> gs_cols nxt
         \<or> gs_rows prev \<noteq> gs_rows nxt
        then GenResync
      else
        let candidates = candidate_rows prev nxt;
            grid_changed = grid_changed_hinted prev nxt candidates;
            other_change = (header_changed prev nxt \<or> gs_row_copy prev \<noteq> gs_row_copy nxt)
        in if (grid_changed \<or> other_change) \<and> gs_revision nxt \<le> gs_revision prev
             then GenResync
           else case (if grid_changed then uniform_blank (gs_rows_cells nxt) else None) of
             Some fill \<Rightarrow> Frame (frame_of prev nxt [ClearAll fill])
           | None \<Rightarrow>
               (case append_rowspan_diffs (gs_rows_cells prev) (gs_rows_cells nxt) [] 0 candidates of
                  None \<Rightarrow> GenResync
                | Some (ops, _) \<Rightarrow>
                    (case (if grid_changed \<and> length ops > 1
                             then scroll_ops_of prev nxt (length ops) else None) of
                       Some scroll_ops \<Rightarrow> Frame (frame_of prev nxt scroll_ops)
                     | None \<Rightarrow>
                         if ops = [] then
                           (if other_change then Frame (frame_of prev nxt []) else NoChange)
                         else Frame (frame_of prev nxt ops))))"

section \<open>Row diffs are exact\<close>

lemma diff_fold:
  "fold diff_step (enumerate 0 zs) (None, 0) = (f, l) \<Longrightarrow>
     (case f of
        None \<Rightarrow> \<forall>i < length zs. fst (zs ! i) = snd (zs ! i)
      | Some a \<Rightarrow> a \<le> l \<and> l < length zs \<and>
          (\<forall>i < length zs. fst (zs ! i) \<noteq> snd (zs ! i) \<longrightarrow> a \<le> i \<and> i \<le> l))"
proof (induction zs arbitrary: f l rule: rev_induct)
  case Nil
  then show ?case by simp
next
  case (snoc z zs)
  obtain f0 l0 where prefix: "fold diff_step (enumerate 0 zs) (None, 0) = (f0, l0)"
    by fastforce
  with snoc.prems have last: "diff_step (length zs, z) (f0, l0) = (f, l)"
    by (simp add: enumerate_append_eq)
  from snoc.IH [OF prefix] last show ?case
    by (cases z; cases f0)
      (auto simp: diff_step_def nth_append less_Suc_eq split: if_splits)
qed

lemma row_diff_span_same [simp]: "row_diff_span p p = None"
proof -
  have "fold diff_step (enumerate k (zip p p)) (None, 0) = (None, 0)" for k
    by (induction p arbitrary: k) (simp_all add: diff_step_def)
  then show ?thesis by (simp add: row_diff_span_def)
qed

lemma row_diff_span_None:
  assumes "length p = length n" "row_diff_span p n = None"
  shows "p = n"
proof -
  obtain f l where fl: "fold diff_step (enumerate 0 (zip p n)) (None, 0) = (f, l)"
    by fastforce
  with assms(2) have "f = None" by (simp add: row_diff_span_def)
  with diff_fold [OF fl] assms(1) show ?thesis
    by (auto intro: nth_equalityI)
qed

lemma row_diff_span_Some:
  assumes "length p = length n" "row_diff_span p n = Some (a, e)"
  shows "a < e" "e \<le> length n" "take a p = take a n" "drop e p = drop e n"
proof -
  obtain f l where fl: "fold diff_step (enumerate 0 (zip p n)) (None, 0) = (f, l)"
    by fastforce
  with assms(2) have f: "f = Some a" and e: "e = Suc l"
    by (auto simp: row_diff_span_def)
  from diff_fold [OF fl] f assms(1) have bounds: "a \<le> l" "l < length n"
    and diff: "\<forall>i < length n. p ! i \<noteq> n ! i \<longrightarrow> a \<le> i \<and> i \<le> l"
    by auto
  have same: "p ! i = n ! i" if "i < length n" "i < a \<or> l < i" for i
    using diff that by (meson leD)
  show "a < e" "e \<le> length n" using bounds e by auto
  show "take a p = take a n" "drop e p = drop e n"
    using same assms(1) bounds e by (auto intro!: nth_equalityI)
qed

lemma row_diff_span_overwrite:
  assumes "length p = length n" "row_diff_span p n = Some (a, e)"
  shows "overwrite p a (take (e - a) (drop a n)) = n"
  using row_diff_span_Some [OF assms] assms(1)
  by (auto intro!: overwrite_with_slice)

section \<open>Row spans reproduce the next grid\<close>

definition row_links :: "cell list \<Rightarrow> nat" where
  "row_links row = length (filter (\<lambda>c. cell_hyperlink c \<noteq> None) row)"

lemma row_links_simps [simp]:
  "row_links [] = 0"
  "row_links (c # cs) = (if cell_hyperlink c = None then 0 else 1) + row_links cs"
  by (simp_all add: row_links_def)

text \<open>
  Everything the clients need about the emitted spans, in one induction over the compared rows:
  they are well formed for the frame's dimensions, stay below the caps, ship no more links than
  the rows they come from hold, and turn any grid that agrees with the base on those rows into
  one that agrees with the next grid there.
\<close>

definition rows_set_to :: "cells \<Rightarrow> cells \<Rightarrow> nat set \<Rightarrow> cells" where
  "rows_set_to cur nxt S = map (\<lambda>i. if i \<in> S then nxt ! i else cur ! i) [0..<length cur]"

lemma rows_set_to_empty [simp]: "rows_set_to cur nxt {} = cur"
  by (simp add: rows_set_to_def map_nth)

lemma rows_set_to_insert:
  assumes "i < length cur" "i \<notin> S"
  shows "rows_set_to (cur[i := nxt ! i]) nxt S = rows_set_to cur nxt (insert i S)"
  using assms by (auto simp: rows_set_to_def intro!: nth_equalityI)

lemma rows_set_to_same:
  assumes "i < length cur" "cur ! i = nxt ! i"
  shows "rows_set_to cur nxt (insert i S) = rows_set_to cur nxt S"
  using assms by (auto simp: rows_set_to_def intro!: nth_equalityI)

lemma rows_set_to_all:
  assumes "length cur = length nxt" "\<forall>i < length nxt. i \<notin> S \<longrightarrow> cur ! i = nxt ! i"
  shows "rows_set_to cur nxt S = nxt"
  using assms by (auto simp: rows_set_to_def intro!: nth_equalityI)

lemma filter_take_drop_le: "length (filter P (take n (drop m xs))) \<le> length (filter P xs)"
proof -
  have "length (filter P xs) = length (filter P (take m xs)) + length (filter P (drop m xs))"
    by (metis append_take_drop_id filter_append length_append)
  moreover have "length (filter P (drop m xs))
      = length (filter P (take n (drop m xs))) + length (filter P (drop n (drop m xs)))"
    by (metis append_take_drop_id filter_append length_append)
  ultimately show ?thesis by linarith
qed

text \<open>
  The reference: one span per differing row, in row order. \<open>emit_rows\<close> appends exactly these,
  or gives up on a cap.
\<close>

definition span_of :: "cells \<Rightarrow> cells \<Rightarrow> nat \<Rightarrow> damage_op list" where
  "span_of base nxt row =
     (case row_diff_span (base ! row) (nxt ! row) of
        None \<Rightarrow> []
      | Some (a, e) \<Rightarrow> [RowSpan (of_nat row) (of_nat a) (take (e - a) (drop a (nxt ! row)))])"

definition spans :: "cells \<Rightarrow> cells \<Rightarrow> nat list \<Rightarrow> damage_op list" where
  "spans base nxt rows = concat (map (span_of base nxt) rows)"

lemma spans_simps [simp]:
  "spans base nxt [] = []"
  "spans base nxt (row # rows) = span_of base nxt row @ spans base nxt rows"
  by (simp_all add: spans_def)

lemma emit_rows_spans:
  assumes "emit_rows base nxt rows ops tot = Some (ops', tot')"
    and "\<forall>i \<in> set rows. i < length base \<and> i < length nxt"
    and "length ops \<le> MAX_DAMAGE_OPS" "tot \<le> MAX_DAMAGE_CELLS"
  shows "ops' = ops @ spans base nxt rows \<and>
     tot' = tot + sum_list (map (length \<circ> op_cells) (spans base nxt rows)) \<and>
     length ops' \<le> MAX_DAMAGE_OPS \<and> tot' \<le> MAX_DAMAGE_CELLS"
  using assms
proof (induction rows arbitrary: ops tot)
  case (Cons row rows)
  show ?case
  proof (cases "row_diff_span (base ! row) (nxt ! row)")
    case None
    then have "span_of base nxt row = []" by (simp add: span_of_def)
    with None Cons.IH [of ops tot] Cons.prems show ?thesis by auto
  next
    case (Some ae)
    obtain a e where ae: "ae = (a, e)" by (cases ae)
    let ?cells = "take (e - a) (drop a (nxt ! row))"
    let ?op = "RowSpan (of_nat row) (of_nat a) ?cells"
    have emitted: "span_of base nxt row = [?op]"
      using Some ae by (simp add: span_of_def)
    have caps: "length (ops @ [?op]) \<le> MAX_DAMAGE_OPS" "tot + length ?cells \<le> MAX_DAMAGE_CELLS"
      and rest: "emit_rows base nxt rows (ops @ [?op]) (tot + length ?cells) = Some (ops', tot')"
      using Cons.prems Some ae by (simp_all add: Let_def split: if_splits)
    have inside: "\<forall>i \<in> set rows. i < length base \<and> i < length nxt"
      using Cons.prems(2) by simp
    from Cons.IH [OF rest inside caps] emitted show ?thesis by auto
  qed
qed simp

text \<open>The hypothesis all diffs share: two rectangular grids of one size, its indices within \<^verbatim>\<open>u16\<close>.\<close>

definition same_shape :: "nat \<Rightarrow> nat \<Rightarrow> cells \<Rightarrow> cells \<Rightarrow> bool" where
  "same_shape R C base nxt \<longleftrightarrow> R < 65536 \<and> C < 65536 \<and> rect R C base \<and> rect R C nxt"

lemma same_shape_rows:
  assumes "same_shape R C base nxt" "row < R"
  shows "length (base ! row) = C" "length (nxt ! row) = C"
  using assms by (auto simp: same_shape_def intro: rect_nth)

lemma span_of_cases:
  assumes shape: "same_shape R C base nxt" and row: "row < R"
  obtains (same) "base ! row = nxt ! row" "span_of base nxt row = []"
  | (diff) a e where "a < e" "e \<le> C"
      "span_of base nxt row = [RowSpan (of_nat row) (of_nat a) (take (e - a) (drop a (nxt ! row)))]"
      "overwrite (base ! row) a (take (e - a) (drop a (nxt ! row))) = nxt ! row"
proof (cases "row_diff_span (base ! row) (nxt ! row)")
  case None
  with same_shape_rows [OF assms] row_diff_span_None that(1) show thesis
    by (simp add: span_of_def)
next
  case (Some ae)
  obtain a e where ae: "row_diff_span (base ! row) (nxt ! row) = Some (a, e)"
    using Some by (cases ae) simp
  have lens: "length (base ! row) = length (nxt ! row)"
    using same_shape_rows [OF assms] by simp
  from row_diff_span_Some(1,2) [OF lens ae] row_diff_span_overwrite [OF lens ae] ae
    same_shape_rows [OF assms] that(2) [of a e]
  show thesis by (simp add: span_of_def)
qed

lemma span_of_ok:
  assumes shape: "same_shape R C base nxt" and row: "row < R"
    and valid: "list_all (list_all cell_is_valid) nxt"
  shows "list_all (op_ok (of_nat C) (of_nat R)) (span_of base nxt row)"
    and "sum_list (map op_links (span_of base nxt row)) \<le> row_links (nxt ! row)"
proof -
  have "nxt ! row \<in> set nxt"
    using shape row by (auto simp: same_shape_def dest: rect_length)
  then have cells: "\<forall>c \<in> set (nxt ! row). cell_is_valid c"
    using valid by (simp add: list_all_iff)
  have bounds: "R < 65536" "C < 65536" using shape by (simp_all add: same_shape_def)
  show "list_all (op_ok (of_nat C) (of_nat R)) (span_of base nxt row)"
    using shape row
  proof (cases rule: span_of_cases)
    case (diff a e)
    have "list_all cell_is_valid (take (e - a) (drop a (nxt ! row)))"
      using cells by (auto simp: list_all_iff dest: in_set_takeD in_set_dropD)
    with diff bounds row same_shape_rows [OF shape row] show ?thesis
      by (simp add: min_def)
  qed simp
  show "sum_list (map op_links (span_of base nxt row)) \<le> row_links (nxt ! row)"
    using shape row
    by (cases rule: span_of_cases) (simp_all add: row_links_def filter_take_drop_le)
qed

lemma spans_ok:
  assumes shape: "same_shape R C base nxt" and valid: "list_all (list_all cell_is_valid) nxt"
    and rows: "set rows \<subseteq> {0..<R}"
  shows "list_all (op_ok (of_nat C) (of_nat R)) (spans base nxt rows)"
    and "sum_list (map op_links (spans base nxt rows)) \<le> (\<Sum>i\<leftarrow>rows. row_links (nxt ! i))"
  using rows
proof (induction rows)
  case (Cons row rows)
  {
    case 1
    with Cons show ?case using span_of_ok(1) [OF shape _ valid, of row] by simp
  next
    case 2
    with Cons show ?case using span_of_ok(2) [OF shape _ valid, of row] by (simp add: add_mono)
  }
qed simp_all

lemma verify_span_of:
  assumes shape: "same_shape R C base nxt" and row: "row < R"
    and cur: "rect R C cur" "cur ! row = base ! row"
  shows "verify_ops cur (span_of base nxt row @ ops) = verify_ops (cur[row := nxt ! row]) ops"
  using shape row
proof (cases rule: span_of_cases)
  case same
  then have "cur[row := nxt ! row] = cur" using cur(2) by (metis list_update_id)
  with same show ?thesis by simp
next
  case (diff a e)
  have "length cur = R" "length (cur ! row) = C" "length (nxt ! row) = C" "R < 65536" "C < 65536"
    using cur row shape by (auto simp: same_shape_def rect_length intro: rect_nth)
  with diff cur(2) row show ?thesis by simp
qed

lemma verify_spans:
  assumes shape: "same_shape R C base nxt"
    and "distinct rows" "set rows \<subseteq> {0..<R}" "rect R C cur"
    and "\<forall>i \<in> set rows. cur ! i = base ! i"
  shows "verify_ops cur (spans base nxt rows) = Some (rows_set_to cur nxt (set rows))"
  using assms(2-)
proof (induction rows arbitrary: cur)
  case (Cons row rows)
  let ?cur = "cur[row := nxt ! row]"
  have "rect R C ?cur"
    using Cons.prems same_shape_rows [OF shape] by (intro rect_update) auto
  moreover have "\<forall>i \<in> set rows. ?cur ! i = base ! i"
    using Cons.prems by (metis distinct.simps(2) list.set_intros(2) nth_list_update_neq)
  ultimately have "verify_ops ?cur (spans base nxt rows) = Some (rows_set_to ?cur nxt (set rows))"
    using Cons.prems by (intro Cons.IH) auto
  moreover have "length cur = R" using Cons.prems(3) by (rule rect_length)
  ultimately show ?case
    using Cons.prems by (simp add: verify_span_of [OF shape] rows_set_to_insert)
qed simp

section \<open>Candidates: the stamp hint loses nothing\<close>

text \<open>
  The contract of the row stamps: where both snapshots carry a stamp for a row and the stamps
  agree, the rows agree.
\<close>

definition stamps_sound :: "daemon_snapshot \<Rightarrow> daemon_snapshot \<Rightarrow> bool" where
  "stamps_sound prev nxt \<longleftrightarrow>
     (length (dg_row_stamps prev) = length (dg_row_stamps nxt) \<longrightarrow>
        list_all (\<lambda>i. dg_row_stamps prev ! i = dg_row_stamps nxt ! i \<longrightarrow>
                      gs_rows_cells prev ! i = gs_rows_cells nxt ! i)
          [0..<length (dg_row_stamps nxt)])"

definition compared_rows :: "daemon_snapshot \<Rightarrow> daemon_snapshot \<Rightarrow> nat list" where
  "compared_rows prev nxt =
     (case candidate_rows prev nxt of
        Some rows \<Rightarrow> rows
      | None \<Rightarrow> [0..<min (length (gs_rows_cells prev)) (length (gs_rows_cells nxt))])"

lemma same_shape_lengths:
  assumes "same_shape R C base nxt"
  shows "length base = R" "length nxt = R"
  using assms by (simp_all add: same_shape_def rect_def)

lemma compared_rows_cover:
  assumes shape: "same_shape R C (gs_rows_cells prev) (gs_rows_cells nxt)"
    and stamps: "stamps_sound prev nxt"
  shows "distinct (compared_rows prev nxt)" "set (compared_rows prev nxt) \<subseteq> {0..<R}"
    and "\<forall>i < R. i \<notin> set (compared_rows prev nxt) \<longrightarrow>
           gs_rows_cells prev ! i = gs_rows_cells nxt ! i"
  using stamps
  by (auto simp: compared_rows_def candidate_rows_def Let_def stamps_sound_def list_all_iff
      same_shape_lengths [OF shape] split: option.splits if_splits)

lemma grid_changed_hinted_iff:
  assumes shape: "same_shape R C (gs_rows_cells prev) (gs_rows_cells nxt)"
    and stamps: "stamps_sound prev nxt"
  shows "grid_changed_hinted prev nxt (candidate_rows prev nxt) \<longleftrightarrow>
           gs_rows_cells prev \<noteq> gs_rows_cells nxt"
proof (cases "candidate_rows prev nxt")
  case (Some rows)
  then have "compared_rows prev nxt = rows" by (simp add: compared_rows_def)
  with compared_rows_cover [OF assms] have
    "set rows \<subseteq> {0..<R}" "\<forall>i < R. i \<notin> set rows \<longrightarrow> gs_rows_cells prev ! i = gs_rows_cells nxt ! i"
    by auto
  moreover have "gs_rows_cells prev = gs_rows_cells nxt \<longleftrightarrow>
      (\<forall>i < R. gs_rows_cells prev ! i = gs_rows_cells nxt ! i)"
    using same_shape_lengths [OF shape] by (metis nth_equalityI)
  ultimately show ?thesis
    using Some by (auto simp: grid_changed_hinted_def list_ex_iff)
qed (simp add: grid_changed_hinted_def)

section \<open>Links shipped by spans\<close>

lemma length_linked_cells: "length (linked_cells rows) = sum_list (map row_links rows)"
  by (induction rows) (auto simp: linked_cells_def row_links_def)

lemma spans_links_le:
  assumes "distinct rows" "set rows \<subseteq> {0..<length nxt}"
  shows "(\<Sum>i\<leftarrow>rows. row_links (nxt ! i)) \<le> length (linked_cells nxt)"
proof -
  have "(\<Sum>i\<leftarrow>rows. row_links (nxt ! i)) = (\<Sum>i \<in> set rows. row_links (nxt ! i))"
    using assms(1) by (simp add: sum_list_distinct_conv_sum_set)
  also have "\<dots> \<le> (\<Sum>i \<in> {0..<length nxt}. row_links (nxt ! i))"
    using assms(2) by (intro sum_mono2) auto
  also have "\<dots> = length (linked_cells nxt)"
    by (simp add: length_linked_cells sum_list_sum_nth)
  finally show ?thesis .
qed

section \<open>What a generated frame carries\<close>

text \<open>
  The contract between generator and applier on the ops alone: each op is well formed for the
  frame's dimensions, the caps hold, and the ops turn the base into the next grid.
\<close>

definition ops_deliver :: "nat \<Rightarrow> nat \<Rightarrow> cells \<Rightarrow> cells \<Rightarrow> damage_op list \<Rightarrow> bool" where
  "ops_deliver R C base nxt ops \<longleftrightarrow>
     list_all (op_ok (of_nat C) (of_nat R)) ops \<and>
     length ops \<le> MAX_DAMAGE_OPS \<and>
     sum_list (map (length \<circ> op_cells) ops) \<le> MAX_DAMAGE_CELLS \<and>
     sum_list (map op_links ops) \<le> length (linked_cells nxt) \<and>
     ((\<exists>fill. ops = [ClearAll fill] \<and> nxt = replicate R (replicate C fill)) \<or>
      verify_ops base ops = Some nxt)"

lemma append_rowspan_diffs_deliver:
  assumes shape: "same_shape R C (gs_rows_cells prev) (gs_rows_cells nxt)"
    and stamps: "stamps_sound prev nxt"
    and valid: "list_all (list_all cell_is_valid) (gs_rows_cells nxt)"
    and diffs: "append_rowspan_diffs (gs_rows_cells prev) (gs_rows_cells nxt) [] 0
                  (candidate_rows prev nxt) = Some (ops, tot)"
  shows "ops_deliver R C (gs_rows_cells prev) (gs_rows_cells nxt) ops"
    and "ops = [] \<longleftrightarrow> gs_rows_cells prev = gs_rows_cells nxt"
proof -
  let ?p = "gs_rows_cells prev" and ?n = "gs_rows_cells nxt" and ?rows = "compared_rows prev nxt"
  note cover = compared_rows_cover [OF shape stamps]
  note len = same_shape_lengths [OF shape]
  have "emit_rows ?p ?n ?rows [] 0 = Some (ops, tot)"
    using diffs by (simp add: append_rowspan_diffs_def compared_rows_def)
  moreover have "\<forall>i \<in> set ?rows. i < length ?p \<and> i < length ?n"
    using cover(2) len by auto
  ultimately have ops: "ops = spans ?p ?n ?rows" "length ops \<le> MAX_DAMAGE_OPS"
      "sum_list (map (length \<circ> op_cells) ops) \<le> MAX_DAMAGE_CELLS"
    using emit_rows_spans [of ?p ?n ?rows "[]" 0 ops tot] by auto
  have ver: "verify_ops ?p ops = Some ?n"
    using verify_spans [OF shape cover(1,2), of ?p] shape rows_set_to_all [of ?p ?n "set ?rows"]
      cover(3) len by (simp add: ops(1) same_shape_def)
  have "sum_list (map op_links ops) \<le> length (linked_cells ?n)"
    using spans_ok(2) [OF shape valid cover(2)] spans_links_le [OF cover(1), of ?n] cover(2) len(2)
    by (simp add: ops(1))
  then show "ops_deliver R C ?p ?n ops"
    using spans_ok(1) [OF shape valid cover(2)] ops ver by (simp add: ops_deliver_def)
  show "ops = [] \<longleftrightarrow> ?p = ?n"
  proof
    assume "ops = []"
    with ver show "?p = ?n" by simp
  next
    assume "?p = ?n"
    then have "span_of ?p ?n i = []" for i
      by (simp add: span_of_def row_diff_span_same)
    then show "ops = []" by (simp add: ops(1) spans_def)
  qed
qed


text \<open>The proposed scroll always lies inside the grid, so only the spans after it can miss the caps.\<close>

lemma best_shift_Some:
  "best_shift rows m = Some lines \<Longrightarrow> 0 < lines \<and> lines < rows"
  by (auto simp: best_shift_def find_Some_iff)

lemma detect_scroll_Some:
  assumes "detect_scroll prev nxt = Some op" and "length (gs_rows_cells prev) < 65536"
  shows "\<exists>lines up. op = (if up then ScrollUp 0 (of_nat (length (gs_rows_cells prev))) (of_nat lines)
                          else ScrollDown 0 (of_nat (length (gs_rows_cells prev))) (of_nat lines)) \<and>
           0 < lines \<and> lines < length (gs_rows_cells prev)"
proof -
  let ?op = "\<lambda>up lines. if up then ScrollUp 0 (of_nat (length (gs_rows_cells prev))) (of_nat lines)
                        else ScrollDown 0 (of_nat (length (gs_rows_cells prev))) (of_nat lines)"
  obtain m lines up where "best_shift (length (gs_rows_cells prev)) m = Some lines" "op = ?op up lines"
    using assms(1) by (auto simp: detect_scroll_def Let_def split: if_splits option.splits)
  with best_shift_Some show ?thesis by blast
qed

lemma apply_scroll_eq:
  assumes "l < 65536" "length rows < 65536" "0 < l" "l < length rows"
  shows "apply_scroll rows (ScrollUp 0 (of_nat (length rows)) (of_nat l))
       = Inr (scrolled rows 0 (length rows) l True)"
    and "apply_scroll rows (ScrollDown 0 (of_nat (length rows)) (of_nat l))
       = Inr (scrolled rows 0 (length rows) l False)"
  using assms
  by (auto simp: apply_scroll_def Let_def scrolled_def fold_scroll_up fold_scroll_down)

lemma scroll_ops_of_deliver:
  assumes shape: "same_shape R C (gs_rows_cells prev) (gs_rows_cells nxt)"
    and valid: "list_all (list_all cell_is_valid) (gs_rows_cells nxt)"
    and found: "scroll_ops_of prev nxt k = Some ops"
  shows "ops_deliver R C (gs_rows_cells prev) (gs_rows_cells nxt) ops"
proof -
  let ?p = "gs_rows_cells prev" and ?n = "gs_rows_cells nxt"
  note len = same_shape_lengths [OF shape]
  have R: "R < 65536" using shape by (simp add: same_shape_def)
  obtain op scratch tot where op: "detect_scroll prev nxt = Some op"
      and moved: "apply_scroll ?p op = Inr scratch"
      and diffs: "append_rowspan_diffs scratch ?n [op] 0 None = Some (ops, tot)"
      and ver: "verify_ops ?p ops = Some ?n"
    using found by (auto simp: scroll_ops_of_def split: option.splits sum.splits if_splits)
  obtain lines up where lines: "0 < lines" "lines < R"
      and scroll: "op = (if up then ScrollUp 0 (of_nat R) (of_nat lines)
                          else ScrollDown 0 (of_nat R) (of_nat lines))"
    using detect_scroll_Some [OF op] len R by auto
  have scratch: "scratch = scrolled ?p 0 R lines up"
    using moved apply_scroll_eq [of lines ?p] len lines R
    by (cases up) (simp_all add: scroll)
  have shape': "same_shape R C scratch ?n"
    using shape lines len by (auto simp: scratch same_shape_def intro: rect_scrolled)
  have ok: "op_ok (of_nat C) (of_nat R) op" "op_cells op = []" "op_links op = 0"
    using lines R by (simp_all add: scroll scroll_region_ok_def of_nat_u16_less of_nat_u16_le
        word_less_nat_alt word_le_nat_alt)
  have "emit_rows scratch ?n [0..<R] [op] 0 = Some (ops, tot)"
    using diffs same_shape_lengths [OF shape'] by (simp add: append_rowspan_diffs_def)
  then have ops: "ops = op # spans scratch ?n [0..<R]" "length ops \<le> MAX_DAMAGE_OPS"
      "sum_list (map (length \<circ> op_cells) (spans scratch ?n [0..<R])) \<le> MAX_DAMAGE_CELLS"
    using emit_rows_spans [of scratch ?n "[0..<R]" "[op]" 0 ops tot] same_shape_lengths [OF shape']
    by (auto simp: MAX_DAMAGE_OPS_def)
  have "sum_list (map op_links ops) \<le> length (linked_cells ?n)"
    using spans_ok(2) [OF shape' valid, of "[0..<R]"] spans_links_le [of "[0..<R]" ?n] len ok(3)
    by (simp add: ops(1))
  then show ?thesis
    using spans_ok(1) [OF shape' valid, of "[0..<R]"] ops ver ok by (simp add: ops_deliver_def)
qed

lemma uniform_blank_deliver:
  assumes shape: "same_shape R C (gs_rows_cells prev) (gs_rows_cells nxt)"
    and valid: "list_all (list_all cell_is_valid) (gs_rows_cells nxt)"
    and cap: "terminal_link_cells_within_cap (gs_rows_cells nxt)"
    and blank: "uniform_blank (gs_rows_cells nxt) = Some fill"
  shows "ops_deliver R C (gs_rows_cells prev) (gs_rows_cells nxt) [ClearAll fill]"
proof -
  let ?n = "gs_rows_cells nxt"
  obtain r rs where rows: "?n = (fill # r) # rs" and canon: "is_canonical_blank fill"
      and all: "\<forall>row \<in> set ?n. \<forall>c \<in> set row. c = fill"
    using blank by (auto simp: uniform_blank_def list_all_iff split: list.splits if_splits)
  have bounds: "R < 65536" "C < 65536" "rect R C ?n" using shape by (simp_all add: same_shape_def)
  have row: "row = replicate C fill" if "row \<in> set ?n" for row
    using all that bounds(3) by (auto simp: rect_def intro!: replicate_eqI)
  then have n: "?n = replicate R (replicate C fill)"
    by (rule replicate_eqI [OF rect_length [OF bounds(3)]])
  have "cell_is_valid fill"
    using valid rows by simp
  moreover have "C * R \<le> MAX_TERMINAL_LINK_CELLS_PER_FRAME" if "cell_hyperlink fill \<noteq> None"
    using cap that n
    by (simp add: terminal_link_cells_within_cap_iff length_linked_cells row_links_def
        sum_list_replicate mult.commute)
  ultimately have "op_ok (of_nat C) (of_nat R) (ClearAll fill)"
    using canon bounds by (simp add: is_canonical_blank_def)
  with n show ?thesis
    by (simp add: ops_deliver_def MAX_DAMAGE_OPS_def)
qed


section \<open>The generator's three outcomes\<close>

lemma generate_damage_NoChange:
  assumes shape: "same_shape R C (gs_rows_cells prev) (gs_rows_cells nxt)"
    and stamps: "stamps_sound prev nxt"
    and valid: "list_all (list_all cell_is_valid) (gs_rows_cells nxt)"
    and gen: "generate_damage prev nxt = NoChange"
  shows "gs_generation prev = gs_generation nxt" "gs_rows_cells prev = gs_rows_cells nxt"
    and "\<not> header_changed prev nxt" "gs_row_copy prev = gs_row_copy nxt"
    and "gs_cols prev = gs_cols nxt" "gs_rows prev = gs_rows nxt"
proof -
  obtain tot where "append_rowspan_diffs (gs_rows_cells prev) (gs_rows_cells nxt) [] 0
      (candidate_rows prev nxt) = Some ([], tot)"
    and rest: "\<not> header_changed prev nxt" "gs_row_copy prev = gs_row_copy nxt"
      "gs_generation prev = gs_generation nxt" "gs_cols prev = gs_cols nxt"
      "gs_rows prev = gs_rows nxt"
    using gen by (auto simp: generate_damage_def Let_def split: if_splits option.splits)
  from append_rowspan_diffs_deliver(2) [OF shape stamps valid this(1)] rest
  show "gs_generation prev = gs_generation nxt" "gs_rows_cells prev = gs_rows_cells nxt"
    "\<not> header_changed prev nxt" "gs_row_copy prev = gs_row_copy nxt"
    "gs_cols prev = gs_cols nxt" "gs_rows prev = gs_rows nxt"
    by simp_all
qed

lemma generate_damage_Frame:
  assumes shape: "same_shape R C (gs_rows_cells prev) (gs_rows_cells nxt)"
    and stamps: "stamps_sound prev nxt"
    and valid: "list_all (list_all cell_is_valid) (gs_rows_cells nxt)"
    and cap: "terminal_link_cells_within_cap (gs_rows_cells nxt)"
    and gen: "generate_damage prev nxt = Frame f"
  obtains ops where "f = frame_of prev nxt ops"
    "ops_deliver R C (gs_rows_cells prev) (gs_rows_cells nxt) ops"
    "gs_revision prev < gs_revision nxt" "gs_generation prev = gs_generation nxt"
    "gs_cols prev = gs_cols nxt" "gs_rows prev = gs_rows nxt"
proof -
  let ?p = "gs_rows_cells prev" and ?n = "gs_rows_cells nxt"
  let ?gc = "grid_changed_hinted prev nxt (candidate_rows prev nxt)"
  let ?diffs = "append_rowspan_diffs ?p ?n [] 0 (candidate_rows prev nxt)"
  note changed = grid_changed_hinted_iff [OF shape stamps]
  have same: "gs_generation prev = gs_generation nxt" "gs_cols prev = gs_cols nxt"
      "gs_rows prev = gs_rows nxt"
    using gen by (auto simp: generate_damage_def split: if_splits)
  have strict: "gs_revision prev < gs_revision nxt"
    if "?gc \<or> header_changed prev nxt \<or> gs_row_copy prev \<noteq> gs_row_copy nxt"
    using gen that by (auto simp: generate_damage_def Let_def not_le split: if_splits)
  consider (clear) fill where "?gc" "uniform_blank ?n = Some fill" "f = frame_of prev nxt [ClearAll fill]"
    | (scroll) k ops where "?gc" "scroll_ops_of prev nxt k = Some ops" "f = frame_of prev nxt ops"
    | (spans) ops tot where "?diffs = Some (ops, tot)" "f = frame_of prev nxt ops"
        "ops \<noteq> [] \<or> header_changed prev nxt \<or> gs_row_copy prev \<noteq> gs_row_copy nxt"
    using gen by (auto simp: generate_damage_def Let_def split: if_splits option.splits)
  then show thesis
  proof cases
    case clear
    with strict same uniform_blank_deliver [OF shape valid cap] that show thesis by blast
  next
    case scroll
    with strict same scroll_ops_of_deliver [OF shape valid] that show thesis by blast
  next
    case spans
    with append_rowspan_diffs_deliver [OF shape stamps valid spans(1)] changed strict same that
    show thesis by blast
  qed
qed

section \<open>What a wrong stamp costs\<close>

text \<open>
  With a single candidate row the shipped ops rewrite that row only: any other row keeps the
  content of the base, whatever the next snapshot holds there.
\<close>

lemma generate_damage_one_candidate:
  assumes shape: "same_shape R C (gs_rows_cells prev) (gs_rows_cells nxt)"
    and same: "gs_generation prev = gs_generation nxt" "gs_cols prev = gs_cols nxt"
      "gs_rows prev = gs_rows nxt"
    and rv: "gs_revision prev < gs_revision nxt"
    and cand: "candidate_rows prev nxt = Some [i]" and i: "i < R"
    and diff: "gs_rows_cells prev ! i \<noteq> gs_rows_cells nxt ! i"
    and blank: "uniform_blank (gs_rows_cells nxt) = None"
  shows "generate_damage prev nxt
       = Frame (frame_of prev nxt (span_of (gs_rows_cells prev) (gs_rows_cells nxt) i))"
    and "verify_ops (gs_rows_cells prev) (span_of (gs_rows_cells prev) (gs_rows_cells nxt) i)
       = Some ((gs_rows_cells prev)[i := gs_rows_cells nxt ! i])"
proof -
  let ?p = "gs_rows_cells prev" and ?n = "gs_rows_cells nxt"
  note lens = same_shape_lengths [OF shape] same_shape_rows [OF shape i]
  have C: "C < 65536" using shape by (simp add: same_shape_def)
  obtain a e where ae: "row_diff_span (?p ! i) (?n ! i) = Some (a, e)"
    using row_diff_span_None [of "?p ! i" "?n ! i"] lens diff by fastforce
  have "append_rowspan_diffs ?p ?n [] 0 (Some [i]) = Some (span_of ?p ?n i, length (take (e - a) (drop a (?n ! i))))"
    using ae lens i C by (simp add: append_rowspan_diffs_def span_of_def MAX_DAMAGE_OPS_def
        MAX_DAMAGE_CELLS_def)
  moreover have "grid_changed_hinted prev nxt (Some [i])"
    using diff by (simp add: grid_changed_hinted_def)
  ultimately show "generate_damage prev nxt = Frame (frame_of prev nxt (span_of ?p ?n i))"
    using same rv blank ae by (simp add: generate_damage_def cand span_of_def Let_def)
  have "rect R C ?p" using shape by (simp add: same_shape_def)
  from verify_span_of [OF shape i this, of "[]"]
  show "verify_ops ?p (span_of ?p ?n i) = Some (?p[i := ?n ! i])" by simp
qed

end
