(* ===== verification/Term_Grid.thy ===== *)
theory Term_Grid
  imports Damage_Gen
begin

text \<open>
  The daemon's authoritative grid, \<^verbatim>\<open>TermGrid\<close> of \<^verbatim>\<open>pty-daemon/src/grid.rs\<close>: committed mutations
  (PTY output and resizes), row stamps, revisions, and the projection of the terminal's cells to
  wire snapshots and scrollback windows.

  The VT engine itself (parser and screen of the \<^verbatim>\<open>alacritty_terminal\<close> crate) is not part of the
  repository. What the code reads of a terminal is the record \<open>vt_term\<close>, with \<open>vt_private\<close> for the
  engine's own state; the engine's operations are the fields of \<open>vt_engine\<close>, an argument of every
  definition that calls them. \<^verbatim>\<open>is_safe_terminal_http_url\<close> is the argument \<open>safe_url\<close>: the
  projection is independent of which targets that policy admits.
\<close>

section \<open>What the code reads of the VT engine\<close>

record cell_flags =
  WIDE_CHAR :: bool
  WIDE_CHAR_SPACER :: bool
  LEADING_WIDE_CHAR_SPACER :: bool
  WRAPLINE :: bool
  HIDDEN :: bool
  BOLD :: bool
  ITALIC :: bool
  INVERSE :: bool
  STRIKEOUT :: bool
  DIM :: bool
  UNDERLINE :: bool
  DOUBLE_UNDERLINE :: bool
  UNDERCURL :: bool
  DOTTED_UNDERLINE :: bool
  DASHED_UNDERLINE :: bool

text \<open>Characters are Unicode scalar values; \<open>vc_zerowidth\<close> is \<^verbatim>\<open>cell.zerowidth()\<close>.\<close>

record vt_cell =
  vc_c :: nat
  vc_zerowidth :: "nat list option"
  vc_flags :: cell_flags
  vc_fg :: color
  vc_bg :: color
  vc_hyperlink :: "string option"

datatype term_damage = FullDamage | PartialDamage "nat list"

text \<open>\<open>vt_history\<close> is ordered oldest first: \<^verbatim>\<open>Line(-1)\<close> is its last row.\<close>

record 'p vt_term =
  vt_history :: "vt_cell list list"
  vt_screen :: "vt_cell list list"
  vt_cursor_line :: int
  vt_cursor_col :: nat
  vt_cursor_shape :: cursor_shape
  vt_modes :: mode_state
  vt_show_cursor :: bool
  vt_private :: 'p

record 'p vt_engine =
  eng_advance :: "u8 list \<Rightarrow> 'p vt_term \<Rightarrow> 'p vt_term"
  eng_resize :: "nat \<Rightarrow> nat \<Rightarrow> 'p vt_term \<Rightarrow> 'p vt_term"
  eng_update_history :: "nat \<Rightarrow> 'p vt_term \<Rightarrow> 'p vt_term"
  eng_damage :: "'p vt_term \<Rightarrow> term_damage"
  eng_reset_damage :: "'p vt_term \<Rightarrow> 'p vt_term"

text \<open>\<^verbatim>\<open>grid[line]\<close> for \<^verbatim>\<open>line\<close> between \<^verbatim>\<open>-history\<close> and \<^verbatim>\<open>rows - 1\<close>.\<close>

definition line_at :: "'p vt_term \<Rightarrow> int \<Rightarrow> vt_cell list" where
  "line_at t line =
     (if line < 0 then vt_history t ! nat (int (length (vt_history t)) + line)
      else vt_screen t ! nat line)"

definition topmost_line :: "'p vt_term \<Rightarrow> int" where
  "topmost_line t = - int (length (vt_history t))"

section \<open>Limits\<close>

definition HISTORY_LINES :: nat where "HISTORY_LINES = 5000"
definition MAX_SCROLLBACK_CELLS :: nat where "MAX_SCROLLBACK_CELLS = 2000000"
definition MAX_PARSER_ADVANCE_BYTES :: nat where "MAX_PARSER_ADVANCE_BYTES = 4096"
definition GRID_MAX_DIMENSION :: u16 where "GRID_MAX_DIMENSION = 2000"
definition MAX_CELL_TEXT_BYTES :: nat where "MAX_CELL_TEXT_BYTES = 64"
definition MAX_LINE_BYTES :: nat where "MAX_LINE_BYTES = 16 * 1024 * 1024"
definition MAX_TERMINAL_URL_BYTES :: nat where "MAX_TERMINAL_URL_BYTES = 2048"
definition MAX_SCROLLBACK_ROWS_PER_REQUEST :: nat where "MAX_SCROLLBACK_ROWS_PER_REQUEST = 256"
definition WORST_CASE_CELL_BYTES :: nat where "WORST_CASE_CELL_BYTES = 256"
definition SNAPSHOT_HEADER_BYTES :: nat where "SNAPSHOT_HEADER_BYTES = 4 * 1024"

definition WORST_CASE_FRAME_HYPERLINK_BYTES :: nat where
  "WORST_CASE_FRAME_HYPERLINK_BYTES =
     MAX_TERMINAL_LINK_CELLS_PER_FRAME * (MAX_TERMINAL_URL_BYTES + 32)"

definition MAX_SNAPSHOT_CELLS :: nat where
  "MAX_SNAPSHOT_CELLS =
     (MAX_LINE_BYTES div 2 - SNAPSHOT_HEADER_BYTES - WORST_CASE_FRAME_HYPERLINK_BYTES)
       div WORST_CASE_CELL_BYTES"

definition history_budget :: "nat \<Rightarrow> nat" where
  "history_budget cols = min (max (MAX_SCROLLBACK_CELLS div max cols 1) 1) HISTORY_LINES"

definition clamp_dim :: "u16 \<Rightarrow> nat" where
  "clamp_dim v = unat (min (max v 1) GRID_MAX_DIMENSION)"

definition fits_snapshot_budget :: "u16 \<Rightarrow> u16 \<Rightarrow> bool" where
  "fits_snapshot_budget cols rows =
     (if unat cols * unat rows \<le> usize_max then unat cols * unat rows \<le> MAX_SNAPSHOT_CELLS
      else False)"

definition normalize_dims :: "u16 \<Rightarrow> u16 \<Rightarrow> u16 \<times> u16" where
  "normalize_dims cols rows = (of_nat (clamp_dim cols), of_nat (clamp_dim rows))"

section \<open>Cells on the wire\<close>

text \<open>\<^verbatim>\<open>char::encode_utf8\<close> and \<^verbatim>\<open>char::len_utf8\<close> of the standard library.\<close>

definition len_utf8 :: "nat \<Rightarrow> nat" where
  "len_utf8 c = (if c < 128 then 1 else if c < 2048 then 2 else if c < 65536 then 3 else 4)"

definition encode_utf8 :: "nat \<Rightarrow> string" where
  "encode_utf8 c =
     map char_of
       (if c < 128 then [c]
        else if c < 2048 then [192 + c div 64, 128 + c mod 64]
        else if c < 65536 then [224 + c div 4096, 128 + c div 64 mod 64, 128 + c mod 64]
        else [240 + c div 262144, 128 + c div 4096 mod 64, 128 + c div 64 mod 64, 128 + c mod 64])"

definition underline_from_flags :: "cell_flags \<Rightarrow> underline_style" where
  "underline_from_flags flags =
     (if DOUBLE_UNDERLINE flags then Double
      else if UNDERCURL flags then Curly
      else if DOTTED_UNDERLINE flags then Dotted
      else if DASHED_UNDERLINE flags then Dashed
      else if UNDERLINE flags then Single
      else NoUnderline)"

fun append_zerowidth_capped :: "string \<Rightarrow> nat list \<Rightarrow> string" where
  "append_zerowidth_capped tx [] = tx"
| "append_zerowidth_capped tx (zw # zws) =
     (if length tx + len_utf8 zw > MAX_CELL_TEXT_BYTES then tx
      else append_zerowidth_capped (tx @ encode_utf8 zw) zws)"

text \<open>The loop of \<^verbatim>\<open>trim_alacritty_cell_text\<close>: the kept marks and whether it overflowed.\<close>

fun keep_marks :: "nat \<Rightarrow> nat list \<Rightarrow> nat list \<times> bool" where
  "keep_marks retained_bytes [] = ([], False)"
| "keep_marks retained_bytes (mark # marks) =
     (if retained_bytes + len_utf8 mark > MAX_CELL_TEXT_BYTES then ([], True)
      else let (kept, over) = keep_marks (retained_bytes + len_utf8 mark) marks
           in (mark # kept, over))"

definition trim_alacritty_cell_text :: "vt_cell \<Rightarrow> vt_cell" where
  "trim_alacritty_cell_text c =
     (case vc_zerowidth c of
        None \<Rightarrow> c
      | Some marks \<Rightarrow>
          (let (kept, overflowed) =
                 keep_marks (if vc_c c = 0 then 1 else len_utf8 (vc_c c)) marks
           in if \<not> overflowed then c else c\<lparr>vc_zerowidth := Some kept\<rparr>))"

definition wide_lead :: "vt_cell list \<Rightarrow> nat \<Rightarrow> nat \<Rightarrow> bool" where
  "wide_lead row cols col \<longleftrightarrow>
     \<not> LEADING_WIDE_CHAR_SPACER (vc_flags (row ! col)) \<and>
     WIDE_CHAR (vc_flags (row ! col)) \<and> \<not> WIDE_CHAR_SPACER (vc_flags (row ! col)) \<and>
     col + 1 < cols \<and>
     WIDE_CHAR_SPACER (vc_flags (row ! (col + 1))) \<and>
     \<not> WIDE_CHAR (vc_flags (row ! (col + 1))) \<and>
     \<not> LEADING_WIDE_CHAR_SPACER (vc_flags (row ! (col + 1)))"

definition wide_spacer :: "vt_cell list \<Rightarrow> nat \<Rightarrow> bool" where
  "wide_spacer row col \<longleftrightarrow>
     \<not> LEADING_WIDE_CHAR_SPACER (vc_flags (row ! col)) \<and>
     WIDE_CHAR_SPACER (vc_flags (row ! col)) \<and> \<not> WIDE_CHAR (vc_flags (row ! col)) \<and>
     col > 0 \<and>
     WIDE_CHAR (vc_flags (row ! (col - 1))) \<and>
     \<not> WIDE_CHAR_SPACER (vc_flags (row ! (col - 1))) \<and>
     \<not> LEADING_WIDE_CHAR_SPACER (vc_flags (row ! (col - 1)))"

definition malformed_wide_boundary :: "vt_cell list \<Rightarrow> nat \<Rightarrow> nat \<Rightarrow> bool" where
  "malformed_wide_boundary row cols col \<longleftrightarrow>
     (WIDE_CHAR (vc_flags (row ! col)) \<or> WIDE_CHAR_SPACER (vc_flags (row ! col)) \<or>
      LEADING_WIDE_CHAR_SPACER (vc_flags (row ! col))) \<and>
     \<not> wide_lead row cols col \<and> \<not> wide_spacer row col"

text \<open>The body of \<^verbatim>\<open>line_to_cells\<close>'s loop: the cell and the link budget left after it.\<close>

definition wire_cell ::
  "(string \<Rightarrow> bool) \<Rightarrow> vt_cell list \<Rightarrow> nat \<Rightarrow> nat \<Rightarrow> nat \<Rightarrow> cell \<times> nat" where
  "wire_cell safe_url row cols col remaining =
     (let c = row ! col; flags = vc_flags c;
          lead = wide_lead row cols col; spacer = wide_spacer row col;
          malformed = malformed_wide_boundary row cols col;
          tx = (if spacer then []
                 else if malformed then '' ''
                 else let base = encode_utf8 (if vc_c c = 0 then 32 else vc_c c)
                      in case vc_zerowidth c of
                           None \<Rightarrow> base
                         | Some zws \<Rightarrow> append_zerowidth_capped base zws);
          link = (if \<not> HIDDEN flags \<and> \<not> malformed \<and> remaining > 0
                    then (case vc_hyperlink c of
                            None \<Rightarrow> None
                          | Some uri \<Rightarrow> if safe_url uri then Some uri else None)
                  else None)
      in (\<lparr>cell_text = tx, cell_fg = vc_fg c, cell_bg = vc_bg c,
           cell_bold = BOLD flags, cell_italic = ITALIC flags,
           cell_underline = underline_from_flags flags, cell_inverse = INVERSE flags,
           cell_strikeout = STRIKEOUT flags, cell_dim = DIM flags, cell_hidden = HIDDEN flags,
           cell_hyperlink = link,
           cell_width = (if lead then 2 else if spacer then 0 else 1)\<rparr>,
          if link = None then remaining else remaining - 1))"

fun emit_cells ::
  "(string \<Rightarrow> bool) \<Rightarrow> vt_cell list \<Rightarrow> nat \<Rightarrow> nat list \<Rightarrow> nat \<Rightarrow> cell list \<times> nat" where
  "emit_cells safe_url row cols [] remaining = ([], remaining)"
| "emit_cells safe_url row cols (col # rest) remaining =
     (let (c, rem1) = wire_cell safe_url row cols col remaining;
          (cs, rem2) = emit_cells safe_url row cols rest rem1
      in (c # cs, rem2))"

definition line_to_cells ::
  "(string \<Rightarrow> bool) \<Rightarrow> vt_cell list \<Rightarrow> nat \<Rightarrow> nat \<Rightarrow> cell list \<times> nat" where
  "line_to_cells safe_url row cols remaining = emit_cells safe_url row cols [0..<cols] remaining"

text \<open>The row loops of \<^verbatim>\<open>snapshot\<close> and \<^verbatim>\<open>scrollback\<close>: one link budget is spent from row to row.\<close>

fun lines_to_cells ::
  "(string \<Rightarrow> bool) \<Rightarrow> vt_cell list list \<Rightarrow> nat \<Rightarrow> nat \<Rightarrow> cells" where
  "lines_to_cells safe_url [] cols remaining = []"
| "lines_to_cells safe_url (row # rows) cols remaining =
     (let (cs, rem') = line_to_cells safe_url row cols remaining
      in cs # lines_to_cells safe_url rows cols rem')"

definition line_copy_metadata :: "'p vt_term \<Rightarrow> int \<Rightarrow> nat \<Rightarrow> row_copy" where
  "line_copy_metadata t line cols =
     \<lparr>starts_line =
        (if line > topmost_line t
           then Some (\<not> WRAPLINE (vc_flags (line_at t (line - 1) ! (cols - 1))))
         else None),
      soft_wrap = WRAPLINE (vc_flags (line_at t line ! (cols - 1))),
      excluded_columns =
        map of_nat (filter (\<lambda>col. LEADING_WIDE_CHAR_SPACER (vc_flags (line_at t line ! col)))
                      [0..<cols])\<rparr>"

section \<open>The grid and its mutations\<close>

record 'p term_grid =
  tg_term :: "'p vt_term"
  tg_cols :: nat
  tg_rows :: nat
  tg_generation :: session_generation
  tg_revision :: revision
  tg_base_revision :: revision
  tg_row_stamps :: "u64 list"
  tg_stamp_counter :: u64

text \<open>\<open>blank\<close> is \<^verbatim>\<open>Term::new\<close> at the clamped size.\<close>

definition new_with_generation ::
  "(nat \<Rightarrow> nat \<Rightarrow> 'p vt_term) \<Rightarrow> u16 \<Rightarrow> u16 \<Rightarrow> session_generation \<Rightarrow> 'p term_grid" where
  "new_with_generation blank cols rows generation =
     \<lparr>tg_term = blank (clamp_dim cols) (clamp_dim rows),
      tg_cols = clamp_dim cols, tg_rows = clamp_dim rows,
      tg_generation = generation, tg_revision = 0, tg_base_revision = 0,
      tg_row_stamps = replicate (clamp_dim rows) 0, tg_stamp_counter = 0\<rparr>"

definition revision_next :: "revision \<Rightarrow> revision option" where
  "revision_next rv = checked_add_u64 rv 1"

text \<open>\<open>fresh\<close> is the value \<^verbatim>\<open>SessionGeneration::new()\<close> mints if the revision counter is exhausted.\<close>

definition bump_revision :: "session_generation \<Rightarrow> 'p term_grid \<Rightarrow> 'p term_grid" where
  "bump_revision fresh g =
     (case revision_next (tg_revision g) of
        Some nxt \<Rightarrow> g\<lparr>tg_base_revision := tg_revision g, tg_revision := nxt\<rparr>
      | None \<Rightarrow> g\<lparr>tg_generation := fresh, tg_revision := 0, tg_base_revision := 0\<rparr>)"

definition stamp_rows :: "nat \<Rightarrow> u64 \<Rightarrow> term_damage \<Rightarrow> u64 list \<Rightarrow> u64 list" where
  "stamp_rows rows stamp dmg stamps =
     (case dmg of
        FullDamage \<Rightarrow> map (\<lambda>_. stamp) stamps
      | PartialDamage dirty \<Rightarrow>
          fold (\<lambda>line st. if line < rows then st[line := stamp] else st) dirty stamps)"

definition collect_row_damage :: "'p vt_engine \<Rightarrow> 'p term_grid \<Rightarrow> 'p term_grid" where
  "collect_row_damage eng g =
     (let stamps = (if length (tg_row_stamps g) \<noteq> tg_rows g then replicate (tg_rows g) 0
                    else tg_row_stamps g);
          stamp = tg_stamp_counter g + 1
      in g\<lparr>tg_row_stamps := stamp_rows (tg_rows g) stamp (eng_damage eng (tg_term g)) stamps,
           tg_stamp_counter := stamp,
           tg_term := eng_reset_damage eng (tg_term g)\<rparr>)"

definition dirty_rows :: "nat \<Rightarrow> term_damage \<Rightarrow> nat list" where
  "dirty_rows rows dmg =
     (case dmg of
        FullDamage \<Rightarrow> [0..<rows]
      | PartialDamage ls \<Rightarrow> filter (\<lambda>line. line < rows) ls)"

definition trim_row :: "nat \<Rightarrow> vt_cell list \<Rightarrow> vt_cell list" where
  "trim_row cols row =
     fold (\<lambda>col cs. cs[col := trim_alacritty_cell_text (cs ! col)]) [0..<cols] row"

definition enforce_retained_cell_text_budget :: "'p vt_engine \<Rightarrow> 'p term_grid \<Rightarrow> 'p term_grid" where
  "enforce_retained_cell_text_budget eng g =
     g\<lparr>tg_term := (tg_term g)\<lparr>vt_screen :=
         fold (\<lambda>row scr. scr[row := trim_row (tg_cols g) (scr ! row)])
           (dirty_rows (tg_rows g) (eng_damage eng (tg_term g))) (vt_screen (tg_term g))\<rparr>\<rparr>"

definition enforce_history_budget :: "'p vt_engine \<Rightarrow> 'p term_grid \<Rightarrow> 'p term_grid" where
  "enforce_history_budget eng g =
     g\<lparr>tg_term := eng_update_history eng (history_budget (tg_cols g)) (tg_term g)\<rparr>"

definition advance ::
  "'p vt_engine \<Rightarrow> session_generation \<Rightarrow> u8 list \<Rightarrow> 'p term_grid \<Rightarrow> 'p term_grid" where
  "advance eng fresh bytes g =
     (if bytes = [] then g
      else
        let g1 = fold (\<lambda>chunk h. enforce_retained_cell_text_budget eng
                                   (h\<lparr>tg_term := eng_advance eng chunk (tg_term h)\<rparr>))
                   (chunks_of MAX_PARSER_ADVANCE_BYTES bytes) g
        in bump_revision fresh (collect_row_damage eng (enforce_history_budget eng g1)))"

definition resize ::
  "'p vt_engine \<Rightarrow> session_generation \<Rightarrow> u16 \<Rightarrow> u16 \<Rightarrow> 'p term_grid \<Rightarrow> 'p term_grid" where
  "resize eng fresh cols rows g =
     (let c = clamp_dim cols; r = clamp_dim rows in
        if c = tg_cols g \<and> r = tg_rows g then g
        else
          let g1 = g\<lparr>tg_cols := c, tg_rows := r, tg_term := eng_resize eng c r (tg_term g)\<rparr>;
              g2 = enforce_history_budget eng g1;
              g3 = collect_row_damage eng (g2\<lparr>tg_row_stamps := replicate r 0\<rparr>)
          in bump_revision fresh g3)"

section \<open>Reading the grid\<close>

definition snapshot :: "(string \<Rightarrow> bool) \<Rightarrow> 'p term_grid \<Rightarrow> daemon_snapshot" where
  "snapshot safe_url g =
     (let t = tg_term g; m = vt_modes t in
      \<lparr>gs_version = SNAPSHOT_VERSION, gs_generation = tg_generation g,
       gs_revision = tg_revision g, gs_base_revision = tg_base_revision g,
       gs_cols = tg_cols g, gs_rows = tg_rows g,
       gs_rows_cells =
         lines_to_cells safe_url (map (\<lambda>row. line_at t (int row)) [0..<tg_rows g]) (tg_cols g)
           MAX_TERMINAL_LINK_CELLS_PER_FRAME,
       gs_row_copy =
         Some (map (\<lambda>row. line_copy_metadata t (int row) (tg_cols g)) [0..<tg_rows g]),
       gs_cursor_line = min (nat (max (vt_cursor_line t) 0)) (tg_rows g - 1),
       gs_cursor_col = min (vt_cursor_col t) (tg_cols g - 1),
       gs_cursor_visible = vt_show_cursor t, gs_cursor_shape = vt_cursor_shape t,
       gs_alt_screen = ms_alt_screen m, gs_app_cursor = ms_app_cursor m,
       gs_bracketed_paste = ms_bracketed_paste m, gs_focus_reporting = ms_focus_reporting m,
       gs_mouse_report = ms_mouse_report m, gs_mouse_drag = ms_mouse_drag m,
       gs_mouse_motion = ms_mouse_motion m, gs_mouse_sgr = ms_mouse_sgr m,
       dg_row_stamps = tg_row_stamps g\<rparr>)"

record scrollback_read =
  sb_row_copy :: "row_copy list option"
  sb_generation :: session_generation
  sb_revision :: revision
  sb_history_len :: nat
  sb_offset_from_top :: nat
  sb_rows :: cells

definition scrollback :: "(string \<Rightarrow> bool) \<Rightarrow> 'p term_grid \<Rightarrow> u32 \<Rightarrow> u16 \<Rightarrow> scrollback_read" where
  "scrollback safe_url g offset_from_top count =
     (let t = tg_term g; history = length (vt_history t);
          offset = min (unat offset_from_top) history;
          count_cap = min (unat count) MAX_SCROLLBACK_ROWS_PER_REQUEST;
          cell_cap_rows = (if tg_cols g = 0 then 0 else MAX_SNAPSHOT_CELLS div tg_cols g);
          max_rows = min count_cap cell_cap_rows;
          available = offset + tg_rows g;
          row_count = min max_rows available;
          ls = map (\<lambda>i. - int offset + int i) [0..<row_count]
      in \<lparr>sb_row_copy = Some (map (\<lambda>line. line_copy_metadata t line (tg_cols g)) ls),
          sb_generation = tg_generation g, sb_revision = tg_revision g,
          sb_history_len = history, sb_offset_from_top = offset,
          sb_rows = lines_to_cells safe_url (map (line_at t) ls) (tg_cols g)
                      MAX_TERMINAL_LINK_CELLS_PER_FRAME\<rparr>)"

section \<open>Cell text stays within its cap\<close>

lemma length_encode_utf8 [simp]: "length (encode_utf8 c) = len_utf8 c"
  by (simp add: encode_utf8_def len_utf8_def)

lemma len_utf8_bounds: "1 \<le> len_utf8 c" "len_utf8 c \<le> 4"
  by (simp_all add: len_utf8_def)

lemma append_zerowidth_capped_le:
  "length tx \<le> MAX_CELL_TEXT_BYTES \<Longrightarrow>
     length (append_zerowidth_capped tx zws) \<le> MAX_CELL_TEXT_BYTES"
  by (induction tx zws rule: append_zerowidth_capped.induct) auto

lemma append_zerowidth_capped_keep_marks:
  "append_zerowidth_capped tx (fst (keep_marks (length tx) zws)) = append_zerowidth_capped tx zws"
proof (induction zws arbitrary: tx)
  case (Cons zw zws)
  then show ?case
    using Cons.IH [of "tx @ encode_utf8 zw"] by (simp add: split_beta Let_def)
qed simp

section \<open>Projection of a line\<close>

lemmas wide_defs = wide_lead_def wide_spacer_def malformed_wide_boundary_def

lemma wire_cell_width:
  "cell_width (fst (wire_cell safe row cols col remaining)) =
     (if wide_lead row cols col then 2 else if wide_spacer row col then 0 else 1)"
  by (simp add: wire_cell_def Let_def)

lemma wide_spacer_iff:
  "Suc col < cols \<Longrightarrow> wide_spacer row (Suc col) \<longleftrightarrow> wide_lead row cols col"
  by (auto simp: wide_defs)

lemma not_spacer_zero [simp]: "\<not> wide_spacer row 0"
  by (simp add: wide_spacer_def)

lemma wide_lead_not_spacer: "wide_lead row cols col \<Longrightarrow> \<not> wide_spacer row col"
  by (auto simp: wide_defs)

lemma wire_cell_valid: "cell_is_valid (fst (wire_cell safe row cols col remaining))"
  using wide_lead_not_spacer [of row cols col]
  by (auto simp: wire_cell_def Let_def cell_is_valid_def)

lemma wire_cell_text_le:
  "length (cell_text (fst (wire_cell safe row cols col remaining))) \<le> MAX_CELL_TEXT_BYTES"
proof -
  have "len_utf8 c \<le> MAX_CELL_TEXT_BYTES" for c
    using len_utf8_bounds(2) [of c] by (simp add: MAX_CELL_TEXT_BYTES_def)
  moreover have "1 \<le> MAX_CELL_TEXT_BYTES" by (simp add: MAX_CELL_TEXT_BYTES_def)
  ultimately show ?thesis
    by (auto simp: wire_cell_def Let_def append_zerowidth_capped_le split: option.split)
qed

lemma wire_cell_excluded:
  assumes "LEADING_WIDE_CHAR_SPACER (vc_flags (row ! col))"
  shows "cell_width (fst (wire_cell safe row cols col remaining)) = 1"
    and "cell_text (fst (wire_cell safe row cols col remaining)) = '' ''"
  using assms by (auto simp: wire_cell_def Let_def wide_defs)

text \<open>The cell a column would get if the link budget were not exhausted.\<close>

definition free_cell :: "(string \<Rightarrow> bool) \<Rightarrow> vt_cell list \<Rightarrow> nat \<Rightarrow> nat \<Rightarrow> cell" where
  "free_cell safe row cols col = fst (wire_cell safe row cols col 1)"

definition free_line :: "(string \<Rightarrow> bool) \<Rightarrow> nat \<Rightarrow> vt_cell list \<Rightarrow> cell list" where
  "free_line safe cols row = map (free_cell safe row cols) [0..<cols]"

lemma wire_cell_rest:
  "snd (wire_cell safe row cols col remaining) =
     remaining - (if cell_hyperlink (fst (wire_cell safe row cols col remaining)) = None
                  then 0 else 1)"
  by (simp add: wire_cell_def Let_def)

lemma wire_cell_spent [simp]:
  "cell_hyperlink (fst (wire_cell safe row cols col 0)) = None"
  by (simp add: wire_cell_def Let_def)

lemma wire_cell_free:
  "0 < remaining \<or> cell_hyperlink (free_cell safe row cols col) = None \<Longrightarrow>
     fst (wire_cell safe row cols col remaining) = free_cell safe row cols col"
  by (cases remaining) (auto simp: free_cell_def wire_cell_def Let_def)

lemma emit_cells_nth:
  "i < length cs \<Longrightarrow> \<exists>r. fst (emit_cells safe row cols cs remaining) ! i
                         = fst (wire_cell safe row cols (cs ! i) r)"
proof (induction cs arbitrary: remaining i)
  case (Cons col cs)
  then show ?case by (cases i) (auto simp: split_beta Let_def)
qed simp

lemma length_emit_cells [simp]: "length (fst (emit_cells safe row cols cs remaining)) = length cs"
  by (induction cs arbitrary: remaining) (simp_all add: split_beta Let_def)

lemma emit_cells_Cons:
  "fst (emit_cells safe row cols (col # cs) remaining) =
     fst (wire_cell safe row cols col remaining)
     # fst (emit_cells safe row cols cs (snd (wire_cell safe row cols col remaining)))"
  "snd (emit_cells safe row cols (col # cs) remaining) =
     snd (emit_cells safe row cols cs (snd (wire_cell safe row cols col remaining)))"
  by (simp_all add: split_beta Let_def)

lemma emit_cells_budget:
  "row_links (fst (emit_cells safe row cols cs remaining)) \<le> remaining \<and>
   snd (emit_cells safe row cols cs remaining)
     = remaining - row_links (fst (emit_cells safe row cols cs remaining))"
proof (induction cs arbitrary: remaining)
  case (Cons col cs)
  let ?c = "fst (wire_cell safe row cols col remaining)"
  note Cons.IH [of "snd (wire_cell safe row cols col remaining)"]
  moreover have "0 < remaining" if "cell_hyperlink ?c \<noteq> None"
    using that by (cases remaining) auto
  ultimately show ?case
    unfolding emit_cells_Cons wire_cell_rest
    by (cases "cell_hyperlink ?c = None") auto
qed simp

lemma emit_cells_free:
  assumes "row_links (map (free_cell safe row cols) cs) \<le> remaining"
  shows "fst (emit_cells safe row cols cs remaining) = map (free_cell safe row cols) cs"
  using assms
proof (induction cs arbitrary: remaining)
  case (Cons col cs)
  have c: "fst (wire_cell safe row cols col remaining) = free_cell safe row cols col"
    using Cons.prems by (intro wire_cell_free) (auto split: if_splits)
  have "row_links (map (free_cell safe row cols) cs)
      \<le> snd (wire_cell safe row cols col remaining)"
    using Cons.prems c unfolding wire_cell_rest by (auto split: if_splits)
  with c Cons.IH show ?case
    unfolding emit_cells_Cons by simp
qed simp

lemma length_line_to_cells [simp]: "length (fst (line_to_cells safe row cols remaining)) = cols"
  by (simp add: line_to_cells_def)

lemma line_to_cells_nth:
  "col < cols \<Longrightarrow> \<exists>r. fst (line_to_cells safe row cols remaining) ! col
                      = fst (wire_cell safe row cols col r)"
  using emit_cells_nth [of col "[0..<cols]" safe row cols remaining]
  by (simp add: line_to_cells_def)

lemma line_to_cells_valid: "list_all cell_is_valid (fst (line_to_cells safe row cols remaining))"
  by (metis length_line_to_cells line_to_cells_nth list_all_length wire_cell_valid)

lemma line_to_cells_width:
  "col < cols \<Longrightarrow> cell_width (fst (line_to_cells safe row cols remaining) ! col) =
     (if wide_lead row cols col then 2 else if wide_spacer row col then 0 else 1)"
  by (metis line_to_cells_nth wire_cell_width)

lemma line_to_cells_wide_pairs: "wide_pairs (fst (line_to_cells safe row cols remaining))"
  unfolding wide_pairs_def
proof (rule wide_from_nthI)
  fix i assume i: "i < length (fst (line_to_cells safe row cols remaining))"
  then show "cell_width (fst (line_to_cells safe row cols remaining) ! i) = 0 \<longleftrightarrow>
      (if i = 0 then False
       else cell_width (fst (line_to_cells safe row cols remaining) ! (i - 1)) = 2)"
    using wide_lead_not_spacer [of row cols i]
    by (cases i) (auto simp: line_to_cells_width wide_spacer_iff not_spacer_zero)
next
  let ?line = "fst (line_to_cells safe row cols remaining)"
  show "if ?line = [] then \<not> False else cell_width (last ?line) \<noteq> 2"
    by (cases "cols = 0")
      (auto simp: last_conv_nth line_to_cells_width wide_lead_def simp flip: length_0_conv)
qed

section \<open>Projection of a window of lines\<close>

lemma length_lines_to_cells [simp]:
  "length (lines_to_cells safe rows cols remaining) = length rows"
  by (induction rows arbitrary: remaining) (simp_all add: split_beta Let_def)

lemma lines_to_cells_nth:
  "i < length rows \<Longrightarrow> \<exists>r. lines_to_cells safe rows cols remaining ! i
                         = fst (line_to_cells safe (rows ! i) cols r)"
proof (induction rows arbitrary: remaining i)
  case (Cons row rows)
  then show ?case by (cases i) (auto simp: split_beta Let_def)
qed simp

lemma lines_to_cells_member:
  assumes "line \<in> set (lines_to_cells safe rows cols remaining)"
  obtains row r where "row \<in> set rows" "line = fst (line_to_cells safe row cols r)"
  using assms lines_to_cells_nth [of _ rows safe cols remaining]
  by (metis in_set_conv_nth length_lines_to_cells)

lemma lines_to_cells_rect: "rect (length rows) cols (lines_to_cells safe rows cols remaining)"
  by (auto simp: rect_def elim!: lines_to_cells_member)

lemma lines_to_cells_valid:
  "list_all (list_all cell_is_valid) (lines_to_cells safe rows cols remaining)"
  using line_to_cells_valid by (auto simp: list_all_iff elim!: lines_to_cells_member)

lemma lines_to_cells_wide_pairs: "list_all wide_pairs (lines_to_cells safe rows cols remaining)"
  using line_to_cells_wide_pairs by (auto simp: list_all_iff elim!: lines_to_cells_member)

lemma line_to_cells_budget:
  "row_links (fst (line_to_cells safe row cols remaining)) \<le> remaining"
  "snd (line_to_cells safe row cols remaining)
     = remaining - row_links (fst (line_to_cells safe row cols remaining))"
  by (simp_all add: line_to_cells_def emit_cells_budget)

lemma lines_to_cells_links:
  "sum_list (map row_links (lines_to_cells safe rows cols remaining)) \<le> remaining"
proof (induction rows arbitrary: remaining)
  case (Cons row rows)
  let ?line = "line_to_cells safe row cols remaining"
  from Cons.IH [of "snd ?line"] line_to_cells_budget [of safe row cols remaining] show ?case
    by (simp add: split_beta Let_def)
qed simp

lemma lines_to_cells_within_cap:
  "terminal_link_cells_within_cap
     (lines_to_cells safe rows cols MAX_TERMINAL_LINK_CELLS_PER_FRAME)"
  by (simp add: terminal_link_cells_within_cap_iff length_linked_cells lines_to_cells_links)

text \<open>While the whole window needs no more links than the budget, each line stands for itself.\<close>

lemma lines_to_cells_free:
  assumes "(\<Sum>row\<leftarrow>rows. row_links (free_line safe cols row)) \<le> remaining"
  shows "lines_to_cells safe rows cols remaining = map (free_line safe cols) rows"
  using assms
proof (induction rows arbitrary: remaining)
  case (Cons row rows)
  have line: "fst (line_to_cells safe row cols remaining) = free_line safe cols row"
    using Cons.prems unfolding line_to_cells_def free_line_def
    by (intro emit_cells_free) simp
  have "(\<Sum>row\<leftarrow>rows. row_links (free_line safe cols row))
      \<le> snd (line_to_cells safe row cols remaining)"
    using Cons.prems line by (simp add: line_to_cells_budget(2))
  with line Cons.IH show ?case by (simp add: split_beta Let_def)
qed simp

section \<open>Copy metadata agrees with the cells\<close>

lemma windows_ascending_sorted: "sorted_wrt (<) xs \<Longrightarrow> windows_ascending xs"
  by (induction xs rule: windows_ascending.induct) auto

lemma sorted_wrt_of_nat_u16:
  assumes "sorted_wrt (<) xs" "\<forall>x \<in> set xs. x < 65536"
  shows "sorted_wrt (<) (map (of_nat :: nat \<Rightarrow> u16) xs)"
proof -
  have "sorted_wrt (\<lambda>a b. (of_nat a :: u16) < of_nat b) xs"
    using assms by (intro sorted_wrt_mono_rel [OF _ assms(1)]) (simp add: of_nat_u16_less)
  then show ?thesis by (simp add: sorted_wrt_map)
qed

lemma excluded_columns_sorted:
  assumes "cols \<le> 2000"
  shows "windows_ascending (excluded_columns (line_copy_metadata t line cols))"
    and "\<forall>col \<in> set (excluded_columns (line_copy_metadata t line cols)).
           unat col < cols \<and> LEADING_WIDE_CHAR_SPACER (vc_flags (line_at t line ! unat col))"
proof -
  have "sorted_wrt (<) (filter P [0..<cols])" for P
    by (simp add: sorted_wrt_filter)
  then show "windows_ascending (excluded_columns (line_copy_metadata t line cols))"
    using assms by (auto simp: line_copy_metadata_def intro!: windows_ascending_sorted
        sorted_wrt_of_nat_u16)
qed (use assms in \<open>auto simp: line_copy_metadata_def\<close>)

lemma window_copy_valid:
  assumes "0 < n" "0 < cols" "cols \<le> 2000" "topmost_line t \<le> base"
  defines "ls \<equiv> map (\<lambda>i. base + int i) [0..<n]"
  shows "row_copy_cells_valid (lines_to_cells safe (map (line_at t) ls) cols remaining)
           (Some (map (\<lambda>line. line_copy_metadata t line cols) ls))"
proof -
  let ?rows = "lines_to_cells safe (map (line_at t) ls) cols remaining"
  let ?md = "map (\<lambda>line. line_copy_metadata t line cols) ls"
  have len: "length ls = n" "length ?rows = n" by (simp_all add: ls_def)
  have nth: "ls ! i = base + int i" if "i < n" for i using that by (simp add: ls_def)
  have shape: "rect n cols ?rows" using lines_to_cells_rect [of "map (line_at t) ls"] len by simp
  have first: "(case ?rows of [] \<Rightarrow> 0 | r # _ \<Rightarrow> length r) = cols"
    using shape assms(1) by (cases ?rows) (auto simp: rect_def)
  have joined: "starts_line (?md ! i) \<noteq> Some (soft_wrap (?md ! (i - 1)))" if "i < n" "i \<noteq> 0" for i
  proof -
    have "base + int i - 1 = base + int (i - 1)" using that by simp
    then show ?thesis using that assms(4) len nth
      by (simp add: line_copy_metadata_def add_diff_eq)
  qed
  have within: "list_all (\<lambda>col. unat col < cols) (excluded_columns (?md ! i))"
      "windows_ascending (excluded_columns (?md ! i))" if "i < n" for i
    using excluded_columns_sorted [OF assms(3), of t "ls ! i"] that len by (auto simp: list_all_iff)
  have "i = 0 \<or> (case starts_line (?md ! i) of None \<Rightarrow> True
                   | Some starts \<Rightarrow> starts \<noteq> soft_wrap (?md ! (i - 1)))" if "i < n" for i
    using joined [OF that] by (cases "starts_line (?md ! i)") auto
  with within have shaped: "row_copy_valid (Some ?md) cols n"
    unfolding row_copy_valid_def option.case Let_def
    by (simp only: list_all_iff length_map len) (simp add: list_all_iff)
  have blank: "cell_width (?rows ! i ! unat col) = 1 \<and> cell_text (?rows ! i ! unat col) = '' ''"
    if i: "i < n" and excl: "col \<in> set (excluded_columns (?md ! i))" for i col
  proof -
    have col: "unat col < cols" "LEADING_WIDE_CHAR_SPACER (vc_flags (line_at t (ls ! i) ! unat col))"
      using excluded_columns_sorted(2) [OF assms(3), of t "ls ! i"] i excl len by auto
    obtain r where "?rows ! i = fst (line_to_cells safe (line_at t (ls ! i)) cols r)"
      using lines_to_cells_nth [of i "map (line_at t) ls" safe cols remaining] i len by auto
    moreover obtain r' where "fst (line_to_cells safe (line_at t (ls ! i)) cols r) ! unat col
        = fst (wire_cell safe (line_at t (ls ! i)) cols (unat col) r')"
      using line_to_cells_nth [OF col(1)] by blast
    ultimately show ?thesis using wire_cell_excluded [OF col(2)] by simp
  qed
  show ?thesis
    unfolding row_copy_cells_valid_def first Let_def
    using shape shaped blank len by (auto simp: list_all_iff rect_def)
qed

section \<open>Every snapshot is well formed\<close>

text \<open>The shape invariant of \<^verbatim>\<open>TermGrid\<close>.\<close>

definition tg_wf :: "'p term_grid \<Rightarrow> bool" where
  "tg_wf g \<longleftrightarrow>
     1 \<le> tg_cols g \<and> tg_cols g \<le> 2000 \<and> 1 \<le> tg_rows g \<and> tg_rows g \<le> 2000 \<and>
     rect (tg_rows g) (tg_cols g) (vt_screen (tg_term g)) \<and>
     length (tg_row_stamps g) = tg_rows g"

lemma clamp_dim_bounds: "1 \<le> clamp_dim v" "clamp_dim v \<le> 2000"
proof -
  have "unat (min (max v 1) (2000 :: u16)) = min (max (unat v) 1) 2000"
    by (simp add: min_def max_def word_le_nat_alt)
  then show "1 \<le> clamp_dim v" "clamp_dim v \<le> 2000"
    by (simp_all add: clamp_dim_def GRID_MAX_DIMENSION_def)
qed

lemma snapshot_simps [simp]:
  "gs_version (snapshot safe g) = SNAPSHOT_VERSION"
  "gs_generation (snapshot safe g) = tg_generation g"
  "gs_revision (snapshot safe g) = tg_revision g"
  "gs_base_revision (snapshot safe g) = tg_base_revision g"
  "gs_cols (snapshot safe g) = tg_cols g"
  "gs_rows (snapshot safe g) = tg_rows g"
  "dg_row_stamps (snapshot safe g) = tg_row_stamps g"
  by (simp_all add: snapshot_def Let_def)

lemma snapshot_window:
  "gs_rows_cells (snapshot safe g) =
     lines_to_cells safe (map (line_at (tg_term g)) (map (\<lambda>i. 0 + int i) [0..<tg_rows g]))
       (tg_cols g) MAX_TERMINAL_LINK_CELLS_PER_FRAME"
  "gs_row_copy (snapshot safe g) =
     Some (map (\<lambda>line. line_copy_metadata (tg_term g) line (tg_cols g))
             (map (\<lambda>i. 0 + int i) [0..<tg_rows g]))"
  by (simp_all add: snapshot_def Let_def comp_def)

lemma snapshot_wf:
  assumes "tg_wf g"
  shows "wf_snapshot (snapshot safe g)"
proof -
  have dims: "1 \<le> tg_cols g" "tg_cols g \<le> 2000" "1 \<le> tg_rows g" "tg_rows g \<le> 2000"
    using assms by (simp_all add: tg_wf_def)
  have "rect (tg_rows g) (tg_cols g) (gs_rows_cells (snapshot safe g))"
    using lines_to_cells_rect by (metis snapshot_window(1) diff_zero length_map length_upt)
  moreover have "gs_cursor_line (snapshot safe g) < tg_rows g"
      "gs_cursor_col (snapshot safe g) < tg_cols g"
    using dims by (simp_all add: snapshot_def Let_def min_less_iff_disj)
  moreover have "row_copy_cells_valid (gs_rows_cells (snapshot safe g)) (gs_row_copy (snapshot safe g))"
    unfolding snapshot_window
    by (rule window_copy_valid) (use dims in \<open>simp_all add: topmost_line_def\<close>)
  moreover have "list_all (list_all cell_is_valid) (gs_rows_cells (snapshot safe g))"
      "list_all wide_pairs (gs_rows_cells (snapshot safe g))"
      "terminal_link_cells_within_cap (gs_rows_cells (snapshot safe g))"
    unfolding snapshot_window
    by (rule lines_to_cells_valid lines_to_cells_wide_pairs lines_to_cells_within_cap)+
  ultimately show ?thesis
    using dims by (simp add: wf_snapshot_def)
qed

section \<open>Mutations\<close>

text \<open>
  What the code relies on of the engine. \<open>engine_shape\<close>: the visible screen always has the size it
  was created or last resized with. \<open>engine_reports\<close>: the damage accumulated since the last reset
  names every row whose rendering changed, a resize reports full damage, and neither history
  trimming nor writing a cell back behind the parser touches it.
\<close>

definition engine_shape :: "'p vt_engine \<Rightarrow> bool" where
  "engine_shape eng \<longleftrightarrow>
     (\<forall>r c bytes t. rect r c (vt_screen t) \<longrightarrow> rect r c (vt_screen (eng_advance eng bytes t))) \<and>
     (\<forall>r c t. 1 \<le> r \<longrightarrow> 1 \<le> c \<longrightarrow> rect r c (vt_screen (eng_resize eng c r t))) \<and>
     (\<forall>n t. vt_screen (eng_update_history eng n t) = vt_screen t) \<and>
     (\<forall>t. vt_screen (eng_reset_damage eng t) = vt_screen t)"

definition reported :: "'p vt_engine \<Rightarrow> 'p vt_term \<Rightarrow> nat \<Rightarrow> bool" where
  "reported eng t i \<longleftrightarrow>
     (case eng_damage eng t of FullDamage \<Rightarrow> True | PartialDamage ls \<Rightarrow> i \<in> set ls)"

definition engine_reports :: "'p vt_engine \<Rightarrow> bool" where
  "engine_reports eng \<longleftrightarrow>
     (\<forall>bytes t i. reported eng t i \<longrightarrow> reported eng (eng_advance eng bytes t) i) \<and>
     (\<forall>safe c bytes t i. i < length (vt_screen t) \<longrightarrow>
        \<not> reported eng (eng_advance eng bytes t) i \<longrightarrow>
        free_line safe c (vt_screen (eng_advance eng bytes t) ! i) =
        free_line safe c (vt_screen t ! i)) \<and>
     (\<forall>r c t. eng_damage eng (eng_resize eng c r t) = FullDamage) \<and>
     (\<forall>n t. eng_damage eng (eng_update_history eng n t) = eng_damage eng t) \<and>
     (\<forall>t scr. eng_damage eng (t\<lparr>vt_screen := scr\<rparr>) = eng_damage eng t)"

lemma bump_revision_fields [simp]:
  "tg_term (bump_revision fresh g) = tg_term g"
  "tg_cols (bump_revision fresh g) = tg_cols g"
  "tg_rows (bump_revision fresh g) = tg_rows g"
  "tg_row_stamps (bump_revision fresh g) = tg_row_stamps g"
  "tg_stamp_counter (bump_revision fresh g) = tg_stamp_counter g"
  by (simp_all add: bump_revision_def split: option.split)

lemma length_fold_update [simp]:
  "length (fold (\<lambda>i xs. xs[i := f i xs]) is xs) = length xs"
  by (induction "is" arbitrary: xs) simp_all

lemma length_stamp_rows [simp]: "length (stamp_rows rows stamp dmg stamps) = length stamps"
proof -
  have "length (fold (\<lambda>line st. if line < rows then st[line := stamp] else st) ls stamps)
      = length stamps" for ls
    by (induction ls arbitrary: stamps) simp_all
  then show ?thesis by (simp add: stamp_rows_def split: term_damage.split)
qed

lemma nth_stamp_partial:
  assumes "i < rows" "i < length stamps"
  shows "fold (\<lambda>line st. if line < rows then st[line := stamp] else st) ls stamps ! i
       = (if i \<in> set ls then stamp else stamps ! i)"
  using assms
proof (induction ls arbitrary: stamps)
  case (Cons l ls)
  then show ?case by (cases "l = i") auto
qed simp

lemma nth_stamp_rows:
  assumes "i < rows" "i < length stamps"
  shows "stamp_rows rows stamp dmg stamps ! i
       = (if i \<in> set (dirty_rows rows dmg) then stamp else stamps ! i)"
  using assms by (auto simp: stamp_rows_def dirty_rows_def nth_stamp_partial split: term_damage.split)

text \<open>The invariant of the stamp mechanism: no row carries a stamp from the future.\<close>

definition stamps_bounded :: "'p term_grid \<Rightarrow> bool" where
  "stamps_bounded g \<longleftrightarrow> list_all (\<lambda>s. s \<le> tg_stamp_counter g) (tg_row_stamps g)"

text \<open>One parser slice: feed it, then trim the dirty cells.\<close>

definition feed :: "'p vt_engine \<Rightarrow> u8 list \<Rightarrow> 'p term_grid \<Rightarrow> 'p term_grid" where
  "feed eng chunk h =
     enforce_retained_cell_text_budget eng (h\<lparr>tg_term := eng_advance eng chunk (tg_term h)\<rparr>)"

lemma feed_fields [simp]:
  "tg_cols (feed eng chunk h) = tg_cols h" "tg_rows (feed eng chunk h) = tg_rows h"
  "tg_row_stamps (feed eng chunk h) = tg_row_stamps h"
  "tg_stamp_counter (feed eng chunk h) = tg_stamp_counter h"
  "tg_generation (feed eng chunk h) = tg_generation h"
  "tg_revision (feed eng chunk h) = tg_revision h"
  by (simp_all add: feed_def enforce_retained_cell_text_budget_def)

lemma length_trim_row [simp]: "length (trim_row cols row) = length row"
  by (simp add: trim_row_def)

lemma rect_fold_trim:
  "rect r c scr \<Longrightarrow> set ls \<subseteq> {0..<r} \<Longrightarrow>
     rect r c (fold (\<lambda>row s. s[row := trim_row cols (s ! row)]) ls scr)"
proof (induction ls arbitrary: scr)
  case (Cons l ls)
  then show ?case by (simp add: rect_update rect_nth)
qed simp

lemma nth_fold_trim:
  "i \<notin> set ls \<Longrightarrow> fold (\<lambda>row s. s[row := trim_row cols (s ! row)]) ls scr ! i = scr ! i"
  by (induction ls arbitrary: scr) auto

lemma dirty_rows_subset: "set (dirty_rows rows dmg) \<subseteq> {0..<rows}"
  by (auto simp: dirty_rows_def split: term_damage.split)

lemma dirty_rows_reported:
  "i < rows \<Longrightarrow> i \<in> set (dirty_rows rows (eng_damage eng t)) \<longleftrightarrow> reported eng t i"
  by (auto simp: dirty_rows_def reported_def split: term_damage.split)

lemma feed_rect:
  assumes "engine_shape eng" "rect (tg_rows h) c (vt_screen (tg_term h))"
  shows "rect (tg_rows h) c (vt_screen (tg_term (feed eng chunk h)))"
  using assms dirty_rows_subset
  by (simp add: feed_def enforce_retained_cell_text_budget_def engine_shape_def rect_fold_trim)

lemma feed_reported:
  assumes "engine_reports eng"
  shows "reported eng (tg_term (feed eng chunk h)) i
       = reported eng (eng_advance eng chunk (tg_term h)) i"
  using assms
  by (simp add: feed_def enforce_retained_cell_text_budget_def reported_def engine_reports_def)

lemma feed_keeps:
  assumes "engine_reports eng" "rect (tg_rows h) c (vt_screen (tg_term h))" "i < tg_rows h"
    and "\<not> reported eng (tg_term (feed eng chunk h)) i"
  shows "free_line safe k (vt_screen (tg_term (feed eng chunk h)) ! i)
       = free_line safe k (vt_screen (tg_term h) ! i)"
proof -
  let ?t = "eng_advance eng chunk (tg_term h)"
  have quiet: "\<not> reported eng ?t i" using assms(4) feed_reported [OF assms(1)] by simp
  then have "i \<notin> set (dirty_rows (tg_rows h) (eng_damage eng ?t))"
    using assms(3) dirty_rows_reported by metis
  then have "vt_screen (tg_term (feed eng chunk h)) ! i = vt_screen ?t ! i"
    by (simp add: feed_def enforce_retained_cell_text_budget_def nth_fold_trim)
  with quiet assms(1,2,3) show ?thesis
    by (simp add: engine_reports_def rect_length)
qed

lemma fold_feed_fields [simp]:
  "tg_cols (fold (feed eng) cs h) = tg_cols h" "tg_rows (fold (feed eng) cs h) = tg_rows h"
  "tg_row_stamps (fold (feed eng) cs h) = tg_row_stamps h"
  "tg_stamp_counter (fold (feed eng) cs h) = tg_stamp_counter h"
  "tg_generation (fold (feed eng) cs h) = tg_generation h"
  "tg_revision (fold (feed eng) cs h) = tg_revision h"
  by (induction cs arbitrary: h) simp_all

lemma fold_feed_rect:
  assumes "engine_shape eng" "rect (tg_rows h) c (vt_screen (tg_term h))"
  shows "rect (tg_rows h) c (vt_screen (tg_term (fold (feed eng) cs h)))"
  using assms(2)
proof (induction cs arbitrary: h)
  case (Cons chunk cs)
  from Cons.IH [of "feed eng chunk h"] feed_rect [OF assms(1) Cons.prems] show ?case by simp
qed simp

lemma fold_feed_keeps:
  assumes eng: "engine_shape eng" "engine_reports eng"
    and "rect (tg_rows h) c (vt_screen (tg_term h))" "i < tg_rows h"
    and "\<not> reported eng (tg_term (fold (feed eng) cs h)) i"
  shows "\<not> (cs \<noteq> [] \<and> reported eng (tg_term h) i) \<and>
     free_line safe k (vt_screen (tg_term (fold (feed eng) cs h)) ! i)
       = free_line safe k (vt_screen (tg_term h) ! i)"
  using assms(3-)
proof (induction cs arbitrary: h)
  case (Cons chunk cs)
  let ?h = "feed eng chunk h"
  have rect: "rect (tg_rows ?h) c (vt_screen (tg_term ?h))"
    using feed_rect [OF eng(1) Cons.prems(1)] by simp
  have IH: "\<not> (cs \<noteq> [] \<and> reported eng (tg_term ?h) i)"
      "free_line safe k (vt_screen (tg_term (fold (feed eng) cs ?h)) ! i)
       = free_line safe k (vt_screen (tg_term ?h) ! i)"
    using Cons.IH [of ?h] rect Cons.prems(2,3) by simp_all
  then have quiet: "\<not> reported eng (tg_term ?h) i"
    using Cons.prems(3) by (cases cs) auto
  moreover from quiet have "\<not> reported eng (tg_term h) i"
    using eng(2) feed_reported [OF eng(2)] by (auto simp: engine_reports_def)
  ultimately show ?case
    using IH(2) feed_keeps [OF eng(2) Cons.prems(1,2)] by simp
qed simp

lemma advance_eq:
  "bytes \<noteq> [] \<Longrightarrow> advance eng fresh bytes g =
     bump_revision fresh (collect_row_damage eng (enforce_history_budget eng
       (fold (feed eng) (chunks_of MAX_PARSER_ADVANCE_BYTES bytes) g)))"
proof -
  have "(\<lambda>chunk h. enforce_retained_cell_text_budget eng
           (h\<lparr>tg_term := eng_advance eng chunk (tg_term h)\<rparr>)) = feed eng"
    by (simp add: feed_def fun_eq_iff)
  then show "bytes \<noteq> [] \<Longrightarrow> ?thesis" by (simp add: advance_def Let_def)
qed

lemma advance_nil: "advance eng fresh [] g = g"
  by (simp add: advance_def)

lemma collect_row_damage_fields [simp]:
  "tg_cols (collect_row_damage eng g) = tg_cols g"
  "tg_rows (collect_row_damage eng g) = tg_rows g"
  "tg_generation (collect_row_damage eng g) = tg_generation g"
  "tg_revision (collect_row_damage eng g) = tg_revision g"
  "tg_stamp_counter (collect_row_damage eng g) = tg_stamp_counter g + 1"
  "tg_term (collect_row_damage eng g) = eng_reset_damage eng (tg_term g)"
  "length (tg_row_stamps (collect_row_damage eng g)) = tg_rows g"
  by (simp_all add: collect_row_damage_def Let_def)

lemma enforce_history_budget_fields [simp]:
  "tg_cols (enforce_history_budget eng g) = tg_cols g"
  "tg_rows (enforce_history_budget eng g) = tg_rows g"
  "tg_generation (enforce_history_budget eng g) = tg_generation g"
  "tg_revision (enforce_history_budget eng g) = tg_revision g"
  "tg_row_stamps (enforce_history_budget eng g) = tg_row_stamps g"
  "tg_stamp_counter (enforce_history_budget eng g) = tg_stamp_counter g"
  "tg_term (enforce_history_budget eng g)
     = eng_update_history eng (history_budget (tg_cols g)) (tg_term g)"
  by (simp_all add: enforce_history_budget_def)

lemma collect_row_damage_stamp:
  assumes "length (tg_row_stamps g) = tg_rows g" "i < tg_rows g"
  shows "tg_row_stamps (collect_row_damage eng g) ! i =
     (if reported eng (tg_term g) i then tg_stamp_counter g + 1 else tg_row_stamps g ! i)"
  using assms by (simp add: collect_row_damage_def Let_def nth_stamp_rows dirty_rows_reported)

lemma advance_wf:
  assumes "engine_shape eng" "tg_wf g"
  shows "tg_wf (advance eng fresh bytes g)"
proof (cases "bytes = []")
  case False
  then show ?thesis
    using assms fold_feed_rect [OF assms(1), of g "tg_cols g"]
    by (simp add: tg_wf_def advance_eq engine_shape_def)
qed (use assms in \<open>simp add: advance_def\<close>)

lemma resize_eq:
  "\<not> (clamp_dim cols = tg_cols g \<and> clamp_dim rows = tg_rows g) \<Longrightarrow>
   resize eng fresh cols rows g =
     bump_revision fresh (collect_row_damage eng
       ((enforce_history_budget eng
           (g\<lparr>tg_cols := clamp_dim cols, tg_rows := clamp_dim rows,
              tg_term := eng_resize eng (clamp_dim cols) (clamp_dim rows) (tg_term g)\<rparr>))
        \<lparr>tg_row_stamps := replicate (clamp_dim rows) 0\<rparr>))"
  by (auto simp: resize_def Let_def)

lemma resize_same:
  "clamp_dim cols = tg_cols g \<Longrightarrow> clamp_dim rows = tg_rows g \<Longrightarrow> resize eng fresh cols rows g = g"
  by (simp add: resize_def)

lemma resize_wf:
  assumes "engine_shape eng" "tg_wf g"
  shows "tg_wf (resize eng fresh cols rows g)"
proof (cases "clamp_dim cols = tg_cols g \<and> clamp_dim rows = tg_rows g")
  case False
  then show ?thesis
    using assms clamp_dim_bounds [of cols] clamp_dim_bounds [of rows]
    by (simp add: tg_wf_def resize_eq engine_shape_def)
qed (use assms in \<open>simp add: resize_def\<close>)

lemma new_with_generation_wf:
  assumes "\<forall>c r. rect r c (vt_screen (blank c r))"
  shows "tg_wf (new_with_generation blank cols rows gen)"
  using assms clamp_dim_bounds by (simp add: tg_wf_def new_with_generation_def)

section \<open>Stamps track the rendering\<close>

datatype mutation = Advance "u8 list" | Resize u16 u16

definition mutate :: "'p vt_engine \<Rightarrow> session_generation \<Rightarrow> mutation \<Rightarrow> 'p term_grid \<Rightarrow> 'p term_grid" where
  "mutate eng fresh m g =
     (case m of
        Advance bytes \<Rightarrow> advance eng fresh bytes g
      | Resize cols rows \<Rightarrow> resize eng fresh cols rows g)"

text \<open>
  \<open>tracks g0 g\<close>: \<open>g\<close> is a later state of \<open>g0\<close>, and wherever their stamps agree on a row of the same
  geometry, the row renders the same.
\<close>

definition tracks :: "'p term_grid \<Rightarrow> 'p term_grid \<Rightarrow> bool" where
  "tracks g0 g \<longleftrightarrow>
     stamps_bounded g0 \<and> stamps_bounded g \<and> tg_stamp_counter g0 \<le> tg_stamp_counter g \<and>
     (tg_rows g0 = tg_rows g \<longrightarrow>
        (\<forall>safe k i. i < tg_rows g \<longrightarrow> tg_row_stamps g0 ! i = tg_row_stamps g ! i \<longrightarrow>
           free_line safe k (vt_screen (tg_term g0) ! i) =
           free_line safe k (vt_screen (tg_term g) ! i)))"

lemma stamps_bounded_nth:
  "stamps_bounded g \<Longrightarrow> i < length (tg_row_stamps g) \<Longrightarrow> tg_row_stamps g ! i \<le> tg_stamp_counter g"
  by (simp add: stamps_bounded_def list_all_length)

lemma u64_succ:
  assumes "(x :: u64) \<noteq> - 1"
  shows "x < x + 1"
proof -
  have "1 + x \<noteq> 0" using assms by (simp add: add_eq_0_iff)
  then have "unat (1 + x) = Suc (unat x)" by (rule unatSuc)
  then show ?thesis by (simp add: word_less_nat_alt add.commute)
qed

text \<open>One pass of \<^verbatim>\<open>collect_row_damage\<close> keeps the relation if the rows it does not stamp kept their look.\<close>

lemma collect_tracks:
  assumes tr: "tracks g0 g" and live: "tg_stamp_counter g \<noteq> - 1"
    and wf: "length (tg_row_stamps g0) = tg_rows g0" "length (tg_row_stamps h) = tg_rows h"
    and bounded: "stamps_bounded h" "tg_stamp_counter h = tg_stamp_counter g"
    and quiet: "\<And>safe k i. i < tg_rows h \<Longrightarrow> \<not> reported eng (tg_term h) i \<Longrightarrow>
        tg_rows h = tg_rows g \<and> tg_row_stamps h ! i = tg_row_stamps g ! i \<and>
        free_line safe k (vt_screen (eng_reset_damage eng (tg_term h)) ! i) =
        free_line safe k (vt_screen (tg_term g) ! i)"
  shows "tracks g0 (bump_revision fresh (collect_row_damage eng h))"
proof -
  let ?g = "bump_revision fresh (collect_row_damage eng h)"
  have up: "tg_stamp_counter g < tg_stamp_counter g + 1" using live by (rule u64_succ)
  have stamp: "tg_row_stamps ?g ! i = (if reported eng (tg_term h) i then tg_stamp_counter g + 1
                                        else tg_row_stamps h ! i)" if "i < tg_rows h" for i
    using that wf(2) bounded(2) by (simp add: collect_row_damage_stamp)
  have "stamps_bounded ?g"
    unfolding stamps_bounded_def list_all_length
    using stamps_bounded_nth [OF bounded(1)] stamp up wf(2) bounded(2) by fastforce
  moreover have "free_line safe k (vt_screen (tg_term g0) ! i) =
      free_line safe k (vt_screen (tg_term ?g) ! i)"
    if same: "tg_rows g0 = tg_rows h" and i: "i < tg_rows h"
      and eq: "tg_row_stamps g0 ! i = tg_row_stamps ?g ! i" for safe k i
  proof -
    have "tg_row_stamps g0 ! i \<le> tg_stamp_counter g"
      using tr stamps_bounded_nth [of g0 i] same i wf(1) by (force simp: tracks_def)
    then have "\<not> reported eng (tg_term h) i" using eq stamp [OF i] up by force
    with quiet [OF i] stamp [OF i] eq same i tr show ?thesis by (simp add: tracks_def)
  qed
  ultimately show ?thesis
    using tr up bounded(2) by (auto simp: tracks_def)
qed

lemma mutate_tracks:
  assumes eng: "engine_shape eng" "engine_reports eng"
    and tr: "tracks g0 g" and wf: "tg_wf g0" "tg_wf g" and live: "tg_stamp_counter g \<noteq> - 1"
  shows "tracks g0 (mutate eng fresh m g)"
proof (cases m)
  case (Advance bytes)
  let ?h = "enforce_history_budget eng (fold (feed eng) (chunks_of MAX_PARSER_ADVANCE_BYTES bytes) g)"
  have "tracks g0 (bump_revision fresh (collect_row_damage eng ?h))"
  proof (rule collect_tracks [OF tr live])
    show "stamps_bounded ?h" using tr by (simp add: tracks_def stamps_bounded_def)
  next
    fix safe k i
    assume i: "i < tg_rows ?h" and quiet: "\<not> reported eng (tg_term ?h) i"
    have "\<not> reported eng (tg_term (fold (feed eng) (chunks_of MAX_PARSER_ADVANCE_BYTES bytes) g)) i"
      using quiet eng(2) by (simp add: reported_def engine_reports_def)
    from fold_feed_keeps [OF eng _ _ this] i wf(2) eng(1)
    show "tg_rows ?h = tg_rows g \<and> tg_row_stamps ?h ! i = tg_row_stamps g ! i \<and>
        free_line safe k (vt_screen (eng_reset_damage eng (tg_term ?h)) ! i) =
        free_line safe k (vt_screen (tg_term g) ! i)"
      by (auto simp: engine_shape_def tg_wf_def)
  qed (use wf in \<open>simp_all add: tg_wf_def\<close>)
  with Advance tr show ?thesis
    by (cases "bytes = []") (simp_all add: mutate_def advance_eq advance_nil)
next
  case (Resize cols rows)
  show ?thesis
  proof (cases "clamp_dim cols = tg_cols g \<and> clamp_dim rows = tg_rows g")
    case True
    with Resize tr show ?thesis by (simp add: mutate_def resize_def)
  next
    case False
    let ?h = "(enforce_history_budget eng
           (g\<lparr>tg_cols := clamp_dim cols, tg_rows := clamp_dim rows,
              tg_term := eng_resize eng (clamp_dim cols) (clamp_dim rows) (tg_term g)\<rparr>))
        \<lparr>tg_row_stamps := replicate (clamp_dim rows) 0\<rparr>"
    have "tracks g0 (bump_revision fresh (collect_row_damage eng ?h))"
      by (rule collect_tracks [OF tr live])
        (use wf eng(2) in \<open>simp_all add: tg_wf_def stamps_bounded_def list_all_iff reported_def
            engine_reports_def\<close>)
    with False Resize show ?thesis by (simp add: mutate_def resize_eq)
  qed
qed

lemma mutate_wf:
  "engine_shape eng \<Longrightarrow> tg_wf g \<Longrightarrow> tg_wf (mutate eng fresh m g)"
  by (cases m) (simp_all add: mutate_def advance_wf resize_wf)

lemma mutate_counter:
  "tg_stamp_counter (mutate eng fresh m g) = tg_stamp_counter g \<or>
   tg_stamp_counter (mutate eng fresh m g) = tg_stamp_counter g + 1"
proof (cases m)
  case (Advance bytes)
  then show ?thesis
    by (cases "bytes = []") (simp_all add: mutate_def advance_eq advance_nil)
next
  case (Resize cols rows)
  then show ?thesis
    by (cases "clamp_dim cols = tg_cols g \<and> clamp_dim rows = tg_rows g")
      (simp_all add: mutate_def resize_eq resize_same)
qed

text \<open>A sequence of committed mutations, each with the generation it would mint on overflow.\<close>

definition run_mutations ::
  "'p vt_engine \<Rightarrow> (session_generation \<times> mutation) list \<Rightarrow> 'p term_grid \<Rightarrow> 'p term_grid" where
  "run_mutations eng ms g = fold (\<lambda>(fresh, m). mutate eng fresh m) ms g"

lemma run_mutations_wf:
  "engine_shape eng \<Longrightarrow> tg_wf g \<Longrightarrow> tg_wf (run_mutations eng ms g)"
  by (induction ms arbitrary: g) (auto simp: run_mutations_def mutate_wf)

lemma run_mutations_tracks:
  assumes eng: "engine_shape eng" "engine_reports eng"
    and "tracks g0 g" "tg_wf g0" "tg_wf g"
    and "unat (tg_stamp_counter g) + length ms < 2 ^ 64"
  shows "tracks g0 (run_mutations eng ms g)"
  using assms(3-)
proof (induction ms arbitrary: g)
  case (Cons fm ms)
  obtain fresh m where fm: "fm = (fresh, m)" by (cases fm)
  let ?g = "mutate eng fresh m g"
  have "unat (tg_stamp_counter g) \<noteq> 2 ^ 64 - 1" using Cons.prems(4) by simp
  then have live: "tg_stamp_counter g \<noteq> - 1" by (metis unat_max_u64)
  then have "unat (tg_stamp_counter ?g) \<le> Suc (unat (tg_stamp_counter g))"
    using mutate_counter [of eng fresh m g] by (auto simp: unat_word_ariths)
  then have "unat (tg_stamp_counter ?g) + length ms < 2 ^ 64" using Cons.prems(4) by simp
  moreover have "tracks g0 ?g"
    using mutate_tracks [OF eng] Cons.prems live by blast
  ultimately have "tracks g0 (run_mutations eng ms ?g)"
    using Cons.IH Cons.prems mutate_wf [OF eng(1)] by blast
  then show ?case by (simp add: fm run_mutations_def)
qed (simp add: run_mutations_def)

lemma tracks_refl: "stamps_bounded g \<Longrightarrow> tracks g g"
  by (simp add: tracks_def)

text \<open>The window's links fit the frame budget, so no row's links depend on another row.\<close>

definition links_fit :: "(string \<Rightarrow> bool) \<Rightarrow> 'p term_grid \<Rightarrow> bool" where
  "links_fit safe g \<longleftrightarrow>
     (\<Sum>row\<leftarrow>vt_screen (tg_term g). row_links (free_line safe (tg_cols g) row))
       \<le> MAX_TERMINAL_LINK_CELLS_PER_FRAME"

lemma screen_lines:
  assumes "tg_wf g"
  shows "map (line_at (tg_term g)) (map (\<lambda>i. 0 + int i) [0..<tg_rows g]) = vt_screen (tg_term g)"
  using assms by (auto simp: line_at_def tg_wf_def rect_def intro!: nth_equalityI)

lemma snapshot_rows_free:
  assumes "tg_wf g" "links_fit safe g"
  shows "gs_rows_cells (snapshot safe g) = map (free_line safe (tg_cols g)) (vt_screen (tg_term g))"
  unfolding snapshot_window screen_lines [OF assms(1)]
  using assms(2) by (intro lines_to_cells_free) (simp add: links_fit_def)

lemma tracks_stamps_sound:
  assumes "tracks g0 g" "tg_wf g0" "tg_wf g" "links_fit safe g0" "links_fit safe g"
    and "tg_cols g0 = tg_cols g"
  shows "stamps_sound (snapshot safe g0) (snapshot safe g)"
  using assms
  by (auto simp: stamps_sound_def list_all_iff tracks_def snapshot_rows_free tg_wf_def rect_def)

lemma bump_revision_cases:
  "(tg_generation (bump_revision fresh g) = tg_generation g \<and>
      unat (tg_revision (bump_revision fresh g)) = Suc (unat (tg_revision g)) \<and>
      tg_base_revision (bump_revision fresh g) = tg_revision g) \<or>
   (tg_revision g = - 1 \<and> tg_generation (bump_revision fresh g) = fresh \<and>
      tg_revision (bump_revision fresh g) = 0 \<and> tg_base_revision (bump_revision fresh g) = 0)"
proof (cases "revision_next (tg_revision g)")
  case None
  then have "\<not> unat (tg_revision g) + 1 < 2 ^ 64"
    by (simp add: revision_next_def checked_add_u64_def split: if_splits)
  then have "unat (tg_revision g) = unat (- 1 :: u64)"
    using unat_u64_less [of "tg_revision g"] by (simp del: unat_u64_less)
  then have "tg_revision g = - 1" by (simp only: word_unat_eq_iff)
  with None show ?thesis by (simp add: bump_revision_def)
next
  case (Some nxt)
  moreover have "unat nxt = Suc (unat (tg_revision g))"
    using Some checked_add_u64_one by (simp add: revision_next_def)
  ultimately show ?thesis by (simp add: bump_revision_def)
qed

lemma mutate_revision:
  "mutate eng fresh m g = g \<or>
   (tg_generation (mutate eng fresh m g) = tg_generation g \<and>
      unat (tg_revision (mutate eng fresh m g)) = Suc (unat (tg_revision g)) \<and>
      tg_base_revision (mutate eng fresh m g) = tg_revision g) \<or>
   (tg_revision g = - 1 \<and> tg_generation (mutate eng fresh m g) = fresh \<and>
      tg_revision (mutate eng fresh m g) = 0 \<and> tg_base_revision (mutate eng fresh m g) = 0)"
proof (cases m)
  case (Advance bytes)
  then show ?thesis
    using bump_revision_cases [of fresh "collect_row_damage eng (enforce_history_budget eng
        (fold (feed eng) (chunks_of MAX_PARSER_ADVANCE_BYTES bytes) g))"]
    by (cases "bytes = []") (simp_all add: mutate_def advance_eq advance_nil)
next
  case (Resize cols rows)
  then show ?thesis
    using bump_revision_cases [of fresh "collect_row_damage eng
       ((enforce_history_budget eng
           (g\<lparr>tg_cols := clamp_dim cols, tg_rows := clamp_dim rows,
              tg_term := eng_resize eng (clamp_dim cols) (clamp_dim rows) (tg_term g)\<rparr>))
        \<lparr>tg_row_stamps := replicate (clamp_dim rows) 0\<rparr>)"]
    by (cases "clamp_dim cols = tg_cols g \<and> clamp_dim rows = tg_rows g")
      (simp_all add: mutate_def resize_eq resize_same)
qed

section \<open>Trimming and scrollback\<close>

lemma trim_flags [simp]:
  "vc_flags (trim_alacritty_cell_text c) = vc_flags c"
  "vc_c (trim_alacritty_cell_text c) = vc_c c"
  "vc_fg (trim_alacritty_cell_text c) = vc_fg c" "vc_bg (trim_alacritty_cell_text c) = vc_bg c"
  "vc_hyperlink (trim_alacritty_cell_text c) = vc_hyperlink c"
  by (simp_all add: trim_alacritty_cell_text_def Let_def split_beta split: option.split)

lemma trim_row_map:
  "cols \<le> length row \<Longrightarrow>
     trim_row cols row = map trim_alacritty_cell_text (take cols row) @ drop cols row"
proof (induction cols)
  case (Suc n)
  then have "trim_row (Suc n) row
      = (map trim_alacritty_cell_text (take n row) @ drop n row)
          [n := trim_alacritty_cell_text (row ! n)]"
    by (simp add: trim_row_def nth_append)
  with Suc show ?case
    by (simp add: take_Suc_conv_app_nth list_update_append Cons_nth_drop_Suc [symmetric])
qed (simp add: trim_row_def)

lemma trim_text:
  fixes base c
  defines "base \<equiv> encode_utf8 (if vc_c c = 0 then 32 else vc_c c)"
  shows "(case vc_zerowidth (trim_alacritty_cell_text c) of
            None \<Rightarrow> base | Some zws \<Rightarrow> append_zerowidth_capped base zws)
       = (case vc_zerowidth c of None \<Rightarrow> base | Some zws \<Rightarrow> append_zerowidth_capped base zws)"
proof -
  have "length base = (if vc_c c = 0 then 1 else len_utf8 (vc_c c))"
    by (simp add: base_def len_utf8_def)
  then show ?thesis
    using append_zerowidth_capped_keep_marks [of base]
    by (cases "vc_c c = 0")
      (simp_all add: trim_alacritty_cell_text_def Let_def split_beta split: option.split)
qed

lemma wire_cell_trim:
  assumes "length row = cols" "col < cols"
  shows "wire_cell safe (trim_row cols row) cols col remaining = wire_cell safe row cols col remaining"
proof -
  have trimmed: "trim_row cols row = map trim_alacritty_cell_text row"
    using assms by (simp add: trim_row_map)
  have flags: "vc_flags (trim_row cols row ! j) = vc_flags (row ! j)" if "j < cols" for j
    using that assms(1) by (simp add: trimmed)
  have shape: "wide_lead (trim_row cols row) cols col = wide_lead row cols col"
      "wide_spacer (trim_row cols row) col = wide_spacer row col"
      "malformed_wide_boundary (trim_row cols row) cols col = malformed_wide_boundary row cols col"
    using flags assms(2) by (auto simp: wide_defs)
  have cell: "trim_row cols row ! col = trim_alacritty_cell_text (row ! col)"
    using assms by (simp add: trimmed)
  show ?thesis
    unfolding wire_cell_def shape cell Let_def trim_flags trim_text ..
qed

lemma emit_cells_cong:
  assumes "\<And>col n. col \<in> set cs \<Longrightarrow> wire_cell safe row cols col n = wire_cell safe row' cols col n"
  shows "emit_cells safe row cols cs remaining = emit_cells safe row' cols cs remaining"
  using assms by (induction cs arbitrary: remaining) (simp_all add: split_beta Let_def)

lemma line_to_cells_trim:
  "length row = cols \<Longrightarrow>
     line_to_cells safe (trim_row cols row) cols remaining = line_to_cells safe row cols remaining"
  unfolding line_to_cells_def by (rule emit_cells_cong) (simp add: wire_cell_trim)

lemma lines_to_cells_text:
  assumes "line \<in> set (lines_to_cells safe rows cols remaining)" "c \<in> set line"
  shows "length (cell_text c) \<le> MAX_CELL_TEXT_BYTES"
proof -
  obtain row r where line: "line = fst (line_to_cells safe row cols r)"
    using assms(1) by (rule lines_to_cells_member)
  obtain i where "i < cols" "c = line ! i"
    using assms(2) line by (metis in_set_conv_nth length_line_to_cells)
  with line line_to_cells_nth [of i cols safe row r] wire_cell_text_le show ?thesis by metis
qed

section \<open>A concrete engine\<close>

text \<open>
  An engine that satisfies both contracts, for the concrete instances of the properties: it keeps
  its damage in \<open>vt_private\<close>.
\<close>

definition plain_flags :: cell_flags where
  "plain_flags = \<lparr>WIDE_CHAR = False, WIDE_CHAR_SPACER = False, LEADING_WIDE_CHAR_SPACER = False,
     WRAPLINE = False, HIDDEN = False, BOLD = False, ITALIC = False, INVERSE = False,
     STRIKEOUT = False, DIM = False, UNDERLINE = False, DOUBLE_UNDERLINE = False,
     UNDERCURL = False, DOTTED_UNDERLINE = False, DASHED_UNDERLINE = False\<rparr>"

definition glyph :: "string option \<Rightarrow> vt_cell" where
  "glyph link = \<lparr>vc_c = 120, vc_zerowidth = None, vc_flags = plain_flags,
     vc_fg = Named Foreground, vc_bg = Named Background, vc_hyperlink = link\<rparr>"

text \<open>Each chunk of output removes the links of row 0 and damages that row.\<close>

definition unlink_engine :: "nat vt_engine" where
  "unlink_engine =
     \<lparr>eng_advance = (\<lambda>bytes t.
        t\<lparr>vt_screen := (case vt_screen t of
                           [] \<Rightarrow> []
                         | row # rows \<Rightarrow> map (\<lambda>c. c\<lparr>vc_hyperlink := None\<rparr>) row # rows),
          vt_private := max 1 (vt_private t)\<rparr>),
      eng_resize = (\<lambda>c r t.
        t\<lparr>vt_screen := replicate r (replicate c (glyph None)), vt_private := 2\<rparr>),
      eng_update_history = (\<lambda>n t. t),
      eng_damage = (\<lambda>t.
        if vt_private t = 0 then PartialDamage []
        else if vt_private t = 1 then PartialDamage [0] else FullDamage),
      eng_reset_damage = (\<lambda>t. t\<lparr>vt_private := 0\<rparr>)\<rparr>"

definition no_modes :: mode_state where
  "no_modes = \<lparr>ms_alt_screen = False, ms_app_cursor = False, ms_bracketed_paste = False,
     ms_focus_reporting = False, ms_mouse_report = False, ms_mouse_drag = False,
     ms_mouse_motion = False, ms_mouse_sgr = False\<rparr>"

lemma unlink_engine_contract: "engine_shape unlink_engine" "engine_reports unlink_engine"
proof -
  show "engine_shape unlink_engine"
    by (auto simp: unlink_engine_def engine_shape_def rect_def split: list.split)
  show "engine_reports unlink_engine"
    by (auto simp: unlink_engine_def engine_reports_def reported_def nth_Cons
        split: list.splits nat.splits if_splits)
qed

definition blank_term :: "nat \<Rightarrow> nat \<Rightarrow> nat vt_term" where
  "blank_term c r =
     \<lparr>vt_history = [], vt_screen = replicate r (replicate c (glyph None)), vt_cursor_line = 0,
      vt_cursor_col = 0, vt_cursor_shape = Block, vt_modes = no_modes, vt_show_cursor = True,
      vt_private = 0\<rparr>"

definition demo_term_grid :: "nat term_grid" where
  "demo_term_grid = new_with_generation blank_term 2 1 ''g''"

lemma blank_term_rect: "\<forall>c r. rect r c (vt_screen (blank_term c r))"
  by (simp add: blank_term_def rect_def)

lemma demo_term_grid_wf: "tg_wf demo_term_grid"
  unfolding demo_term_grid_def by (rule new_with_generation_wf [OF blank_term_rect])

section \<open>Properties of the daemon's grid\<close>

text \<open>
  C6: Whatever the engine put on its screen, the snapshot the daemon publishes is well formed: a
  rectangle of the announced size, every cell valid with at most 64 bytes of text, wide glyphs
  always followed by their spacer, at most 256 linked cells, copy metadata that matches the cells,
  and a cursor inside the grid.
\<close>

theorem snapshot_always_well_formed:
  assumes "tg_wf g"
  shows "wf_snapshot (snapshot safe g) \<and>
     list_all (list_all (\<lambda>c. length (cell_text c) \<le> MAX_CELL_TEXT_BYTES))
       (gs_rows_cells (snapshot safe g))"
  using snapshot_wf [OF assms] lines_to_cells_text
  by (auto simp: list_all_iff snapshot_window(1))

theorem snapshot_always_well_formed_witness: "wf_snapshot (snapshot (\<lambda>_. True) demo_term_grid)"
  using snapshot_always_well_formed [OF demo_term_grid_wf] by blast

text \<open>
  A grid keeps its shape through every sequence of output chunks and resizes, including client
  dimensions of 0 or 65535: its size stays within 1 and 2000, screen and stamps match it, and the
  snapshot taken at the end is well formed again.
\<close>

theorem mutations_keep_grid_well_formed:
  assumes "engine_shape eng" "\<forall>c r. rect r c (vt_screen (blank c r))"
  shows "tg_wf (run_mutations eng ms (new_with_generation blank cols rows gen)) \<and>
     wf_snapshot (snapshot safe (run_mutations eng ms (new_with_generation blank cols rows gen)))"
  using run_mutations_wf [OF assms(1) new_with_generation_wf [OF assms(2)]] snapshot_wf by blast

theorem mutations_keep_grid_well_formed_witness:
  "tg_wf (run_mutations unlink_engine [(''h'', Advance [104, 105]), (''i'', Resize 0 65535)]
            (new_with_generation blank_term 80 24 ''g''))"
  using mutations_keep_grid_well_formed [OF unlink_engine_contract(1) blank_term_rect] by blast

text \<open>
  Every committed mutation is visible in the revision: it either leaves the grid untouched (no
  bytes, or a resize to the current size), or advances the revision by exactly one inside the same
  generation with the old revision as base, or, at the 64-bit ceiling, starts the freshly minted
  generation at revision 0. A revision is never reused within a generation.
\<close>

theorem mutation_advances_revision:
  "mutate eng fresh m g = g \<or>
   (tg_generation (mutate eng fresh m g) = tg_generation g \<and>
      unat (tg_revision (mutate eng fresh m g)) = Suc (unat (tg_revision g)) \<and>
      tg_base_revision (mutate eng fresh m g) = tg_revision g) \<or>
   (tg_revision g = - 1 \<and> tg_generation (mutate eng fresh m g) = fresh \<and>
      tg_revision (mutate eng fresh m g) = 0 \<and> tg_base_revision (mutate eng fresh m g) = 0)"
  by (rule mutate_revision)

text \<open>
  The daemon bounds the memory of combining marks without a visible effect: trimming the cells of
  a line to 64 bytes of text changes nothing in how the line is projected to the wire.
\<close>

theorem trimming_is_invisible:
  assumes "length row = cols"
  shows "line_to_cells safe (trim_row cols row) cols remaining = line_to_cells safe row cols remaining"
  using assms by (rule line_to_cells_trim)

theorem trimming_is_invisible_witness:
  "line_to_cells (\<lambda>_. True) (trim_row 1 [(glyph None)\<lparr>vc_zerowidth := Some (replicate 100 769)\<rparr>]) 1 0
     = line_to_cells (\<lambda>_. True) [(glyph None)\<lparr>vc_zerowidth := Some (replicate 100 769)\<rparr>] 1 0"
  by (rule trimming_is_invisible) simp

text \<open>
  C39: A scrollback read never exceeds its budgets and is internally consistent: at most 256 rows
  and no more cells than one line of the protocol can carry, an offset clamped into history, full
  rows of valid cells, and copy metadata that matches them.
\<close>

theorem scrollback_bounded_and_consistent:
  assumes "tg_wf g"
  shows "let r = scrollback safe g offset_from_top count in
     length (sb_rows r) \<le> MAX_SCROLLBACK_ROWS_PER_REQUEST \<and>
     length (sb_rows r) * tg_cols g \<le> MAX_SNAPSHOT_CELLS \<and>
     sb_offset_from_top r \<le> sb_history_len r \<and>
     sb_offset_from_top r \<le> unat offset_from_top \<and>
     list_all (\<lambda>row. length row = tg_cols g) (sb_rows r) \<and>
     list_all (list_all cell_is_valid) (sb_rows r) \<and> list_all wide_pairs (sb_rows r) \<and>
     terminal_link_cells_within_cap (sb_rows r) \<and>
     row_copy_cells_valid (sb_rows r) (sb_row_copy r)"
proof -
  let ?t = "tg_term g" and ?cols = "tg_cols g"
  define off where "off = min (unat offset_from_top) (length (vt_history ?t))"
  define n where "n = min (min (min (unat count) MAX_SCROLLBACK_ROWS_PER_REQUEST)
      (MAX_SNAPSHOT_CELLS div ?cols)) (off + tg_rows g)"
  define ls where "ls = map (\<lambda>i. - int off + int i) [0..<n]"
  have cols: "0 < ?cols" "?cols \<le> 2000" using assms by (simp_all add: tg_wf_def)
  have r: "sb_rows (scrollback safe g offset_from_top count)
        = lines_to_cells safe (map (line_at ?t) ls) ?cols MAX_TERMINAL_LINK_CELLS_PER_FRAME"
      "sb_row_copy (scrollback safe g offset_from_top count)
        = Some (map (\<lambda>line. line_copy_metadata ?t line ?cols) ls)"
      "sb_offset_from_top (scrollback safe g offset_from_top count) = off"
      "sb_history_len (scrollback safe g offset_from_top count) = length (vt_history ?t)"
    using cols by (simp_all add: scrollback_def Let_def ls_def n_def off_def)
  have "n * ?cols \<le> (MAX_SNAPSHOT_CELLS div ?cols) * ?cols"
    by (intro mult_right_mono) (simp_all add: n_def)
  then have "n * ?cols \<le> MAX_SNAPSHOT_CELLS"
    using div_times_less_eq_dividend [of MAX_SNAPSHOT_CELLS ?cols] by linarith
  moreover have "row_copy_cells_valid
      (lines_to_cells safe (map (line_at ?t) ls) ?cols MAX_TERMINAL_LINK_CELLS_PER_FRAME)
      (Some (map (\<lambda>line. line_copy_metadata ?t line ?cols) ls))"
  proof (cases "n = 0")
    case True
    then show ?thesis by (simp add: ls_def row_copy_cells_valid_def row_copy_valid_def)
  next
    case False
    then show ?thesis
      unfolding ls_def using cols
      by (intro window_copy_valid) (simp_all add: topmost_line_def off_def)
  qed
  moreover have "length ls = n" by (simp add: ls_def)
  moreover have "n \<le> MAX_SCROLLBACK_ROWS_PER_REQUEST" "off \<le> length (vt_history ?t)"
      "off \<le> unat offset_from_top"
    by (simp_all add: n_def off_def)
  moreover have "list_all (\<lambda>row. length row = ?cols) (lines_to_cells safe (map (line_at ?t) ls) ?cols
      MAX_TERMINAL_LINK_CELLS_PER_FRAME)"
    using lines_to_cells_rect [of "map (line_at ?t) ls" ?cols safe MAX_TERMINAL_LINK_CELLS_PER_FRAME]
    by (simp add: rect_def list_all_iff)
  ultimately show ?thesis
    by (simp add: r lines_to_cells_valid lines_to_cells_wide_pairs lines_to_cells_within_cap)
qed

theorem scrollback_bounded_and_consistent_witness:
  "length (sb_rows (scrollback (\<lambda>_. True) demo_term_grid 7 9)) \<le> MAX_SCROLLBACK_ROWS_PER_REQUEST"
  using scrollback_bounded_and_consistent [OF demo_term_grid_wf] by (simp add: Let_def)

text \<open>
  C5: The row stamps are an honest hint. However many mutations lie between two snapshots, as long
  as they are fewer than the 64-bit counter can count and both screens stay within the hyperlink
  budget, rows with equal stamps are equal, so diffing only the rows with different stamps loses
  nothing: the hinted change test agrees with the full comparison.
\<close>

theorem stamps_sound_after_mutations:
  assumes "engine_shape eng" "engine_reports eng" "tg_wf g0" "stamps_bounded g0"
    and "unat (tg_stamp_counter g0) + length ms < 2 ^ 64"
    and "links_fit safe g0" "links_fit safe (run_mutations eng ms g0)"
    and "tg_cols (run_mutations eng ms g0) = tg_cols g0"
    and "tg_rows (run_mutations eng ms g0) = tg_rows g0"
  shows "let prev = snapshot safe g0; nxt = snapshot safe (run_mutations eng ms g0) in
     stamps_sound prev nxt \<and>
     (grid_changed_hinted prev nxt (candidate_rows prev nxt) \<longleftrightarrow>
        gs_rows_cells prev \<noteq> gs_rows_cells nxt)"
proof -
  let ?g = "run_mutations eng ms g0"
  have wf: "tg_wf ?g" using assms by (simp add: run_mutations_wf)
  have sound: "stamps_sound (snapshot safe g0) (snapshot safe ?g)"
    using run_mutations_tracks [OF assms(1,2) tracks_refl [OF assms(4)] assms(3,3,5)] wf assms
    by (intro tracks_stamps_sound) simp_all
  have "same_shape (tg_rows g0) (tg_cols g0) (gs_rows_cells (snapshot safe g0))
      (gs_rows_cells (snapshot safe ?g))"
    using snapshot_wf [OF assms(3), of safe] snapshot_wf [OF wf, of safe] assms(8,9)
    by (simp add: wf_snapshot_def same_shape_def)
  from sound grid_changed_hinted_iff [OF this sound] show ?thesis by (simp add: Let_def)
qed

lemma demo_links_fit:
  "links_fit safe demo_term_grid" "links_fit safe (run_mutations unlink_engine [(''h'', Advance [0])] demo_term_grid)"
  "tg_cols (run_mutations unlink_engine [(''h'', Advance [0])] demo_term_grid) = tg_cols demo_term_grid"
  "tg_rows (run_mutations unlink_engine [(''h'', Advance [0])] demo_term_grid) = tg_rows demo_term_grid"
  "stamps_bounded demo_term_grid" "tg_stamp_counter demo_term_grid = 0"
proof -
  have dims: "tg_cols (advance unlink_engine ''h'' [0] demo_term_grid) = tg_cols demo_term_grid"
      "tg_rows (advance unlink_engine ''h'' [0] demo_term_grid) = tg_rows demo_term_grid"
    by (simp_all add: advance_eq)
  have small: "links_fit safe g" if "tg_wf g" "tg_rows g * tg_cols g \<le> 256" for g :: "nat term_grid"
  proof -
    have "row_links (free_line safe (tg_cols g) row) \<le> tg_cols g" for row
      using length_filter_le [of "\<lambda>c. cell_hyperlink c \<noteq> None" "free_line safe (tg_cols g) row"]
      by (simp add: row_links_def free_line_def)
    then have "(\<Sum>row\<leftarrow>vt_screen (tg_term g). row_links (free_line safe (tg_cols g) row))
        \<le> (\<Sum>row\<leftarrow>vt_screen (tg_term g). tg_cols g)"
      by (intro sum_list_mono) simp
    also have "\<dots> = tg_rows g * tg_cols g"
      using \<open>tg_wf g\<close> by (simp add: sum_list_triv tg_wf_def rect_def)
    finally show ?thesis
      using that by (simp add: links_fit_def MAX_TERMINAL_LINK_CELLS_PER_FRAME_def)
  qed
  have size: "tg_rows demo_term_grid * tg_cols demo_term_grid \<le> 256"
    by (simp add: demo_term_grid_def new_with_generation_def clamp_dim_def GRID_MAX_DIMENSION_def
        min_def max_def word_le_nat_alt)
  show "links_fit safe demo_term_grid" by (rule small [OF demo_term_grid_wf size])
  show "links_fit safe (run_mutations unlink_engine [(''h'', Advance [0])] demo_term_grid)"
    using small [OF advance_wf [OF unlink_engine_contract(1) demo_term_grid_wf]] size dims
    by (simp add: run_mutations_def mutate_def)
  show "tg_cols (run_mutations unlink_engine [(''h'', Advance [0])] demo_term_grid) = tg_cols demo_term_grid"
    "tg_rows (run_mutations unlink_engine [(''h'', Advance [0])] demo_term_grid) = tg_rows demo_term_grid"
    using dims by (simp_all add: run_mutations_def mutate_def)
  show "stamps_bounded demo_term_grid" "tg_stamp_counter demo_term_grid = 0"
    by (simp_all add: demo_term_grid_def new_with_generation_def stamps_bounded_def list_all_iff)
qed

theorem stamps_sound_after_mutations_witness:
  "stamps_sound (snapshot (\<lambda>_. True) demo_term_grid)
     (snapshot (\<lambda>_. True) (run_mutations unlink_engine [(''h'', Advance [0])] demo_term_grid))"
  using stamps_sound_after_mutations [OF unlink_engine_contract demo_term_grid_wf demo_links_fit(5) _
      demo_links_fit(1-4)]
  by (simp add: Let_def demo_links_fit(6))

end
