(* ===== verification/Renderer_Sync.thy ===== *)
theory Renderer_Sync
  imports Wire
begin

text \<open>
  The renderer's synchronization state machine, \<^verbatim>\<open>maestro-renderer/src/sync.rs\<close>: the gate every
  daemon event passes before it may touch the painted grid. \<open>sync_state\<close> is \<^verbatim>\<open>SyncState\<close>; a
  method with \<^verbatim>\<open>&mut self\<close> returns the new state beside its result. \<^verbatim>\<open>on_output\<close> and its helper
  exist only under \<^verbatim>\<open>#[cfg(test)]\<close> and are not part of the running program; the
  \<^verbatim>\<open>highest_seen\<close> field they feed is kept, since \<^verbatim>\<open>settle_pending_after_grid\<close> reads it.
\<close>

section \<open>Types\<close>

datatype reject =
    WrongSession
  | UnsupportedVersion u32
  | InvalidDimensions string
  | InvalidWideLayout nat nat
  | RetiredGeneration
  | StaleRevision revision revision
  | SessionEnded
  | DamageInvalid damage_invalid
  | DamageNotApplicable string
  | DamageRevisionGap revision revision

datatype sync_phase = AwaitingBaseline | Synchronized | AwaitingResync | Exited

datatype action = ActionNone | ActionExited

record grid_outcome =
  go_repaint :: bool
  go_request_snapshot :: bool

datatype damage_outcome = Applied grid_snapshot | Ignore | Resync reject

record sync_state =
  ss_session_id :: string
  ss_phase :: sync_phase
  ss_current :: "(session_generation \<times> revision) option"
  ss_retired :: "session_generation set"
  ss_request_in_flight :: bool
  ss_highest_seen :: "(session_generation \<times> revision) option"

definition SUPPORTED_VERSION :: u32 where "SUPPORTED_VERSION = 2"
definition MAX_DIMENSION :: nat where "MAX_DIMENSION = 2000"

definition new_sync :: "string \<Rightarrow> sync_state" where
  "new_sync session_id =
     \<lparr>ss_session_id = session_id, ss_phase = AwaitingBaseline, ss_current = None,
      ss_retired = {}, ss_request_in_flight = False, ss_highest_seen = None\<rparr>"

section \<open>Structural checks of a snapshot\<close>

definition validate_dimensions :: "grid_snapshot \<Rightarrow> reject + unit" where
  "validate_dimensions snap =
     (if gs_cols snap = 0 \<or> gs_rows snap = 0
        then Inl (InvalidDimensions ''zero cols or rows'')
      else if gs_cols snap > MAX_DIMENSION \<or> gs_rows snap > MAX_DIMENSION
        then Inl (InvalidDimensions ''cols or rows exceed maximum'')
      else if length (gs_rows_cells snap) \<noteq> gs_rows snap
        then Inl (InvalidDimensions ''rows_cells length != rows'')
      else if list_ex (\<lambda>r. length r \<noteq> gs_cols snap) (gs_rows_cells snap)
        then Inl (InvalidDimensions ''a row's cell count != cols'')
      else if \<not> terminal_link_cells_within_cap (gs_rows_cells snap)
        then Inl (InvalidDimensions ''terminal hyperlink cell cap exceeded'')
      else Inr ())"

text \<open>
  The inner \<^verbatim>\<open>while\<close> of \<^verbatim>\<open>validate_wide_layout\<close> walks one row: \<open>col\<close> is the loop variable and the
  list argument is \<^verbatim>\<open>row[col..]\<close>.
\<close>

fun wide_row :: "nat \<Rightarrow> nat \<Rightarrow> cell list \<Rightarrow> reject + unit" where
  "wide_row row_idx col [] = Inr ()"
| "wide_row row_idx col (c # rest) =
     (if cell_width c = 2 then
        (case rest of
           [] \<Rightarrow> Inl (InvalidWideLayout row_idx col)
         | s # rest' \<Rightarrow>
             if cell_width s \<noteq> 0 then Inl (InvalidWideLayout row_idx col)
             else wide_row row_idx (col + 2) rest')
      else if cell_width c = 0 then Inl (InvalidWideLayout row_idx col)
      else wide_row row_idx (col + 1) rest)"

fun wide_rows :: "nat \<Rightarrow> cells \<Rightarrow> reject + unit" where
  "wide_rows row_idx [] = Inr ()"
| "wide_rows row_idx (row # rows) =
     res_bind (wide_row row_idx 0 row) (\<lambda>_. wide_rows (Suc row_idx) rows)"

definition validate_wide_layout :: "grid_snapshot \<Rightarrow> reject + unit" where
  "validate_wide_layout snap = wide_rows 0 (gs_rows_cells snap)"

section \<open>Applying damage to a scratch grid\<close>

text \<open>
  \<^verbatim>\<open>apply_scroll_op\<close>: whole rows move in place, forward for up and in reverse for down, each
  destination reading whatever the list holds at that moment.
\<close>

definition apply_scroll_op :: "cells \<Rightarrow> nat \<Rightarrow> nat \<Rightarrow> nat \<Rightarrow> bool \<Rightarrow> string + cells" where
  "apply_scroll_op rows_cells rtop bottom_exclusive lines up =
     (if \<not> (rtop < bottom_exclusive \<and> bottom_exclusive \<le> length rows_cells \<and> lines > 0)
         \<or> lines > bottom_exclusive - rtop
        then Inl ''scroll region out of bounds''
      else if up
        then Inr (fold (\<lambda>i rs. rs[i := rs ! (i + lines)]) [rtop..<bottom_exclusive - lines] rows_cells)
      else Inr (fold (\<lambda>i rs. rs[i := rs ! (i - lines)])
                  (rev [rtop + lines..<bottom_exclusive]) rows_cells))"

fun apply_op :: "cells \<Rightarrow> damage_op \<Rightarrow> string + cells" where
  "apply_op rows (ClearAll c) = Inr (map (map (\<lambda>_. c)) rows)"
| "apply_op rows (RowSpan row start cells) =
     (if unat row \<ge> length rows then Inl ''RowSpan row past held grid''
      else case checked_add_usize (unat start) (length cells) of
        None \<Rightarrow> Inl ''RowSpan span overflows''
      | Some e \<Rightarrow>
          if e > length (rows ! unat row) then Inl ''RowSpan span past held row width''
          else Inr (rows[unat row := overwrite (rows ! unat row) (unat start) cells]))"
| "apply_op rows (ScrollUp rtop rbot lines) =
     apply_scroll_op rows (unat rtop) (unat rbot) (unat lines) True"
| "apply_op rows (ScrollDown rtop rbot lines) =
     apply_scroll_op rows (unat rtop) (unat rbot) (unat lines) False"

fun apply_op_list :: "cells \<Rightarrow> damage_op list \<Rightarrow> string + cells" where
  "apply_op_list rows [] = Inr rows"
| "apply_op_list rows (op # ops) = res_bind (apply_op rows op) (\<lambda>rows'. apply_op_list rows' ops)"

definition apply_ops :: "cells \<Rightarrow> damage_op list \<Rightarrow> string + cells" where
  "apply_ops rows ops =
     res_bind (apply_op_list rows ops) (\<lambda>rows'.
       if \<not> terminal_link_cells_within_cap rows'
         then Inl ''terminal hyperlink cell cap exceeded after damage''
       else Inr rows')"

section \<open>The state machine\<close>

definition settle_pending_after_grid ::
  "sync_state \<Rightarrow> session_generation \<Rightarrow> revision \<Rightarrow> sync_state \<times> bool" where
  "settle_pending_after_grid s gen rv =
     (let trailing = (case ss_highest_seen s of
                        Some (hg, hr) \<Rightarrow> hg = gen \<and> hr > rv
                      | None \<Rightarrow> False)
      in if trailing then (s\<lparr>ss_request_in_flight := True\<rparr>, True)
         else (s\<lparr>ss_request_in_flight := False, ss_highest_seen := None\<rparr>, False))"

text \<open>The checks of \<^verbatim>\<open>on_grid\<close> before it looks at the revision, in order.\<close>

definition grid_precheck :: "sync_state \<Rightarrow> string \<Rightarrow> grid_snapshot \<Rightarrow> reject + unit" where
  "grid_precheck s sid snap =
     (if sid \<noteq> ss_session_id s then Inl WrongSession
      else if ss_phase s = Exited then Inl SessionEnded
      else if gs_version snap \<noteq> SUPPORTED_VERSION then Inl (UnsupportedVersion (gs_version snap))
      else res_bind (validate_dimensions snap) (\<lambda>_.
           res_bind (validate_wide_layout snap) (\<lambda>_.
             if \<not> row_copy_cells_valid (gs_rows_cells snap) (gs_row_copy snap)
               then Inl (DamageInvalid BadRowCopy)
             else if gs_generation snap \<in> ss_retired s then Inl RetiredGeneration
             else Inr ())))"

definition on_grid ::
  "sync_state \<Rightarrow> string \<Rightarrow> grid_snapshot \<Rightarrow> sync_state \<times> (reject + grid_outcome)" where
  "on_grid s sid snap =
     (case grid_precheck s sid snap of
        Inl e \<Rightarrow> (s, Inl e)
      | Inr _ \<Rightarrow>
          (let gen = gs_generation snap; rv = gs_revision snap;
               adopt = (\<lambda>s1.
                 let (s2, req) =
                   settle_pending_after_grid
                     (s1\<lparr>ss_current := Some (gen, rv), ss_phase := Synchronized\<rparr>) gen rv
                 in (s2, Inr \<lparr>go_repaint = True, go_request_snapshot = req\<rparr>))
           in case ss_current s of
                Some (cur_gen, cur_rev) \<Rightarrow>
                  if cur_gen = gen then
                    (if rv < cur_rev then (s, Inl (StaleRevision rv cur_rev))
                     else if rv = cur_rev then
                       (let (s2, req) = settle_pending_after_grid s gen rv
                        in (s2, Inr \<lparr>go_repaint = False, go_request_snapshot = req\<rparr>))
                     else adopt s)
                  else adopt (s\<lparr>ss_retired := insert cur_gen (ss_retired s)\<rparr>)
              | None \<Rightarrow> adopt s))"

text \<open>The scratch snapshot that carries the frame's absolute post-frame header.\<close>

definition with_frame_header :: "grid_snapshot \<Rightarrow> damage_frame \<Rightarrow> cells \<Rightarrow> grid_snapshot" where
  "with_frame_header held frame rows =
     held\<lparr>gs_rows_cells := rows,
          gs_revision := df_revision frame,
          gs_row_copy := df_row_copy frame,
          gs_base_revision := df_base_revision frame,
          gs_cursor_line := cs_line (df_cursor frame),
          gs_cursor_col := cs_col (df_cursor frame),
          gs_cursor_visible := cs_visible (df_cursor frame),
          gs_cursor_shape := cs_shape (df_cursor frame),
          gs_alt_screen := ms_alt_screen (df_modes frame),
          gs_app_cursor := ms_app_cursor (df_modes frame),
          gs_bracketed_paste := ms_bracketed_paste (df_modes frame),
          gs_focus_reporting := ms_focus_reporting (df_modes frame),
          gs_mouse_report := ms_mouse_report (df_modes frame),
          gs_mouse_drag := ms_mouse_drag (df_modes frame),
          gs_mouse_motion := ms_mouse_motion (df_modes frame),
          gs_mouse_sgr := ms_mouse_sgr (df_modes frame)\<rparr>"

definition on_damage ::
  "sync_state \<Rightarrow> string \<Rightarrow> damage_frame \<Rightarrow> grid_snapshot \<Rightarrow> sync_state \<times> damage_outcome" where
  "on_damage s sid frame held =
     (if sid \<noteq> ss_session_id s then (s, Ignore)
      else if ss_phase s = Exited then (s, Resync SessionEnded)
      else if df_generation frame \<in> ss_retired s then (s, Ignore)
      else case validate frame of
        Inl reason \<Rightarrow> (s, Resync (DamageInvalid reason))
      | Inr _ \<Rightarrow>
          (case ss_current s of
             None \<Rightarrow> (s, Resync (DamageNotApplicable ''no baseline grid held''))
           | Some (cur_gen, cur_rev) \<Rightarrow>
               if df_generation frame \<noteq> cur_gen
                 then (s, Resync (DamageNotApplicable ''generation mismatch''))
               else if df_revision frame \<le> cur_rev then (s, Ignore)
               else if df_base_revision frame \<noteq> cur_rev
                 then (s, Resync (DamageRevisionGap (df_base_revision frame) cur_rev))
               else if unat (df_cols frame) \<noteq> gs_cols held \<or> unat (df_rows frame) \<noteq> gs_rows held
                 then (s, Resync (DamageNotApplicable ''frame geometry disagrees with held grid''))
               else case apply_ops (gs_rows_cells held) (df_ops frame) of
                 Inl reason \<Rightarrow> (s, Resync (DamageNotApplicable reason))
               | Inr rows \<Rightarrow>
                   (let scratch = with_frame_header held frame rows in
                      case validate_wide_layout scratch of
                        Inl reason \<Rightarrow> (s, Resync reason)
                      | Inr _ \<Rightarrow>
                          if \<not> row_copy_cells_valid (gs_rows_cells scratch) (gs_row_copy scratch)
                            then (s, Resync (DamageInvalid BadRowCopy))
                          else (let s1 = s\<lparr>ss_current := Some (cur_gen, df_revision frame),
                                          ss_phase := Synchronized\<rparr>
                                in (fst (settle_pending_after_grid s1 (df_generation frame)
                                           (df_revision frame)),
                                    Applied scratch)))))"

definition on_resync_required :: "sync_state \<Rightarrow> string \<Rightarrow> sync_state \<times> (reject + action)" where
  "on_resync_required s sid =
     (if sid \<noteq> ss_session_id s then (s, Inl WrongSession)
      else if ss_phase s = Exited then (s, Inl SessionEnded)
      else (s\<lparr>ss_phase := AwaitingResync, ss_request_in_flight := False, ss_highest_seen := None\<rparr>,
            Inr ActionNone))"

definition on_session_exited :: "sync_state \<Rightarrow> string \<Rightarrow> sync_state \<times> (reject + action)" where
  "on_session_exited s sid =
     (if sid \<noteq> ss_session_id s then (s, Inl WrongSession)
      else if ss_phase s = Exited then (s, Inr ActionNone)
      else (s\<lparr>ss_phase := Exited\<rparr>, Inr ActionExited))"

definition accepted_generation :: "sync_state \<Rightarrow> session_generation option" where
  "accepted_generation s = map_option fst (ss_current s)"

definition snapshot_request_not_admitted :: "sync_state \<Rightarrow> sync_state" where
  "snapshot_request_not_admitted s = s\<lparr>ss_request_in_flight := False\<rparr>"

definition can_request_local_resync :: "sync_state \<Rightarrow> string \<Rightarrow> bool" where
  "can_request_local_resync s sid \<longleftrightarrow>
     sid = ss_session_id s \<and> ss_phase s \<noteq> Exited \<and> \<not> ss_request_in_flight s"

definition local_resync_request_admitted ::
  "sync_state \<Rightarrow> string \<Rightarrow> sync_state \<times> (reject + action)" where
  "local_resync_request_admitted s sid =
     (if sid \<noteq> ss_session_id s then (s, Inl WrongSession)
      else if ss_phase s = Exited then (s, Inl SessionEnded)
      else if ss_request_in_flight s then (s, Inr ActionNone)
      else (s\<lparr>ss_phase := AwaitingResync, ss_request_in_flight := True\<rparr>, Inr ActionNone))"

section \<open>What scrolling does\<close>

lemma apply_scroll_op_eq:
  "apply_scroll_op rows rtop bottom_exclusive lines up =
     (if rtop < bottom_exclusive \<and> bottom_exclusive \<le> length rows \<and> 0 < lines \<and>
         lines \<le> bottom_exclusive - rtop
      then Inr (scrolled rows rtop bottom_exclusive lines up)
      else Inl ''scroll region out of bounds'')"
  by (auto simp: apply_scroll_op_def scrolled_def fold_scroll_up fold_scroll_down)

section \<open>Applying ops keeps the grid rectangular\<close>

lemma apply_op_rect:
  assumes "rect r c rows" "apply_op rows op = Inr rows'"
  shows "rect r c rows'"
proof (cases op)
  case (RowSpan row start cells)
  then show ?thesis
    using assms
    by (auto simp: checked_add_usize_def rect_nth rect_length split: if_splits option.splits
        intro!: rect_update)
next
  case (ClearAll c)
  with assms show ?thesis by (auto simp: rect_def)
qed (use assms in \<open>auto simp: apply_scroll_op_eq split: if_splits intro!: rect_scrolled\<close>)

lemma apply_op_list_rect:
  "rect r c rows \<Longrightarrow> apply_op_list rows ops = Inr rows' \<Longrightarrow> rect r c rows'"
  by (induction rows ops rule: apply_op_list.induct)
    (auto simp: res_bind_eq_Inr dest: apply_op_rect)

lemma apply_op_list_append:
  "apply_op_list rows (ops1 @ ops2) =
     res_bind (apply_op_list rows ops1) (\<lambda>rows'. apply_op_list rows' ops2)"
  by (induction rows ops1 rule: apply_op_list.induct) (auto simp: res_bind_def split: sum.splits)

lemma apply_ops_eq_Inr:
  "apply_ops rows ops = Inr rows' \<longleftrightarrow>
     apply_op_list rows ops = Inr rows' \<and> terminal_link_cells_within_cap rows'"
  by (auto simp: apply_ops_def res_bind_eq_Inr)

section \<open>What the gate accepts\<close>

lemma wide_row_iff: "wide_row row_idx col cells = Inr () \<longleftrightarrow> wide_from False cells"
  by (induction row_idx col cells rule: wide_row.induct) (auto split: list.splits)

lemma wide_rows_iff: "wide_rows row_idx rows = Inr () \<longleftrightarrow> list_all wide_pairs rows"
  by (induction row_idx rows rule: wide_rows.induct)
    (auto simp: res_bind_eq_Inr wide_row_iff wide_pairs_def)

lemma validate_wide_layout_iff:
  "validate_wide_layout g = Inr () \<longleftrightarrow> list_all wide_pairs (gs_rows_cells g)"
  by (simp add: validate_wide_layout_def wide_rows_iff)

lemma validate_dimensions_iff:
  "validate_dimensions g = Inr () \<longleftrightarrow>
     1 \<le> gs_cols g \<and> gs_cols g \<le> MAX_DIMENSION \<and> 1 \<le> gs_rows g \<and> gs_rows g \<le> MAX_DIMENSION \<and>
     rect (gs_rows g) (gs_cols g) (gs_rows_cells g) \<and>
     terminal_link_cells_within_cap (gs_rows_cells g)"
  by (auto simp: validate_dimensions_def rect_def list_ex_iff)

text \<open>What \<^verbatim>\<open>on_grid\<close> checks of a snapshot, as one predicate: the grids that may reach the painter.\<close>

definition paintable :: "grid_snapshot \<Rightarrow> bool" where
  "paintable g \<longleftrightarrow>
     1 \<le> gs_cols g \<and> gs_cols g \<le> MAX_DIMENSION \<and> 1 \<le> gs_rows g \<and> gs_rows g \<le> MAX_DIMENSION \<and>
     rect (gs_rows g) (gs_cols g) (gs_rows_cells g) \<and>
     terminal_link_cells_within_cap (gs_rows_cells g) \<and>
     list_all wide_pairs (gs_rows_cells g) \<and>
     row_copy_cells_valid (gs_rows_cells g) (gs_row_copy g)"

lemma grid_precheck_iff:
  "grid_precheck s sid g = Inr () \<longleftrightarrow>
     sid = ss_session_id s \<and> ss_phase s \<noteq> Exited \<and> gs_version g = SUPPORTED_VERSION \<and>
     paintable g \<and> gs_generation g \<notin> ss_retired s"
  by (auto simp: grid_precheck_def res_bind_eq_Inr validate_dimensions_iff validate_wide_layout_iff
      paintable_def)

lemma settle_pending_fields [simp]:
  "ss_session_id (fst (settle_pending_after_grid s gen rv)) = ss_session_id s"
  "ss_phase (fst (settle_pending_after_grid s gen rv)) = ss_phase s"
  "ss_current (fst (settle_pending_after_grid s gen rv)) = ss_current s"
  "ss_retired (fst (settle_pending_after_grid s gen rv)) = ss_retired s"
  "ss_request_in_flight (fst (settle_pending_after_grid s gen rv))
     = snd (settle_pending_after_grid s gen rv)"
  by (simp_all add: settle_pending_after_grid_def Let_def)

lemma with_frame_header_fields [simp]:
  "gs_rows_cells (with_frame_header held f rows) = rows"
  "gs_row_copy (with_frame_header held f rows) = df_row_copy f"
  "gs_generation (with_frame_header held f rows) = gs_generation held"
  "gs_revision (with_frame_header held f rows) = df_revision f"
  "gs_version (with_frame_header held f rows) = gs_version held"
  "gs_cols (with_frame_header held f rows) = gs_cols held"
  "gs_rows (with_frame_header held f rows) = gs_rows held"
  by (simp_all add: with_frame_header_def)

lemma validate_wide_layout_cases:
  "validate_wide_layout g = Inr u \<longleftrightarrow> list_all wide_pairs (gs_rows_cells g)"
  using validate_wide_layout_iff by simp

text \<open>Every way a frame is applied, in one characterisation.\<close>

lemma on_damage_Applied_iff:
  "(\<exists>s'. on_damage s sid f held = (s', Applied g)) \<longleftrightarrow>
     sid = ss_session_id s \<and> ss_phase s \<noteq> Exited \<and> df_generation f \<notin> ss_retired s \<and>
     validate f = Inr () \<and> ss_current s = Some (df_generation f, df_base_revision f) \<and>
     unat (df_cols f) = gs_cols held \<and> unat (df_rows f) = gs_rows held \<and>
     (\<exists>rows. apply_ops (gs_rows_cells held) (df_ops f) = Inr rows \<and>
        g = with_frame_header held f rows \<and> list_all wide_pairs rows \<and>
        row_copy_cells_valid rows (df_row_copy f))"
  (is "?L \<longleftrightarrow> ?R")
proof
  assume ?L
  then show ?R
    by (auto simp: on_damage_def Let_def validate_wide_layout_cases
        split: if_splits sum.splits option.splits)
next
  assume R: ?R
  then have "df_base_revision f < df_revision f" by (simp add: validate_iff)
  moreover obtain rows where rows: "apply_ops (gs_rows_cells held) (df_ops f) = Inr rows"
      "g = with_frame_header held f rows" "list_all wide_pairs rows"
      "row_copy_cells_valid rows (df_row_copy f)"
    using R by blast
  moreover have "validate_wide_layout (with_frame_header held f rows) = Inr ()"
    using rows(3) by (simp add: validate_wide_layout_iff)
  ultimately show ?L
    using R by (simp add: on_damage_def)
qed

lemma on_damage_Applied_state:
  assumes "on_damage s sid f held = (s', Applied g)"
  shows "ss_current s' = Some (df_generation f, df_revision f)" "ss_phase s' = Synchronized"
    and "ss_retired s' = ss_retired s" "ss_session_id s' = ss_session_id s"
  using assms
  by (auto simp: on_damage_def Let_def split: if_splits sum.splits option.splits)

lemma on_damage_other:
  assumes "on_damage s sid f held = (s', out)" "\<forall>g. out \<noteq> Applied g"
  shows "s' = s"
  using assms by (auto simp: on_damage_def Let_def split: if_splits sum.splits option.splits)

section \<open>Runs of the gate\<close>

text \<open>Everything that can happen to a \<^verbatim>\<open>SyncState\<close>, with the held grid the caller passes to damage.\<close>

datatype sync_event =
    GridArrived string grid_snapshot
  | DamageArrived string damage_frame grid_snapshot
  | ResyncRequired string
  | SessionExited string
  | RequestNotAdmitted
  | LocalResyncAdmitted string

fun sync_step :: "sync_state \<Rightarrow> sync_event \<Rightarrow> sync_state" where
  "sync_step s (GridArrived sid g) = fst (on_grid s sid g)"
| "sync_step s (DamageArrived sid f held) = fst (on_damage s sid f held)"
| "sync_step s (ResyncRequired sid) = fst (on_resync_required s sid)"
| "sync_step s (SessionExited sid) = fst (on_session_exited s sid)"
| "sync_step s RequestNotAdmitted = snapshot_request_not_admitted s"
| "sync_step s (LocalResyncAdmitted sid) = fst (local_resync_request_admitted s sid)"

definition sync_run :: "sync_event list \<Rightarrow> sync_state \<Rightarrow> sync_state" where
  "sync_run evs s = fold (\<lambda>ev s. sync_step s ev) evs s"

text \<open>The gate never stands in a retired generation, and is synchronized only with a baseline.\<close>

definition sync_inv :: "sync_state \<Rightarrow> bool" where
  "sync_inv s \<longleftrightarrow>
     (case ss_current s of None \<Rightarrow> True | Some (gen, rv) \<Rightarrow> gen \<notin> ss_retired s) \<and>
     (ss_phase s = Synchronized \<longrightarrow> ss_current s \<noteq> None)"

lemma on_grid_cases:
  obtains (refused) e where "on_grid s sid g = (s, Inl e)"
  | (same) s' where
      "on_grid s sid g = (s', Inr \<lparr>go_repaint = False, go_request_snapshot = ss_request_in_flight s'\<rparr>)"
      "ss_current s = Some (gs_generation g, gs_revision g)" "ss_current s' = ss_current s"
      "ss_retired s' = ss_retired s" "ss_phase s' = ss_phase s" "ss_session_id s' = ss_session_id s"
  | (adopted) s' where
      "on_grid s sid g = (s', Inr \<lparr>go_repaint = True, go_request_snapshot = ss_request_in_flight s'\<rparr>)"
      "grid_precheck s sid g = Inr ()"
      "ss_current s' = Some (gs_generation g, gs_revision g)" "ss_phase s' = Synchronized"
      "ss_session_id s' = ss_session_id s"
      "ss_retired s' = (case ss_current s of
                          Some (gen, _) \<Rightarrow> if gen = gs_generation g then ss_retired s
                                          else insert gen (ss_retired s)
                        | None \<Rightarrow> ss_retired s)"
      "\<And>rv. ss_current s = Some (gs_generation g, rv) \<Longrightarrow> rv < gs_revision g"
proof (cases "grid_precheck s sid g")
  case (Inl e)
  then show thesis using refused by (simp add: on_grid_def)
next
  case (Inr u)
  show thesis
  proof (cases "ss_current s")
    case None
    with Inr adopted [of "fst (on_grid s sid g)"] show thesis
      by (auto simp: on_grid_def Let_def split_beta)
  next
    case (Some cur)
    obtain cg cr where cur: "ss_current s = Some (cg, cr)" using Some by (cases cur) simp
    consider "cg = gs_generation g" "gs_revision g < cr" | "cg = gs_generation g" "gs_revision g = cr"
      | "cg = gs_generation g" "cr < gs_revision g" | "cg \<noteq> gs_generation g"
      by (cases "gs_revision g" cr rule: linorder_cases) auto
    then show thesis
    proof cases
      case 1
      with cur Inr refused show thesis by (simp add: on_grid_def)
    next
      case 2
      with cur Inr same [of "fst (on_grid s sid g)"] show thesis
        by (auto simp: on_grid_def Let_def split_beta)
    next
      case 3
      then have "\<not> gs_revision g < cr" "gs_revision g \<noteq> cr" by auto
      with 3 cur Inr adopted [of "fst (on_grid s sid g)"] show thesis
        by (auto simp: on_grid_def Let_def split_beta)
    next
      case 4
      with cur Inr adopted [of "fst (on_grid s sid g)"] show thesis
        by (auto simp: on_grid_def Let_def split_beta)
    qed
  qed
qed

lemma on_grid_retired_mono: "ss_retired s \<subseteq> ss_retired (fst (on_grid s sid g))"
  by (rule on_grid_cases [of s sid g]) (auto split: option.splits if_splits)

lemma on_damage_retired: "ss_retired (fst (on_damage s sid f held)) = ss_retired s"
  by (simp add: on_damage_def Let_def split: sum.splits option.splits prod.splits)

lemma sync_step_retired_mono: "ss_retired s \<subseteq> ss_retired (sync_step s ev)"
  by (cases ev)
    (auto simp: on_grid_retired_mono [THEN subsetD] on_damage_retired on_resync_required_def
      on_session_exited_def snapshot_request_not_admitted_def local_resync_request_admitted_def)

lemma sync_step_inv: "sync_inv s \<Longrightarrow> sync_inv (sync_step s ev)"
proof (cases ev)
  case (GridArrived sid g)
  assume inv: "sync_inv s"
  show ?thesis
  proof (cases rule: on_grid_cases [of s sid g])
    case (adopted s')
    then have "gs_generation g \<notin> ss_retired s" by (simp add: grid_precheck_iff)
    with adopted GridArrived show ?thesis
      by (auto simp: sync_inv_def split: option.splits if_splits)
  qed (use inv GridArrived in \<open>auto simp: sync_inv_def split: option.splits\<close>)
next
  case (DamageArrived sid f held)
  assume inv: "sync_inv s"
  obtain s' out where step: "on_damage s sid f held = (s', out)" by fastforce
  show ?thesis
  proof (cases out)
    case (Applied g)
    then have "df_generation f \<notin> ss_retired s"
      using step on_damage_Applied_iff [of s sid f held g] by blast
    with Applied step DamageArrived on_damage_Applied_state [of s sid f held s' g] show ?thesis
      by (simp add: sync_inv_def)
  qed (use inv step DamageArrived on_damage_other [of s sid f held s' out] in simp_all)
qed (auto simp: sync_inv_def on_resync_required_def on_session_exited_def
    snapshot_request_not_admitted_def local_resync_request_admitted_def split: option.splits)

lemma new_sync_inv: "sync_inv (new_sync sid)"
  by (simp add: sync_inv_def new_sync_def)

lemma sync_step_session [simp]: "ss_session_id (sync_step s ev) = ss_session_id s"
proof (cases ev)
  case (GridArrived sid g)
  then show ?thesis by (cases rule: on_grid_cases [of s sid g]) auto
qed (auto simp: on_damage_def Let_def on_resync_required_def on_session_exited_def
    snapshot_request_not_admitted_def local_resync_request_admitted_def
    split: sum.splits option.splits)

text \<open>Within a generation the accepted revision never goes back; leaving one retires it.\<close>

definition sync_advances :: "sync_state \<Rightarrow> sync_state \<Rightarrow> bool" where
  "sync_advances s s' \<longleftrightarrow>
     (case (ss_current s, ss_current s') of
        (None, _) \<Rightarrow> True
      | (Some _, None) \<Rightarrow> False
      | (Some (g, r), Some (g', r')) \<Rightarrow> if g = g' then r \<le> r' else g \<in> ss_retired s')"

lemma sync_step_advances: "sync_advances s (sync_step s ev)"
proof (cases ev)
  case (GridArrived sid g)
  then show ?thesis
    by (cases rule: on_grid_cases [of s sid g])
      (auto simp: sync_advances_def less_imp_le split: option.splits)
next
  case (DamageArrived sid f held)
  obtain s' out where step: "on_damage s sid f held = (s', out)" by fastforce
  show ?thesis
  proof (cases out)
    case (Applied g)
    then have "ss_current s = Some (df_generation f, df_base_revision f)" "validate f = Inr ()"
      using step on_damage_Applied_iff [of s sid f held g] by blast+
    with Applied step DamageArrived on_damage_Applied_state [of s sid f held s' g] show ?thesis
      by (simp add: sync_advances_def validate_iff less_imp_le)
  qed (use step DamageArrived on_damage_other [of s sid f held s' out] in
      \<open>auto simp: sync_advances_def split: option.splits\<close>)
qed (auto simp: sync_advances_def on_resync_required_def on_session_exited_def
    snapshot_request_not_admitted_def local_resync_request_admitted_def split: option.splits)

text \<open>The gate is a monotone machine: the interface gives the facts about its runs.\<close>

definition sync_before :: "sync_state \<Rightarrow> sync_state \<Rightarrow> bool" where
  "sync_before s s' \<longleftrightarrow> ss_retired s \<subseteq> ss_retired s' \<and> sync_advances s s'"

interpretation gate: monotone_stepping sync_step sync_inv sync_before
proof unfold_locales
  show "sync_inv s \<Longrightarrow> sync_inv (sync_step s e)" for s e by (rule sync_step_inv)
  show "sync_before s s" for s by (auto simp: sync_before_def sync_advances_def split: option.splits)
  show "sync_before s (sync_step s e)" for s e
    using sync_step_retired_mono sync_step_advances by (simp add: sync_before_def)
  show "sync_before s u" if "sync_inv s" "sync_inv t" "sync_inv u" "sync_before s t" "sync_before t u"
    for s t u
    using that by (auto simp: sync_before_def sync_advances_def sync_inv_def
        split: option.splits if_splits)
qed

lemma sync_run_gate: "sync_run = gate.run"
  by (simp add: fun_eq_iff sync_run_def gate.run_def)

lemma sync_run_retired_mono: "sync_inv s \<Longrightarrow> ss_retired s \<subseteq> ss_retired (sync_run evs s)"
  using gate.run_before [of s evs] by (simp add: sync_run_gate sync_before_def)

lemma exited_absorbing:
  assumes "ss_phase s = Exited"
  shows "ss_phase (sync_run evs s) = Exited \<and> ss_current (sync_run evs s) = ss_current s"
  using assms
proof (induction evs arbitrary: s)
  case (Cons ev evs)
  have "ss_phase (sync_step s ev) = Exited \<and> ss_current (sync_step s ev) = ss_current s"
    using Cons.prems
    by (cases ev) (auto simp: on_grid_def grid_precheck_def on_damage_def on_resync_required_def
        on_session_exited_def snapshot_request_not_admitted_def local_resync_request_admitted_def)
  with Cons.IH show ?case by (simp add: sync_run_def)
qed (simp add: sync_run_def)

section \<open>Properties of the gate\<close>

text \<open>
  A snapshot changes the gate only if it passes every structural check of \<^verbatim>\<open>on_grid\<close>: an
  accepted one is for this session, paintable, of the supported version, not of a retired
  generation and not older than the current one, and the gate then stands at its generation and
  revision; a refused one leaves the state exactly as it was.
\<close>

theorem on_grid_gate:
  "case on_grid s sid g of
     (s', Inl reason) \<Rightarrow> s' = s
   | (s', Inr out) \<Rightarrow>
       sid = ss_session_id s \<and> ss_phase s \<noteq> Exited \<and> paintable g \<and>
       gs_version g = SUPPORTED_VERSION \<and> gs_generation g \<notin> ss_retired s \<and>
       ss_current s' = Some (gs_generation g, gs_revision g) \<and>
       (go_repaint out \<longleftrightarrow> ss_current s \<noteq> ss_current s')"
proof (cases rule: on_grid_cases [of s sid g])
  case (same s')
  then have "grid_precheck s sid g = Inr ()"
    by (simp add: on_grid_def split: sum.splits)
  with same show ?thesis by (simp add: grid_precheck_iff)
next
  case (adopted s')
  then show ?thesis by (auto simp: grid_precheck_iff)
qed simp

text \<open>
  C7: Damage is all or nothing. Either a frame extends exactly the revision the gate stands at,
  within its generation, and the new state and grid carry the frame's revision over a grid of
  unchanged dimensions whose wide cells and links are still well formed; or the whole state is
  untouched, whatever the reason.
\<close>

theorem on_damage_all_or_nothing:
  "case on_damage s sid f held of
     (s', Applied g) \<Rightarrow>
       validate f = Inr () \<and> ss_phase s \<noteq> Exited \<and> df_generation f \<notin> ss_retired s \<and>
       ss_current s = Some (df_generation f, df_base_revision f) \<and>
       df_base_revision f < df_revision f \<and>
       ss_current s' = Some (df_generation f, df_revision f) \<and> ss_retired s' = ss_retired s \<and>
       gs_revision g = df_revision f \<and> gs_cols g = gs_cols held \<and> gs_rows g = gs_rows held \<and>
       apply_op_list (gs_rows_cells held) (df_ops f) = Inr (gs_rows_cells g) \<and>
       list_all wide_pairs (gs_rows_cells g) \<and>
       terminal_link_cells_within_cap (gs_rows_cells g) \<and>
       row_copy_cells_valid (gs_rows_cells g) (gs_row_copy g)
   | (s', _) \<Rightarrow> s' = s"
proof -
  obtain s' out where step: "on_damage s sid f held = (s', out)" by fastforce
  show ?thesis
  proof (cases out)
    case (Applied g)
    have applied: "on_damage s sid f held = (s', Applied g)" using step Applied by simp
    then have "\<exists>s'. on_damage s sid f held = (s', Applied g)" by blast
    note facts = this [unfolded on_damage_Applied_iff]
    then obtain rows where rows: "apply_ops (gs_rows_cells held) (df_ops f) = Inr rows"
        "g = with_frame_header held f rows" "list_all wide_pairs rows"
        "row_copy_cells_valid rows (df_row_copy f)" by blast
    have "df_base_revision f < df_revision f" using facts by (simp add: validate_iff)
    with facts rows on_damage_Applied_state [OF applied] show ?thesis
      unfolding applied by (simp add: apply_ops_eq_Inr)
  qed (use step on_damage_other [of s sid f held s' out] in simp_all)
qed

text \<open>
  C8: Along every sequence of events the gate starts from a fresh state with, it never stands in a
  retired generation, is synchronized only with a baseline, and its accepted revision never goes
  back within a generation; a generation it leaves is retired for good.
\<close>

theorem gate_invariant_and_progress:
  "sync_inv (sync_run evs (new_sync sid)) \<and>
   sync_advances (sync_run evs (new_sync sid)) (sync_run (evs @ evs') (new_sync sid))"
proof -
  have "sync_inv (gate.run evs (new_sync sid))" by (rule gate.run_inv [OF new_sync_inv])
  with gate.run_before [OF this, of evs'] show ?thesis
    by (simp add: sync_run_gate sync_before_def)
qed

text \<open>
  C9: A retired generation never paints again: whatever events follow its retirement, a snapshot of
  it is refused and a damage frame of it is not applied, both without touching the state.
\<close>

theorem retired_generation_never_paints:
  assumes "sync_inv s" "gen \<in> ss_retired s"
  shows "(gs_generation g = gen \<longrightarrow>
            (\<exists>e. on_grid (sync_run evs s) sid g = (sync_run evs s, Inl e))) \<and>
         (df_generation f = gen \<longrightarrow>
            fst (on_damage (sync_run evs s) sid f held) = sync_run evs s \<and>
            (\<forall>h. snd (on_damage (sync_run evs s) sid f held) \<noteq> Applied h))"
proof -
  have "gen \<in> ss_retired (sync_run evs s)"
    unfolding sync_run_gate
    by (rule gate.run_persists [where P = "\<lambda>s. gen \<in> ss_retired s", OF assms])
      (auto simp: sync_before_def)
  then show ?thesis
    by (auto simp: on_grid_def grid_precheck_iff on_damage_def split: sum.splits)
qed

text \<open>A one-cell grid and a frame over it, for the concrete instances below.\<close>

definition demo_cell :: cell where
  "demo_cell =
     \<lparr>cell_text = ''x'', cell_fg = Named Foreground, cell_bg = Named Background, cell_bold = False,
      cell_italic = False, cell_underline = NoUnderline, cell_inverse = False,
      cell_strikeout = False, cell_dim = False, cell_hidden = False, cell_hyperlink = None,
      cell_width = 1\<rparr>"

definition demo_grid :: "session_generation \<Rightarrow> revision \<Rightarrow> grid_snapshot" where
  "demo_grid gen rv =
     \<lparr>gs_version = 2, gs_generation = gen, gs_revision = rv, gs_base_revision = rv,
      gs_cols = 1, gs_rows = 1, gs_rows_cells = [[demo_cell]], gs_row_copy = None,
      gs_cursor_line = 0, gs_cursor_col = 0, gs_cursor_visible = True, gs_cursor_shape = Block,
      gs_alt_screen = False, gs_app_cursor = False, gs_bracketed_paste = False,
      gs_focus_reporting = False, gs_mouse_report = False, gs_mouse_drag = False,
      gs_mouse_motion = False, gs_mouse_sgr = False\<rparr>"

theorem retired_generation_never_paints_witness:
  "\<exists>e. on_grid (sync_run [ResyncRequired ''s''] ((new_sync ''s'')\<lparr>ss_retired := {''g''}\<rparr>)) ''s''
         (demo_grid ''g'' 5)
       = (sync_run [ResyncRequired ''s''] ((new_sync ''s'')\<lparr>ss_retired := {''g''}\<rparr>), Inl e)"
  using retired_generation_never_paints
    [of "(new_sync ''s'')\<lparr>ss_retired := {''g''}\<rparr>" "''g''" "demo_grid ''g'' 5"
      "[ResyncRequired ''s'']" "''s''"]
  by (simp add: demo_grid_def sync_inv_def new_sync_def)

text \<open>
  The end of a session is final: after \<^verbatim>\<open>SessionExited\<close> for this session no event moves the gate
  out of \<^verbatim>\<open>Exited\<close> or changes the revision it stands at, and no snapshot is accepted.
\<close>

theorem session_exit_is_final:
  "ss_phase (sync_run evs (fst (on_session_exited s (ss_session_id s)))) = Exited \<and>
   ss_current (sync_run evs (fst (on_session_exited s (ss_session_id s)))) = ss_current s \<and>
   snd (on_grid (sync_run evs (fst (on_session_exited s (ss_session_id s)))) sid g)
     \<in> {Inl WrongSession, Inl SessionEnded}"
proof -
  let ?s = "fst (on_session_exited s (ss_session_id s))"
  have "ss_phase ?s = Exited" "ss_current ?s = ss_current s"
    by (simp_all add: on_session_exited_def)
  with exited_absorbing [of ?s evs] show ?thesis
    by (simp add: on_grid_def grid_precheck_def)
qed

end
