(* ===== verification/Live_Stream.thy ===== *)
theory Live_Stream
  imports Term_Grid Renderer_Sync
begin

text \<open>
  The live attachment: the daemon's per-attachment forwarder (the task spawned at the end of the
  \<^verbatim>\<open>Attach\<close> handler in \<^verbatim>\<open>pty-daemon/src/main.rs\<close>) on one side, and the renderer's event
  handler for a cached pane (\<^verbatim>\<open>handle_pane_event_for_binding\<close> in
  \<^verbatim>\<open>maestro-renderer/src/client.rs\<close>) on the other. The socket between them delivers the events of
  one attachment in order; the JSON encoding is not modelled. \<open>attachment_run\<close> puts both sides and the
  grid together, and \<open>attached_run_inv\<close> is what the end-to-end properties rest on.
\<close>

section \<open>Events\<close>

datatype daemon_event =
    EvGrid string grid_snapshot
  | EvDamage damage_frame
  | EvResyncRequired string
  | EvSessionExited string "int option"
  | EvOutput string session_generation revision "u8 list"
  | EvTerminalBell string
  | EvTerminalTitle string "string option"
  | EvTerminalClipboardStore string string

datatype terminal_notification = Bell | Title "string option" | ClipboardStore string

record output_frame =
  of_revision :: revision
  of_bytes :: "u8 list"
  of_notifications :: "terminal_notification list"

section \<open>The forwarder\<close>

text \<open>
  The loop's local variables. \<open>fw_running\<close> is false after a \<^verbatim>\<open>break\<close> or \<^verbatim>\<open>return\<close>.
\<close>

record forwarder =
  fw_id :: string
  fw_want_raw_output :: bool
  fw_generation :: session_generation
  fw_baseline_revision :: revision
  fw_notifications_through :: revision
  fw_prev_snapshot :: daemon_snapshot
  fw_running :: bool

datatype recv = RecvFrame output_frame | RecvLagged | RecvClosed | RecvExit "int option"

definition start_forwarder :: "string \<Rightarrow> bool \<Rightarrow> daemon_snapshot \<Rightarrow> forwarder" where
  "start_forwarder sid want_raw snap =
     \<lparr>fw_id = sid, fw_want_raw_output = want_raw, fw_generation = gs_generation snap,
      fw_baseline_revision = gs_revision snap, fw_notifications_through = gs_revision snap,
      fw_prev_snapshot = snap, fw_running = True\<rparr>"

definition MAX_OSC52_BYTES :: nat where "MAX_OSC52_BYTES = 64 * 1024"

text \<open>\<^verbatim>\<open>str::is_char_boundary\<close> and the loop that backs up to a boundary.\<close>

definition is_char_boundary :: "string \<Rightarrow> nat \<Rightarrow> bool" where
  "is_char_boundary s i \<longleftrightarrow>
     i = 0 \<or> i = length s \<or>
     (i < length s \<and> (let b = (of_char (s ! i) :: nat) in \<not> (128 \<le> b \<and> b < 192)))"

fun back_to_boundary :: "string \<Rightarrow> nat \<Rightarrow> nat" where
  "back_to_boundary s 0 = 0"
| "back_to_boundary s (Suc i) =
     (if is_char_boundary s (Suc i) then Suc i else back_to_boundary s i)"

definition clip_osc52 :: "string \<Rightarrow> string" where
  "clip_osc52 s =
     (if length s > MAX_OSC52_BYTES then take (back_to_boundary s MAX_OSC52_BYTES) s else s)"

fun notification_event :: "string \<Rightarrow> terminal_notification \<Rightarrow> daemon_event" where
  "notification_event sid Bell = EvTerminalBell sid"
| "notification_event sid (Title title) = EvTerminalTitle sid title"
| "notification_event sid (ClipboardStore clip) = EvTerminalClipboardStore sid (clip_osc52 clip)"

text \<open>
  One iteration of the loop. \<open>cur\<close> is what \<^verbatim>\<open>grid.snapshot()\<close> returns if the iteration takes one,
  \<open>exit_code\<close> is \<^verbatim>\<open>grid.exit_state().flatten()\<close>, and \<open>room\<close> tells how many more events the outbound
  queue takes before it is closed, with \<open>None\<close> for a queue that stays open. It never reopens: the
  first send that fails ends the task, after the events before it went out.
\<close>

definition fw_notify :: "forwarder \<Rightarrow> output_frame \<Rightarrow> forwarder \<times> daemon_event list" where
  "fw_notify fw frame =
     (if of_revision frame > fw_notifications_through fw
        then (fw\<lparr>fw_notifications_through := of_revision frame\<rparr>,
              map (notification_event (fw_id fw)) (of_notifications frame))
      else (fw, []))"

definition fw_damage :: "forwarder \<Rightarrow> daemon_snapshot \<Rightarrow> forwarder \<times> daemon_event list" where
  "fw_damage fw cur =
     (case generate_damage (fw_prev_snapshot fw) cur of
        NoChange \<Rightarrow> (fw, [])
      | Frame f \<Rightarrow> (fw\<lparr>fw_prev_snapshot := cur\<rparr>, [EvDamage (f\<lparr>df_id := fw_id fw\<rparr>)])
      | GenResync \<Rightarrow>
          (fw\<lparr>fw_baseline_revision := gs_revision cur, fw_prev_snapshot := cur\<rparr>,
           [EvResyncRequired (fw_id fw), EvGrid (fw_id fw) (on_wire cur)]))"

definition fw_output :: "forwarder \<Rightarrow> output_frame \<Rightarrow> daemon_event list" where
  "fw_output fw frame =
     (if fw_want_raw_output fw
        then [EvOutput (fw_id fw) (fw_generation fw) (of_revision frame) (of_bytes frame)]
      else [])"

definition fw_lagged :: "forwarder \<Rightarrow> daemon_snapshot \<Rightarrow> forwarder \<times> daemon_event list" where
  "fw_lagged fw snap =
     (fw\<lparr>fw_baseline_revision := gs_revision snap, fw_prev_snapshot := snap\<rparr>,
      [EvResyncRequired (fw_id fw), EvGrid (fw_id fw) (on_wire snap)])"

definition fw_ended :: "forwarder \<Rightarrow> int option \<Rightarrow> forwarder \<times> daemon_event list" where
  "fw_ended fw code = (fw\<lparr>fw_running := False\<rparr>, [EvSessionExited (fw_id fw) code])"

definition fw_step ::
  "nat option \<Rightarrow> int option \<Rightarrow> daemon_snapshot \<Rightarrow> recv \<Rightarrow> forwarder \<Rightarrow> forwarder \<times> daemon_event list" where
  "fw_step room exit_code cur r fw =
     (if \<not> fw_running fw then (fw, [])
      else
        let (fw', evs) =
          (case r of
             RecvFrame frame \<Rightarrow>
               (let (fw1, notes) = fw_notify fw frame in
                  if of_revision frame \<le> fw_baseline_revision fw1 then (fw1, notes)
                  else let raw = fw_output fw1 frame; (fw2, dmg) = fw_damage fw1 cur
                       in (fw2, notes @ raw @ dmg))
           | RecvLagged \<Rightarrow> fw_lagged fw cur
           | RecvClosed \<Rightarrow> fw_ended fw exit_code
           | RecvExit code \<Rightarrow> fw_ended fw code)
        in (case room of
              None \<Rightarrow> (fw', evs)
            | Some n \<Rightarrow>
                if length evs \<le> n then (fw', evs) else (fw'\<lparr>fw_running := False\<rparr>, take n evs)))"

section \<open>The renderer's pane\<close>

datatype recovery_result =
    Admitted | AlreadyAdmitted | Pending bool | Stale | Refused bool bool

datatype ui_event =
    UiWake
  | UiOutboundWritable
  | UiSessionExit "int option" "session_generation option"
  | UiBell
  | UiTitle "string option"
  | UiClipboardStore string

text \<open>
  What one pane keeps: its gate, its cached grid, its recorded exit, whether the connection was
  failed closed, and the events sent to the UI so far, oldest first.
\<close>

record pane =
  pi_id :: string
  pi_sync :: sync_state
  pi_held :: "grid_snapshot option"
  pi_exited :: "int option option"
  pi_ui :: "ui_event list"
  pi_failed_closed :: bool

text \<open>
  \<open>live\<close>: the pane's binding token is still current, so the \<^verbatim>\<open>with_current_pane_store\<close> calls reach
  the entry; \<open>rec\<close>: the answer of \<^verbatim>\<open>request_recovery_snapshot\<close>.
\<close>

definition send_ui :: "ui_event \<Rightarrow> pane \<Rightarrow> pane" where
  "send_ui ev p = p\<lparr>pi_ui := pi_ui p @ [ev]\<rparr>"

definition fail_closed_on :: "recovery_result \<Rightarrow> pane \<Rightarrow> pane" where
  "fail_closed_on rec p =
     (case rec of
        Refused terminal retryable \<Rightarrow>
          if terminal \<or> \<not> retryable then p\<lparr>pi_failed_closed := True\<rparr> else p
      | Pending wake_now \<Rightarrow> if wake_now then send_ui UiOutboundWritable p else p
      | _ \<Rightarrow> p)"

definition request_local_recovery :: "recovery_result \<Rightarrow> string \<Rightarrow> pane \<Rightarrow> pane" where
  "request_local_recovery rec sid p =
     (if \<not> can_request_local_resync (pi_sync p) sid then p
      else if rec = Admitted \<or> rec = AlreadyAdmitted
        then p\<lparr>pi_sync := fst (local_resync_request_admitted (pi_sync p) sid)\<rparr>
      else fail_closed_on rec p)"

definition request_snapshot_after_grid :: "recovery_result \<Rightarrow> pane \<Rightarrow> pane" where
  "request_snapshot_after_grid rec p =
     (if rec = Admitted \<or> rec = AlreadyAdmitted then p
      else fail_closed_on rec (p\<lparr>pi_sync := snapshot_request_not_admitted (pi_sync p)\<rparr>))"

definition commit_pane_grid :: "bool \<Rightarrow> grid_snapshot \<Rightarrow> pane \<Rightarrow> pane" where
  "commit_pane_grid live g p = (if live then send_ui UiWake (p\<lparr>pi_held := Some g\<rparr>) else p)"

fun handle_pane_event :: "bool \<Rightarrow> recovery_result \<Rightarrow> pane \<Rightarrow> daemon_event \<Rightarrow> pane" where
  "handle_pane_event live rec p (EvGrid sid grid) =
     (case on_grid (pi_sync p) sid grid of
        (s, Inr outcome) \<Rightarrow>
          (let p1 = p\<lparr>pi_sync := s\<rparr>;
               p2 = (if go_repaint outcome then commit_pane_grid live grid p1 else p1)
           in if go_request_snapshot outcome then request_snapshot_after_grid rec p2 else p2)
      | (s, Inl reason) \<Rightarrow> p\<lparr>pi_sync := s\<rparr>)"
| "handle_pane_event live rec p (EvDamage frame) =
     (if df_id frame \<noteq> pi_id p then p
      else case (if live then pi_held p else None) of
        None \<Rightarrow> request_local_recovery rec (pi_id p) p
      | Some held \<Rightarrow>
          (case on_damage (pi_sync p) (df_id frame) frame held of
             (s, Applied grid) \<Rightarrow> commit_pane_grid live grid (p\<lparr>pi_sync := s\<rparr>)
           | (s, Ignore) \<Rightarrow> p\<lparr>pi_sync := s\<rparr>
           | (s, Resync reason) \<Rightarrow>
               request_local_recovery rec (pi_id p) (p\<lparr>pi_sync := s\<rparr>)))"
| "handle_pane_event live rec p (EvResyncRequired sid) =
     p\<lparr>pi_sync := fst (on_resync_required (pi_sync p) sid)\<rparr>"
| "handle_pane_event live rec p (EvSessionExited sid code) =
     (case on_session_exited (pi_sync p) sid of
        (s, Inr ActionExited) \<Rightarrow>
          (let p1 = p\<lparr>pi_sync := s\<rparr>;
               p2 = (if live then p1\<lparr>pi_exited := Some code\<rparr> else p1)
           in send_ui (UiSessionExit code (accepted_generation s)) p2)
      | (s, _) \<Rightarrow> p\<lparr>pi_sync := s\<rparr>)"
| "handle_pane_event live rec p (EvTerminalBell sid) =
     (if sid = pi_id p \<and> accepted_generation (pi_sync p) \<noteq> None then send_ui UiBell p else p)"
| "handle_pane_event live rec p (EvTerminalTitle sid title) =
     (if sid = pi_id p \<and> accepted_generation (pi_sync p) \<noteq> None
        then send_ui (UiTitle title) p else p)"
| "handle_pane_event live rec p (EvTerminalClipboardStore sid clip) =
     (if sid = pi_id p \<and> accepted_generation (pi_sync p) \<noteq> None
        then send_ui (UiClipboardStore clip) p else p)"
| "handle_pane_event live rec p (EvOutput sid gen rv bytes) = p"

definition handle_pane_events :: "bool \<Rightarrow> recovery_result \<Rightarrow> daemon_event list \<Rightarrow> pane \<Rightarrow> pane" where
  "handle_pane_events live rec evs p = fold (\<lambda>ev q. handle_pane_event live rec q ev) evs p"

section \<open>Ops mean the same on both sides\<close>

text \<open>The daemon's self-verification and the renderer's application agree wherever the first succeeds.\<close>

lemma apply_scroll_op_parity:
  "apply_scroll rows (ScrollUp a b l) = apply_scroll_op rows (unat a) (unat b) (unat l) True"
  "apply_scroll rows (ScrollDown a b l) = apply_scroll_op rows (unat a) (unat b) (unat l) False"
  by (simp_all add: apply_scroll_def apply_scroll_op_def Let_def)

lemma verify_ops_apply:
  assumes "rect R C rows" "C \<le> usize_max" "verify_ops rows ops = Some rows'"
  shows "apply_op_list rows ops = Inr rows'"
  using assms(1,3)
proof (induction rows ops rule: verify_ops.induct)
  case (2 rows row start cells ops)
  have span: "unat row < length rows" "unat start + length cells \<le> length (rows ! unat row)"
    using 2(3) by (simp_all split: if_splits)
  have "length (rows ! unat row) = C"
    using 2(2) span(1) by (simp add: rect_def)
  then have "checked_add_usize (unat start) (length cells) = Some (unat start + length cells)"
    using span(2) assms(2) by (intro checked_add_usize_small) simp
  with span have step: "apply_op rows (RowSpan row start cells)
      = Inr (rows[unat row := overwrite (rows ! unat row) (unat start) cells])"
    by simp
  from 2(1) [OF _ apply_op_rect [OF 2(2) step]] 2(3) span step show ?case by simp
next
  case (4 rows a b l ops)
  then show ?case
    by (auto simp: apply_scroll_op_parity split: sum.splits
        dest: apply_op_rect [where op = "ScrollUp a b l"])
next
  case (5 rows a b l ops)
  then show ?case
    by (auto simp: apply_scroll_op_parity split: sum.splits
        dest: apply_op_rect [where op = "ScrollDown a b l"])
qed simp_all

lemma ops_deliver_apply:
  assumes "same_shape R C base nxt" "ops_deliver R C base nxt ops"
  shows "apply_op_list base ops = Inr nxt"
proof (cases "verify_ops base ops = Some nxt")
  case True
  then show ?thesis
    using assms(1) verify_ops_apply [of R C base ops nxt] by (simp add: same_shape_def usize_max_def)
next
  case False
  then obtain fill where "ops = [ClearAll fill]" "nxt = replicate R (replicate C fill)"
    using assms(2) by (auto simp: ops_deliver_def)
  moreover have "map (map (\<lambda>_. fill)) base = replicate R (replicate C fill)"
    using assms(1) by (auto simp: same_shape_def rect_def map_replicate_const intro!: replicate_eqI)
  ultimately show ?thesis by simp
qed

section \<open>A generated frame is accepted and reproduces the daemon's grid\<close>

lemma on_wire_fields [simp]:
  "gs_version (on_wire d) = gs_version d" "gs_generation (on_wire d) = gs_generation d"
  "gs_revision (on_wire d) = gs_revision d" "gs_base_revision (on_wire d) = gs_base_revision d"
  "gs_cols (on_wire d) = gs_cols d" "gs_rows (on_wire d) = gs_rows d"
  "gs_rows_cells (on_wire d) = gs_rows_cells d" "gs_row_copy (on_wire d) = gs_row_copy d"
  "gs_cursor_line (on_wire d) = gs_cursor_line d" "gs_cursor_col (on_wire d) = gs_cursor_col d"
  "gs_cursor_visible (on_wire d) = gs_cursor_visible d"
  "gs_cursor_shape (on_wire d) = gs_cursor_shape d" "gs_alt_screen (on_wire d) = gs_alt_screen d"
  "gs_app_cursor (on_wire d) = gs_app_cursor d"
  "gs_bracketed_paste (on_wire d) = gs_bracketed_paste d"
  "gs_focus_reporting (on_wire d) = gs_focus_reporting d"
  "gs_mouse_report (on_wire d) = gs_mouse_report d" "gs_mouse_drag (on_wire d) = gs_mouse_drag d"
  "gs_mouse_motion (on_wire d) = gs_mouse_motion d" "gs_mouse_sgr (on_wire d) = gs_mouse_sgr d"
  by (simp_all add: on_wire_def grid_snapshot.truncate_def)

text \<open>
  Equality of everything a renderer paints or sends by: all fields but \<^verbatim>\<open>base_revision\<close>, which after
  a damage frame is the revision the frame started from.
\<close>

definition same_screen :: "grid_snapshot \<Rightarrow> grid_snapshot \<Rightarrow> bool" where
  "same_screen g h \<longleftrightarrow> g\<lparr>gs_base_revision := 0\<rparr> = h\<lparr>gs_base_revision := 0\<rparr>"

lemma same_screen_iff:
  "same_screen g h \<longleftrightarrow>
     gs_version g = gs_version h \<and> gs_generation g = gs_generation h \<and>
     gs_revision g = gs_revision h \<and> gs_cols g = gs_cols h \<and> gs_rows g = gs_rows h \<and>
     gs_rows_cells g = gs_rows_cells h \<and> gs_row_copy g = gs_row_copy h \<and>
     gs_cursor_line g = gs_cursor_line h \<and> gs_cursor_col g = gs_cursor_col h \<and>
     gs_cursor_visible g = gs_cursor_visible h \<and> gs_cursor_shape g = gs_cursor_shape h \<and>
     gs_alt_screen g = gs_alt_screen h \<and> gs_app_cursor g = gs_app_cursor h \<and>
     gs_bracketed_paste g = gs_bracketed_paste h \<and> gs_focus_reporting g = gs_focus_reporting h \<and>
     gs_mouse_report g = gs_mouse_report h \<and> gs_mouse_drag g = gs_mouse_drag h \<and>
     gs_mouse_motion g = gs_mouse_motion h \<and> gs_mouse_sgr g = gs_mouse_sgr h"
  by (cases g; cases h) (auto simp: same_screen_def)

lemma wf_same_shape:
  assumes "wf_snapshot prev" "wf_snapshot nxt" "gs_cols prev = gs_cols nxt" "gs_rows prev = gs_rows nxt"
  shows "same_shape (gs_rows nxt) (gs_cols nxt) (gs_rows_cells prev) (gs_rows_cells nxt)"
  using assms by (simp add: wf_snapshot_def same_shape_def)

lemma row_copy_cells_valid_shape:
  assumes "row_copy_cells_valid rows md" "rect R C rows" "0 < R"
  shows "row_copy_valid md C R"
  using assms by (cases rows) (auto simp: row_copy_cells_valid_def rect_def Let_def)

lemma generated_frame_valid:
  assumes wf: "wf_snapshot prev" "wf_snapshot nxt" and stamps: "stamps_sound prev nxt"
    and gen: "generate_damage prev nxt = Frame f"
  obtains ops where "f = frame_of prev nxt ops" "validate (f\<lparr>df_id := sid\<rparr>) = Inr ()"
    "apply_ops (gs_rows_cells prev) ops = Inr (gs_rows_cells nxt)"
    "gs_revision prev < gs_revision nxt" "gs_generation prev = gs_generation nxt"
    "gs_cols prev = gs_cols nxt" "gs_rows prev = gs_rows nxt"
proof -
  have dims: "gs_cols prev = gs_cols nxt" "gs_rows prev = gs_rows nxt"
    using gen by (auto simp: generate_damage_def split: if_splits)
  note shape = wf_same_shape [OF wf dims]
  have valid: "list_all (list_all cell_is_valid) (gs_rows_cells nxt)"
    and cap: "terminal_link_cells_within_cap (gs_rows_cells nxt)"
    using wf(2) by (simp_all add: wf_snapshot_def)
  obtain ops where f: "f = frame_of prev nxt ops"
      and ops: "ops_deliver (gs_rows nxt) (gs_cols nxt) (gs_rows_cells prev) (gs_rows_cells nxt) ops"
      and rest: "gs_revision prev < gs_revision nxt" "gs_generation prev = gs_generation nxt"
    using generate_damage_Frame [OF shape stamps valid cap gen] by metis
  have bounds: "1 \<le> gs_cols nxt" "gs_cols nxt \<le> 2000" "1 \<le> gs_rows nxt" "gs_rows nxt \<le> 2000"
    and cursor: "gs_cursor_line nxt < gs_rows nxt" "gs_cursor_col nxt < gs_cols nxt"
    and copy: "row_copy_cells_valid (gs_rows_cells nxt) (gs_row_copy nxt)"
    and rect: "rect (gs_rows nxt) (gs_cols nxt) (gs_rows_cells nxt)"
    using wf(2) by (simp_all add: wf_snapshot_def)
  have words: "unat (of_nat (gs_cols nxt) :: u16) = gs_cols nxt"
      "unat (of_nat (gs_rows nxt) :: u16) = gs_rows nxt"
    using bounds by simp_all
  have nz: "(of_nat (gs_cols nxt) :: u16) \<noteq> 0" "(of_nat (gs_rows nxt) :: u16) \<noteq> 0"
    using words bounds by (metis unsigned_0 not_one_le_zero)+
  have le: "(of_nat (gs_cols nxt) :: u16) \<le> 2000" "(of_nat (gs_rows nxt) :: u16) \<le> 2000"
    using bounds by (simp_all add: word_le_nat_alt)
  have "validate (f\<lparr>df_id := sid\<rparr>) = Inr ()"
    using ops cap rest nz le cursor row_copy_cells_valid_shape [OF copy rect] bounds
    by (simp add: validate_iff f frame_of_def words cursor_state_of_def DAMAGE_MAX_DIMENSION_def
        ops_deliver_def terminal_link_cells_within_cap_iff)
  moreover have "apply_ops (gs_rows_cells prev) ops = Inr (gs_rows_cells nxt)"
    using ops_deliver_apply [OF shape ops] cap by (simp add: apply_ops_eq_Inr)
  ultimately show thesis using that f rest dims by blast
qed

lemma generated_frame_applies:
  assumes wf: "wf_snapshot prev" "wf_snapshot nxt" and stamps: "stamps_sound prev nxt"
    and gen: "generate_damage prev nxt = Frame f"
    and held: "same_screen held (on_wire prev)"
    and gate: "ss_session_id s = sid" "ss_phase s \<noteq> Exited"
      "ss_current s = Some (gs_generation prev, gs_revision prev)"
      "gs_generation prev \<notin> ss_retired s"
  obtains s' g where "on_damage s sid (f\<lparr>df_id := sid\<rparr>) held = (s', Applied g)"
    "same_screen g (on_wire nxt)" "gs_base_revision g = gs_revision prev"
    "ss_current s' = Some (gs_generation nxt, gs_revision nxt)" "ss_phase s' = Synchronized"
    "ss_retired s' = ss_retired s" "ss_session_id s' = sid"
proof -
  obtain ops where f: "f = frame_of prev nxt ops" and ok: "validate (f\<lparr>df_id := sid\<rparr>) = Inr ()"
    and rows: "apply_ops (gs_rows_cells prev) ops = Inr (gs_rows_cells nxt)"
    and same: "gs_generation prev = gs_generation nxt" "gs_cols prev = gs_cols nxt"
      "gs_rows prev = gs_rows nxt"
    using generated_frame_valid [OF wf stamps gen] by metis
  let ?f = "f\<lparr>df_id := sid\<rparr>" and ?g = "with_frame_header held (f\<lparr>df_id := sid\<rparr>) (gs_rows_cells nxt)"
  have held': "gs_rows_cells held = gs_rows_cells prev" "gs_cols held = gs_cols nxt"
      "gs_rows held = gs_rows nxt"
    using held same by (simp_all add: same_screen_iff)
  have dims: "gs_cols nxt < 65536" "gs_rows nxt < 65536"
    using wf(2) by (simp_all add: wf_snapshot_def)
  have layout: "list_all wide_pairs (gs_rows_cells nxt)"
      "row_copy_cells_valid (gs_rows_cells nxt) (gs_row_copy nxt)"
    using wf(2) by (simp_all add: wf_snapshot_def)
  have "\<exists>s'. on_damage s sid ?f held = (s', Applied ?g)"
    unfolding on_damage_Applied_iff using ok rows gate same layout dims held'
    by (simp add: f frame_of_def)
  then obtain s' where applied: "on_damage s sid ?f held = (s', Applied ?g)" by blast
  moreover have "same_screen ?g (on_wire nxt)"
    using held wf same
    by (simp add: same_screen_iff with_frame_header_def f frame_of_def cursor_state_of_def
        mode_state_of_def wf_snapshot_def)
  moreover have "gs_base_revision ?g = gs_revision prev"
    by (simp add: with_frame_header_def f frame_of_def)
  moreover note on_damage_Applied_state [OF applied]
  ultimately show thesis using that gate(1) by (simp add: f frame_of_def)
qed

lemma unchanged_same_screen:
  assumes wf: "wf_snapshot prev" "wf_snapshot nxt" and stamps: "stamps_sound prev nxt"
    and gen: "generate_damage prev nxt = NoChange"
  shows "same_screen ((on_wire prev)\<lparr>gs_revision := gs_revision nxt\<rparr>) (on_wire nxt)"
proof -
  have dims: "gs_cols prev = gs_cols nxt" "gs_rows prev = gs_rows nxt"
    using gen by (auto simp: generate_damage_def Let_def split: if_splits option.splits)
  have valid: "list_all (list_all cell_is_valid) (gs_rows_cells nxt)"
    using wf(2) by (simp add: wf_snapshot_def)
  note facts = generate_damage_NoChange [OF wf_same_shape [OF wf dims] stamps valid gen]
  from facts(1,2,4,5,6) facts(3) wf show ?thesis
    by (simp add: same_screen_iff header_changed_def wf_snapshot_def)
qed

section \<open>The renderer mirrors the forwarder's baseline\<close>

text \<open>
  \<open>mirrors sid d p\<close>: the pane's gate stands at the generation and revision of \<open>d\<close> and its cached
  grid is the screen of \<open>d\<close>.
\<close>

definition mirrors :: "string \<Rightarrow> daemon_snapshot \<Rightarrow> pane \<Rightarrow> bool" where
  "mirrors sid d p \<longleftrightarrow>
     pi_id p = sid \<and> ss_session_id (pi_sync p) = sid \<and> ss_phase (pi_sync p) \<noteq> Exited \<and>
     ss_current (pi_sync p) = Some (gs_generation d, gs_revision d) \<and>
     gs_generation d \<notin> ss_retired (pi_sync p) \<and>
     (case pi_held p of None \<Rightarrow> False | Some h \<Rightarrow> same_screen h (on_wire d))"

text \<open>
  What the daemon guarantees of a later snapshot: within a generation revisions only grow and
  name the screen, and a new generation is one the renderer has not retired.
\<close>

definition succeeds :: "daemon_snapshot \<Rightarrow> daemon_snapshot \<Rightarrow> session_generation set \<Rightarrow> bool" where
  "succeeds prev cur retired \<longleftrightarrow>
     (if gs_generation cur = gs_generation prev
        then gs_revision prev \<le> gs_revision cur \<and> (gs_revision prev = gs_revision cur \<longrightarrow> cur = prev)
      else gs_generation cur \<notin> retired)"

lemma wf_paintable:
  assumes "wf_snapshot d"
  shows "paintable (on_wire d)" "gs_version (on_wire d) = SUPPORTED_VERSION"
  using assms
  by (simp_all add: wf_snapshot_def paintable_def MAX_DIMENSION_def SNAPSHOT_VERSION_def
      SUPPORTED_VERSION_def)

lemma request_after_grid_fields [simp]:
  "pi_id (request_snapshot_after_grid rec p) = pi_id p"
  "pi_held (request_snapshot_after_grid rec p) = pi_held p"
  "ss_session_id (pi_sync (request_snapshot_after_grid rec p)) = ss_session_id (pi_sync p)"
  "ss_phase (pi_sync (request_snapshot_after_grid rec p)) = ss_phase (pi_sync p)"
  "ss_current (pi_sync (request_snapshot_after_grid rec p)) = ss_current (pi_sync p)"
  "ss_retired (pi_sync (request_snapshot_after_grid rec p)) = ss_retired (pi_sync p)"
  by (simp_all add: request_snapshot_after_grid_def fail_closed_on_def send_ui_def
      snapshot_request_not_admitted_def split: recovery_result.split)

lemma grid_restores_mirror:
  assumes "wf_snapshot cur" and mir: "mirrors sid prev p"
    and succ: "succeeds prev cur (ss_retired (pi_sync p))"
  shows "mirrors sid cur (handle_pane_event True rec p (EvGrid sid (on_wire cur)))"
proof -
  let ?s = "pi_sync p" and ?g = "on_wire cur"
  have gate: "ss_session_id ?s = sid" "ss_phase ?s \<noteq> Exited"
      "ss_current ?s = Some (gs_generation prev, gs_revision prev)"
      "gs_generation prev \<notin> ss_retired ?s"
    using mir by (simp_all add: mirrors_def)
  have "gs_generation cur \<notin> ss_retired ?s"
    using succ gate(4) by (auto simp: succeeds_def split: if_splits)
  then have pre: "grid_precheck ?s sid ?g = Inr ()"
    using gate wf_paintable [OF assms(1)] by (simp add: grid_precheck_iff)
  show ?thesis
  proof (cases "gs_generation cur = gs_generation prev \<and> gs_revision cur = gs_revision prev")
    case True
    then have "cur = prev" using succ by (simp add: succeeds_def)
    with mir pre gate show ?thesis
      by (auto simp: on_grid_def split_beta Let_def mirrors_def)
  next
    case False
    then have "\<not> gs_revision cur < gs_revision prev \<or> gs_generation cur \<noteq> gs_generation prev"
      using succ by (auto simp: succeeds_def split: if_splits)
    with False mir pre gate succ show ?thesis
      by (auto simp: on_grid_def split_beta Let_def mirrors_def succeeds_def commit_pane_grid_def
          send_ui_def same_screen_def split: if_splits)
  qed
qed

text \<open>The pane shows \<open>d\<close>: its cached grid is \<open>d\<close>'s screen, at the revision that last changed it.\<close>

definition shows_screen :: "daemon_snapshot \<Rightarrow> pane \<Rightarrow> bool" where
  "shows_screen d p \<longleftrightarrow>
     (case pi_held p of
        None \<Rightarrow> False
      | Some h \<Rightarrow> same_screen (h\<lparr>gs_revision := gs_revision d\<rparr>) (on_wire d))"

lemma mirrors_shows: "mirrors sid d p \<Longrightarrow> shows_screen d p"
  by (auto simp: mirrors_def shows_screen_def same_screen_iff split: option.splits)

lemma handle_pane_events_simps [simp]:
  "handle_pane_events live rec [] p = p"
  "handle_pane_events live rec (ev # evs) p =
     handle_pane_events live rec evs (handle_pane_event live rec p ev)"
  "handle_pane_events live rec (evs1 @ evs2) p =
     handle_pane_events live rec evs2 (handle_pane_events live rec evs1 p)"
  by (simp_all add: handle_pane_events_def)

lemma mirrors_resync_required:
  assumes "mirrors sid d p"
  shows "mirrors sid d (handle_pane_event live rec p (EvResyncRequired sid))"
    and "ss_retired (pi_sync (handle_pane_event live rec p (EvResyncRequired sid)))
       = ss_retired (pi_sync p)"
  using assms by (auto simp: mirrors_def on_resync_required_def split: option.splits)

lemma resync_pair_mirrors:
  assumes "wf_snapshot cur" "mirrors sid prev p" "succeeds prev cur (ss_retired (pi_sync p))"
  shows "mirrors sid cur
           (handle_pane_events True rec [EvResyncRequired sid, EvGrid sid (on_wire cur)] p)"
  using grid_restores_mirror [OF assms(1) mirrors_resync_required(1) [OF assms(2)]]
    mirrors_resync_required(2) [OF assms(2)] assms(3)
  by simp

lemma damage_keeps_mirror:
  assumes "wf_snapshot prev" "wf_snapshot cur" "stamps_sound prev cur"
    and "generate_damage prev cur = Frame f" "mirrors sid prev p"
  shows "mirrors sid cur (handle_pane_event True rec p (EvDamage (f\<lparr>df_id := sid\<rparr>)))"
proof -
  obtain held where held: "pi_held p = Some held" "same_screen held (on_wire prev)"
    using assms(5) by (auto simp: mirrors_def split: option.splits)
  have gate: "pi_id p = sid" "ss_session_id (pi_sync p) = sid" "ss_phase (pi_sync p) \<noteq> Exited"
      "ss_current (pi_sync p) = Some (gs_generation prev, gs_revision prev)"
      "gs_generation prev \<notin> ss_retired (pi_sync p)"
    using assms(5) by (simp_all add: mirrors_def)
  have gen: "gs_generation cur = gs_generation prev"
    using assms(4) by (auto simp: generate_damage_def split: if_splits)
  obtain s' g where "on_damage (pi_sync p) sid (f\<lparr>df_id := sid\<rparr>) held = (s', Applied g)"
      "same_screen g (on_wire cur)" "ss_current s' = Some (gs_generation cur, gs_revision cur)"
      "ss_phase s' = Synchronized" "ss_retired s' = ss_retired (pi_sync p)" "ss_session_id s' = sid"
    using generated_frame_applies [OF assms(1-4) held(2) gate(2-5)] by metis
  with held gate gen show ?thesis
    by (simp add: mirrors_def commit_pane_grid_def send_ui_def)
qed

lemma fw_damage_mirrors:
  assumes "wf_snapshot (fw_prev_snapshot fw)" "wf_snapshot cur"
    and "gs_cols (fw_prev_snapshot fw) = gs_cols cur \<Longrightarrow> stamps_sound (fw_prev_snapshot fw) cur"
    and "mirrors (fw_id fw) (fw_prev_snapshot fw) p"
    and "succeeds (fw_prev_snapshot fw) cur (ss_retired (pi_sync p))"
    and step: "fw_damage fw cur = (fw', evs)"
  shows "mirrors (fw_id fw) (fw_prev_snapshot fw') (handle_pane_events True rec evs p)"
    and "shows_screen cur (handle_pane_events True rec evs p)"
proof -
  let ?p' = "handle_pane_events True rec evs p"
  have "mirrors (fw_id fw) (fw_prev_snapshot fw') ?p' \<and> shows_screen cur ?p'"
  proof (cases "generate_damage (fw_prev_snapshot fw) cur")
    case NoChange
    have "gs_cols (fw_prev_snapshot fw) = gs_cols cur"
      using NoChange by (auto simp: generate_damage_def Let_def split: if_splits option.splits)
    from unchanged_same_screen [OF assms(1,2) assms(3) [OF this] NoChange] NoChange step assms(4)
    show ?thesis
      by (auto simp: fw_damage_def shows_screen_def mirrors_def same_screen_iff split: option.splits)
  next
    case GenResync
    then show ?thesis
      using step resync_pair_mirrors [OF assms(2,4,5)] mirrors_shows
      by (auto simp: fw_damage_def simp del: handle_pane_event.simps)
  next
    case (Frame f)
    then have "gs_cols (fw_prev_snapshot fw) = gs_cols cur"
      by (auto simp: generate_damage_def split: if_splits)
    note mir = damage_keeps_mirror [OF assms(1,2) assms(3) [OF this] Frame assms(4), of rec]
    from mir mirrors_shows [OF mir] Frame step show ?thesis
      by (auto simp: fw_damage_def simp del: handle_pane_event.simps)
  qed
  then show "mirrors (fw_id fw) (fw_prev_snapshot fw') ?p'" "shows_screen cur ?p'" by simp_all
qed

section \<open>A whole attachment\<close>

text \<open>
  One attachment as a transition system: the grid mutates, and between mutations the forwarder
  takes a frame or a lag from its broadcast and the pane handles what it emits. \<open>at_base\<close> is the
  grid at the moment \<^verbatim>\<open>prev_snapshot\<close> was taken and \<open>at_minted\<close> the generations used so far; both are
  history variables.
\<close>

record 'p attachment =
  at_grid :: "'p term_grid"
  at_base :: "'p term_grid"
  at_fw :: forwarder
  at_pane :: pane
  at_minted :: "session_generation set"

definition new_pane :: "string \<Rightarrow> pane" where
  "new_pane sid =
     \<lparr>pi_id = sid, pi_sync = new_sync sid, pi_held = None, pi_exited = None, pi_ui = [],
      pi_failed_closed = False\<rparr>"

definition attach ::
  "(string \<Rightarrow> bool) \<Rightarrow> string \<Rightarrow> bool \<Rightarrow> recovery_result \<Rightarrow> 'p term_grid \<Rightarrow> 'p attachment" where
  "attach safe sid want_raw rec g =
     \<lparr>at_grid = g, at_base = g, at_fw = start_forwarder sid want_raw (snapshot safe g),
      at_pane = handle_pane_event True rec (new_pane sid) (EvGrid sid (on_wire (snapshot safe g))),
      at_minted = {tg_generation g}\<rparr>"

definition forward ::
  "(string \<Rightarrow> bool) \<Rightarrow> recv \<Rightarrow> recovery_result \<Rightarrow> 'p attachment \<Rightarrow> 'p attachment" where
  "forward safe r rec a =
     (let cur = snapshot safe (at_grid a);
          (fw, evs) = fw_step None None cur r (at_fw a)
      in a\<lparr>at_fw := fw,
           at_base := (if fw_prev_snapshot fw = cur then at_grid a else at_base a),
           at_pane := handle_pane_events True rec evs (at_pane a)\<rparr>)"

datatype attachment_event =
    Commit session_generation mutation
  | Relay output_frame recovery_result
  | Lag recovery_result

fun attachment_step ::
  "'p vt_engine \<Rightarrow> (string \<Rightarrow> bool) \<Rightarrow> 'p attachment \<Rightarrow> attachment_event \<Rightarrow> 'p attachment" where
  "attachment_step eng safe a (Commit fresh m) =
     a\<lparr>at_grid := mutate eng fresh m (at_grid a), at_minted := insert fresh (at_minted a)\<rparr>"
| "attachment_step eng safe a (Relay frame rec) = forward safe (RecvFrame frame) rec a"
| "attachment_step eng safe a (Lag rec) = forward safe RecvLagged rec a"

definition attachment_run ::
  "'p vt_engine \<Rightarrow> (string \<Rightarrow> bool) \<Rightarrow> 'p attachment \<Rightarrow> attachment_event list \<Rightarrow> 'p attachment" where
  "attachment_run eng safe = foldl (attachment_step eng safe)"

lemma attachment_run_simps [simp]:
  "attachment_run eng safe a [] = a"
  "attachment_run eng safe a (ev # evs) = attachment_run eng safe (attachment_step eng safe a ev) evs"
  by (simp_all add: attachment_run_def)

text \<open>
  The screens a run commits, from the first on, and the generations it draws. The run itself is not
  restricted: that the screens keep to the link budget, that the generations (random UUIDs) are
  distinct and that the stamp counter is not exhausted are hypotheses of the theorems.
\<close>

fun committed :: "'p vt_engine \<Rightarrow> attachment_event list \<Rightarrow> 'p term_grid \<Rightarrow> 'p term_grid list" where
  "committed eng [] g = [g]"
| "committed eng (Commit fresh m # evs) g = g # committed eng evs (mutate eng fresh m g)"
| "committed eng (_ # evs) g = committed eng evs g"

fun drawn :: "attachment_event list \<Rightarrow> session_generation list" where
  "drawn [] = []"
| "drawn (Commit fresh m # evs) = fresh # drawn evs"
| "drawn (_ # evs) = drawn evs"

lemma committed_head: "g \<in> set (committed eng evs g)"
  by (induction eng evs g rule: committed.induct) simp_all

text \<open>The inductive invariant behind the mirror.\<close>

definition later :: "'p term_grid \<Rightarrow> 'p term_grid \<Rightarrow> bool" where
  "later g0 g \<longleftrightarrow>
     (tg_generation g = tg_generation g0 \<longrightarrow>
        tg_revision g0 \<le> tg_revision g \<and> (tg_revision g0 = tg_revision g \<longrightarrow> g = g0))"

lemma laterD:
  assumes "later g0 g" "tg_generation g = tg_generation g0"
  shows "tg_revision g0 \<le> tg_revision g" "tg_revision g0 = tg_revision g \<Longrightarrow> g = g0"
  using assms unfolding later_def by blast+

definition attached_inv :: "(string \<Rightarrow> bool) \<Rightarrow> 'p attachment \<Rightarrow> bool" where
  "attached_inv safe a \<longleftrightarrow>
     tg_wf (at_grid a) \<and> tg_wf (at_base a) \<and> tracks (at_base a) (at_grid a) \<and>
     later (at_base a) (at_grid a) \<and>
     links_fit safe (at_grid a) \<and> links_fit safe (at_base a) \<and>
     fw_running (at_fw a) \<and> fw_prev_snapshot (at_fw a) = snapshot safe (at_base a) \<and>
     mirrors (fw_id (at_fw a)) (fw_prev_snapshot (at_fw a)) (at_pane a) \<and>
     tg_generation (at_base a) \<in> at_minted a \<and> tg_generation (at_grid a) \<in> at_minted a \<and>
     ss_retired (pi_sync (at_pane a)) \<subseteq> at_minted a \<and>
     tg_generation (at_grid a) \<notin> ss_retired (pi_sync (at_pane a))"

lemma attach_mirrors:
  assumes "tg_wf g"
  shows "mirrors sid (snapshot safe g) (at_pane (attach safe sid want_raw rec g))"
    and "ss_retired (pi_sync (at_pane (attach safe sid want_raw rec g))) = {}"
proof -
  let ?g = "on_wire (snapshot safe g)"
  have "grid_precheck (new_sync sid) sid ?g = Inr ()"
    using wf_paintable [OF snapshot_wf [OF assms(1)]]
    by (simp add: grid_precheck_iff new_sync_def)
  then show "mirrors sid (snapshot safe g) (at_pane (attach safe sid want_raw rec g))"
    "ss_retired (pi_sync (at_pane (attach safe sid want_raw rec g))) = {}"
    by (simp_all add: attach_def new_pane_def on_grid_def Let_def split_beta mirrors_def
        commit_pane_grid_def send_ui_def same_screen_def settle_pending_after_grid_def new_sync_def)
qed

lemma attach_inv:
  assumes "tg_wf g" "stamps_bounded g" "links_fit safe g"
  shows "attached_inv safe (attach safe sid want_raw rec g)"
  using assms attach_mirrors(1) [OF assms(1), of sid safe want_raw rec]
    attach_mirrors(2) [OF assms(1), of safe sid want_raw rec]
  by (simp add: attached_inv_def tracks_refl later_def)
    (simp add: attach_def start_forwarder_def tracks_refl)

lemma commit_inv:
  assumes eng: "engine_shape eng" "engine_reports eng"
    and inv: "attached_inv safe a" and fresh: "fresh \<notin> at_minted a"
    and live: "tg_stamp_counter (at_grid a) \<noteq> - 1"
    and fit: "links_fit safe (mutate eng fresh m (at_grid a))"
  shows "attached_inv safe (a\<lparr>at_grid := mutate eng fresh m (at_grid a),
                              at_minted := insert fresh (at_minted a)\<rparr>)"
proof -
  let ?g = "at_grid a" and ?g' = "mutate eng fresh m (at_grid a)"
  have wf: "tg_wf ?g" "tg_wf (at_base a)" and tr: "tracks (at_base a) ?g"
    and lat: "later (at_base a) ?g"
    using inv by (simp_all add: attached_inv_def)
  have minted: "tg_generation (at_base a) \<in> at_minted a" "tg_generation ?g \<in> at_minted a"
      "ss_retired (pi_sync (at_pane a)) \<subseteq> at_minted a"
      "tg_generation ?g \<notin> ss_retired (pi_sync (at_pane a))"
    using inv by (simp_all add: attached_inv_def)
  consider "?g' = ?g"
    | "tg_generation ?g' = tg_generation ?g" "tg_revision ?g < tg_revision ?g'"
    | "tg_generation ?g' = fresh"
    using mutate_revision [of eng fresh m ?g] by (auto simp: word_less_nat_alt)
  then have "later (at_base a) ?g' \<and> tg_generation ?g' \<in> insert fresh (at_minted a) \<and>
      tg_generation ?g' \<notin> ss_retired (pi_sync (at_pane a))"
  proof cases
    case 1
    with lat minted show ?thesis by simp
  next
    case 2
    have "tg_revision (at_base a) < tg_revision ?g'" if "tg_generation ?g = tg_generation (at_base a)"
      using laterD(1) [OF lat that] 2(2) by (rule order.strict_trans1)
    with 2(1) minted show ?thesis by (simp add: later_def order_less_imp_le) (metis order_less_irrefl)
  next
    case 3
    with fresh minted show ?thesis by (auto simp: later_def)
  qed
  then show ?thesis
    using inv fit mutate_wf [OF eng(1) wf(1)] mutate_tracks [OF eng tr wf(2,1) live]
    by (auto simp: attached_inv_def)
qed

lemma inv_succeeds:
  assumes "attached_inv safe a"
  shows "succeeds (fw_prev_snapshot (at_fw a)) (snapshot safe (at_grid a))
           (ss_retired (pi_sync (at_pane a)))"
proof -
  have lat: "later (at_base a) (at_grid a)"
    and prev: "fw_prev_snapshot (at_fw a) = snapshot safe (at_base a)"
    and gen: "tg_generation (at_grid a) \<notin> ss_retired (pi_sync (at_pane a))"
    using assms by (simp_all add: attached_inv_def)
  show ?thesis
  proof (cases "tg_generation (at_grid a) = tg_generation (at_base a)")
    case True
    note order = laterD [OF lat True]
    then have "snapshot safe (at_grid a) = snapshot safe (at_base a)"
      if "tg_revision (at_base a) = tg_revision (at_grid a)" using that by metis
    with True order(1) show ?thesis by (simp add: succeeds_def prev)
  qed (use gen in \<open>simp add: succeeds_def prev\<close>)
qed

text \<open>Raw output and notifications touch neither the gate nor the cache.\<close>

fun side_event :: "daemon_event \<Rightarrow> bool" where
  "side_event (EvOutput sid gen rv bytes) = True"
| "side_event (EvTerminalBell sid) = True"
| "side_event (EvTerminalTitle sid title) = True"
| "side_event (EvTerminalClipboardStore sid clip) = True"
| "side_event _ = False"

lemma side_event_notification [simp]: "side_event (notification_event sid n)"
  by (cases n) simp_all

lemma quiet_events_mirror:
  assumes "\<forall>ev \<in> set evs. side_event ev"
  shows "pi_sync (handle_pane_events live rec evs p) = pi_sync p"
    and "pi_held (handle_pane_events live rec evs p) = pi_held p"
    and "pi_id (handle_pane_events live rec evs p) = pi_id p"
proof -
  have one: "pi_sync (handle_pane_event live rec q ev) = pi_sync q \<and>
      pi_held (handle_pane_event live rec q ev) = pi_held q \<and>
      pi_id (handle_pane_event live rec q ev) = pi_id q" if "ev \<in> set evs" for q ev
    using assms that by (cases ev) (auto simp: send_ui_def)
  have "pi_sync (handle_pane_events live rec evs' p) = pi_sync p \<and>
      pi_held (handle_pane_events live rec evs' p) = pi_held p \<and>
      pi_id (handle_pane_events live rec evs' p) = pi_id p" if "set evs' \<subseteq> set evs" for evs'
    using that by (induction evs' arbitrary: p) (auto simp: one simp del: handle_pane_event.simps)
  then show "pi_sync (handle_pane_events live rec evs p) = pi_sync p"
    "pi_held (handle_pane_events live rec evs p) = pi_held p"
    "pi_id (handle_pane_events live rec evs p) = pi_id p" by blast+
qed

text \<open>The baseline of a pane only depends on its gate and cache.\<close>

lemma mirrors_cong:
  assumes "pi_sync q = pi_sync p" "pi_held q = pi_held p" "pi_id q = pi_id p"
  shows "mirrors sid d q = mirrors sid d p"
  using assms by (simp add: mirrors_def)

text \<open>Frames below the baseline are only drained for their notifications.\<close>

definition folded_in :: "recv \<Rightarrow> forwarder \<Rightarrow> bool" where
  "folded_in r fw \<longleftrightarrow>
     (case r of RecvFrame frame \<Rightarrow> of_revision frame \<le> fw_baseline_revision fw | _ \<Rightarrow> False)"

lemma fw_step_frame:
  assumes "fw_running fw"
  shows "fw_step None ec cur (RecvFrame frame) fw =
     (let notes = snd (fw_notify fw frame); fw1 = fst (fw_notify fw frame) in
        if of_revision frame \<le> fw_baseline_revision fw then (fw1, notes)
        else (fst (fw_damage fw1 cur), notes @ fw_output fw1 frame @ snd (fw_damage fw1 cur)))"
  using assms by (auto simp: fw_step_def fw_lagged_def fw_ended_def fw_notify_def split_beta Let_def)

lemma fw_notify_fields:
  "fw_id (fst (fw_notify fw frame)) = fw_id fw"
  "fw_running (fst (fw_notify fw frame)) = fw_running fw"
  "fw_prev_snapshot (fst (fw_notify fw frame)) = fw_prev_snapshot fw"
  "fw_baseline_revision (fst (fw_notify fw frame)) = fw_baseline_revision fw"
  by (simp_all add: fw_notify_def)

lemma fw_damage_fields:
  "fw_id (fst (fw_damage fw cur)) = fw_id fw"
  "fw_running (fst (fw_damage fw cur)) = fw_running fw"
  "fw_prev_snapshot (fst (fw_damage fw cur)) \<in> {fw_prev_snapshot fw, cur}"
  by (simp_all add: fw_damage_def split: damage_gen.split)

lemma inv_stamps_sound:
  assumes "attached_inv safe a"
    and "gs_cols (fw_prev_snapshot (at_fw a)) = gs_cols (snapshot safe (at_grid a))"
  shows "stamps_sound (fw_prev_snapshot (at_fw a)) (snapshot safe (at_grid a))"
  using assms tracks_stamps_sound [of "at_base a" "at_grid a" safe] by (simp add: attached_inv_def)

lemma forward_core:
  fixes rec :: recovery_result
  assumes inv: "attached_inv safe a" and r: "r = RecvLagged \<or> (\<exists>frame. r = RecvFrame frame)"
    and step: "fw_step None None (snapshot safe (at_grid a)) r (at_fw a) = (fw', evs)"
  defines "p' \<equiv> handle_pane_events True rec evs (at_pane a)"
  shows "fw_running fw'" "fw_id fw' = fw_id (at_fw a)"
    and "fw_prev_snapshot fw' \<in> {fw_prev_snapshot (at_fw a), snapshot safe (at_grid a)}"
    and "mirrors (fw_id (at_fw a)) (fw_prev_snapshot fw') p'"
    and "\<not> folded_in r (at_fw a) \<Longrightarrow> shows_screen (snapshot safe (at_grid a)) p'"
proof -
  let ?fw = "at_fw a" and ?cur = "snapshot safe (at_grid a)" and ?p = "at_pane a"
  have run: "fw_running ?fw" and mir: "mirrors (fw_id ?fw) (fw_prev_snapshot ?fw) ?p"
    and wf: "wf_snapshot (fw_prev_snapshot ?fw)" "wf_snapshot ?cur"
    using inv by (auto simp: attached_inv_def intro: snapshot_wf)
  note succ = inv_succeeds [OF inv]
  have "fw_running fw' \<and> fw_id fw' = fw_id ?fw \<and>
      fw_prev_snapshot fw' \<in> {fw_prev_snapshot ?fw, ?cur} \<and>
      mirrors (fw_id ?fw) (fw_prev_snapshot fw') p' \<and>
      (\<not> folded_in r ?fw \<longrightarrow> shows_screen ?cur p')"
  proof (cases "r = RecvLagged")
    case True
    with step run have "fw' = ?fw\<lparr>fw_baseline_revision := gs_revision ?cur, fw_prev_snapshot := ?cur\<rparr>"
      and "evs = [EvResyncRequired (fw_id ?fw), EvGrid (fw_id ?fw) (on_wire ?cur)]"
      by (simp_all add: fw_step_def fw_lagged_def)
    with resync_pair_mirrors [OF wf(2) mir succ, of rec] mirrors_shows run show ?thesis
      unfolding p'_def by (simp del: handle_pane_event.simps handle_pane_events_simps)
  next
    case False
    with r obtain frame where frame: "r = RecvFrame frame" by blast
    let ?fw1 = "fst (fw_notify ?fw frame)" and ?notes = "snd (fw_notify ?fw frame)"
    have side: "\<forall>ev \<in> set ?notes. side_event ev" "\<forall>ev \<in> set (?notes @ fw_output ?fw1 frame). side_event ev"
      by (auto simp: fw_notify_def fw_output_def split: if_splits)
    show ?thesis
    proof (cases "of_revision frame \<le> fw_baseline_revision ?fw")
      case True
      with step run frame have "fw' = ?fw1" "evs = ?notes"
        by (auto simp: fw_step_frame Let_def)
      with True mir run frame mirrors_cong [OF quiet_events_mirror [OF side(1)]] show ?thesis
        by (simp add: p'_def folded_in_def fw_notify_fields)
    next
      case False
      obtain fw2 dmg where dmg: "fw_damage ?fw1 ?cur = (fw2, dmg)" by fastforce
      define p1 where "p1 = handle_pane_events True rec (?notes @ fw_output ?fw1 frame) ?p"
      have p1: "pi_sync p1 = pi_sync ?p" "mirrors (fw_id ?fw1) (fw_prev_snapshot ?fw1) p1"
        using quiet_events_mirror [OF side(2)] mirrors_cong [OF quiet_events_mirror [OF side(2)]] mir
        by (simp_all add: p1_def fw_notify_fields del: handle_pane_events_simps)
      have eqs: "fw' = fw2" "p' = handle_pane_events True rec dmg p1"
        using False step run frame dmg by (auto simp: fw_step_frame Let_def p'_def p1_def)
      have "mirrors (fw_id ?fw1) (fw_prev_snapshot fw2) (handle_pane_events True rec dmg p1)"
        "shows_screen ?cur (handle_pane_events True rec dmg p1)"
        using fw_damage_mirrors [OF _ wf(2) _ p1(2) _ dmg] wf(1) succ inv_stamps_sound [OF inv] p1(1)
        by (simp_all add: fw_notify_fields)
      moreover have "fw_running fw2" "fw_id fw2 = fw_id ?fw"
          "fw_prev_snapshot fw2 \<in> {fw_prev_snapshot ?fw, ?cur}"
        using fw_damage_fields [of ?fw1 ?cur] dmg run by (simp_all add: fw_notify_fields)
      ultimately show ?thesis by (simp add: eqs fw_notify_fields)
    qed
  qed
  then show "fw_running fw'" "fw_id fw' = fw_id ?fw"
    "fw_prev_snapshot fw' \<in> {fw_prev_snapshot ?fw, ?cur}"
    "mirrors (fw_id ?fw) (fw_prev_snapshot fw') p'"
    "\<not> folded_in r ?fw \<Longrightarrow> shows_screen ?cur p'" by simp_all
qed

text \<open>The generations a pane knows come from the grids it was sent.\<close>

definition pane_gens :: "pane \<Rightarrow> session_generation set" where
  "pane_gens p = ss_retired (pi_sync p) \<union> set_option (map_option fst (ss_current (pi_sync p)))"

fun event_gens :: "daemon_event \<Rightarrow> session_generation set" where
  "event_gens (EvGrid sid g) = {gs_generation g}"
| "event_gens _ = {}"

lemma local_recovery_gens: "pane_gens (request_local_recovery rec sid p) = pane_gens p"
  by (simp add: request_local_recovery_def fail_closed_on_def send_ui_def pane_gens_def
      local_resync_request_admitted_def split: recovery_result.split)

lemma on_grid_gens:
  "pane_gens (p\<lparr>pi_sync := fst (on_grid (pi_sync p) sid g)\<rparr>) \<subseteq> insert (gs_generation g) (pane_gens p)"
  by (auto simp: on_grid_def Let_def split_beta pane_gens_def split: sum.splits option.splits if_splits)

lemma on_damage_gens:
  "pane_gens (p\<lparr>pi_sync := fst (on_damage (pi_sync p) sid f held)\<rparr>) = pane_gens p"
proof (cases "on_damage (pi_sync p) sid f held")
  case (Pair s out)
  show ?thesis
  proof (cases out)
    case (Applied g)
    then have "ss_current (pi_sync p) = Some (df_generation f, df_base_revision f)"
      using Pair on_damage_Applied_iff [of "pi_sync p" sid f held g] by blast
    with Pair Applied on_damage_Applied_state [of "pi_sync p" sid f held s g] show ?thesis
      by (simp add: pane_gens_def)
  qed (use Pair on_damage_other [of "pi_sync p" sid f held s out] in \<open>simp_all add: pane_gens_def\<close>)
qed

lemma handle_pane_event_gens:
  "pane_gens (handle_pane_event live rec p ev) \<subseteq> event_gens ev \<union> pane_gens p"
proof (cases ev)
  case (EvGrid sid g)
  obtain s out where step: "on_grid (pi_sync p) sid g = (s, out)" by fastforce
  have gens: "pane_gens (p\<lparr>pi_sync := s\<rparr>) \<subseteq> insert (gs_generation g) (pane_gens p)"
    using on_grid_gens [of p sid g] step by simp
  moreover have "pane_gens (handle_pane_event live rec p ev) = pane_gens (p\<lparr>pi_sync := s\<rparr>)"
    using EvGrid step
    by (cases out) (auto simp: Let_def pane_gens_def commit_pane_grid_def send_ui_def)
  ultimately show ?thesis using EvGrid by auto
next
  case (EvDamage f)
  have "pane_gens (commit_pane_grid l g q) = pane_gens q" for l g q
    by (simp add: commit_pane_grid_def send_ui_def pane_gens_def)
  then show ?thesis
    using EvDamage on_damage_gens [of p "df_id f" f]
    by (auto simp: local_recovery_gens split: option.splits prod.splits damage_outcome.splits
        dest!: arg_cong [of _ _ fst])
next
  case (EvResyncRequired sid)
  then show ?thesis by (simp add: on_resync_required_def pane_gens_def)
next
  case (EvSessionExited sid code)
  then show ?thesis
    by (auto simp: on_session_exited_def pane_gens_def send_ui_def Let_def)
qed (auto simp: send_ui_def pane_gens_def)

lemma handle_pane_events_gens:
  "pane_gens (handle_pane_events live rec evs p) \<subseteq> (\<Union>ev \<in> set evs. event_gens ev) \<union> pane_gens p"
proof (induction evs arbitrary: p)
  case (Cons ev evs)
  from Cons.IH [of "handle_pane_event live rec p ev"] handle_pane_event_gens [of live rec p ev]
  show ?case by (simp del: handle_pane_event.simps) blast
qed simp

lemma fw_step_gens:
  "(\<Union>ev \<in> set (snd (fw_step None ec cur r fw)). event_gens ev) \<subseteq> {gs_generation cur}"
proof -
  have "event_gens (notification_event sid n) = {}" for sid n by (cases n) simp_all
  then show ?thesis
    by (auto simp: fw_step_def fw_lagged_def fw_ended_def fw_notify_def fw_output_def fw_damage_def Let_def split_beta
        split: recv.splits damage_gen.splits if_splits)
qed

text \<open>An iteration that leaves the baseline alone leaves the pane's gate alone.\<close>

lemma fw_step_unchanged:
  assumes "fw_step None None cur r fw = (fw', evs)" "fw_running fw" "fw_prev_snapshot fw' \<noteq> cur"
    and "r = RecvLagged \<or> (\<exists>frame. r = RecvFrame frame)"
  shows "pi_sync (handle_pane_events True rec evs p) = pi_sync p"
proof -
  have "\<forall>ev \<in> set evs. side_event ev"
    using assms
    by (auto simp: fw_step_def fw_lagged_def fw_ended_def fw_notify_def fw_output_def fw_damage_def Let_def split_beta
        split: damage_gen.splits if_splits)
  then show ?thesis by (rule quiet_events_mirror)
qed

lemma forward_inv:
  assumes inv: "attached_inv safe a" and r: "r = RecvLagged \<or> (\<exists>frame. r = RecvFrame frame)"
  shows "attached_inv safe (forward safe r rec a)"
proof -
  let ?cur = "snapshot safe (at_grid a)"
  obtain fw' evs where step: "fw_step None None ?cur r (at_fw a) = (fw', evs)" by fastforce
  let ?p' = "handle_pane_events True rec evs (at_pane a)"
  note core = forward_core(1-3) [OF inv r step] forward_core(4) [OF inv r step, of rec]
  have known: "tg_generation (at_grid a) \<in> at_minted a" "pane_gens (at_pane a) \<subseteq> at_minted a"
    using inv by (auto simp: attached_inv_def pane_gens_def mirrors_def)
  have "(\<Union>ev \<in> set evs. event_gens ev) \<subseteq> {tg_generation (at_grid a)}"
    using fw_step_gens [of None ?cur r "at_fw a"] step by simp
  with handle_pane_events_gens [of True rec evs "at_pane a"] known
  have "pane_gens ?p' \<subseteq> at_minted a" by blast
  then have "ss_retired (pi_sync ?p') \<subseteq> at_minted a" by (simp add: pane_gens_def)
  moreover have "tg_generation (at_grid a) \<notin> ss_retired (pi_sync ?p')"
  proof (cases "gs_generation (fw_prev_snapshot fw') = tg_generation (at_grid a)")
    case True
    with core(4) show ?thesis by (simp add: mirrors_def)
  next
    case False
    then have "fw_prev_snapshot fw' \<noteq> ?cur" by auto
    then have "pi_sync ?p' = pi_sync (at_pane a)"
      using fw_step_unchanged [OF step _ _ r] inv by (simp add: attached_inv_def)
    with inv show ?thesis by (simp add: attached_inv_def)
  qed
  moreover have "tg_wf (at_grid a)" "stamps_bounded (at_grid a)"
    using inv by (simp_all add: attached_inv_def tracks_def)
  ultimately show ?thesis
    using core inv step
    by (auto simp: attached_inv_def forward_def Let_def tracks_refl later_def)
qed

lemma forward_grid [simp]:
  "at_grid (forward safe r rec a) = at_grid a" "at_minted (forward safe r rec a) = at_minted a"
  by (simp_all add: forward_def Let_def split_beta)

lemma attachment_run_inv:
  assumes "engine_shape eng" "engine_reports eng" "attached_inv safe a"
    and "\<forall>g \<in> set (committed eng evs (at_grid a)). links_fit safe g \<and> tg_stamp_counter g \<noteq> - 1"
    and "distinct (drawn evs)" "set (drawn evs) \<inter> at_minted a = {}"
  shows "attached_inv safe (attachment_run eng safe a evs)"
  using assms(3-)
proof (induction evs arbitrary: a)
  case (Cons ev evs)
  show ?case
  proof (cases ev)
    case (Commit fresh m)
    then have "attached_inv safe (attachment_step eng safe a ev)"
      using commit_inv [OF assms(1,2) Cons.prems(1), of fresh m] Cons.prems(2,4)
        committed_head [of "mutate eng fresh m (at_grid a)" eng evs] by simp
    then show ?thesis using Cons.IH Cons.prems Commit by simp
  next
    case (Relay frame rec)
    then have "attached_inv safe (attachment_step eng safe a ev)"
      using forward_inv [OF Cons.prems(1)] by simp
    then show ?thesis using Cons.IH Cons.prems Relay by simp
  next
    case (Lag rec)
    then have "attached_inv safe (attachment_step eng safe a ev)"
      using forward_inv [OF Cons.prems(1)] by simp
    then show ?thesis using Cons.IH Cons.prems Lag by simp
  qed
qed simp

lemma attached_run_inv:
  assumes "engine_shape eng" "engine_reports eng" "tg_wf g" "stamps_bounded g"
    and "\<forall>g' \<in> set (committed eng evs g). links_fit safe g'"
    and "\<forall>g' \<in> set (committed eng evs g). tg_stamp_counter g' \<noteq> - 1"
    and "distinct (tg_generation g # drawn evs)"
  shows "attached_inv safe (attachment_run eng safe (attach safe sid want_raw rec g) evs)"
  using assms committed_head [of g eng evs]
  by (intro attachment_run_inv attach_inv) (auto simp: attach_def)

text \<open>A damage event either leaves the cache alone or applies exactly its ops.\<close>

lemma handle_damage_held:
  assumes "pi_held p = Some h"
  shows "pi_held (handle_pane_event live rec p (EvDamage f)) = Some h \<or>
     (\<exists>rows. apply_ops (gs_rows_cells h) (df_ops f) = Inr rows \<and>
        pi_held (handle_pane_event live rec p (EvDamage f)) = Some (with_frame_header h f rows))"
proof -
  have local: "pi_held (request_local_recovery rec sid q) = pi_held q" for sid q
    by (simp add: request_local_recovery_def fail_closed_on_def send_ui_def
        split: recovery_result.split)
  obtain s out where step: "on_damage (pi_sync p) (df_id f) f h = (s, out)" by fastforce
  show ?thesis
  proof (cases out)
    case (Applied g)
    then obtain rows where "apply_ops (gs_rows_cells h) (df_ops f) = Inr rows"
        "g = with_frame_header h f rows"
      using step on_damage_Applied_iff [of "pi_sync p" "df_id f" f h g] by blast
    with Applied step assms show ?thesis
      by (auto simp: local commit_pane_grid_def send_ui_def)
  qed (use step assms in \<open>auto simp: local\<close>)
qed

end
