(* ===== verification/Link_Budget.thy ===== *)
theory Link_Budget
  imports Live_Stream
begin

text \<open>
  Where the stamp contract fails. \<^verbatim>\<open>snapshot\<close> spends one budget of hyperlink cells from the top row
  down, so the links a row is rendered with depend on the rows above it, while its stamp only
  records its own damage. This theory takes a terminal whose engine honours \<open>engine_shape\<close> and
  \<open>engine_reports\<close>, clears the links of its first row, and so changes how the second row renders
  without damaging it.
\<close>

section \<open>A terminal with 257 linked cells\<close>

definition top_row :: "vt_cell list" where
  "top_row = replicate 256 (glyph (Some ''http://a''))"

definition second_row :: "vt_cell list" where
  "second_row = glyph (Some ''http://b'') # replicate 255 (glyph None)"

definition linked_grid :: "nat term_grid" where
  "linked_grid =
     \<lparr>tg_term = \<lparr>vt_history = [], vt_screen = [top_row, second_row],
        vt_cursor_line = 0, vt_cursor_col = 0, vt_cursor_shape = Block, vt_modes = no_modes,
        vt_show_cursor = True, vt_private = 0\<rparr>,
      tg_cols = 256, tg_rows = 2, tg_generation = ''g'', tg_revision = 0, tg_base_revision = 0,
      tg_row_stamps = [0, 0], tg_stamp_counter = 0\<rparr>"

definition unlinked_grid :: "nat term_grid" where
  "unlinked_grid = advance unlink_engine ''h'' [0] linked_grid"

definition any_url :: "string \<Rightarrow> bool" where
  "any_url uri = True"

lemma linked_grid_ok: "tg_wf linked_grid" "stamps_bounded linked_grid"
  by (simp_all add: linked_grid_def tg_wf_def rect_def top_row_def second_row_def stamps_bounded_def)

lemma trim_row_bare:
  assumes "\<forall>c \<in> set row. vc_zerowidth c = None" "cols \<le> length row"
  shows "trim_row cols row = row"
  using assms(2)
proof (induction cols)
  case (Suc n)
  then have "trim_alacritty_cell_text (row ! n) = row ! n"
    using assms(1) by (simp add: trim_alacritty_cell_text_def)
  with Suc show ?case by (simp add: trim_row_def list_update_id)
qed (simp add: trim_row_def)

lemma unlinked_term:
  "fold (feed unlink_engine) (chunks_of MAX_PARSER_ADVANCE_BYTES [0]) linked_grid
     = linked_grid\<lparr>tg_term := (tg_term linked_grid)
         \<lparr>vt_screen := [replicate 256 (glyph None), second_row], vt_private := 1\<rparr>\<rparr>"
proof -
  have "chunks_of MAX_PARSER_ADVANCE_BYTES [0 :: u8] = [[0]]"
    by (simp add: chunks_of.simps MAX_PARSER_ADVANCE_BYTES_def)
  moreover have "trim_row 256 (replicate 256 (glyph None)) = replicate 256 (glyph None)"
    by (rule trim_row_bare) (simp_all add: glyph_def)
  ultimately show ?thesis
    by (simp add: feed_def enforce_retained_cell_text_budget_def unlink_engine_def linked_grid_def
        top_row_def glyph_def dirty_rows_def)
qed

lemma unlinked_grid_eq:
  "unlinked_grid = linked_grid\<lparr>
     tg_term := (tg_term linked_grid)
       \<lparr>vt_screen := [replicate 256 (glyph None), second_row], vt_private := 0\<rparr>,
     tg_revision := 1, tg_base_revision := 0, tg_row_stamps := [1, 0], tg_stamp_counter := 1\<rparr>"
proof -
  have next_rv: "revision_next 0 = Some 1"
    by (simp add: revision_next_def checked_add_u64_def)
  show ?thesis
    by (simp add: unlinked_grid_def advance_eq unlinked_term)
      (simp add: unlink_engine_def linked_grid_def enforce_history_budget_def collect_row_damage_def
        stamp_rows_def bump_revision_def next_rv)
qed

section \<open>The two snapshots\<close>

lemma two_line_window:
  "lines_to_cells safe [r0, r1] cols n =
     [fst (line_to_cells safe r0 cols n),
      fst (line_to_cells safe r1 cols (n - row_links (fst (line_to_cells safe r0 cols n))))]"
  by (simp add: split_beta Let_def line_to_cells_budget(2))

lemma free_line_replicate:
  "free_line any_url 256 (replicate 256 (glyph link)) = replicate 256 (free_cell any_url [glyph link] 1 0)"
  by (auto simp: free_line_def free_cell_def wire_cell_def Let_def wide_defs glyph_def plain_flags_def
      any_url_def intro!: nth_equalityI)

lemma line_to_cells_first:
  "0 < cols \<Longrightarrow> fst (line_to_cells safe row cols n) ! 0 = fst (wire_cell safe row cols 0 n)"
  by (simp add: line_to_cells_def upt_conv_Cons emit_cells_Cons del: emit_cells.simps)

lemma free_cell_link: "cell_hyperlink (free_cell any_url [glyph link] (Suc 0) 0) = link"
  by (simp add: free_cell_def wire_cell_def Let_def wide_defs glyph_def plain_flags_def any_url_def
      split: option.split)

lemma free_line_links:
  "row_links (free_line any_url 256 (replicate 256 (glyph (Some uri)))) = 256"
  "row_links (free_line any_url 256 (replicate 256 (glyph None))) = 0"
  unfolding free_line_replicate row_links_def by (simp_all add: free_cell_link)

lemma line_to_cells_glyphs:
  "fst (line_to_cells any_url (replicate 256 (glyph link)) 256 256)
     = free_line any_url 256 (replicate 256 (glyph link))"
proof -
  have "row_links (free_line any_url 256 (replicate 256 (glyph link))) \<le> 256"
    using free_line_links by (cases link) simp_all
  then show ?thesis
    unfolding line_to_cells_def free_line_def by (rule emit_cells_free)
qed

lemma linked_rows:
  "gs_rows_cells (snapshot any_url linked_grid) =
     [free_line any_url 256 top_row, fst (line_to_cells any_url second_row 256 0)]"
  "gs_rows_cells (snapshot any_url unlinked_grid) =
     [free_line any_url 256 (replicate 256 (glyph None)), fst (line_to_cells any_url second_row 256 256)]"
proof -
  have wf: "tg_wf linked_grid" "tg_wf unlinked_grid"
    using linked_grid_ok advance_wf [OF unlink_engine_contract(1)] by (simp_all add: unlinked_grid_def)
  have cols: "tg_cols linked_grid = 256" "tg_cols unlinked_grid = 256"
    by (simp_all add: unlinked_grid_eq) (simp_all add: linked_grid_def)
  have scr: "vt_screen (tg_term linked_grid) = [top_row, second_row]"
      "vt_screen (tg_term unlinked_grid) = [replicate 256 (glyph None), second_row]"
    by (simp_all add: unlinked_grid_eq) (simp add: linked_grid_def)
  show "gs_rows_cells (snapshot any_url linked_grid) =
      [free_line any_url 256 top_row, fst (line_to_cells any_url second_row 256 0)]"
    unfolding snapshot_window screen_lines [OF wf(1)] scr(1) cols two_line_window
    by (simp add: top_row_def line_to_cells_glyphs free_line_links MAX_TERMINAL_LINK_CELLS_PER_FRAME_def)
  show "gs_rows_cells (snapshot any_url unlinked_grid) =
      [free_line any_url 256 (replicate 256 (glyph None)),
       fst (line_to_cells any_url second_row 256 256)]"
    unfolding snapshot_window screen_lines [OF wf(2)] scr(2) cols two_line_window
    by (simp add: line_to_cells_glyphs free_line_links MAX_TERMINAL_LINK_CELLS_PER_FRAME_def)
qed

lemma second_row_link:
  "cell_hyperlink (fst (line_to_cells any_url second_row 256 0) ! 0) = None"
  "cell_hyperlink (fst (line_to_cells any_url second_row 256 256) ! 0) = Some ''http://b''"
  by (simp_all add: line_to_cells_first)
    (simp add: wire_cell_def Let_def second_row_def wide_defs glyph_def plain_flags_def any_url_def)

lemma top_row_changes:
  "free_line any_url 256 top_row \<noteq> free_line any_url 256 (replicate 256 (glyph None))"
  unfolding top_row_def using free_line_links by (metis zero_neq_numeral)

section \<open>The frame that leaves a row stale\<close>

lemma stale_frame:
  defines "prev \<equiv> snapshot any_url linked_grid" and "nxt \<equiv> snapshot any_url unlinked_grid"
  shows "generate_damage prev nxt
       = Frame (frame_of prev nxt (span_of (gs_rows_cells prev) (gs_rows_cells nxt) 0))"
    and "verify_ops (gs_rows_cells prev) (span_of (gs_rows_cells prev) (gs_rows_cells nxt) 0)
       = Some ((gs_rows_cells prev)[0 := gs_rows_cells nxt ! 0])"
    and "(gs_rows_cells prev)[0 := gs_rows_cells nxt ! 0] \<noteq> gs_rows_cells nxt"
    and "same_shape 2 256 (gs_rows_cells prev) (gs_rows_cells nxt)"
proof -
  have rows: "gs_rows_cells prev = [free_line any_url 256 top_row,
        fst (line_to_cells any_url second_row 256 0)]"
      "gs_rows_cells nxt = [free_line any_url 256 (replicate 256 (glyph None)),
        fst (line_to_cells any_url second_row 256 256)]"
    by (simp_all add: prev_def nxt_def linked_rows)
  show shape: "same_shape 2 256 (gs_rows_cells prev) (gs_rows_cells nxt)"
    by (simp add: same_shape_def rect_def rows free_line_def)
  have cand: "candidate_rows prev nxt = Some [0]"
  proof -
    have "length (gs_rows_cells nxt) = 2" by (simp add: rows)
    moreover have "dg_row_stamps prev = [0, 0]" "dg_row_stamps nxt = [1, 0]"
      by (simp_all add: prev_def nxt_def unlinked_grid_eq) (simp add: linked_grid_def)
    ultimately show ?thesis by (simp add: candidate_rows_def Let_def upt_rec [of _ 2] upt_rec [of _ "Suc 0"])
  qed
  have "\<not> is_canonical_blank (fst (line_to_cells any_url (replicate 256 (glyph None)) 256 256) ! 0)"
    by (auto simp: line_to_cells_first wire_cell_def Let_def wide_defs glyph_def plain_flags_def
        is_canonical_blank_def encode_utf8_def char_of_def)
  then have blank: "uniform_blank (gs_rows_cells nxt) = None"
    by (auto simp: rows uniform_blank_def line_to_cells_glyphs split: list.splits)
  have same: "gs_generation prev = gs_generation nxt" "gs_cols prev = gs_cols nxt"
      "gs_rows prev = gs_rows nxt" "gs_revision prev < gs_revision nxt"
    by (simp_all add: prev_def nxt_def unlinked_grid_eq) (simp add: linked_grid_def)
  show "generate_damage prev nxt
       = Frame (frame_of prev nxt (span_of (gs_rows_cells prev) (gs_rows_cells nxt) 0))"
    "verify_ops (gs_rows_cells prev) (span_of (gs_rows_cells prev) (gs_rows_cells nxt) 0)
       = Some ((gs_rows_cells prev)[0 := gs_rows_cells nxt ! 0])"
    using generate_damage_one_candidate [OF shape same cand _ _ blank] top_row_changes
    by (simp_all add: rows)
  show "(gs_rows_cells prev)[0 := gs_rows_cells nxt ! 0] \<noteq> gs_rows_cells nxt"
    using second_row_link by (auto simp: rows)
qed

text \<open>The pane after the daemon relayed the output that removed the links.\<close>

definition relayed_frame :: recv where
  "relayed_frame = RecvFrame \<lparr>of_revision = 1, of_bytes = [0], of_notifications = []\<rparr>"

definition stale_attachment :: "nat attachment" where
  "stale_attachment =
     forward any_url relayed_frame Admitted
       ((attach any_url ''s'' False Admitted linked_grid)\<lparr>at_grid := unlinked_grid\<rparr>)"

lemma stale_attachment_pane:
  defines "prev \<equiv> snapshot any_url linked_grid" and "nxt \<equiv> snapshot any_url unlinked_grid"
  shows "at_pane stale_attachment =
     handle_pane_event True Admitted (at_pane (attach any_url ''s'' False Admitted linked_grid))
       (EvDamage ((frame_of prev nxt (span_of (gs_rows_cells prev) (gs_rows_cells nxt) 0))\<lparr>df_id := ''s''\<rparr>))"
proof -
  let ?fw = "start_forwarder ''s'' False prev"
  have "fw_step None None nxt relayed_frame ?fw =
      (?fw\<lparr>fw_notifications_through := 1, fw_prev_snapshot := nxt\<rparr>,
       [EvDamage ((frame_of prev nxt (span_of (gs_rows_cells prev) (gs_rows_cells nxt) 0))\<lparr>df_id := ''s''\<rparr>)])"
    using stale_frame(1)
    by (simp add: relayed_frame_def fw_step_def fw_notify_def fw_output_def fw_damage_def
        start_forwarder_def prev_def nxt_def)
      (simp add: linked_grid_def)
  then show ?thesis
    by (simp add: stale_attachment_def forward_def attach_def Let_def prev_def nxt_def
        del: handle_pane_event.simps)
qed

lemma stale_attachment_stale:
  "\<not> shows_screen (snapshot any_url unlinked_grid) (at_pane stale_attachment)"
proof -
  let ?prev = "snapshot any_url linked_grid" and ?nxt = "snapshot any_url unlinked_grid"
  let ?ops = "span_of (gs_rows_cells ?prev) (gs_rows_cells ?nxt) 0"
  let ?f = "(frame_of ?prev ?nxt ?ops)\<lparr>df_id := ''s''\<rparr>"
  let ?p = "at_pane (attach any_url ''s'' False Admitted linked_grid)"
  obtain h where h: "pi_held ?p = Some h" "gs_rows_cells h = gs_rows_cells ?prev"
    using attach_mirrors(1) [OF linked_grid_ok(1), of "''s''" any_url False Admitted]
    by (auto simp: mirrors_def same_screen_iff split: option.splits)
  have "rect 2 256 (gs_rows_cells ?prev)" using stale_frame(4) by (simp add: same_shape_def)
  then have applied: "apply_op_list (gs_rows_cells ?prev) ?ops
      = Inr ((gs_rows_cells ?prev)[0 := gs_rows_cells ?nxt ! 0])"
    using stale_frame(2) by (intro verify_ops_apply [of 2 256]) (simp_all add: usize_max_def)
  have "gs_rows_cells ?prev \<noteq> gs_rows_cells ?nxt"
    using stale_frame(3) by (metis list_update_id)
  then show ?thesis
    using handle_damage_held [OF h(1), of True Admitted ?f] h(2) applied stale_frame(3)
    unfolding stale_attachment_pane
    by (auto simp: shows_screen_def same_screen_iff frame_of_def apply_ops_eq_Inr
        simp del: handle_pane_event.simps)
qed

end
