(* ===== verification/Remote_Frame.thy ===== *)
theory Remote_Frame
  imports Prelude
begin

text \<open>
  The binary frame of the terminal hot path (\<^verbatim>\<open>hydra-agent/src/remote_frame.rs\<close>) and the two codecs
  that cut one daemon event into frames (\<^verbatim>\<open>encode_next_terminal_chunk\<close> and
  \<^verbatim>\<open>compress_terminal_line_blocking\<close> of \<^verbatim>\<open>hydra-agent/src/remote_peer.rs\<close>).

  \<^item> Bytes are \<open>8 word\<close>, the header fields \<open>16 word\<close> and \<open>32 word\<close>, with the big-endian
    conversions written out; every \<^verbatim>\<open>Err\<close> of the sources is a value of \<open>frame_error\<close>,
    \<open>gzip_chunk_error\<close> or \<open>output_send_error\<close>.
  \<^item> The gzip encoder (\<^verbatim>\<open>flate2\<close>) is a parameter: a function from the line and the size limit to
    the encoded bytes, \<open>None\<close> where a write into the capped buffer fails.
  \<^item> \<open>frame_stream\<close> is the sequence of frames the forwarder emits for one event, and
    \<open>join_output\<close>/\<open>join_gzip\<close> what the documented receiver does with it.
\<close>

section \<open>Big-endian integers\<close>

definition to_be_bytes_u16 :: "u16 \<Rightarrow> u8 list" where
  "to_be_bytes_u16 w = [ucast (drop_bit 8 w), ucast w]"

definition from_be_bytes_u16 :: "u8 \<Rightarrow> u8 \<Rightarrow> u16" where
  "from_be_bytes_u16 a b = push_bit 8 (ucast a) + ucast b"

definition to_be_bytes_u32 :: "u32 \<Rightarrow> u8 list" where
  "to_be_bytes_u32 w =
     [ucast (drop_bit 24 w), ucast (drop_bit 16 w), ucast (drop_bit 8 w), ucast w]"

definition from_be_bytes_u32 :: "u8 \<Rightarrow> u8 \<Rightarrow> u8 \<Rightarrow> u8 \<Rightarrow> u32" where
  "from_be_bytes_u32 a b c d =
     push_bit 24 (ucast a) + push_bit 16 (ucast b) + push_bit 8 (ucast c) + ucast d"

lemma unat_u8_less: "unat (w :: u8) < 256"
  using unsigned_less [of w] by simp

lemma unat_drop_bit: "unat (drop_bit n (w :: 'a::len word)) = unat w div 2 ^ n"
proof -
  have "take_bit LENGTH('a) (unat w) = unat w"
    using unsigned_less [of w] by (simp add: take_bit_nat_eq_self_iff)
  then show ?thesis unfolding unsigned_drop_bit_eq by (simp only: drop_bit_eq_div)
qed

lemma unat_byte: "unat (ucast (w :: 'a::len word) :: u8) = unat w mod 256"
  by (simp add: unsigned_ucast_eq take_bit_eq_mod)

lemma unat_widen: "unat (ucast (b :: u8) :: u16) = unat b" "unat (ucast (b :: u8) :: u32) = unat b"
  using unat_u8_less [of b] by (simp_all add: unsigned_ucast_eq take_bit_eq_mod)

lemma unat_from_be_u16: "unat (from_be_bytes_u16 a b) = 256 * unat a + unat b"
  using unat_u8_less [of a] unat_u8_less [of b]
  by (simp add: from_be_bytes_u16_def push_bit_eq_mult unat_word_ariths unat_widen)

lemma unat_from_be_u32:
  "unat (from_be_bytes_u32 a b c d)
   = 16777216 * unat a + 65536 * unat b + 256 * unat c + unat d"
  using unat_u8_less [of a] unat_u8_less [of b] unat_u8_less [of c] unat_u8_less [of d]
  by (simp add: from_be_bytes_u32_def push_bit_eq_mult unat_word_ariths unat_widen)

text \<open>Four base-256 digits and the number they make.\<close>

lemma base256_horner:
  "256 * m + d = n \<Longrightarrow> 256 * k + c = m \<Longrightarrow> 256 * j + b = k
   \<Longrightarrow> 16777216 * j + 65536 * b + 256 * c + d = (n :: nat)"
  by simp

lemma base256_digits:
  "16777216 * (n div 16777216) + 65536 * (n div 65536 mod 256) + 256 * (n div 256 mod 256) + n mod 256
   = (n :: nat)"
proof -
  have "n div 65536 = n div 256 div 256" "n div 16777216 = n div 256 div 256 div 256"
    by (simp_all add: div_mult2_eq [symmetric])
  moreover have "256 * (n div 256) + n mod 256 = n"
    "256 * (n div 256 div 256) + n div 256 mod 256 = n div 256"
    "256 * (n div 256 div 256 div 256) + n div 256 div 256 mod 256 = n div 256 div 256"
    by simp_all
  ultimately show ?thesis
    by (metis (no_types) base256_horner)
qed

lemma base256_number:
  assumes "a < 256" "b < 256" "c < 256" "d < (256 :: nat)"
  shows "(16777216 * a + 65536 * b + 256 * c + d) div 16777216 = a"
    and "(16777216 * a + 65536 * b + 256 * c + d) div 65536 mod 256 = b"
    and "(16777216 * a + 65536 * b + 256 * c + d) div 256 mod 256 = c"
    and "(16777216 * a + 65536 * b + 256 * c + d) mod 256 = d"
proof -
  define y where "y = a * 256 + b"
  define z where "z = y * 256 + c"
  have n: "16777216 * a + 65536 * b + 256 * c + d = z * 256 + d"
    by (simp add: y_def z_def)
  have "(z * 256 + d) div 256 = z" "(z * 256 + d) mod 256 = d"
    using assms by simp_all
  moreover have "z div 256 = y" "z mod 256 = c"
    unfolding z_def using assms by simp_all
  moreover have "y div 256 = a" "y mod 256 = b"
    unfolding y_def using assms by simp_all
  moreover have "(z * 256 + d) div 65536 = (z * 256 + d) div 256 div 256"
    "(z * 256 + d) div 16777216 = (z * 256 + d) div 256 div 256 div 256"
    by (simp_all only: div_mult2_eq [symmetric]) simp_all
  ultimately show "(16777216 * a + 65536 * b + 256 * c + d) div 16777216 = a"
    "(16777216 * a + 65536 * b + 256 * c + d) div 65536 mod 256 = b"
    "(16777216 * a + 65536 * b + 256 * c + d) div 256 mod 256 = c"
    "(16777216 * a + 65536 * b + 256 * c + d) mod 256 = d"
    unfolding n by simp_all
qed

lemmas be_bytes = word_unat_eq_iff unat_from_be_u16 unat_from_be_u32 unat_byte unat_drop_bit
  to_be_bytes_u16_def to_be_bytes_u32_def

lemma from_to_be_u16 [simp]:
  "from_be_bytes_u16 (ucast (drop_bit 8 w)) (ucast w) = w"
  using unat_u16_less [of w] by (simp add: be_bytes del: unat_u16_less)

lemma from_to_be_u32 [simp]:
  "from_be_bytes_u32 (ucast (drop_bit 24 w)) (ucast (drop_bit 16 w)) (ucast (drop_bit 8 w)) (ucast w)
   = w"
proof -
  have "unat w < 4294967296" using unsigned_less [of w] by simp
  then show ?thesis by (simp add: be_bytes base256_digits)
qed

lemma to_from_be_u16 [simp]: "to_be_bytes_u16 (from_be_bytes_u16 a b) = [a, b]"
  using unat_u8_less [of a] unat_u8_less [of b] by (simp add: be_bytes)

lemma to_from_be_u32 [simp]: "to_be_bytes_u32 (from_be_bytes_u32 a b c d) = [a, b, c, d]"
  using unat_u8_less [of a] unat_u8_less [of b] unat_u8_less [of c] unat_u8_less [of d]
  by (simp add: be_bytes base256_number)


section \<open>The binary frame\<close>

definition FRAME_VERSION :: u8 where "FRAME_VERSION = 1"
definition MAX_FRAME_PAYLOAD :: nat where "MAX_FRAME_PAYLOAD = 8 * 1024 * 1024"
definition HEADER_LEN :: nat where "HEADER_LEN = 8"

datatype frame_kind = TerminalInput | TerminalOutput | TerminalOutputChunk | TerminalGzipJsonChunk

primrec frame_kind_u8 :: "frame_kind \<Rightarrow> u8" where
  "frame_kind_u8 TerminalInput = 1"
| "frame_kind_u8 TerminalOutput = 2"
| "frame_kind_u8 TerminalOutputChunk = 3"
| "frame_kind_u8 TerminalGzipJsonChunk = 4"

definition frame_kind_from_u8 :: "u8 \<Rightarrow> frame_kind option" where
  "frame_kind_from_u8 v =
     (if v = 1 then Some TerminalInput
      else if v = 2 then Some TerminalOutput
      else if v = 3 then Some TerminalOutputChunk
      else if v = 4 then Some TerminalGzipJsonChunk
      else None)"

record frame =
  fr_kind :: frame_kind
  fr_channel :: u16
  fr_payload :: "u8 list"

datatype frame_error =
    FrameShort
  | FrameBadVersion u8
  | FrameBadKind u8
  | FrameTooLarge nat
  | FrameTrailing

definition frame_encode :: "frame_kind \<Rightarrow> u16 \<Rightarrow> u8 list \<Rightarrow> frame_error + u8 list" where
  "frame_encode kind channel payload =
     (if MAX_FRAME_PAYLOAD < length payload then Inl (FrameTooLarge (length payload))
      else Inr ([FRAME_VERSION, frame_kind_u8 kind] @ to_be_bytes_u16 channel
                @ to_be_bytes_u32 (of_nat (length payload)) @ payload))"

definition frame_decode :: "u8 list \<Rightarrow> frame_error + frame" where
  "frame_decode buf =
     (if length buf < HEADER_LEN then Inl FrameShort
      else if buf ! 0 \<noteq> FRAME_VERSION then Inl (FrameBadVersion (buf ! 0))
      else case frame_kind_from_u8 (buf ! 1) of
        None \<Rightarrow> Inl (FrameBadKind (buf ! 1))
      | Some kind \<Rightarrow>
          let channel = from_be_bytes_u16 (buf ! 2) (buf ! 3);
              len = unat (from_be_bytes_u32 (buf ! 4) (buf ! 5) (buf ! 6) (buf ! 7));
              stop = HEADER_LEN + len
          in if MAX_FRAME_PAYLOAD < len then Inl (FrameTooLarge len)
             else if length buf < stop then Inl FrameShort
             else if stop < length buf then Inl FrameTrailing
             else Inr \<lparr>fr_kind = kind, fr_channel = channel,
                       fr_payload = take (stop - HEADER_LEN) (drop HEADER_LEN buf)\<rparr>)"

lemmas frame_codec_defs = FRAME_VERSION_def MAX_FRAME_PAYLOAD_def HEADER_LEN_def

lemma frame_kind_from_u8_u8 [simp]: "frame_kind_from_u8 (frame_kind_u8 k) = Some k"
  by (cases k) (simp_all add: frame_kind_from_u8_def)

lemma frame_kind_from_u8_Some: "frame_kind_from_u8 v = Some k \<longleftrightarrow> v = frame_kind_u8 k"
  by (cases k) (auto simp: frame_kind_from_u8_def split: if_splits)

text \<open>A buffer that holds a header, with its eight header bytes named.\<close>

lemma header_split:
  assumes "8 \<le> length buf"
  obtains b0 b1 b2 b3 b4 b5 b6 b7 rest where "buf = [b0, b1, b2, b3, b4, b5, b6, b7] @ rest"
  using assms by (auto simp: numeral_eq_Suc Suc_le_length_iff)

lemma frame_decode_header:
  "frame_decode ([FRAME_VERSION, frame_kind_u8 k, c0, c1, l0, l1, l2, l3] @ rest) =
     (let len = unat (from_be_bytes_u32 l0 l1 l2 l3)
      in if MAX_FRAME_PAYLOAD < len then Inl (FrameTooLarge len)
         else if length rest < len then Inl FrameShort
         else if len < length rest then Inl FrameTrailing
         else Inr \<lparr>fr_kind = k, fr_channel = from_be_bytes_u16 c0 c1, fr_payload = rest\<rparr>)"
  by (simp add: frame_decode_def HEADER_LEN_def Let_def numeral_eq_Suc)

lemma frame_decode_short: "length buf < 8 \<Longrightarrow> frame_decode buf = Inl FrameShort"
  unfolding frame_decode_def HEADER_LEN_def by (simp only: if_True)

lemma frame_encode_Inr:
  "frame_encode k c p = Inr buf \<longleftrightarrow>
     length p \<le> MAX_FRAME_PAYLOAD \<and>
     buf = [FRAME_VERSION, frame_kind_u8 k] @ to_be_bytes_u16 c @ to_be_bytes_u32 (of_nat (length p)) @ p"
  by (auto simp: frame_encode_def)

lemma payload_len_u32:
  "length p \<le> MAX_FRAME_PAYLOAD \<Longrightarrow> unat (of_nat (length p) :: u32) = length p"
  by (simp add: MAX_FRAME_PAYLOAD_def)

lemma frame_encode_bytes:
  assumes "frame_encode k c p = Inr buf"
  obtains c0 c1 l0 l1 l2 l3 where
    "buf = [FRAME_VERSION, frame_kind_u8 k, c0, c1, l0, l1, l2, l3] @ p"
    "from_be_bytes_u16 c0 c1 = c" "unat (from_be_bytes_u32 l0 l1 l2 l3) = length p"
    "length p \<le> MAX_FRAME_PAYLOAD"
  using assms payload_len_u32 [of p]
  by (auto simp: frame_encode_Inr to_be_bytes_u16_def to_be_bytes_u32_def)

lemma frame_decode_encode:
  assumes "frame_encode k c p = Inr buf"
  shows "frame_decode buf = Inr \<lparr>fr_kind = k, fr_channel = c, fr_payload = p\<rparr>"
  using assms by (rule frame_encode_bytes) (simp add: frame_decode_header [simplified])

lemma frame_decode_Inr_header:
  assumes "frame_decode buf = Inr f"
  obtains c0 c1 l0 l1 l2 l3 where
    "buf = [FRAME_VERSION, frame_kind_u8 (fr_kind f), c0, c1, l0, l1, l2, l3] @ fr_payload f"
    "from_be_bytes_u16 c0 c1 = fr_channel f"
    "unat (from_be_bytes_u32 l0 l1 l2 l3) = length (fr_payload f)"
    "length (fr_payload f) \<le> MAX_FRAME_PAYLOAD"
proof -
  have "8 \<le> length buf"
    using assms by (auto simp: frame_decode_def HEADER_LEN_def split: if_splits)
  then obtain b0 b1 c0 c1 l0 l1 l2 l3 rest where buf: "buf = [b0, b1, c0, c1, l0, l1, l2, l3] @ rest"
    by (rule header_split)
  obtain k where k: "b0 = FRAME_VERSION" "b1 = frame_kind_u8 k"
    using assms unfolding buf
    by (auto simp: frame_decode_def frame_kind_from_u8_Some split: if_splits option.splits)
  show ?thesis
    using assms unfolding buf k frame_decode_header
    by (intro that [of c0 c1 l0 l1 l2 l3]) (auto simp: buf k Let_def split: if_splits)
qed

text \<open>
  C25: the frame codec is a bijection between the frames whose payload fits the cap and the buffers
  it accepts. A buffer decodes to a frame exactly when encoding that frame yields the same buffer
  byte for byte, so there is one wire form per frame and nothing else is accepted.\<close>

theorem frame_codec_bijective:
  "frame_decode buf = Inr f \<longleftrightarrow> frame_encode (fr_kind f) (fr_channel f) (fr_payload f) = Inr buf"
proof
  assume "frame_decode buf = Inr f"
  then obtain c0 c1 l0 l1 l2 l3 where
    "buf = [FRAME_VERSION, frame_kind_u8 (fr_kind f), c0, c1, l0, l1, l2, l3] @ fr_payload f"
    and c: "from_be_bytes_u16 c0 c1 = fr_channel f"
    and l: "unat (from_be_bytes_u32 l0 l1 l2 l3) = length (fr_payload f)"
    and "length (fr_payload f) \<le> MAX_FRAME_PAYLOAD"
    by (rule frame_decode_Inr_header)
  moreover have "of_nat (length (fr_payload f)) = from_be_bytes_u32 l0 l1 l2 l3"
    by (simp flip: l)
  ultimately show "frame_encode (fr_kind f) (fr_channel f) (fr_payload f) = Inr buf"
    by (simp add: frame_encode_Inr flip: c)
next
  assume "frame_encode (fr_kind f) (fr_channel f) (fr_payload f) = Inr buf"
  then show "frame_decode buf = Inr f" by (simp add: frame_decode_encode)
qed

text \<open>
  framing is self-delimiting. Cutting an encoded frame anywhere gives \<^verbatim>\<open>Short\<close>, appending
  anything gives \<^verbatim>\<open>Trailing\<close>, and changing the version byte gives \<^verbatim>\<open>BadVersion\<close> whatever the
  rest says: no proper prefix or extension of a frame is itself a frame.\<close>

theorem frame_self_delimiting:
  assumes "frame_encode k c p = Inr buf"
  shows "(n < length buf \<longrightarrow> frame_decode (take n buf) = Inl FrameShort)
       \<and> (xs \<noteq> [] \<longrightarrow> frame_decode (buf @ xs) = Inl FrameTrailing)
       \<and> (v \<noteq> FRAME_VERSION \<longrightarrow> frame_decode (buf[0 := v]) = Inl (FrameBadVersion v))"
proof -
  obtain c0 c1 l0 l1 l2 l3 where
    buf: "buf = [FRAME_VERSION, frame_kind_u8 k, c0, c1, l0, l1, l2, l3] @ p"
    and l: "unat (from_be_bytes_u32 l0 l1 l2 l3) = length p" "length p \<le> MAX_FRAME_PAYLOAD"
    using assms by (rule frame_encode_bytes)
  have "frame_decode (take n buf) = Inl FrameShort" if "n < length buf"
  proof (cases "n < 8")
    case True
    then show ?thesis by (intro frame_decode_short) simp
  next
    case False
    then have "take n buf = [FRAME_VERSION, frame_kind_u8 k, c0, c1, l0, l1, l2, l3] @ take (n - 8) p"
      unfolding buf take_append by (simp add: take_all numeral_eq_Suc)
    with that l False show ?thesis
      by (simp add: frame_decode_header [simplified] buf Let_def)
  qed
  moreover have "frame_decode (buf @ xs) = Inl FrameTrailing" if "xs \<noteq> []"
    using that l by (simp add: buf frame_decode_header [simplified] Let_def)
  moreover have "frame_decode (buf[0 := v]) = Inl (FrameBadVersion v)" if "v \<noteq> FRAME_VERSION"
    using that by (simp add: buf frame_decode_def HEADER_LEN_def)
  ultimately show ?thesis by blast
qed

theorem frame_self_delimiting_witness:
  "frame_decode (take 9 [1, 2, 0, 7, 0, 0, 0, 2, 104, 105]) = Inl FrameShort \<and>
   frame_decode ([1, 2, 0, 7, 0, 0, 0, 2, 104, 105] @ [0]) = Inl FrameTrailing \<and>
   frame_decode ([1, 2, 0, 7, 0, 0, 0, 2, 104, 105][0 := 3]) = Inl (FrameBadVersion 3)"
proof -
  have "frame_encode TerminalOutput 7 [104, 105] = Inr [1, 2, 0, 7, 0, 0, 0, 2, 104, 105]"
    by (simp add: frame_encode_def frame_codec_defs to_be_bytes_u16_def to_be_bytes_u32_def)
  from frame_self_delimiting [OF this, of 9 "[0]" 3] show ?thesis
    by (simp add: FRAME_VERSION_def)
qed

section \<open>The gzip chunk envelope\<close>

definition TERMINAL_GZIP_CODEC_VERSION :: u8 where "TERMINAL_GZIP_CODEC_VERSION = 1"
definition TERMINAL_CODEC_CHUNK_BYTES :: nat where "TERMINAL_CODEC_CHUNK_BYTES = 16 * 1024"
definition MAX_TERMINAL_CODEC_BYTES :: nat where "MAX_TERMINAL_CODEC_BYTES = 16 * 1024 * 1024"
definition MAX_TERMINAL_CODEC_CHUNKS :: nat where "MAX_TERMINAL_CODEC_CHUNKS = 1024"
definition MAX_TERMINAL_CODEC_EXPANSION :: nat where "MAX_TERMINAL_CODEC_EXPANSION = 512"
definition TERMINAL_GZIP_MIN_DECODED_BYTES :: nat where "TERMINAL_GZIP_MIN_DECODED_BYTES = 4 * 1024"
definition TERMINAL_GZIP_CHUNK_HEADER_LEN :: nat where "TERMINAL_GZIP_CHUNK_HEADER_LEN = 14"

lemmas gzip_limits = TERMINAL_GZIP_CODEC_VERSION_def TERMINAL_CODEC_CHUNK_BYTES_def
  MAX_TERMINAL_CODEC_BYTES_def MAX_TERMINAL_CODEC_CHUNKS_def MAX_TERMINAL_CODEC_EXPANSION_def
  TERMINAL_GZIP_MIN_DECODED_BYTES_def TERMINAL_GZIP_CHUNK_HEADER_LEN_def

text \<open>\<^verbatim>\<open>usize::div_ceil\<close>.\<close>

definition div_ceil :: "nat \<Rightarrow> nat \<Rightarrow> nat" where
  "div_ceil a b = a div b + (if a mod b = 0 then 0 else 1)"

record gzip_chunk =
  gz_index :: u16
  gz_count :: u16
  gz_encoded_len :: u32
  gz_decoded_len :: u32
  gz_final_chunk :: bool
  gz_bytes :: "u8 list"

datatype gzip_chunk_error =
    GzShort
  | GzBadVersion u8
  | GzBadFlags u8
  | GzBadCount u16
  | GzBadIndex u16 u16
  | GzBadFinality u16 u16
  | GzEmptyChunk
  | GzEncodedTooLarge u32
  | GzDecodedTooLarge u32
  | GzBelowCompressionThreshold u32
  | GzInsufficientSavings u32 u32
  | GzExpansionTooLarge u32 u32
  | GzBadChunkLength nat nat

text \<open>
  \<^verbatim>\<open>flags & !1 != 0\<close> says that a bit other than bit 0 is set, that is \<open>flags\<close> is neither 0 nor 1.
  The products are computed in \<^verbatim>\<open>u64\<close> from \<^verbatim>\<open>u32\<close> operands, where they cannot wrap, so they are
  natural numbers here; the index sum is guarded by \<^verbatim>\<open>index < count\<close>.
\<close>

definition decode_terminal_gzip_chunk :: "u8 list \<Rightarrow> gzip_chunk_error + gzip_chunk" where
  "decode_terminal_gzip_chunk payload =
     (if length payload < TERMINAL_GZIP_CHUNK_HEADER_LEN then Inl GzShort
      else if payload ! 0 \<noteq> TERMINAL_GZIP_CODEC_VERSION then Inl (GzBadVersion (payload ! 0))
      else let flags = payload ! 1 in
      if and flags (not 1) \<noteq> 0 then Inl (GzBadFlags flags)
      else let index = from_be_bytes_u16 (payload ! 2) (payload ! 3);
               count = from_be_bytes_u16 (payload ! 4) (payload ! 5) in
      if count = 0 \<or> MAX_TERMINAL_CODEC_CHUNKS < unat count then Inl (GzBadCount count)
      else if count \<le> index then Inl (GzBadIndex index count)
      else let final_chunk = (and flags 1 = 1) in
      if final_chunk \<noteq> (index + 1 = count) then Inl (GzBadFinality index count)
      else let encoded_len = from_be_bytes_u32 (payload ! 6) (payload ! 7) (payload ! 8) (payload ! 9);
               decoded_len = from_be_bytes_u32 (payload ! 10) (payload ! 11) (payload ! 12) (payload ! 13)
      in
      if encoded_len = 0 \<or> MAX_TERMINAL_CODEC_BYTES < unat encoded_len
      then Inl (GzEncodedTooLarge encoded_len)
      else if MAX_TERMINAL_CODEC_BYTES < unat decoded_len then Inl (GzDecodedTooLarge decoded_len)
      else if unat decoded_len < TERMINAL_GZIP_MIN_DECODED_BYTES
      then Inl (GzBelowCompressionThreshold decoded_len)
      else if unat decoded_len * 7 < unat encoded_len * 8
      then Inl (GzInsufficientSavings encoded_len decoded_len)
      else if unat encoded_len * MAX_TERMINAL_CODEC_EXPANSION < unat decoded_len
      then Inl (GzExpansionTooLarge encoded_len decoded_len)
      else if div_ceil (unat encoded_len) TERMINAL_CODEC_CHUNK_BYTES \<noteq> unat count
      then Inl (GzBadCount count)
      else let expected_chunk_len =
                 (if final_chunk then unat encoded_len - unat index * TERMINAL_CODEC_CHUNK_BYTES
                  else TERMINAL_CODEC_CHUNK_BYTES);
               bytes = drop TERMINAL_GZIP_CHUNK_HEADER_LEN payload in
      if bytes = [] then Inl GzEmptyChunk
      else if length bytes \<noteq> expected_chunk_len
      then Inl (GzBadChunkLength (length bytes) expected_chunk_len)
      else Inr \<lparr>gz_index = index, gz_count = count, gz_encoded_len = encoded_len,
                gz_decoded_len = decoded_len, gz_final_chunk = final_chunk, gz_bytes = bytes\<rparr>)"

definition checked_add_u16 :: "u16 \<Rightarrow> u16 \<Rightarrow> u16 option" where
  "checked_add_u16 a b = (if unat a + unat b < 2 ^ 16 then Some (a + b) else None)"

definition encode_terminal_gzip_chunk_payload ::
    "u16 \<Rightarrow> u16 \<Rightarrow> u32 \<Rightarrow> u32 \<Rightarrow> u8 list \<Rightarrow> gzip_chunk_error + u8 list" where
  "encode_terminal_gzip_chunk_payload index count encoded_len decoded_len bytes =
     (let final_chunk = (checked_add_u16 index 1 = Some count);
          flags = (if final_chunk then 1 else 0);
          payload = [TERMINAL_GZIP_CODEC_VERSION, flags] @ to_be_bytes_u16 index
            @ to_be_bytes_u16 count @ to_be_bytes_u32 encoded_len @ to_be_bytes_u32 decoded_len @ bytes
      in res_bind (decode_terminal_gzip_chunk payload) (\<lambda>_. Inr payload))"

text \<open>
  What a chunk says about the event it belongs to, independently of the order in which the decoder
  checks it: the declared lengths are within the codec's bounds, the event has exactly as many
  chunks as its encoded length needs, and this chunk carries its share of the encoded bytes.
\<close>

definition chunk_share :: "nat \<Rightarrow> nat \<Rightarrow> nat" where
  "chunk_share encoded_len index =
     min TERMINAL_CODEC_CHUNK_BYTES (encoded_len - index * TERMINAL_CODEC_CHUNK_BYTES)"

definition codec_lengths_ok :: "nat \<Rightarrow> nat \<Rightarrow> bool" where
  "codec_lengths_ok encoded_len decoded_len \<longleftrightarrow>
     0 < encoded_len \<and> encoded_len \<le> MAX_TERMINAL_CODEC_BYTES \<and>
     decoded_len \<le> MAX_TERMINAL_CODEC_BYTES \<and> TERMINAL_GZIP_MIN_DECODED_BYTES \<le> decoded_len \<and>
     encoded_len * 8 \<le> decoded_len * 7 \<and> decoded_len \<le> encoded_len * MAX_TERMINAL_CODEC_EXPANSION"

definition wf_gzip_chunk :: "gzip_chunk \<Rightarrow> bool" where
  "wf_gzip_chunk c \<longleftrightarrow>
     codec_lengths_ok (unat (gz_encoded_len c)) (unat (gz_decoded_len c)) \<and>
     unat (gz_count c) = div_ceil (unat (gz_encoded_len c)) TERMINAL_CODEC_CHUNK_BYTES \<and>
     unat (gz_index c) < unat (gz_count c) \<and>
     (gz_final_chunk c \<longleftrightarrow> unat (gz_index c) + 1 = unat (gz_count c)) \<and>
     length (gz_bytes c) = chunk_share (unat (gz_encoded_len c)) (unat (gz_index c))"

lemma div_ceil_bounds:
  assumes "0 < b"
  shows "a \<le> div_ceil a b * b" "i < div_ceil a b \<longleftrightarrow> i * b < a" "i + 1 = div_ceil a b \<Longrightarrow> a - i * b \<le> b"
proof -
  have a: "a = b * (a div b) + a mod b" "a mod b < b" using assms by simp_all
  have eq: "div_ceil a b = (if a mod b = 0 then a div b else Suc (a div b))"
    by (simp add: div_ceil_def)
  show up: "a \<le> div_ceil a b * b"
  proof (cases "a mod b = 0")
    case True
    then show ?thesis using a(1) by (simp add: eq mult.commute)
  next
    case False
    have "div_ceil a b * b = b + b * (a div b)" using False by (simp add: eq mult.commute)
    then show ?thesis using a by linarith
  qed
  show "i < div_ceil a b \<longleftrightarrow> i * b < a"
  proof
    assume i: "i < div_ceil a b"
    show "i * b < a"
    proof (cases "a mod b = 0")
      case True
      then have "i < a div b" using i by (simp add: eq)
      then show ?thesis using True assms a(1) by (metis add_0_right mult.commute mult_less_mono2)
    next
      case False
      then have "i \<le> a div b" using i by (simp add: eq)
      then have "i * b \<le> b * (a div b)" by (simp add: mult.commute)
      then show ?thesis using False a(1) by linarith
    qed
  next
    assume "i * b < a"
    then have "i * b < div_ceil a b * b" using up by (rule less_le_trans)
    then show "i < div_ceil a b" by (metis mult_less_cancel2)
  qed
  show "a - i * b \<le> b" if "i + 1 = div_ceil a b"
    using up that [symmetric] by simp
qed

lemma chunk_bytes_pos: "0 < TERMINAL_CODEC_CHUNK_BYTES"
  by (simp add: gzip_limits)

lemmas chunk_count = div_ceil_bounds [OF chunk_bytes_pos]

lemma codec_count_bounds:
  assumes "codec_lengths_ok e d"
  shows "0 < div_ceil e TERMINAL_CODEC_CHUNK_BYTES"
    "div_ceil e TERMINAL_CODEC_CHUNK_BYTES \<le> MAX_TERMINAL_CODEC_CHUNKS"
proof -
  have e: "0 < e" "e \<le> 1024 * 16384" using assms by (simp_all add: codec_lengths_ok_def gzip_limits)
  show "0 < div_ceil e TERMINAL_CODEC_CHUNK_BYTES"
    using e chunk_count(2) [of 0 e] by simp
  have "\<not> 1024 < div_ceil e TERMINAL_CODEC_CHUNK_BYTES"
    using e chunk_count(2) [of 1024 e] by (simp add: gzip_limits)
  then show "div_ceil e TERMINAL_CODEC_CHUNK_BYTES \<le> MAX_TERMINAL_CODEC_CHUNKS"
    by (simp add: gzip_limits)
qed

text \<open>The header with its fourteen bytes named, and the decoder on it.\<close>

definition gzip_header :: "u8 \<Rightarrow> u16 \<Rightarrow> u16 \<Rightarrow> u32 \<Rightarrow> u32 \<Rightarrow> u8 list" where
  "gzip_header flags index count enc dec =
     [TERMINAL_GZIP_CODEC_VERSION, flags] @ to_be_bytes_u16 index @ to_be_bytes_u16 count
       @ to_be_bytes_u32 enc @ to_be_bytes_u32 dec"

lemma gzip_header_split:
  assumes "14 \<le> length payload" "payload ! 0 = TERMINAL_GZIP_CODEC_VERSION"
  obtains flags index count enc dec bytes where "payload = gzip_header flags index count enc dec @ bytes"
proof -
  obtain b0 b1 b2 b3 b4 b5 b6 b7 b8 b9 b10 b11 b12 b13 rest where
    "payload = [b0, b1, b2, b3, b4, b5, b6, b7, b8, b9, b10, b11, b12, b13] @ rest"
    using assms(1) by (auto simp: numeral_eq_Suc Suc_le_length_iff)
  with assms(2) have "payload = gzip_header b1 (from_be_bytes_u16 b2 b3) (from_be_bytes_u16 b4 b5)
      (from_be_bytes_u32 b6 b7 b8 b9) (from_be_bytes_u32 b10 b11 b12 b13) @ rest"
    by (simp add: gzip_header_def)
  then show ?thesis by (rule that)
qed

lemma gzip_header_bytes:
  "gzip_header flags index count enc dec =
     [TERMINAL_GZIP_CODEC_VERSION, flags, ucast (drop_bit 8 index), ucast index,
      ucast (drop_bit 8 count), ucast count,
      ucast (drop_bit 24 enc), ucast (drop_bit 16 enc), ucast (drop_bit 8 enc), ucast enc,
      ucast (drop_bit 24 dec), ucast (drop_bit 16 dec), ucast (drop_bit 8 dec), ucast dec]"
  by (simp add: gzip_header_def to_be_bytes_u16_def to_be_bytes_u32_def)

lemma flags_cases: "and flags (not 1) = (0 :: u8) \<longleftrightarrow> flags = 0 \<or> flags = 1"
proof
  assume h: "and flags (not 1) = (0 :: u8)"
  have "flags = or (and flags 1) (and flags (not 1))"
    by (rule bit_word_eqI) (auto simp: bit_simps)
  also have "\<dots> = flags mod 2" unfolding h by (simp add: and_one_eq)
  finally show "flags = 0 \<or> flags = 1" by (metis mod2_eq_if)
qed auto

lemma decode_gzip_header_guards:
  "decode_terminal_gzip_chunk (gzip_header flags index count enc dec @ bytes) = Inr c \<longleftrightarrow>
     (flags = 0 \<or> flags = 1) \<and> count \<noteq> 0 \<and> unat count \<le> MAX_TERMINAL_CODEC_CHUNKS \<and>
     index < count \<and> (flags = 1 \<longleftrightarrow> index + 1 = count) \<and>
     codec_lengths_ok (unat enc) (unat dec) \<and>
     div_ceil (unat enc) TERMINAL_CODEC_CHUNK_BYTES = unat count \<and> bytes \<noteq> [] \<and>
     length bytes = (if flags = 1 then unat enc - unat index * TERMINAL_CODEC_CHUNK_BYTES
                     else TERMINAL_CODEC_CHUNK_BYTES) \<and>
     c = \<lparr>gz_index = index, gz_count = count, gz_encoded_len = enc, gz_decoded_len = dec,
          gz_final_chunk = (flags = 1), gz_bytes = bytes\<rparr>"
  unfolding decode_terminal_gzip_chunk_def gzip_header_bytes Let_def guard_eq_Inr
  by (auto simp: flags_cases [simplified] TERMINAL_GZIP_CHUNK_HEADER_LEN_def codec_lengths_ok_def
      not_less not_le unat_gt_0)

lemma index_final_iff:
  assumes "unat (count :: u16) \<le> 1024" "index < count"
  shows "index + 1 = count \<longleftrightarrow> unat index + 1 = unat count"
  using assms by (auto simp: word_unat_eq_iff unat_word_ariths word_less_nat_alt)

lemma decode_gzip_header:
  "decode_terminal_gzip_chunk (gzip_header flags index count enc dec @ bytes) = Inr c \<longleftrightarrow>
     flags = (if gz_final_chunk c then 1 else 0) \<and> wf_gzip_chunk c \<and>
     c = \<lparr>gz_index = index, gz_count = count, gz_encoded_len = enc, gz_decoded_len = dec,
          gz_final_chunk = gz_final_chunk c, gz_bytes = bytes\<rparr>"
  (is "?L \<longleftrightarrow> ?R")
proof -
  have share: "(unat index + 1 = unat count \<longrightarrow>
        chunk_share (unat enc) (unat index) = unat enc - unat index * TERMINAL_CODEC_CHUNK_BYTES) \<and>
      (unat index + 1 \<noteq> unat count \<longrightarrow> chunk_share (unat enc) (unat index) = TERMINAL_CODEC_CHUNK_BYTES) \<and>
      0 < chunk_share (unat enc) (unat index)"
    if "div_ceil (unat enc) TERMINAL_CODEC_CHUNK_BYTES = unat count" "index < count"
  proof -
    have lt: "unat index < unat count" using that(2) by (simp add: word_less_nat_alt)
    then have "unat index * TERMINAL_CODEC_CHUNK_BYTES < unat enc"
      using chunk_count(2) [of "unat index" "unat enc"] that(1) by simp
    moreover have "TERMINAL_CODEC_CHUNK_BYTES \<le> unat enc - unat index * TERMINAL_CODEC_CHUNK_BYTES"
      if "unat index + 1 \<noteq> unat count"
    proof -
      have "unat index + 1 < unat count" using lt that by simp
      then have "(unat index + 1) * TERMINAL_CODEC_CHUNK_BYTES < unat enc"
        using chunk_count(2) [of "unat index + 1" "unat enc"] \<open>div_ceil _ _ = _\<close> by simp
      then show ?thesis by simp
    qed
    ultimately show ?thesis
      using chunk_count(3) [of "unat index" "unat enc"] that(1) chunk_bytes_pos
      by (auto simp: chunk_share_def)
  qed
  show ?thesis
  proof
    assume L: ?L
    note g = L [unfolded decode_gzip_header_guards]
    have "index + 1 = count \<longleftrightarrow> unat index + 1 = unat count"
      using g by (intro index_final_iff) (auto simp: gzip_limits)
    with g share show ?R
      by (auto simp: wf_gzip_chunk_def word_less_nat_alt)
  next
    assume R: ?R
    then have c: "codec_lengths_ok (unat enc) (unat dec)"
        "unat count = div_ceil (unat enc) TERMINAL_CODEC_CHUNK_BYTES" "index < count"
        "gz_final_chunk c \<longleftrightarrow> unat index + 1 = unat count"
        "length bytes = chunk_share (unat enc) (unat index)"
      by (cases c; simp add: wf_gzip_chunk_def word_less_nat_alt)+
    have "index + 1 = count \<longleftrightarrow> unat index + 1 = unat count"
      using c codec_count_bounds [OF c(1)] by (intro index_final_iff) (auto simp: gzip_limits)
    with R c share codec_count_bounds [OF c(1)] show ?L
      unfolding decode_gzip_header_guards by (auto simp flip: unat_eq_0)
  qed
qed

lemma encode_gzip_header:
  "encode_terminal_gzip_chunk_payload index count enc dec bytes =
     (let payload = gzip_header (if checked_add_u16 index 1 = Some count then 1 else 0)
                      index count enc dec @ bytes
      in res_bind (decode_terminal_gzip_chunk payload) (\<lambda>_. Inr payload))"
  by (simp add: encode_terminal_gzip_chunk_payload_def gzip_header_def)

lemma wf_gzip_final:
  assumes "wf_gzip_chunk c"
  shows "gz_final_chunk c \<longleftrightarrow> checked_add_u16 (gz_index c) 1 = Some (gz_count c)"
proof -
  have "unat (gz_count c) \<le> 1024" "unat (gz_index c) < unat (gz_count c)"
    using assms codec_count_bounds by (auto simp: wf_gzip_chunk_def gzip_limits)
  then show ?thesis
    using assms by (auto simp: wf_gzip_chunk_def checked_add_u16_def word_unat_eq_iff unat_word_ariths)
qed

text \<open>
  the gzip envelope's decoder accepts exactly the canonical encodings of well-formed chunks. A
  payload decodes to \<open>c\<close> if and only if \<open>c\<close>'s declared lengths are within the codec's bounds (at
  least 12.5% savings, at most 512-fold expansion), its count is the number of 16 KiB chunks the
  encoded length needs, its bytes are exactly its share of the event, and re-encoding \<open>c\<close> gives the
  payload back byte for byte.\<close>

theorem gzip_chunk_codec_exact:
  "decode_terminal_gzip_chunk payload = Inr c \<longleftrightarrow>
     wf_gzip_chunk c \<and>
     encode_terminal_gzip_chunk_payload (gz_index c) (gz_count c) (gz_encoded_len c)
       (gz_decoded_len c) (gz_bytes c) = Inr payload"
proof
  assume L: "decode_terminal_gzip_chunk payload = Inr c"
  then have "14 \<le> length payload" "payload ! 0 = TERMINAL_GZIP_CODEC_VERSION"
    unfolding decode_terminal_gzip_chunk_def TERMINAL_GZIP_CHUNK_HEADER_LEN_def guard_eq_Inr
    by simp_all
  then obtain flags index count enc dec bytes where
    p: "payload = gzip_header flags index count enc dec @ bytes"
    by (rule gzip_header_split)
  have g: "flags = (if gz_final_chunk c then 1 else 0)" "wf_gzip_chunk c"
      "index = gz_index c" "count = gz_count c" "enc = gz_encoded_len c" "dec = gz_decoded_len c"
      "bytes = gz_bytes c"
    using L unfolding p decode_gzip_header by (cases c; simp)+
  then show "wf_gzip_chunk c \<and> encode_terminal_gzip_chunk_payload (gz_index c) (gz_count c)
      (gz_encoded_len c) (gz_decoded_len c) (gz_bytes c) = Inr payload"
    using L wf_gzip_final [OF g(2)] by (simp add: encode_gzip_header p)
next
  assume R: "wf_gzip_chunk c \<and> encode_terminal_gzip_chunk_payload (gz_index c) (gz_count c)
      (gz_encoded_len c) (gz_decoded_len c) (gz_bytes c) = Inr payload"
  then have "payload = gzip_header (if gz_final_chunk c then 1 else 0) (gz_index c) (gz_count c)
      (gz_encoded_len c) (gz_decoded_len c) @ gz_bytes c"
    using wf_gzip_final [of c] by (auto simp: encode_gzip_header Let_def res_bind_eq_Inr)
  with R show "decode_terminal_gzip_chunk payload = Inr c"
    by (simp add: decode_gzip_header)
qed

section \<open>Cutting one event into frames\<close>

datatype output_send_error =
    BufferStalled | DataChannelClosed | EncodeFailed | QueueClosed | SchedulerRetired
  | QueueItemTooLarge | ForwarderQueueFull | CompressionFailed | CompressionCancelled

datatype prepared_line = Legacy "u8 list" | Gzip "u8 list" u32

definition OUTPUT_CHUNK_BYTES :: nat where "OUTPUT_CHUNK_BYTES = 16 * 1024"

text \<open>\<^verbatim>\<open>u16::try_from\<close> and \<^verbatim>\<open>u32::try_from\<close> of a \<^verbatim>\<open>usize\<close>, and \<^verbatim>\<open>map_err(|_| e)\<close>.\<close>

definition u16_try_from :: "nat \<Rightarrow> 'e \<Rightarrow> 'e + u16" where
  "u16_try_from n e = (if n < 2 ^ 16 then Inr (of_nat n) else Inl e)"

definition u32_try_from :: "nat \<Rightarrow> 'e \<Rightarrow> 'e + u32" where
  "u32_try_from n e = (if n < 2 ^ 32 then Inr (of_nat n) else Inl e)"

definition map_err :: "'e + 'a \<Rightarrow> 'f \<Rightarrow> 'f + 'a" where
  "map_err r e = (case r of Inl _ \<Rightarrow> Inl e | Inr a \<Rightarrow> Inr a)"

lemma map_err_simps [simp]: "map_err (Inl x) e = Inl e" "map_err (Inr a) e = Inr a"
  by (simp_all add: map_err_def)

lemma map_err_eq_Inr: "map_err r e = Inr a \<longleftrightarrow> r = Inr a"
  by (cases r) simp_all

fun encode_next_terminal_chunk ::
    "u16 \<Rightarrow> prepared_line \<Rightarrow> nat \<Rightarrow> output_send_error + (u8 list \<times> nat \<times> bool)" where
  "encode_next_terminal_chunk channel (Legacy line) offset =
     (if length line < offset \<or> (offset = length line \<and> line \<noteq> []) then Inl EncodeFailed
      else let stop = min (offset + OUTPUT_CHUNK_BYTES) (length line);
               is_last = (length line \<le> stop);
               payload = (if is_last then 1 else 0) # take (stop - offset) (drop offset line)
           in res_bind (map_err (frame_encode TerminalOutputChunk channel payload) EncodeFailed)
                (\<lambda>frame. Inr (frame, stop, is_last)))"
| "encode_next_terminal_chunk channel (Gzip encoded decoded_len) offset =
     (if encoded = [] \<or> length encoded \<le> offset \<or> offset mod TERMINAL_CODEC_CHUNK_BYTES \<noteq> 0
      then Inl EncodeFailed
      else let count = div_ceil (length encoded) TERMINAL_CODEC_CHUNK_BYTES in
      res_bind (u16_try_from count EncodeFailed) (\<lambda>count_u16.
      let index = offset div TERMINAL_CODEC_CHUNK_BYTES;
          stop = min (offset + TERMINAL_CODEC_CHUNK_BYTES) (length encoded) in
      res_bind (u16_try_from index EncodeFailed) (\<lambda>index_u16.
      res_bind (u32_try_from (length encoded) EncodeFailed) (\<lambda>len_u32.
      res_bind (map_err (encode_terminal_gzip_chunk_payload index_u16 count_u16 len_u32 decoded_len
                           (take (stop - offset) (drop offset encoded))) EncodeFailed) (\<lambda>payload.
      res_bind (map_err (frame_encode TerminalGzipJsonChunk channel payload) EncodeFailed) (\<lambda>frame.
      Inr (frame, stop, stop = length encoded)))))))"

fun prepared_bytes :: "prepared_line \<Rightarrow> u8 list" where
  "prepared_bytes (Legacy line) = line"
| "prepared_bytes (Gzip encoded _) = encoded"

lemma encode_next_progress:
  assumes "encode_next_terminal_chunk channel out offset = Inr (frame, next, done')"
  shows "next = min (offset + OUTPUT_CHUNK_BYTES) (length (prepared_bytes out))"
    and "done' \<longleftrightarrow> next = length (prepared_bytes out)"
    and "offset \<le> length (prepared_bytes out)"
    and "offset = length (prepared_bytes out) \<Longrightarrow> done'"
    and "\<not> done' \<Longrightarrow> offset < next"
  using assms
  by (cases out; auto simp: Let_def res_bind_eq_Inr OUTPUT_CHUNK_BYTES_def TERMINAL_CODEC_CHUNK_BYTES_def
      split: if_splits)+

lemma encode_next_channel:
  assumes "encode_next_terminal_chunk channel out offset = Inr (frame, next, done')"
  shows "\<exists>f. frame_decode frame = Inr f \<and> fr_channel f = channel"
  using assms
  by (cases out) (auto simp: Let_def res_bind_eq_Inr map_err_eq_Inr split: if_splits dest!: frame_decode_encode)

lemma encode_next_decreases:
  assumes "encode_next_terminal_chunk channel out offset = Inr (frame, next, False)"
  shows "length (prepared_bytes out) - next < length (prepared_bytes out) - offset"
  using encode_next_progress(1,2,3,5) [OF assms] by auto

text \<open>
  The frames of one event: what the forwarder emits when it asks for the next chunk, sends it, and
  commits its offset until the chunk that completes the event.
\<close>

function (sequential) frame_stream :: "u16 \<Rightarrow> prepared_line \<Rightarrow> nat \<Rightarrow> output_send_error + u8 list list" where
  "frame_stream channel out offset =
     (case encode_next_terminal_chunk channel out offset of
        Inl e \<Rightarrow> Inl e
      | Inr (frame, next, completes) \<Rightarrow>
          if completes then Inr [frame]
          else res_bind (frame_stream channel out next) (\<lambda>frames. Inr (frame # frames)))"
  by pat_completeness auto
termination
  by (relation "measure (\<lambda>(channel, out, offset). length (prepared_bytes out) - offset)")
     (auto simp: encode_next_decreases)

declare frame_stream.simps [simp del]


text \<open>
  The receiver the frame kinds document: legacy chunks of one channel are concatenated until the
  one whose first byte is 1; gzip chunks must arrive in index order with one set of declared
  lengths, and the joined bytes are handed to the decompressor.
\<close>

fun join_output :: "u16 \<Rightarrow> u8 list \<Rightarrow> u8 list list \<Rightarrow> u8 list option" where
  "join_output channel acc [] = None"
| "join_output channel acc (buf # bufs) =
     (case frame_decode buf of
        Inl _ \<Rightarrow> None
      | Inr f \<Rightarrow>
          if fr_kind f \<noteq> TerminalOutputChunk \<or> fr_channel f \<noteq> channel \<or> fr_payload f = [] then None
          else if hd (fr_payload f) = 1
          then (if bufs = [] then Some (acc @ tl (fr_payload f)) else None)
          else join_output channel (acc @ tl (fr_payload f)) bufs)"

fun join_gzip :: "u16 \<Rightarrow> u32 \<Rightarrow> u32 \<Rightarrow> nat \<Rightarrow> u8 list \<Rightarrow> u8 list list \<Rightarrow> u8 list option" where
  "join_gzip channel enc dec i acc [] = None"
| "join_gzip channel enc dec i acc (buf # bufs) =
     (case frame_decode buf of
        Inl _ \<Rightarrow> None
      | Inr f \<Rightarrow>
          if fr_kind f \<noteq> TerminalGzipJsonChunk \<or> fr_channel f \<noteq> channel then None
          else case decode_terminal_gzip_chunk (fr_payload f) of
            Inl _ \<Rightarrow> None
          | Inr c \<Rightarrow>
              if unat (gz_index c) \<noteq> i \<or> gz_encoded_len c \<noteq> enc \<or> gz_decoded_len c \<noteq> dec then None
              else if gz_final_chunk c
              then (if bufs = [] then Some (acc @ gz_bytes c) else None)
              else join_gzip channel enc dec (i + 1) (acc @ gz_bytes c) bufs)"

lemma frame_encode_small:
  assumes "length payload \<le> 20000"
  obtains buf where "frame_encode k c payload = Inr buf"
    "frame_decode buf = Inr \<lparr>fr_kind = k, fr_channel = c, fr_payload = payload\<rparr>"
proof -
  have "length payload \<le> MAX_FRAME_PAYLOAD" using assms by (simp add: MAX_FRAME_PAYLOAD_def)
  then obtain buf where b: "frame_encode k c payload = Inr buf" by (auto simp: frame_encode_def)
  then show ?thesis by (intro that frame_decode_encode)
qed

lemma legacy_chunk_ok:
  assumes "offset < length line \<or> (line = [] \<and> offset = 0)"
  obtains buf where
    "encode_next_terminal_chunk channel (Legacy line) offset =
       Inr (buf, min (offset + OUTPUT_CHUNK_BYTES) (length line), length line \<le> offset + OUTPUT_CHUNK_BYTES)"
    "frame_decode buf = Inr \<lparr>fr_kind = TerminalOutputChunk, fr_channel = channel,
       fr_payload = (if length line \<le> offset + OUTPUT_CHUNK_BYTES then 1 else 0)
                    # take OUTPUT_CHUNK_BYTES (drop offset line)\<rparr>"
proof -
  let ?p = "(if length line \<le> offset + OUTPUT_CHUNK_BYTES then 1 else 0)
            # take OUTPUT_CHUNK_BYTES (drop offset line)"
  have "length ?p \<le> 20000" by (simp add: OUTPUT_CHUNK_BYTES_def)
  then obtain buf where buf: "frame_encode TerminalOutputChunk channel ?p = Inr buf"
    "frame_decode buf = Inr \<lparr>fr_kind = TerminalOutputChunk, fr_channel = channel, fr_payload = ?p\<rparr>"
    by (rule frame_encode_small)
  have "take (min (offset + OUTPUT_CHUNK_BYTES) (length line) - offset) (drop offset line)
      = take OUTPUT_CHUNK_BYTES (drop offset line)"
    by (cases "offset + OUTPUT_CHUNK_BYTES \<le> length line") (auto simp: min_def)
  with assms buf(1) have "encode_next_terminal_chunk channel (Legacy line) offset =
      Inr (buf, min (offset + OUTPUT_CHUNK_BYTES) (length line), length line \<le> offset + OUTPUT_CHUNK_BYTES)"
    by (auto simp: Let_def)
  then show ?thesis using buf(2) by (rule that)
qed

lemma legacy_stream_from:
  assumes "offset < length line \<or> (line = [] \<and> offset = 0)"
  shows "\<exists>frames. frame_stream channel (Legacy line) offset = Inr frames \<and>
           join_output channel (take offset line) frames = Some line"
  using assms
proof (induction "length line - offset" arbitrary: offset rule: less_induct)
  case less
  obtain buf where buf: "encode_next_terminal_chunk channel (Legacy line) offset =
       Inr (buf, min (offset + OUTPUT_CHUNK_BYTES) (length line), length line \<le> offset + OUTPUT_CHUNK_BYTES)"
    "frame_decode buf = Inr \<lparr>fr_kind = TerminalOutputChunk, fr_channel = channel,
       fr_payload = (if length line \<le> offset + OUTPUT_CHUNK_BYTES then 1 else 0)
                    # take OUTPUT_CHUNK_BYTES (drop offset line)\<rparr>"
    using less.prems by (rule legacy_chunk_ok)
  show ?case
  proof (cases "length line \<le> offset + OUTPUT_CHUNK_BYTES")
    case True
    then have "take offset line @ take OUTPUT_CHUNK_BYTES (drop offset line) = line"
      by simp
    with True buf show ?thesis by (simp add: frame_stream.simps [of channel "Legacy line" offset])
  next
    case False
    let ?next = "offset + OUTPUT_CHUNK_BYTES"
    have "length line - ?next < length line - offset" "?next < length line"
      using False by (simp_all add: OUTPUT_CHUNK_BYTES_def)
    then obtain frames where "frame_stream channel (Legacy line) ?next = Inr frames"
      "join_output channel (take ?next line) frames = Some line"
      using less.hyps [of ?next] by blast
    moreover have "take offset line @ take OUTPUT_CHUNK_BYTES (drop offset line) = take ?next line"
      by (simp add: take_add)
    ultimately show ?thesis
      using False buf by (simp add: frame_stream.simps [of channel "Legacy line" offset])
  qed
qed

text \<open>The chunk of an encoded event at index \<open>i\<close>, as the receiver reads it.\<close>

definition gzip_chunk_at :: "u8 list \<Rightarrow> u32 \<Rightarrow> nat \<Rightarrow> gzip_chunk" where
  "gzip_chunk_at encoded dec i =
     \<lparr>gz_index = of_nat i, gz_count = of_nat (div_ceil (length encoded) TERMINAL_CODEC_CHUNK_BYTES),
      gz_encoded_len = of_nat (length encoded), gz_decoded_len = dec,
      gz_final_chunk = (i + 1 = div_ceil (length encoded) TERMINAL_CODEC_CHUNK_BYTES),
      gz_bytes = take TERMINAL_CODEC_CHUNK_BYTES (drop (i * TERMINAL_CODEC_CHUNK_BYTES) encoded)\<rparr>"

lemma wf_gzip_chunk_at:
  assumes "codec_lengths_ok (length encoded) (unat dec)" "i * TERMINAL_CODEC_CHUNK_BYTES < length encoded"
  shows "wf_gzip_chunk (gzip_chunk_at encoded dec i)" "unat (of_nat i :: u16) = i" "i < 1024"
    "unat (of_nat (length encoded) :: u32) = length encoded"
proof -
  let ?n = "div_ceil (length encoded) TERMINAL_CODEC_CHUNK_BYTES"
  have i: "i < ?n" using assms(2) by (simp add: chunk_count(2))
  have n: "?n \<le> 1024" using codec_count_bounds [OF assms(1)] by (simp add: gzip_limits)
  have len: "length encoded \<le> 16777216"
    using assms(1) by (simp add: codec_lengths_ok_def gzip_limits)
  show u: "unat (of_nat i :: u16) = i" "i < 1024" "unat (of_nat (length encoded) :: u32) = length encoded"
    using i n len by simp_all
  moreover have "unat (of_nat ?n :: u16) = ?n" using n by simp
  ultimately show "wf_gzip_chunk (gzip_chunk_at encoded dec i)"
    using i assms by (simp add: wf_gzip_chunk_def gzip_chunk_at_def chunk_share_def)
qed

lemma gzip_chunk_ok:
  assumes ok: "codec_lengths_ok (length encoded) (unat dec)"
    and i: "i * TERMINAL_CODEC_CHUNK_BYTES < length encoded"
  obtains buf p where
    "encode_next_terminal_chunk channel (Gzip encoded dec) (i * TERMINAL_CODEC_CHUNK_BYTES) =
       Inr (buf, min ((i + 1) * TERMINAL_CODEC_CHUNK_BYTES) (length encoded),
            i + 1 = div_ceil (length encoded) TERMINAL_CODEC_CHUNK_BYTES)"
    "frame_decode buf = Inr \<lparr>fr_kind = TerminalGzipJsonChunk, fr_channel = channel, fr_payload = p\<rparr>"
    "decode_terminal_gzip_chunk p = Inr (gzip_chunk_at encoded dec i)"
proof -
  let ?C = TERMINAL_CODEC_CHUNK_BYTES
  let ?n = "div_ceil (length encoded) ?C"
  let ?c = "gzip_chunk_at encoded dec i"
  note w = wf_gzip_chunk_at [OF ok i]
  have n: "i < ?n" "?n \<le> 1024"
    using i codec_count_bounds(2) [OF ok]
    by (simp_all add: chunk_count(2) MAX_TERMINAL_CODEC_CHUNKS_def)
  have len: "length encoded < 2 ^ 32" using ok by (simp add: codec_lengths_ok_def gzip_limits)
  have slice: "take (min (i * ?C + ?C) (length encoded) - i * ?C) (drop (i * ?C) encoded)
      = take ?C (drop (i * ?C) encoded)"
    by (cases "i * ?C + ?C \<le> length encoded") (auto simp: min_def)
  obtain p where p: "encode_terminal_gzip_chunk_payload (gz_index ?c) (gz_count ?c) (gz_encoded_len ?c)
      (gz_decoded_len ?c) (gz_bytes ?c) = Inr p" "decode_terminal_gzip_chunk p = Inr ?c"
  proof -
    let ?p = "gzip_header (if gz_final_chunk ?c then 1 else 0) (gz_index ?c) (gz_count ?c)
      (gz_encoded_len ?c) (gz_decoded_len ?c) @ gz_bytes ?c"
    have "decode_terminal_gzip_chunk ?p = Inr ?c" by (simp add: decode_gzip_header w(1))
    then show ?thesis
      using wf_gzip_final [OF w(1)] by (intro that [of ?p]) (simp_all add: encode_gzip_header)
  qed
  have "length p = 14 + length (gz_bytes ?c)"
    using p(1) by (auto simp: encode_gzip_header Let_def res_bind_eq_Inr gzip_header_bytes)
  then have "length p \<le> 20000" by (simp add: gzip_chunk_at_def gzip_limits)
  then obtain buf where buf: "frame_encode TerminalGzipJsonChunk channel p = Inr buf"
    "frame_decode buf = Inr \<lparr>fr_kind = TerminalGzipJsonChunk, fr_channel = channel, fr_payload = p\<rparr>"
    by (rule frame_encode_small)
  have last: "min (i * ?C + ?C) (length encoded) = length encoded \<longleftrightarrow> i + 1 = ?n"
    using chunk_count(2) [of "i + 1" "length encoded"] n(1) by auto
  have "encoded \<noteq> []" using i by auto
  then have "encode_next_terminal_chunk channel (Gzip encoded dec) (i * ?C) =
      Inr (buf, min (i * ?C + ?C) (length encoded), min (i * ?C + ?C) (length encoded) = length encoded)"
    using i n len p(1) buf(1) chunk_bytes_pos
    by (simp add: u16_try_from_def u32_try_from_def Let_def slice gzip_chunk_at_def)
  then have "encode_next_terminal_chunk channel (Gzip encoded dec) (i * ?C) =
      Inr (buf, min (i * ?C + ?C) (length encoded), i + 1 = ?n)"
    by (simp only: last)
  moreover have "i * ?C + ?C = (i + 1) * ?C" by simp
  ultimately show ?thesis
    using buf(2) p(2) by (intro that) (simp_all only:)
qed

lemma gzip_stream_from:
  assumes ok: "codec_lengths_ok (length encoded) (unat dec)"
    and i: "i * TERMINAL_CODEC_CHUNK_BYTES < length encoded"
  shows "\<exists>frames. frame_stream channel (Gzip encoded dec) (i * TERMINAL_CODEC_CHUNK_BYTES) = Inr frames \<and>
           join_gzip channel (of_nat (length encoded)) dec i
             (take (i * TERMINAL_CODEC_CHUNK_BYTES) encoded) frames = Some encoded"
  using i
proof (induction "length encoded - i" arbitrary: i rule: less_induct)
  case less
  let ?C = TERMINAL_CODEC_CHUNK_BYTES
  obtain buf p where enc: "encode_next_terminal_chunk channel (Gzip encoded dec) (i * ?C) =
       Inr (buf, min ((i + 1) * ?C) (length encoded), i + 1 = div_ceil (length encoded) ?C)"
    and dec: "frame_decode buf = Inr \<lparr>fr_kind = TerminalGzipJsonChunk, fr_channel = channel, fr_payload = p\<rparr>"
      "decode_terminal_gzip_chunk p = Inr (gzip_chunk_at encoded dec i)"
    using gzip_chunk_ok [OF ok less.prems] by blast
  have join: "take (i * ?C) encoded @ take ?C (drop (i * ?C) encoded) = take ((i + 1) * ?C) encoded"
    by (simp add: take_add add.commute [of ?C])
  note u = wf_gzip_chunk_at(2) [OF ok less.prems]
  show ?case
  proof (cases "i + 1 = div_ceil (length encoded) ?C")
    case True
    then have "length encoded \<le> (i + 1) * ?C" using chunk_count(1) [of "length encoded"] by simp
    with True enc dec join u show ?thesis
      by (simp add: frame_stream.simps [of channel _ "i * ?C"] gzip_chunk_at_def)
  next
    case False
    have "i < div_ceil (length encoded) ?C" using less.prems by (simp add: chunk_count(2))
    with False have more: "(i + 1) * ?C < length encoded"
      using chunk_count(2) [of "i + 1" "length encoded"] by simp
    have "i < length encoded"
      using less.prems chunk_bytes_pos by (metis less_le_trans mult_le_mono2 nat_mult_1_right Suc_leI One_nat_def le_less_trans)
    then have "length encoded - (i + 1) < length encoded - i" by simp
    then obtain frames where "frame_stream channel (Gzip encoded dec) ((i + 1) * ?C) = Inr frames"
      "join_gzip channel (of_nat (length encoded)) dec (i + 1) (take ((i + 1) * ?C) encoded) frames
       = Some encoded"
      using less.hyps [OF _ more] by blast
    with False enc dec join u more show ?thesis
      by (simp add: frame_stream.simps [of channel _ "i * ?C"] gzip_chunk_at_def min_def)
  qed
qed

section \<open>Compressing one event\<close>

text \<open>
  The \<^verbatim>\<open>flate2\<close> encoder is a parameter: a state, the pieces each \<^verbatim>\<open>write_all\<close> hands to the writer
  below it, and the pieces \<^verbatim>\<open>finish\<close> adds. The writer below is the program's own
  \<^verbatim>\<open>CappedCompressionBuffer\<close>, which refuses a piece that would exceed its limit (an allocation
  within the limit is taken to succeed). \<open>cancelled k\<close> is what the \<open>k\<close>-th load of the shared
  cancellation flag returns.
\<close>

record 'z gz_encoder =
  gz_new :: 'z
  gz_write :: "'z \<Rightarrow> u8 list \<Rightarrow> 'z \<times> u8 list list"
  gz_finish :: "'z \<Rightarrow> u8 list list"

record capped_buffer =
  cb_bytes :: "u8 list"
  cb_limit :: nat

definition new_capped_buffer :: "nat \<Rightarrow> capped_buffer" where
  "new_capped_buffer limit = \<lparr>cb_bytes = [], cb_limit = limit\<rparr>"

definition capped_write :: "capped_buffer \<Rightarrow> u8 list \<Rightarrow> capped_buffer option" where
  "capped_write b buf =
     (case checked_add_usize (length (cb_bytes b)) (length buf) of
        None \<Rightarrow> None
      | Some next_len \<Rightarrow>
          if cb_limit b < next_len then None
          else Some (b\<lparr>cb_bytes := cb_bytes b @ buf\<rparr>))"

fun capped_writes :: "capped_buffer \<Rightarrow> u8 list list \<Rightarrow> capped_buffer option" where
  "capped_writes b [] = Some b"
| "capped_writes b (p # ps) = (case capped_write b p of None \<Rightarrow> None | Some b' \<Rightarrow> capped_writes b' ps)"

fun write_slices :: "'z gz_encoder \<Rightarrow> (nat \<Rightarrow> bool) \<Rightarrow> nat \<Rightarrow> 'z \<Rightarrow> capped_buffer \<Rightarrow> u8 list list
    \<Rightarrow> output_send_error + (nat \<times> 'z \<times> capped_buffer) option" where
  "write_slices gz cancelled k z b [] = Inr (Some (k, z, b))"
| "write_slices gz cancelled k z b (s # ss) =
     (if cancelled k then Inl CompressionCancelled
      else case gz_write gz z s of
        (z', pieces) \<Rightarrow>
          (case capped_writes b pieces of
             None \<Rightarrow> Inr None
           | Some b' \<Rightarrow> write_slices gz cancelled (k + 1) z' b' ss))"

definition compress_terminal_line_blocking ::
    "'z gz_encoder \<Rightarrow> (nat \<Rightarrow> bool) \<Rightarrow> u8 list \<Rightarrow> output_send_error + prepared_line" where
  "compress_terminal_line_blocking gz cancelled line =
     (let decoded_len = length line;
          encoded_limit = min MAX_TERMINAL_CODEC_BYTES (min (decoded_len * 7) usize_max div 8)
      in res_bind (write_slices gz cancelled 0 (gz_new gz) (new_capped_buffer encoded_limit)
                     (chunks_of (64 * 1024) line)) (\<lambda>written.
           case written of
             None \<Rightarrow> Inr (Legacy line)
           | Some (k, z, b) \<Rightarrow>
               if cancelled k then Inl CompressionCancelled
               else case capped_writes b (gz_finish gz z) of
                 None \<Rightarrow> Inr (Legacy line)
               | Some b' \<Rightarrow>
                   let encoded = cb_bytes b' in
                   if MAX_TERMINAL_CODEC_BYTES < length encoded \<or> decoded_len * 7 < length encoded * 8
                   then Inr (Legacy line)
                   else Inr (Gzip encoded (of_nat decoded_len))))"

text \<open>\<open>joined\<close> says whether the blocking task could be joined (it did not panic).\<close>

definition prepare_terminal_line_with_cancel ::
    "'z gz_encoder \<Rightarrow> (nat \<Rightarrow> bool) \<Rightarrow> bool \<Rightarrow> u8 list \<Rightarrow> output_send_error + prepared_line" where
  "prepare_terminal_line_with_cancel gz cancelled joined line =
     (if length line < TERMINAL_GZIP_MIN_DECODED_BYTES \<or> MAX_TERMINAL_CODEC_BYTES < length line
      then Inr (Legacy line)
      else if \<not> joined then Inl CompressionFailed
      else compress_terminal_line_blocking gz cancelled line)"

text \<open>Everything the encoder writes for a line, and the documented contract of the format.\<close>

fun gz_feed :: "'z gz_encoder \<Rightarrow> 'z \<Rightarrow> u8 list list \<Rightarrow> 'z \<times> u8 list" where
  "gz_feed gz z [] = (z, [])"
| "gz_feed gz z (s # ss) =
     (case gz_write gz z s of (z', ps) \<Rightarrow>
      (case gz_feed gz z' ss of (z'', out) \<Rightarrow> (z'', concat ps @ out)))"

definition gz_output :: "'z gz_encoder \<Rightarrow> u8 list \<Rightarrow> u8 list" where
  "gz_output gz line =
     (case gz_feed gz (gz_new gz) (chunks_of (64 * 1024) line) of
        (z, out) \<Rightarrow> out @ concat (gz_finish gz z))"

definition inflates :: "'z gz_encoder \<Rightarrow> (u8 list \<Rightarrow> u8 list option) \<Rightarrow> bool" where
  "inflates gz inflate \<longleftrightarrow> (\<forall>line. inflate (gz_output gz line) = Some line)"

lemma capped_writes_Some:
  "capped_writes b ps = Some b' \<Longrightarrow> cb_bytes b' = cb_bytes b @ concat ps \<and> cb_limit b' = cb_limit b"
  by (induction ps arbitrary: b) (auto simp: capped_write_def split: option.splits if_splits)

lemma write_slices_Some:
  "write_slices gz cancelled k z b ss = Inr (Some (k', z', b')) \<Longrightarrow>
     cb_bytes b' = cb_bytes b @ snd (gz_feed gz z ss) \<and> z' = fst (gz_feed gz z ss)"
  by (induction ss arbitrary: k z b)
     (fastforce split: if_splits prod.splits option.splits dest: capped_writes_Some)+

lemma compress_cases:
  assumes "compress_terminal_line_blocking gz cancelled line = Inr out"
  shows "out = Legacy line \<or>
    (out = Gzip (gz_output gz line) (of_nat (length line)) \<and>
     length (gz_output gz line) \<le> MAX_TERMINAL_CODEC_BYTES \<and>
     length (gz_output gz line) * 8 \<le> length line * 7)"
proof -
  let ?limit = "min MAX_TERMINAL_CODEC_BYTES (min (length line * 7) usize_max div 8)"
  obtain written where w: "write_slices gz cancelled 0 (gz_new gz) (new_capped_buffer ?limit)
      (chunks_of (64 * 1024) line) = Inr written"
    using assms unfolding compress_terminal_line_blocking_def Let_def res_bind_eq_Inr by blast
  show ?thesis
  proof (cases written)
    case None
    with assms w show ?thesis by (simp add: compress_terminal_line_blocking_def)
  next
    case (Some kzb)
    obtain k z b where kzb: "kzb = (k, z, b)" by (cases kzb) auto
    have fed: "cb_bytes b = snd (gz_feed gz (gz_new gz) (chunks_of (64 * 1024) line))"
      "z = fst (gz_feed gz (gz_new gz) (chunks_of (64 * 1024) line))"
      using w write_slices_Some [of gz cancelled 0 "gz_new gz" "new_capped_buffer ?limit"]
      unfolding Some kzb by (auto simp: new_capped_buffer_def)
    have "gz_output gz line = cb_bytes b @ concat (gz_finish gz z)"
      by (simp add: gz_output_def fed split: prod.split)
    then show ?thesis
      using assms w unfolding Some kzb
      by (auto simp: compress_terminal_line_blocking_def Let_def split: option.splits if_splits
          dest: capped_writes_Some)
  qed
qed

text \<open>
  The receiver on the frames of one event. It is a specification of what the frame kinds document: the
  receiver of the product is a TypeScript client, which is not modelled, and which also bounds the
  length of a line.
\<close>

definition receive :: "(u8 list \<Rightarrow> u8 list option) \<Rightarrow> u16 \<Rightarrow> u8 list list \<Rightarrow> u8 list option" where
  "receive inflate channel frames =
     (case frames of
        [] \<Rightarrow> None
      | buf # _ \<Rightarrow>
          (case frame_decode buf of
             Inl _ \<Rightarrow> None
           | Inr f \<Rightarrow>
               if fr_kind f = TerminalOutputChunk then join_output channel [] frames
               else case decode_terminal_gzip_chunk (fr_payload f) of
                 Inl _ \<Rightarrow> None
               | Inr c \<Rightarrow>
                   (case join_gzip channel (gz_encoded_len c) (gz_decoded_len c) 0 [] frames of
                      None \<Rightarrow> None
                    | Some encoded \<Rightarrow>
                        (case inflate encoded of
                           None \<Rightarrow> None
                         | Some line \<Rightarrow>
                             if length line = unat (gz_decoded_len c) then Some line else None))))"

lemma receive_legacy:
  assumes "join_output channel [] frames = Some line"
  shows "receive inflate channel frames = Some line"
proof (cases frames)
  case (Cons buf bufs)
  obtain f where "frame_decode buf = Inr f" "fr_kind f = TerminalOutputChunk"
    using assms unfolding Cons by (auto split: sum.splits if_splits)
  with assms show ?thesis unfolding Cons by (simp add: receive_def)
qed (use assms in simp)

lemma receive_gzip:
  assumes "join_gzip channel enc dec 0 [] frames = Some encoded" "inflate encoded = Some line"
    "length line = unat dec"
  shows "receive inflate channel frames = Some line"
proof (cases frames)
  case (Cons buf bufs)
  obtain f c where "frame_decode buf = Inr f" "fr_kind f = TerminalGzipJsonChunk"
    "decode_terminal_gzip_chunk (fr_payload f) = Inr c" "gz_encoded_len c = enc" "gz_decoded_len c = dec"
    using assms(1) unfolding Cons by (auto split: sum.splits if_splits)
  with assms show ?thesis unfolding Cons by (simp add: receive_def)
qed (use assms in simp)

lemma prepare_cases:
  assumes "prepare_terminal_line_with_cancel gz cancelled joined line = Inr out"
  shows "out = Legacy line \<or>
    (out = Gzip (gz_output gz line) (of_nat (length line)) \<and>
     TERMINAL_GZIP_MIN_DECODED_BYTES \<le> length line \<and> length line \<le> MAX_TERMINAL_CODEC_BYTES \<and>
     length (gz_output gz line) \<le> MAX_TERMINAL_CODEC_BYTES \<and>
     length (gz_output gz line) * 8 \<le> length line * 7)"
  using assms compress_cases [of gz cancelled line out]
  by (auto simp: prepare_terminal_line_with_cancel_def split: if_splits)

lemma legacy_reaches_peer:
  "\<exists>frames. frame_stream channel (Legacy line) 0 = Inr frames \<and> receive inflate channel frames = Some line"
proof -
  have "0 < length line \<or> (line = [] \<and> (0::nat) = 0)" by auto
  from legacy_stream_from [OF this, of channel] receive_legacy show ?thesis by fastforce
qed

lemma gzip_reaches_peer:
  assumes "prepare_terminal_line_with_cancel gz cancelled joined line = Inr out" "out \<noteq> Legacy line"
    and "inflates gz inflate"
    and "length line \<le> length (gz_output gz line) * MAX_TERMINAL_CODEC_EXPANSION"
  shows "\<exists>frames. frame_stream channel out 0 = Inr frames \<and> receive inflate channel frames = Some line"
proof -
  let ?e = "gz_output gz line"
  have g: "out = Gzip ?e (of_nat (length line))" "4096 \<le> length line" "length line \<le> 16777216"
    "length ?e \<le> 16777216" "length ?e * 8 \<le> length line * 7"
    using prepare_cases [OF assms(1)] assms(2) by (auto simp: gzip_limits)
  have u: "unat (of_nat (length line) :: u32) = length line" using g(3) by simp
  have "codec_lengths_ok (length ?e) (unat (of_nat (length line) :: u32))"
    unfolding u using g assms(4) by (auto simp: codec_lengths_ok_def gzip_limits)
  moreover from this have "0 * TERMINAL_CODEC_CHUNK_BYTES < length ?e"
    by (simp add: codec_lengths_ok_def)
  ultimately obtain frames where "frame_stream channel out 0 = Inr frames"
    "join_gzip channel (of_nat (length ?e)) (of_nat (length line)) 0 [] frames = Some ?e"
    using gzip_stream_from [of ?e "of_nat (length line)" 0 channel] g(1) by auto
  moreover have "inflate ?e = Some line" using assms(3) by (simp add: inflates_def)
  ultimately show ?thesis using receive_gzip u by metis
qed

lemma over_expanded_refused:
  assumes "length encoded * MAX_TERMINAL_CODEC_EXPANSION < unat dec"
  shows "frame_stream channel (Gzip encoded dec) 0 = Inl EncodeFailed"
proof -
  let ?C = TERMINAL_CODEC_CHUNK_BYTES
  have "encode_terminal_gzip_chunk_payload i n (of_nat (length encoded)) dec bytes \<noteq> Inr p"
    if "length encoded < 2 ^ 32" for i n bytes p
  proof
    assume "encode_terminal_gzip_chunk_payload i n (of_nat (length encoded)) dec bytes = Inr p"
    then obtain c fl where
      "decode_terminal_gzip_chunk (gzip_header fl i n (of_nat (length encoded)) dec @ bytes) = Inr c"
      by (auto simp: encode_gzip_header Let_def res_bind_eq_Inr)
    then have "codec_lengths_ok (unat (of_nat (length encoded) :: u32)) (unat dec)"
      unfolding decode_gzip_header_guards by simp
    with assms that show False by (simp add: codec_lengths_ok_def)
  qed
  then have "encode_next_terminal_chunk channel (Gzip encoded dec) 0 \<noteq> Inr r" for r
    by (auto simp: Let_def u16_try_from_def u32_try_from_def res_bind_eq_Inr map_err_eq_Inr
        split: if_splits)
  moreover have "encode_next_terminal_chunk channel (Gzip encoded dec) 0 = Inl e \<Longrightarrow> e = EncodeFailed" for e
    by (auto simp: Let_def u16_try_from_def u32_try_from_def res_bind_eq_Inl map_err_def
        split: if_splits sum.splits)
  ultimately show ?thesis
    by (cases "encode_next_terminal_chunk channel (Gzip encoded dec) 0")
       (auto simp: frame_stream.simps [of _ _ 0])
qed

lemma over_expanded_prepared:
  assumes "prepare_terminal_line_with_cancel gz cancelled joined line = Inr out" "out \<noteq> Legacy line"
    and "length (gz_output gz line) * MAX_TERMINAL_CODEC_EXPANSION < length line"
  shows "frame_stream channel out 0 = Inl EncodeFailed"
proof -
  have "out = Gzip (gz_output gz line) (of_nat (length line))" "length line \<le> 16777216"
    using prepare_cases [OF assms(1)] assms(2) by (auto simp: gzip_limits)
  with assms(3) show ?thesis by (simp add: over_expanded_refused)
qed

text \<open>
  C24: what becomes of an event once \<^verbatim>\<open>prepare_terminal_line\<close> has settled on a codec, in every case. If the
  line is sent as it is, or if it is compressed and at most 512 times as long as its compressed form, then
  asking for the next chunk until the event is complete ends, every frame is accepted by the decoders,
  and joining the chunks (and inflating them, when they are gzip) gives back the line byte for byte. If
  the compressed form is shorter than that, no frame is produced and the result is \<^verbatim>\<open>EncodeFailed\<close>. The
  gzip encoder is only assumed to produce a stream its decoder inverts; which of the cases applies
  depends on the line. Chunks are joined by \<open>receive\<close>, the receiver the frame kinds document.\<close>

theorem terminal_line_reaches_peer:
  assumes "prepare_terminal_line_with_cancel gz cancelled joined line = Inr out"
    and "inflates gz inflate"
  shows "if out = Legacy line \<or> length line \<le> length (gz_output gz line) * MAX_TERMINAL_CODEC_EXPANSION
    then \<exists>frames. frame_stream channel out 0 = Inr frames \<and> receive inflate channel frames = Some line
    else frame_stream channel out 0 = Inl EncodeFailed"
proof (cases "out = Legacy line")
  case True
  then show ?thesis using legacy_reaches_peer by simp
next
  case False
  then show ?thesis
    using gzip_reaches_peer [OF assms(1) False assms(2)] over_expanded_prepared [OF assms(1) False] by simp
qed


section \<open>A concrete encoder\<close>

text \<open>
  A run-length encoder with gzip's 18 bytes of overhead, to exercise the theorems: a line of zero
  bytes becomes a marker, its length and padding, anything else is stored behind a marker.
\<close>

definition run_encode :: "u8 list \<Rightarrow> u8 list" where
  "run_encode line =
     (if line = replicate (length line) 0 \<and> length line < 2 ^ 32
      then 1 # to_be_bytes_u32 (of_nat (length line)) @ [0, 0, 0, 0, 0, 0, 0, 0, 0, 0, 0, 0, 0]
      else 0 # line)"

definition run_inflate :: "u8 list \<Rightarrow> u8 list option" where
  "run_inflate xs =
     (case xs of
        [] \<Rightarrow> None
      | x # ys \<Rightarrow>
          if x = 0 then Some ys
          else if length ys < 4 then None
          else Some (replicate (unat (from_be_bytes_u32 (ys ! 0) (ys ! 1) (ys ! 2) (ys ! 3))) 0))"

definition run_encoder :: "u8 list gz_encoder" where
  "run_encoder = \<lparr>gz_new = [], gz_write = (\<lambda>z s. (z @ s, [])), gz_finish = (\<lambda>z. [run_encode z])\<rparr>"

lemma run_inflate_encode: "run_inflate (run_encode line) = Some line"
proof (cases "line = replicate (length line) 0 \<and> length line < 2 ^ 32")
  case True
  then obtain n where n: "line = replicate n 0" "n < 4294967296" by auto
  show ?thesis
    using n(2) unfolding n(1)
    by (simp add: run_encode_def run_inflate_def to_be_bytes_u32_def numeral_eq_Suc [of num.One]
        numeral_eq_Suc [of "num.Bit0 num.One"] numeral_eq_Suc [of "num.Bit1 num.One"])
next
  case False
  then have "run_encode line = 0 # line" unfolding run_encode_def by (rule if_not_P)
  then show ?thesis by (simp add: run_inflate_def)
qed

lemma run_encoder_output: "gz_output run_encoder line = run_encode line"
proof -
  have "gz_feed run_encoder z ss = (z @ concat ss, [])" for z ss
    by (induction ss arbitrary: z) (simp_all add: run_encoder_def)
  then show ?thesis by (simp add: gz_output_def concat_chunks_of) (simp add: run_encoder_def)
qed

lemma run_encoder_inflates: "inflates run_encoder run_inflate"
  by (simp add: inflates_def run_encoder_output run_inflate_encode)

lemma prepare_zero_line:
  assumes "4096 \<le> n" "n \<le> 65536"
  shows "prepare_terminal_line_with_cancel run_encoder (\<lambda>_. False) True (replicate n 0)
       = Inr (Gzip (run_encode (replicate n 0)) (of_nat n))"
    "length (run_encode (replicate n 0)) = 18"
proof -
  have line: "replicate n (0 :: u8) \<noteq> []" using assms by simp
  show len: "length (run_encode (replicate n 0)) = 18"
    using assms by (simp add: run_encode_def to_be_bytes_u32_def)
  have "chunks_of 65536 (replicate n (0 :: u8)) = [replicate n 0]"
    using assms line by (simp add: chunks_of.simps [of 65536] chunks_of.simps [of _ "[]"])
  then show "prepare_terminal_line_with_cancel run_encoder (\<lambda>_. False) True (replicate n 0)
       = Inr (Gzip (run_encode (replicate n 0)) (of_nat n))"
    using assms len
    by (simp add: prepare_terminal_line_with_cancel_def compress_terminal_line_blocking_def Let_def
        run_encoder_def new_capped_buffer_def capped_write_def checked_add_usize_def usize_max_def
        gzip_limits)
qed

theorem terminal_line_reaches_peer_witness:
  "(\<exists>frames. frame_stream 7 (Gzip (run_encode (replicate 4096 0)) (of_nat 4096)) 0 = Inr frames \<and>
             receive run_inflate 7 frames = Some (replicate 4096 0)) \<and>
   frame_stream 7 (Gzip (run_encode (replicate 16384 0)) (of_nat 16384)) 0 = Inl EncodeFailed"
proof
  have "length (replicate 4096 (0 :: u8)) \<le>
      length (gz_output run_encoder (replicate 4096 0)) * MAX_TERMINAL_CODEC_EXPANSION"
    by (simp add: run_encoder_output prepare_zero_line(2) gzip_limits)
  then show "\<exists>frames. frame_stream 7 (Gzip (run_encode (replicate 4096 0)) (of_nat 4096)) 0 = Inr frames \<and>
      receive run_inflate 7 frames = Some (replicate 4096 0)"
    using terminal_line_reaches_peer [OF prepare_zero_line(1) [of 4096] run_encoder_inflates, of 7] by simp
  have "\<not> length (replicate 16384 (0 :: u8)) \<le>
      length (gz_output run_encoder (replicate 16384 0)) * MAX_TERMINAL_CODEC_EXPANSION"
    by (simp add: run_encoder_output prepare_zero_line(2) gzip_limits)
  then show "frame_stream 7 (Gzip (run_encode (replicate 16384 0)) (of_nat 16384)) 0 = Inl EncodeFailed"
    using terminal_line_reaches_peer [OF prepare_zero_line(1) [of 16384] run_encoder_inflates, of 7] by simp
qed


end
