(* ===== verification/Output_Arbiter.thy ===== *)
theory Output_Arbiter
  imports Remote_Frame
begin

text \<open>
  The per-connection output arbiter of the agent (\<^verbatim>\<open>TerminalOutputArbiter\<close> in
  \<^verbatim>\<open>hydra-agent/src/remote_peer.rs\<close>): complete daemon events wait in one FIFO per pane, the head of
  each pane is compressed off to the side, and one chunk at a time is put on the wire, the viewed
  pane first for a bounded burst and the siblings in round-robin order.

  \<^item> Every operation is a function on the \<open>arbiter\<close> record; the codec jobs it spawns and the
    attachment table it is checked against are arguments.
  \<^item> \<open>arb_inv\<close> is the accounting and shape invariant every operation keeps; \<open>session_step\<close> adds the
    record of what went on the wire, and its reachable states carry the delivery theorems.
  \<^item> The wall-clock instants that only feed a debug log line (\<^verbatim>\<open>wire_started\<close>, \<^verbatim>\<open>elapsed_ms\<close>) and the
    permit an event keeps alive (\<^verbatim>\<open>_daemon_reservation\<close>) are left out; a string's \<^verbatim>\<open>capacity()\<close> is an
    argument.
\<close>

section \<open>State\<close>

definition DAEMON_OUTPUT_QUEUE_CAP :: nat where "DAEMON_OUTPUT_QUEUE_CAP = 256"
definition DAEMON_OUTPUT_QUEUE_BYTE_CAP :: nat where "DAEMON_OUTPUT_QUEUE_BYTE_CAP = 32 * 1024 * 1024"
definition ACTIVE_PANE_BURST_CHUNKS :: nat where "ACTIVE_PANE_BURST_CHUNKS = 8"

datatype terminal_encoding = EncLegacy | EncGzipJsonV1

record output_target =
  tgt_channel :: u16
  tgt_encoding :: terminal_encoding
  tgt_generation :: u64

datatype output_state =
    WaitingForCodec "u8 list"
  | Preparing bool
  | Ready prepared_line nat

record queued_output =
  qo_ticket :: u64
  qo_byte_cost :: nat
  qo_original_len :: nat
  qo_event_label :: string
  qo_state :: output_state
  qo_chunks_sent :: nat

record pane_output =
  po_session_id :: string
  po_target :: output_target
  po_retired :: bool
  po_events :: "queued_output list"

record pending_chunk =
  pc_ticket :: u64
  pc_frame :: "u8 list"
  pc_next_offset :: nat
  pc_completes_event :: bool
  pc_selected_as_active :: bool

record completed_output =
  co_event_label :: string
  co_original_len :: nat
  co_chunks :: nat

record arbiter =
  arb_panes :: "pane_output list"
  arb_queued_items :: nat
  arb_queued_bytes :: nat
  arb_max_items :: nat
  arb_max_bytes :: nat
  arb_next_ticket :: u64
  arb_active_burst_chunks :: nat
  arb_active_burst_limit :: nat
  arb_priority_served_targets :: "output_target list"

text \<open>
  \<^verbatim>\<open>with_limits\<close> asserts that the three limits are positive, which they are in \<open>arb_new\<close>. The lemmas hold for
  all limits and do not use it.
\<close>

definition arb_with_limits :: "nat \<Rightarrow> nat \<Rightarrow> nat \<Rightarrow> arbiter" where
  "arb_with_limits max_items max_bytes active_burst_limit =
     \<lparr>arb_panes = [], arb_queued_items = 0, arb_queued_bytes = 0, arb_max_items = max_items,
      arb_max_bytes = max_bytes, arb_next_ticket = 1, arb_active_burst_chunks = 0,
      arb_active_burst_limit = active_burst_limit, arb_priority_served_targets = []\<rparr>"

definition arb_new :: arbiter where
  "arb_new = arb_with_limits DAEMON_OUTPUT_QUEUE_CAP DAEMON_OUTPUT_QUEUE_BYTE_CAP ACTIVE_PANE_BURST_CHUNKS"

section \<open>Admission\<close>

text \<open>
  \<^verbatim>\<open>enqueue_admission\<close>: the event joins the FIFO of the live pane with its session and target, or
  opens a new pane at the back.
\<close>

fun push_event :: "string \<Rightarrow> output_target \<Rightarrow> queued_output \<Rightarrow> pane_output list \<Rightarrow> pane_output list" where
  "push_event sid t ev [] = [\<lparr>po_session_id = sid, po_target = t, po_retired = False, po_events = [ev]\<rparr>]"
| "push_event sid t ev (p # ps) =
     (if \<not> po_retired p \<and> po_session_id p = sid \<and> po_target p = t
      then p\<lparr>po_events := po_events p @ [ev]\<rparr> # ps
      else p # push_event sid t ev ps)"

definition enqueue_admission ::
    "string \<Rightarrow> output_target \<Rightarrow> nat \<Rightarrow> nat \<Rightarrow> string \<Rightarrow> output_state \<Rightarrow> arbiter
     \<Rightarrow> output_send_error + (u64 \<times> arbiter)" where
  "enqueue_admission sid t byte_cost original_len label state a =
     (case checked_add_usize (arb_queued_items a) 1 of
        None \<Rightarrow> Inl ForwarderQueueFull
      | Some next_items \<Rightarrow>
        (case checked_add_usize (arb_queued_bytes a) byte_cost of
           None \<Rightarrow> Inl ForwarderQueueFull
         | Some next_bytes \<Rightarrow>
             if arb_max_bytes a < byte_cost then Inl QueueItemTooLarge
             else if arb_max_items a < next_items \<or> arb_max_bytes a < next_bytes
             then Inl ForwarderQueueFull
             else let ticket = arb_next_ticket a;
                      event = \<lparr>qo_ticket = ticket, qo_byte_cost = byte_cost,
                               qo_original_len = original_len, qo_event_label = label,
                               qo_state = state, qo_chunks_sent = 0\<rparr>
                  in Inr (ticket, a\<lparr>arb_next_ticket := max (ticket + 1) 1,
                                    arb_panes := push_event sid t event (arb_panes a),
                                    arb_queued_items := next_items,
                                    arb_queued_bytes := next_bytes\<rparr>)))"

text \<open>
  \<^verbatim>\<open>enqueue_reserved\<close>. \<open>label\<close> is the content-blind log label of the line, \<open>line_cap\<close> and \<open>sid_cap\<close>
  the capacities of the two strings.
\<close>

definition admission_state :: "output_target \<Rightarrow> u8 list \<Rightarrow> output_state" where
  "admission_state t bytes =
     (case tgt_encoding t of
        EncLegacy \<Rightarrow> Ready (Legacy bytes) 0
      | EncGzipJsonV1 \<Rightarrow>
          if TERMINAL_GZIP_MIN_DECODED_BYTES \<le> length bytes \<and> length bytes \<le> MAX_TERMINAL_CODEC_BYTES
          then WaitingForCodec bytes
          else Ready (Legacy bytes) 0)"

definition enqueue_reserved ::
    "string \<Rightarrow> nat \<Rightarrow> output_target \<Rightarrow> u8 list \<Rightarrow> nat \<Rightarrow> string \<Rightarrow> arbiter
     \<Rightarrow> output_send_error + (u64 \<times> arbiter)" where
  "enqueue_reserved sid sid_cap t line line_cap label a =
     (case checked_add_usize line_cap sid_cap of
        None \<Rightarrow> Inl QueueItemTooLarge
      | Some cost \<Rightarrow>
          enqueue_admission sid t (max cost 1) (length line) label (admission_state t line) a)"

datatype output_attachment = AttLegacy | AttUnconfirmed | AttExact u64

fun attachment_accepts :: "output_attachment \<Rightarrow> u64 \<Rightarrow> bool" where
  "attachment_accepts AttLegacy generation = True"
| "attachment_accepts AttUnconfirmed generation = False"
| "attachment_accepts (AttExact exact) generation = (exact = generation)"

definition enqueue_routed_daemon_output ::
    "output_attachment \<Rightarrow> output_target option \<Rightarrow> string \<Rightarrow> nat \<Rightarrow> u8 list \<Rightarrow> nat \<Rightarrow> string \<Rightarrow> arbiter
     \<Rightarrow> output_send_error + arbiter" where
  "enqueue_routed_daemon_output attachment target sid sid_cap line line_cap label a =
     (case target of
        None \<Rightarrow> Inr a
      | Some t \<Rightarrow>
          if attachment_accepts attachment (tgt_generation t)
          then res_bind (enqueue_reserved sid sid_cap t line line_cap label a) (\<lambda>(_, a'). Inr a')
          else Inr a)"

section \<open>Codec jobs\<close>

text \<open>The head of a pane's FIFO, and rewriting it in place.\<close>

fun head_state :: "pane_output \<Rightarrow> output_state option" where
  "head_state p = (case po_events p of [] \<Rightarrow> None | e # _ \<Rightarrow> Some (qo_state e))"

definition head_ready :: "pane_output \<Rightarrow> bool" where
  "head_ready p \<longleftrightarrow> (case head_state p of Some (Ready _ _) \<Rightarrow> True | _ \<Rightarrow> False)"

definition head_preparing :: "pane_output \<Rightarrow> bool" where
  "head_preparing p \<longleftrightarrow> (case head_state p of Some (Preparing _) \<Rightarrow> True | _ \<Rightarrow> False)"

definition head_ticket_is :: "u64 \<Rightarrow> pane_output \<Rightarrow> bool" where
  "head_ticket_is ticket p \<longleftrightarrow> (case po_events p of [] \<Rightarrow> False | e # _ \<Rightarrow> qo_ticket e = ticket)"

definition set_head_state :: "output_state \<Rightarrow> pane_output \<Rightarrow> pane_output" where
  "set_head_state st p =
     (case po_events p of [] \<Rightarrow> p | e # es \<Rightarrow> p\<lparr>po_events := e\<lparr>qo_state := st\<rparr> # es\<rparr>)"

text \<open>\<^verbatim>\<open>start_preparations\<close>: the jobs it spawns are the tickets and lines it hands to the codec.\<close>

definition start_pane :: "pane_output \<Rightarrow> pane_output \<times> (u64 \<times> u8 list) list" where
  "start_pane p =
     (if po_retired p then (p, [])
      else case po_events p of
        [] \<Rightarrow> (p, [])
      | e # _ \<Rightarrow>
          (case qo_state e of
             WaitingForCodec line \<Rightarrow> (set_head_state (Preparing False) p, [(qo_ticket e, line)])
           | _ \<Rightarrow> (p, [])))"

definition start_preparations :: "arbiter \<Rightarrow> arbiter \<times> (u64 \<times> u8 list) list" where
  "start_preparations a =
     (a\<lparr>arb_panes := map (fst \<circ> start_pane) (arb_panes a)\<rparr>,
      concat (map (snd \<circ> start_pane) (arb_panes a)))"

definition finish_preparation ::
    "u64 \<Rightarrow> output_send_error + prepared_line \<Rightarrow> arbiter \<Rightarrow> output_send_error + arbiter" where
  "finish_preparation ticket prepared a =
     (case position (head_ticket_is ticket) (arb_panes a) of
        None \<Rightarrow> Inl CompressionFailed
      | Some i \<Rightarrow>
          let p = arb_panes a ! i in
          if \<not> head_preparing p then Inl CompressionFailed
          else if po_retired p then
            Inr (a\<lparr>arb_queued_items := arb_queued_items a - 1,
                   arb_queued_bytes := arb_queued_bytes a - qo_byte_cost (hd (po_events p)),
                   arb_panes := remove_at i (arb_panes a)\<rparr>)
          else res_bind prepared (\<lambda>out.
            Inr (a\<lparr>arb_panes := (arb_panes a)[i := set_head_state (Ready out 0) p]\<rparr>)))"

section \<open>Retiring stale attachments\<close>

fun cancel_state :: "output_state \<Rightarrow> output_state" where
  "cancel_state (Preparing _) = Preparing True"
| "cancel_state st = st"

definition retire_pane :: "pane_output \<Rightarrow> pane_output" where
  "retire_pane p =
     (case po_events p of
        [] \<Rightarrow> p\<lparr>po_retired := True\<rparr>
      | e # _ \<Rightarrow> p\<lparr>po_retired := True, po_events := [e\<lparr>qo_state := cancel_state (qo_state e)\<rparr>]\<rparr>)"

definition cost_of :: "queued_output list \<Rightarrow> nat" where
  "cost_of es = sum_list (map qo_byte_cost es)"

text \<open>
  The index loop of \<^verbatim>\<open>retire_stale_targets\<close>, the panes already passed in \<open>kept\<close>; the two counters
  are decremented once per dropped event.
\<close>

fun retire_loop ::
    "(string \<Rightarrow> output_target option) \<Rightarrow> pane_output list \<Rightarrow> nat \<Rightarrow> nat \<Rightarrow> pane_output list
     \<Rightarrow> pane_output list \<times> nat \<times> nat" where
  "retire_loop live kept items bytes [] = (kept, items, bytes)"
| "retire_loop live kept items bytes (p # ps) =
     (if po_retired p \<or> live (po_session_id p) = Some (po_target p)
      then retire_loop live (kept @ [p]) items bytes ps
      else if head_preparing p
      then retire_loop live (kept @ [retire_pane p])
             (items - length (tl (po_events p))) (bytes - cost_of (tl (po_events p))) ps
      else retire_loop live kept
             (items - length (po_events p)) (bytes - cost_of (po_events p)) ps)"

definition retire_stale_targets :: "(string \<Rightarrow> output_target option) \<Rightarrow> arbiter \<Rightarrow> arbiter" where
  "retire_stale_targets live a =
     (case retire_loop live [] (arb_queued_items a) (arb_queued_bytes a) (arb_panes a) of
        (panes, items, bytes) \<Rightarrow>
          a\<lparr>arb_panes := panes, arb_queued_items := items, arb_queued_bytes := bytes\<rparr>)"

section \<open>Choosing and committing one chunk\<close>

definition pane_ready :: "pane_output \<Rightarrow> bool" where
  "pane_ready p \<longleftrightarrow> \<not> po_retired p \<and> head_ready p"

definition active_index :: "arbiter \<Rightarrow> string option \<Rightarrow> nat option" where
  "active_index a active =
     Option.bind active (\<lambda>sid. position (\<lambda>p. \<not> po_retired p \<and> po_session_id p = sid \<and> head_ready p)
       (arb_panes a))"

definition fairness_index :: "arbiter \<Rightarrow> nat option" where
  "fairness_index a =
     position (\<lambda>p. pane_ready p \<and> po_target p \<notin> set (arb_priority_served_targets a)) (arb_panes a)"

definition any_ready_index :: "arbiter \<Rightarrow> nat option" where
  "any_ready_index a = position pane_ready (arb_panes a)"

definition selected_as_active :: "arbiter \<Rightarrow> string option \<Rightarrow> bool" where
  "selected_as_active a active \<longleftrightarrow>
     active_index a active \<noteq> None \<and> arb_active_burst_chunks a < arb_active_burst_limit a"

definition selected_index :: "arbiter \<Rightarrow> string option \<Rightarrow> nat option" where
  "selected_index a active =
     (if selected_as_active a active then active_index a active
      else case fairness_index a of Some i \<Rightarrow> Some i | None \<Rightarrow> any_ready_index a)"

definition next_chunk :: "arbiter \<Rightarrow> string option \<Rightarrow> output_send_error + pending_chunk option" where
  "next_chunk a active =
     (case selected_index a active of
        None \<Rightarrow> Inr None
      | Some i \<Rightarrow>
          let p = arb_panes a ! i; event = hd (po_events p) in
          (case qo_state event of
             Ready out offset \<Rightarrow>
               res_bind (encode_next_terminal_chunk (tgt_channel (po_target p)) out offset)
                 (\<lambda>(frame, next_offset, completes).
                    Inr (Some \<lparr>pc_ticket = qo_ticket event, pc_frame = frame,
                               pc_next_offset = next_offset, pc_completes_event = completes,
                               pc_selected_as_active = selected_as_active a active\<rparr>))
           | _ \<Rightarrow> Inl EncodeFailed))"

definition commit_chunk ::
    "pending_chunk \<Rightarrow> arbiter \<Rightarrow> output_send_error + (completed_output option \<times> arbiter)" where
  "commit_chunk sent a =
     (case position (head_ticket_is (pc_ticket sent)) (arb_panes a) of
        None \<Rightarrow> Inl EncodeFailed
      | Some i \<Rightarrow>
          let p = arb_panes a ! i; event = hd (po_events p) in
          (case qo_state event of
             Ready out offset \<Rightarrow>
               let event1 = event\<lparr>qo_state := Ready out (pc_next_offset sent),
                                  qo_chunks_sent := qo_chunks_sent event + 1\<rparr>;
                   a1 = (if pc_selected_as_active sent
                         then a\<lparr>arb_priority_served_targets :=
                                  (if po_target p \<in> set (arb_priority_served_targets a)
                                   then arb_priority_served_targets a
                                   else arb_priority_served_targets a @ [po_target p]),
                                arb_active_burst_chunks :=
                                  min (min (arb_active_burst_chunks a + 1) usize_max)
                                    (arb_active_burst_limit a)\<rparr>
                         else a\<lparr>arb_active_burst_chunks := 0, arb_priority_served_targets := []\<rparr>);
                   a2 = (if pc_completes_event sent
                         then a1\<lparr>arb_queued_items := arb_queued_items a1 - 1,
                                 arb_queued_bytes := arb_queued_bytes a1 - qo_byte_cost event1\<rparr>
                         else a1);
                   p1 = p\<lparr>po_events := (if pc_completes_event sent then tl (po_events p)
                                        else event1 # tl (po_events p))\<rparr>;
                   completed = (if pc_completes_event sent
                                then Some \<lparr>co_event_label = qo_event_label event1,
                                           co_original_len = qo_original_len event1,
                                           co_chunks = qo_chunks_sent event1\<rparr>
                                else None)
               in Inr (completed,
                    a2\<lparr>arb_panes :=
                        (if pc_selected_as_active sent
                         then (if po_events p1 = [] then remove_at i (arb_panes a)
                               else (arb_panes a)[i := p1])
                         else remove_at i (arb_panes a) @ (if po_events p1 = [] then [] else [p1]))\<rparr>)
           | _ \<Rightarrow> Inl EncodeFailed))"

section \<open>One round of the forwarder\<close>

text \<open>
  One pass of \<^verbatim>\<open>run_daemon_output_forwarder\<close>'s loop body up to its \<^verbatim>\<open>continue\<close>: drain the bounded daemon
  queue into the arbiter, then under one lock of the attachment table retire, start and join codec
  jobs and pick a chunk, send it, and commit it. \<open>live\<close> and \<open>active\<close> are what the locked table says,
  \<open>joined\<close> the codec jobs that have ended (\<open>None\<close> where a task could not be joined) and \<open>send\<close> the
  outcome of handing a frame to the outbound scheduler.
\<close>

record routed_output =
  ro_attachment :: output_attachment
  ro_target :: "output_target option"
  ro_session_id :: string
  ro_session_cap :: nat
  ro_line :: "u8 list"
  ro_line_cap :: nat
  ro_label :: string

fun admit_all :: "routed_output list \<Rightarrow> arbiter \<Rightarrow> output_send_error + arbiter" where
  "admit_all [] a = Inr a"
| "admit_all (r # rs) a =
     res_bind (enqueue_routed_daemon_output (ro_attachment r) (ro_target r) (ro_session_id r)
                 (ro_session_cap r) (ro_line r) (ro_line_cap r) (ro_label r) a) (admit_all rs)"

definition finish_codec_job ::
    "(u64 \<times> (output_send_error + prepared_line)) option \<Rightarrow> arbiter \<Rightarrow> output_send_error + arbiter" where
  "finish_codec_job job a =
     (case job of
        None \<Rightarrow> Inl CompressionFailed
      | Some (ticket, prepared) \<Rightarrow> finish_preparation ticket prepared a)"

fun finish_all ::
    "(u64 \<times> (output_send_error + prepared_line)) option list \<Rightarrow> arbiter \<Rightarrow> output_send_error + arbiter" where
  "finish_all [] a = Inr a"
| "finish_all (j # js) a = res_bind (finish_codec_job j a) (finish_all js)"

definition forwarder_round ::
    "routed_output list \<Rightarrow> (string \<Rightarrow> output_target option) \<Rightarrow> string option
     \<Rightarrow> (u64 \<times> (output_send_error + prepared_line)) option list
     \<Rightarrow> (u8 list \<Rightarrow> output_send_error option) \<Rightarrow> arbiter
     \<Rightarrow> output_send_error + (arbiter \<times> (u64 \<times> u8 list) list \<times> pending_chunk option)" where
  "forwarder_round outputs live active joined send a =
     res_bind (admit_all outputs a) (\<lambda>a0.
       case start_preparations (retire_stale_targets live a0) of
         (a1, jobs) \<Rightarrow>
           res_bind (finish_all joined a1) (\<lambda>a2.
             res_bind (next_chunk a2 active) (\<lambda>chunk.
               case chunk of
                 None \<Rightarrow> Inr (a2, jobs, None)
               | Some c \<Rightarrow>
                   (case send (pc_frame c) of
                      Some e \<Rightarrow> Inl e
                    | None \<Rightarrow> res_bind (commit_chunk c a2) (\<lambda>(_, a3). Inr (a3, jobs, Some c))))))"

definition arb_is_empty :: "arbiter \<Rightarrow> bool" where
  "arb_is_empty a \<longleftrightarrow> arb_queued_items a = 0"

section \<open>The accounting invariant\<close>

definition items_of :: "pane_output list \<Rightarrow> nat" where
  "items_of ps = sum_list (map (\<lambda>p. length (po_events p)) ps)"

definition bytes_of :: "pane_output list \<Rightarrow> nat" where
  "bytes_of ps = sum_list (map (\<lambda>p. cost_of (po_events p)) ps)"

lemma cost_of_simps [simp]:
  "cost_of [] = 0" "cost_of (e # es) = qo_byte_cost e + cost_of es" "cost_of (es @ fs) = cost_of es + cost_of fs"
  by (simp_all add: cost_of_def)

lemma items_of_simps [simp]:
  "items_of [] = 0" "items_of (p # ps) = length (po_events p) + items_of ps"
  "items_of (ps @ qs) = items_of ps + items_of qs"
  by (simp_all add: items_of_def)

lemma bytes_of_simps [simp]:
  "bytes_of [] = 0" "bytes_of (p # ps) = cost_of (po_events p) + bytes_of ps"
  "bytes_of (ps @ qs) = bytes_of ps + bytes_of qs"
  by (simp_all add: bytes_of_def)

text \<open>
  Events behind the head have not been touched since admission. A retired pane is a single codec job
  whose cancellation flag is set.
\<close>

definition untouched :: "queued_output \<Rightarrow> bool" where
  "untouched e \<longleftrightarrow> qo_chunks_sent e = 0 \<and>
     (case qo_state e of WaitingForCodec _ \<Rightarrow> True | Preparing _ \<Rightarrow> False | Ready _ off \<Rightarrow> off = 0)"

definition pane_ok :: "pane_output \<Rightarrow> bool" where
  "pane_ok p \<longleftrightarrow> po_events p \<noteq> [] \<and> (\<forall>e \<in> set (tl (po_events p)). untouched e) \<and>
     (po_retired p \<longrightarrow> (\<exists>e. po_events p = [e] \<and> qo_state e = Preparing True)) \<and>
     (qo_state (hd (po_events p)) = Preparing True \<longrightarrow> po_retired p)"

definition pane_key :: "pane_output \<Rightarrow> string \<times> output_target" where
  "pane_key p = (po_session_id p, po_target p)"

lemma pane_key_update [simp]:
  "pane_key (p\<lparr>po_events := es\<rparr>) = pane_key p" "pane_key (p\<lparr>po_retired := r\<rparr>) = pane_key p"
  by (simp_all add: pane_key_def)

definition live_keys :: "pane_output list \<Rightarrow> (string \<times> output_target) list" where
  "live_keys ps = map pane_key (filter (\<lambda>p. \<not> po_retired p) ps)"

lemma live_keys_simps [simp]:
  "live_keys [] = []"
  "live_keys (p # ps) = (if po_retired p then live_keys ps else pane_key p # live_keys ps)"
  "live_keys (ps @ qs) = live_keys ps @ live_keys qs"
  by (simp_all add: live_keys_def)

lemma in_live_keys: "k \<in> set (live_keys ps) \<longleftrightarrow> (\<exists>p \<in> set ps. \<not> po_retired p \<and> pane_key p = k)"
  by (auto simp: live_keys_def)

definition arb_inv :: "arbiter \<Rightarrow> bool" where
  "arb_inv a \<longleftrightarrow>
     arb_queued_items a = items_of (arb_panes a) \<and> arb_queued_bytes a = bytes_of (arb_panes a) \<and>
     arb_queued_items a \<le> arb_max_items a \<and> arb_queued_bytes a \<le> arb_max_bytes a \<and>
     arb_active_burst_chunks a \<le> arb_active_burst_limit a \<and>
     distinct (live_keys (arb_panes a)) \<and> (\<forall>p \<in> set (arb_panes a). pane_ok p)"

lemma arb_inv_limits: "arb_inv (arb_with_limits items bytes burst)"
  by (simp add: arb_inv_def arb_with_limits_def)

lemma push_event_counts:
  "items_of (push_event sid t ev ps) = items_of ps + 1"
  "bytes_of (push_event sid t ev ps) = bytes_of ps + qo_byte_cost ev"
  by (induction ps) auto

lemma push_event_keys:
  "set (live_keys (push_event sid t ev ps)) = insert (sid, t) (set (live_keys ps))"
  "distinct (live_keys ps) \<Longrightarrow> distinct (live_keys (push_event sid t ev ps))"
  by (induction ps) (auto simp: pane_key_def)

lemma pane_ok_push:
  "pane_ok p \<Longrightarrow> untouched ev \<Longrightarrow> \<not> po_retired p \<Longrightarrow> pane_ok (p\<lparr>po_events := po_events p @ [ev]\<rparr>)"
  by (cases "po_events p") (auto simp: pane_ok_def)

lemma pane_ok_single:
  "untouched ev \<Longrightarrow> pane_ok \<lparr>po_session_id = sid, po_target = t, po_retired = False, po_events = [ev]\<rparr>"
  by (auto simp: pane_ok_def untouched_def)

lemma push_event_ok:
  "\<forall>p \<in> set ps. pane_ok p \<Longrightarrow> untouched ev \<Longrightarrow> \<forall>p \<in> set (push_event sid t ev ps). pane_ok p"
  by (induction ps) (auto simp: pane_ok_push pane_ok_single)

definition admitted_event :: "output_target \<Rightarrow> u8 list \<Rightarrow> nat \<Rightarrow> string \<Rightarrow> u64 \<Rightarrow> queued_output" where
  "admitted_event t line cost label ticket =
     \<lparr>qo_ticket = ticket, qo_byte_cost = cost, qo_original_len = length line, qo_event_label = label,
      qo_state = admission_state t line, qo_chunks_sent = 0\<rparr>"

lemma enqueue_cases:
  assumes "enqueue_reserved sid sid_cap t line line_cap label a = Inr (ticket, a')"
  shows "ticket = arb_next_ticket a" "arb_queued_items a + 1 \<le> arb_max_items a"
    "arb_queued_bytes a + max (line_cap + sid_cap) 1 \<le> arb_max_bytes a"
    "a' = a\<lparr>arb_next_ticket := max (ticket + 1) 1,
            arb_panes := push_event sid t (admitted_event t line (max (line_cap + sid_cap) 1) label ticket)
                           (arb_panes a),
            arb_queued_items := arb_queued_items a + 1,
            arb_queued_bytes := arb_queued_bytes a + max (line_cap + sid_cap) 1\<rparr>"
  using assms
  by (auto simp: enqueue_reserved_def enqueue_admission_def checked_add_usize_def Let_def
      admitted_event_def split: if_splits)

lemma untouched_admitted: "untouched (admitted_event t line cost label ticket)"
  by (simp add: admitted_event_def untouched_def admission_state_def split: terminal_encoding.splits)

lemma enqueue_inv:
  assumes inv: "arb_inv a" and enq: "enqueue_reserved sid sid_cap t line line_cap label a = Inr (ticket, a')"
  shows "arb_inv a'"
proof -
  let ?ev = "admitted_event t line (max (line_cap + sid_cap) 1) label ticket"
  have "\<forall>p \<in> set (push_event sid t ?ev (arb_panes a)). pane_ok p"
    using inv by (intro push_event_ok untouched_admitted) (simp add: arb_inv_def)
  moreover have "qo_byte_cost ?ev = max (line_cap + sid_cap) 1" by (simp add: admitted_event_def)
  ultimately show ?thesis
    using inv enqueue_cases(2,3) [OF enq]
    unfolding enqueue_cases(4) [OF enq] by (simp add: arb_inv_def push_event_counts push_event_keys)
qed

text \<open>Rewriting the state of a head keeps the pane's key, its events' tickets and costs.\<close>

lemma set_head_state_simps [simp]:
  "pane_key (set_head_state st p) = pane_key p" "po_retired (set_head_state st p) = po_retired p"
  "length (po_events (set_head_state st p)) = length (po_events p)"
  "cost_of (po_events (set_head_state st p)) = cost_of (po_events p)"
  "map qo_ticket (po_events (set_head_state st p)) = map qo_ticket (po_events p)"
  "tl (po_events (set_head_state st p)) = tl (po_events p)"
  by (simp_all add: set_head_state_def pane_key_def split: list.splits)

lemma start_pane_eq:
  "fst (start_pane p) = p \<and> snd (start_pane p) = [] \<or>
   (\<exists>e es line. \<not> po_retired p \<and> po_events p = e # es \<and> qo_state e = WaitingForCodec line \<and>
      fst (start_pane p) = set_head_state (Preparing False) p \<and> snd (start_pane p) = [(qo_ticket e, line)])"
  by (auto simp: start_pane_def split: list.splits output_state.splits)

lemma start_pane_simps [simp]:
  "pane_key (fst (start_pane p)) = pane_key p" "po_retired (fst (start_pane p)) = po_retired p"
  "length (po_events (fst (start_pane p))) = length (po_events p)"
  "cost_of (po_events (fst (start_pane p))) = cost_of (po_events p)"
  "pane_ok (fst (start_pane p)) \<longleftrightarrow> pane_ok p"
  using start_pane_eq [of p] by (auto simp: pane_ok_def set_head_state_def)

lemma start_panes_counts [simp]:
  "items_of (map (fst \<circ> start_pane) ps) = items_of ps" "bytes_of (map (fst \<circ> start_pane) ps) = bytes_of ps"
  "live_keys (map (fst \<circ> start_pane) ps) = live_keys ps"
  by (induction ps) auto

lemma start_preparations_inv: "arb_inv a \<Longrightarrow> arb_inv (fst (start_preparations a))"
  by (auto simp: arb_inv_def start_preparations_def)

text \<open>What a successful \<^verbatim>\<open>finish_preparation\<close> does to the pane it finds.\<close>

lemma finish_cases:
  assumes "finish_preparation ticket prepared a = Inr a'"
  obtains pre p suf e es c where "arb_panes a = pre @ p # suf" "po_events p = e # es" "qo_ticket e = ticket"
    "qo_state e = Preparing c" "po_retired p"
    "a' = a\<lparr>arb_queued_items := arb_queued_items a - 1,
            arb_queued_bytes := arb_queued_bytes a - qo_byte_cost e, arb_panes := pre @ suf\<rparr>"
  | pre p suf e es c out where "arb_panes a = pre @ p # suf" "po_events p = e # es" "qo_ticket e = ticket"
    "qo_state e = Preparing c" "\<not> po_retired p" "prepared = Inr out"
    "a' = a\<lparr>arb_panes := pre @ p\<lparr>po_events := e\<lparr>qo_state := Ready out 0\<rparr> # es\<rparr> # suf\<rparr>"
proof -
  obtain i where i: "position (head_ticket_is ticket) (arb_panes a) = Some i"
    using assms by (auto simp: finish_preparation_def split: option.splits)
  then obtain pre p suf where split: "arb_panes a = pre @ p # suf" "length pre = i" "head_ticket_is ticket p"
    by (rule position_split)
  obtain e es where e: "po_events p = e # es" "qo_ticket e = ticket"
    using split(3) by (auto simp: head_ticket_is_def split: list.splits)
  have prep: "head_preparing p"
    using assms i split by (auto simp: finish_preparation_def Let_def nth_append split: if_splits)
  then obtain c where c: "qo_state e = Preparing c"
    using e(1) by (auto simp: head_preparing_def split: output_state.splits)
  show ?thesis
  proof (cases "po_retired p")
    case True
    have "a' = a\<lparr>arb_queued_items := arb_queued_items a - 1,
            arb_queued_bytes := arb_queued_bytes a - qo_byte_cost e, arb_panes := pre @ suf\<rparr>"
      using assms i split e True prep remove_at_append [of pre p suf]
      by (simp add: finish_preparation_def Let_def nth_append)
    then show ?thesis using that(1) split(1) e c True by blast
  next
    case False
    obtain out where out: "prepared = Inr out"
      using assms i split False prep by (cases prepared) (auto simp: finish_preparation_def Let_def nth_append)
    have "a' = a\<lparr>arb_panes := pre @ p\<lparr>po_events := e\<lparr>qo_state := Ready out 0\<rparr> # es\<rparr> # suf\<rparr>"
      using assms i split e False prep out
      by (simp add: finish_preparation_def Let_def nth_append list_update_append set_head_state_def)
    then show ?thesis using that(2) split(1) e c False out by blast
  qed
qed

lemma finish_preparation_inv:
  assumes inv: "arb_inv a" and fin: "finish_preparation ticket prepared a = Inr a'"
  shows "arb_inv a'"
  using fin
proof (cases rule: finish_cases)
  case (1 pre p suf e es c)
  then have "es = []" using inv by (auto simp: arb_inv_def pane_ok_def)
  with 1 inv show ?thesis by (auto simp: arb_inv_def)
next
  case (2 pre p suf e es c out)
  with inv show ?thesis by (auto simp: arb_inv_def pane_ok_def pane_key_def)
qed

text \<open>
  The retire loop drops events and flags panes, and nothing else: every pane it leaves is one of the
  old panes, or an old pane cut down to its cancelled codec job.
\<close>

definition retired_to :: "(string \<Rightarrow> output_target option) \<Rightarrow> pane_output \<Rightarrow> pane_output list" where
  "retired_to live p =
     (if po_retired p \<or> live (po_session_id p) = Some (po_target p) then [p]
      else if head_preparing p then [retire_pane p] else [])"

lemma retire_pane_preparing:
  assumes "head_preparing p"
  obtains e es c where "po_events p = e # es" "qo_state e = Preparing c"
    "retire_pane p = p\<lparr>po_retired := True, po_events := [e\<lparr>qo_state := Preparing True\<rparr>]\<rparr>"
  using assms by (auto simp: head_preparing_def retire_pane_def split: list.splits output_state.splits)

lemma retire_loop_eq:
  assumes "items_of ps \<le> items" "bytes_of ps \<le> bytes"
  shows "retire_loop live kept items bytes ps =
    (kept @ concat (map (retired_to live) ps),
     items - items_of ps + items_of (concat (map (retired_to live) ps)),
     bytes - bytes_of ps + bytes_of (concat (map (retired_to live) ps)))"
  using assms
proof (induction ps arbitrary: kept items bytes)
  case Nil
  then show ?case by simp
next
  case (Cons p ps)
  consider (keep) "po_retired p \<or> live (po_session_id p) = Some (po_target p)"
    | (cut) "\<not> (po_retired p \<or> live (po_session_id p) = Some (po_target p))" "head_preparing p"
    | (drop) "\<not> (po_retired p \<or> live (po_session_id p) = Some (po_target p))" "\<not> head_preparing p"
    by blast
  then show ?case
  proof cases
    case keep
    with Cons.prems Cons.IH [of items bytes] show ?thesis by (simp add: retired_to_def)
  next
    case cut
    obtain e es c where e: "po_events p = e # es"
      "retire_pane p = p\<lparr>po_retired := True, po_events := [e\<lparr>qo_state := Preparing True\<rparr>]\<rparr>"
      using cut(2) by (rule retire_pane_preparing)
    with cut Cons.prems Cons.IH [of "items - length es" "bytes - cost_of es"] show ?thesis
      by (simp add: retired_to_def)
  next
    case drop
    with Cons.prems Cons.IH [of "items - length (po_events p)" "bytes - cost_of (po_events p)"]
    show ?thesis by (simp add: retired_to_def)
  qed
qed

lemma retired_to_ok:
  assumes "pane_ok p" "q \<in> set (retired_to live p)"
  shows "pane_ok q" "pane_key q = pane_key p" "\<not> po_retired q \<Longrightarrow> q = p"
proof -
  have "pane_ok q \<and> pane_key q = pane_key p \<and> (\<not> po_retired q \<longrightarrow> q = p)"
  proof (cases "po_retired p \<or> live (po_session_id p) = Some (po_target p)")
    case True
    with assms show ?thesis by (simp add: retired_to_def)
  next
    case False
    with assms(2) have hp: "head_preparing p" "q = retire_pane p"
      by (auto simp: retired_to_def split: if_splits)
    obtain e es c where "po_events p = e # es" "qo_state e = Preparing c"
      "retire_pane p = p\<lparr>po_retired := True, po_events := [e\<lparr>qo_state := Preparing True\<rparr>]\<rparr>"
      using hp(1) by (rule retire_pane_preparing)
    with hp(2) show ?thesis by (auto simp: pane_ok_def pane_key_def)
  qed
  then show "pane_ok q" "pane_key q = pane_key p" "\<not> po_retired q \<Longrightarrow> q = p" by auto
qed

lemma retired_counts:
  "items_of (concat (map (retired_to live) ps)) \<le> items_of ps"
  "bytes_of (concat (map (retired_to live) ps)) \<le> bytes_of ps"
proof (induction ps)
  case (Cons p ps)
  have "items_of (retired_to live p) \<le> length (po_events p) \<and> bytes_of (retired_to live p) \<le> cost_of (po_events p)"
    by (auto simp: retired_to_def elim: retire_pane_preparing)
  with Cons show "items_of (concat (map (retired_to live) (p # ps))) \<le> items_of (p # ps)"
    "bytes_of (concat (map (retired_to live) (p # ps))) \<le> bytes_of (p # ps)" by simp_all
qed simp_all

lemma retired_keys:
  "\<forall>p \<in> set ps. pane_ok p \<Longrightarrow> distinct (live_keys ps) \<Longrightarrow>
     distinct (live_keys (concat (map (retired_to live) ps))) \<and>
     set (live_keys (concat (map (retired_to live) ps))) \<subseteq> set (live_keys ps)"
proof (induction ps)
  case (Cons p ps)
  have "live_keys (retired_to live p) = [] \<or> \<not> po_retired p \<and> live_keys (retired_to live p) = [pane_key p]"
    by (auto simp: retired_to_def elim: retire_pane_preparing)
  with Cons show ?case by (auto split: if_splits)
qed simp

lemma retire_stale_eq:
  assumes "arb_inv a"
  shows "retire_stale_targets live a =
    a\<lparr>arb_panes := concat (map (retired_to live) (arb_panes a)),
      arb_queued_items := items_of (concat (map (retired_to live) (arb_panes a))),
      arb_queued_bytes := bytes_of (concat (map (retired_to live) (arb_panes a)))\<rparr>"
  using assms by (simp add: retire_stale_targets_def arb_inv_def retire_loop_eq)

lemma retire_stale_inv:
  assumes "arb_inv a"
  shows "arb_inv (retire_stale_targets live a)"
proof -
  have "\<forall>q \<in> set (concat (map (retired_to live) (arb_panes a))). pane_ok q"
    using assms by (auto simp: arb_inv_def intro: retired_to_ok(1))
  then show ?thesis
    using assms retired_counts [of live "arb_panes a"] retired_keys [of "arb_panes a" live]
    unfolding retire_stale_eq [OF assms] by (auto simp: arb_inv_def)
qed

text \<open>What a successful \<^verbatim>\<open>commit_chunk\<close> does to the pane whose head it finds.\<close>

definition committed_pane :: "pending_chunk \<Rightarrow> pane_output \<Rightarrow> pane_output list" where
  "committed_pane sent p =
     (case po_events p of
        e # es \<Rightarrow>
          (case qo_state e of
             Ready out _ \<Rightarrow>
               let rest = (if pc_completes_event sent then es
                           else e\<lparr>qo_state := Ready out (pc_next_offset sent),
                                  qo_chunks_sent := qo_chunks_sent e + 1\<rparr> # es)
               in if rest = [] then [] else [p\<lparr>po_events := rest\<rparr>]
           | _ \<Rightarrow> [p])
      | [] \<Rightarrow> [p])"

lemma commit_cases:
  assumes "commit_chunk sent a = Inr (completed, a')"
  obtains pre p suf e es out off where
    "arb_panes a = pre @ p # suf" "\<forall>q \<in> set pre. \<not> head_ticket_is (pc_ticket sent) q"
    "po_events p = e # es" "qo_ticket e = pc_ticket sent" "qo_state e = Ready out off"
    "arb_panes a' = (if pc_selected_as_active sent then pre @ committed_pane sent p @ suf
                     else pre @ suf @ committed_pane sent p)"
    "arb_queued_items a' = arb_queued_items a - (if pc_completes_event sent then 1 else 0)"
    "arb_queued_bytes a' = arb_queued_bytes a - (if pc_completes_event sent then qo_byte_cost e else 0)"
    "arb_max_items a' = arb_max_items a" "arb_max_bytes a' = arb_max_bytes a"
    "arb_active_burst_limit a' = arb_active_burst_limit a" "arb_next_ticket a' = arb_next_ticket a"
    "arb_active_burst_chunks a' =
       (if pc_selected_as_active sent
        then min (min (arb_active_burst_chunks a + 1) usize_max) (arb_active_burst_limit a) else 0)"
    "set (arb_priority_served_targets a') =
       (if pc_selected_as_active sent then insert (po_target p) (set (arb_priority_served_targets a)) else {})"
    "completed = None \<longleftrightarrow> \<not> pc_completes_event sent"
proof -
  obtain i where i: "position (head_ticket_is (pc_ticket sent)) (arb_panes a) = Some i"
    using assms by (auto simp: commit_chunk_def split: option.splits)
  then obtain pre p suf where split: "arb_panes a = pre @ p # suf" "length pre = i"
      "head_ticket_is (pc_ticket sent) p" "\<forall>q \<in> set pre. \<not> head_ticket_is (pc_ticket sent) q"
    by (rule position_split)
  obtain e es where e: "po_events p = e # es" "qo_ticket e = pc_ticket sent"
    using split(3) by (auto simp: head_ticket_is_def split: list.splits)
  obtain out off where r: "qo_state e = Ready out off"
    using assms i split e by (auto simp: commit_chunk_def Let_def nth_append split: output_state.splits)
  note facts = i [unfolded split(1) split(2) [symmetric]] split(1) e(1) r
  show ?thesis
    by (rule that [OF split(1,4) e r])
       (use assms in \<open>auto simp: commit_chunk_def Let_def facts nth_append list_update_append
          remove_at_append committed_pane_def split: if_splits\<close>)
qed

lemma committed_pane_cases:
  assumes "po_events p = e # es" "qo_state e = Ready out off"
  obtains "pc_completes_event sent" "es = []" "committed_pane sent p = []"
  | "pc_completes_event sent" "es \<noteq> []" "committed_pane sent p = [p\<lparr>po_events := es\<rparr>]"
  | "\<not> pc_completes_event sent"
    "committed_pane sent p = [p\<lparr>po_events := e\<lparr>qo_state := Ready out (pc_next_offset sent),
                                              qo_chunks_sent := qo_chunks_sent e + 1\<rparr> # es\<rparr>]"
  using assms by (cases "pc_completes_event sent"; cases "es = []") (auto simp: committed_pane_def)

lemma committed_pane_ok:
  assumes "po_events p = e # es" "qo_state e = Ready out off" "pane_ok p"
  shows "\<forall>q \<in> set (committed_pane sent p). pane_ok q"
proof -
  have "qo_state (hd es) \<noteq> Preparing True" if "es \<noteq> []"
  proof -
    have "untouched (hd es)" using assms that by (auto simp: pane_ok_def)
    then show ?thesis by (auto simp: untouched_def)
  qed
  then show ?thesis
    by (cases rule: committed_pane_cases [OF assms(1,2), of sent])
       (use assms in \<open>auto simp: pane_ok_def dest: list.set_sel(2)\<close>)
qed

lemma committed_pane_counts:
  assumes "po_events p = e # es" "qo_state e = Ready out off"
  shows "items_of (committed_pane sent p) = length (po_events p) - (if pc_completes_event sent then 1 else 0)"
    "bytes_of (committed_pane sent p) = cost_of (po_events p) - (if pc_completes_event sent then qo_byte_cost e else 0)"
    "\<not> po_retired p \<Longrightarrow> live_keys (committed_pane sent p) = [] \<or> live_keys (committed_pane sent p) = [pane_key p]"
  by (cases rule: committed_pane_cases [OF assms, of sent]; use assms in simp)+

lemma commit_chunk_inv:
  assumes inv: "arb_inv a" and com: "commit_chunk sent a = Inr (completed, a')"
  shows "arb_inv a'"
  using com
proof (cases rule: commit_cases)
  case (1 pre p suf e es out off)
  note cp = committed_pane_counts [OF 1(3,5), of sent]
  have ok: "pane_ok p" "\<not> po_retired p" using inv 1(1,3,5) by (auto simp: arb_inv_def pane_ok_def)
  have "\<forall>q \<in> set (arb_panes a'). pane_ok q"
    using inv 1(1) 1(6) committed_pane_ok [OF 1(3,5) ok(1), of sent] by (auto simp: arb_inv_def)
  moreover have "distinct (live_keys (arb_panes a'))"
    using inv 1(1) 1(6) ok(2) cp(3) by (auto simp: arb_inv_def)
  moreover have "items_of (arb_panes a') = arb_queued_items a'"
    "bytes_of (arb_panes a') = arb_queued_bytes a'"
    using inv 1(1,3,6,7,8) cp(1,2) by (auto simp: arb_inv_def)
  ultimately show ?thesis using inv 1 by (auto simp: arb_inv_def)
qed

section \<open>The forwarder's operations on the arbiter\<close>

text \<open>
  One round of \<^verbatim>\<open>run_daemon_output_forwarder\<close> is a sequence of these operations on an arbiter it owns:
  admitting a routed event, starting codec jobs, joining one, retiring stale attachments, and
  sending one chunk and committing it. An error ends the forwarder.
\<close>

datatype arb_op =
    Admit output_attachment "output_target option" string nat "u8 list" nat string
  | StartCodec
  | FinishCodec u64 "output_send_error + prepared_line"
  | RetireStale "string \<Rightarrow> output_target option"
  | SendChunk "string option"

fun arb_step :: "arbiter \<Rightarrow> arb_op \<Rightarrow> output_send_error + arbiter" where
  "arb_step a (Admit attachment target sid sid_cap line line_cap label) =
     enqueue_routed_daemon_output attachment target sid sid_cap line line_cap label a"
| "arb_step a StartCodec = Inr (fst (start_preparations a))"
| "arb_step a (FinishCodec ticket prepared) = finish_preparation ticket prepared a"
| "arb_step a (RetireStale live) = Inr (retire_stale_targets live a)"
| "arb_step a (SendChunk active) =
     res_bind (next_chunk a active) (\<lambda>chunk.
       case chunk of
         None \<Rightarrow> Inr a
       | Some c \<Rightarrow> res_bind (commit_chunk c a) (\<lambda>(_, a'). Inr a'))"

definition arb_apply :: "arbiter \<Rightarrow> arb_op \<Rightarrow> arbiter" where
  "arb_apply a op = (case arb_step a op of Inl _ \<Rightarrow> a | Inr a' \<Rightarrow> a')"

lemma arb_step_inv:
  assumes "arb_inv a" "arb_step a op = Inr a'"
  shows "arb_inv a'"
  using assms
  by (cases op)
     (auto simp: enqueue_routed_daemon_output_def res_bind_eq_Inr start_preparations_inv retire_stale_inv
       split: option.splits if_splits intro: enqueue_inv finish_preparation_inv commit_chunk_inv)

text \<open>No operation changes the limits.\<close>

definition same_limits :: "arbiter \<Rightarrow> arbiter \<Rightarrow> bool" where
  "same_limits a b \<longleftrightarrow> arb_max_items b = arb_max_items a \<and> arb_max_bytes b = arb_max_bytes a \<and>
     arb_active_burst_limit b = arb_active_burst_limit a"

lemma arb_step_limits: "arb_inv a \<Longrightarrow> arb_step a op = Inr a' \<Longrightarrow> same_limits a a'"
  by (cases op)
     (auto simp: same_limits_def enqueue_routed_daemon_output_def res_bind_eq_Inr start_preparations_def
       retire_stale_eq split: option.splits if_splits
       dest!: enqueue_cases(4) elim!: finish_cases commit_cases)

interpretation forwarder: monotone_stepping arb_apply arb_inv same_limits
  by unfold_locales
     (auto simp: arb_apply_def same_limits_def split: sum.splits
       intro: arb_step_inv dest: arb_step_limits [unfolded same_limits_def])

text \<open>
  C13: the arbiter's accounting is exact and its memory is bounded, whatever the interleaving of
  admissions, codec completions, detaches and sends. After any sequence of operations the two
  counters equal the number and the cost of the events really held, both stay within the limits the
  arbiter was built with, no pane is empty, at most one live pane exists per attachment, and a
  retired pane holds nothing but its one cancelled codec job.\<close>

theorem arbiter_accounting_exact:
  "let a = forwarder.run ops (arb_with_limits max_items max_bytes burst) in
     arb_queued_items a = items_of (arb_panes a) \<and> arb_queued_items a \<le> max_items \<and>
     arb_queued_bytes a = bytes_of (arb_panes a) \<and> arb_queued_bytes a \<le> max_bytes \<and>
     (arb_is_empty a \<longleftrightarrow> arb_panes a = []) \<and> distinct (live_keys (arb_panes a)) \<and>
     list_all pane_ok (arb_panes a)"
proof -
  define a where "a = forwarder.run ops (arb_with_limits max_items max_bytes burst)"
  have inv: "arb_inv a" unfolding a_def by (intro forwarder.run_inv arb_inv_limits)
  have "same_limits (arb_with_limits max_items max_bytes burst) a"
    unfolding a_def by (intro forwarder.run_before arb_inv_limits)
  moreover have "items_of (arb_panes a) = 0 \<longleftrightarrow> arb_panes a = []"
    using inv by (cases "arb_panes a") (auto simp: arb_inv_def pane_ok_def)
  ultimately show ?thesis
    using inv unfolding a_def [symmetric] Let_def
    by (auto simp: arb_inv_def same_limits_def arb_with_limits_def arb_is_empty_def list_all_iff)
qed

section \<open>Tickets\<close>

text \<open>
  Tickets are drawn from a wrapping \<^verbatim>\<open>u64\<close>; until it wraps, no two queued events share one.
\<close>

definition tickets_of :: "pane_output list \<Rightarrow> u64 list" where
  "tickets_of ps = concat (map (\<lambda>p. map qo_ticket (po_events p)) ps)"

lemma tickets_of_simps [simp]:
  "tickets_of [] = []" "tickets_of (p # ps) = map qo_ticket (po_events p) @ tickets_of ps"
  "tickets_of (ps @ qs) = tickets_of ps @ tickets_of qs"
  by (simp_all add: tickets_of_def)

definition tickets_fresh :: "arbiter \<Rightarrow> bool" where
  "tickets_fresh a \<longleftrightarrow> distinct (tickets_of (arb_panes a)) \<and>
     (\<forall>k \<in> set (tickets_of (arb_panes a)). k < arb_next_ticket a)"

lemma committed_pane_tickets:
  assumes "po_events p = e # es" "qo_state e = Ready out off"
  shows "tickets_of (committed_pane sent p) =
    (if pc_completes_event sent then map qo_ticket es else qo_ticket e # map qo_ticket es)"
  by (cases rule: committed_pane_cases [OF assms, of sent]) simp_all

lemma commit_tickets:
  assumes "tickets_fresh a" "commit_chunk sent a = Inr (completed, a')"
  shows "tickets_fresh a'"
  using assms(2)
proof (cases rule: commit_cases)
  case (1 pre p suf e es out off)
  note ct = committed_pane_tickets [OF 1(3,5), of sent]
  show ?thesis using assms(1) 1(1,3,6,12) ct by (auto simp: tickets_fresh_def split: if_splits)
qed

lemma push_event_tickets:
  "set (tickets_of (push_event sid t ev ps)) = insert (qo_ticket ev) (set (tickets_of ps))"
  "qo_ticket ev \<notin> set (tickets_of ps) \<Longrightarrow> distinct (tickets_of ps) \<Longrightarrow>
     distinct (tickets_of (push_event sid t ev ps))"
proof -
  show s: "set (tickets_of (push_event sid t ev ps)) = insert (qo_ticket ev) (set (tickets_of ps))" for ps
    by (induction ps) auto
  show "qo_ticket ev \<notin> set (tickets_of ps) \<Longrightarrow> distinct (tickets_of ps) \<Longrightarrow>
     distinct (tickets_of (push_event sid t ev ps))"
    by (induction ps) (auto simp: s)
qed

lemma next_ticket_less:
  assumes "(k :: u64) \<noteq> - 1"
  shows "k < max (k + 1) 1"
proof -
  have "unat k \<noteq> 18446744073709551615" using assms by (auto simp: word_unat_eq_iff)
  then have "unat k < 18446744073709551615" using unat_u64_less [of k] by linarith
  then have "k < k + 1" by (simp add: word_less_nat_alt unat_word_ariths)
  then show ?thesis by (metis less_max_iff_disj)
qed

lemma start_pane_tickets [simp]:
  "tickets_of (map (fst \<circ> start_pane) ps) = tickets_of ps"
proof (induction ps)
  case (Cons p ps)
  have "map qo_ticket (po_events (fst (start_pane p))) = map qo_ticket (po_events p)"
    using start_pane_eq [of p] by auto
  with Cons show ?case by simp
qed simp

lemma retired_tickets:
  "set (tickets_of (concat (map (retired_to live) ps))) \<subseteq> set (tickets_of ps)"
  "distinct (tickets_of ps) \<Longrightarrow> distinct (tickets_of (concat (map (retired_to live) ps)))"
proof -
  have one: "tickets_of (retired_to live p) = map qo_ticket (po_events p) \<or> tickets_of (retired_to live p) = [] \<or>
      (\<exists>e es. po_events p = e # es \<and> tickets_of (retired_to live p) = [qo_ticket e])" for p
    by (auto simp: retired_to_def elim: retire_pane_preparing)
  show sub: "set (tickets_of (concat (map (retired_to live) ps))) \<subseteq> set (tickets_of ps)" for ps
  proof (induction ps)
    case (Cons p ps)
    with one [of p] show ?case by auto
  qed simp
  show "distinct (tickets_of ps) \<Longrightarrow> distinct (tickets_of (concat (map (retired_to live) ps)))"
  proof (induction ps)
    case (Cons p ps)
    with one [of p] sub [of ps] show ?case by auto
  qed simp
qed

lemma finish_tickets:
  assumes "finish_preparation ticket prepared a = Inr a'"
  shows "set (tickets_of (arb_panes a')) \<subseteq> set (tickets_of (arb_panes a))"
    "distinct (tickets_of (arb_panes a)) \<Longrightarrow> distinct (tickets_of (arb_panes a'))"
    "arb_next_ticket a' = arb_next_ticket a"
  using assms by (auto elim!: finish_cases)

lemma enqueue_tickets:
  assumes "tickets_fresh a" "enqueue_reserved sid sid_cap t line line_cap label a = Inr (ticket, a')"
    and "arb_next_ticket a \<noteq> - 1"
  shows "tickets_fresh a'"
proof -
  note enq = enqueue_cases [OF assms(2)]
  have grows: "arb_next_ticket a < max (arb_next_ticket a + 1) 1" using assms(3) by (rule next_ticket_less)
  have "arb_next_ticket a \<notin> set (tickets_of (arb_panes a))"
    using assms(1) by (auto simp: tickets_fresh_def)
  then have "distinct (tickets_of (arb_panes a'))"
    using assms(1) enq(1) unfolding enq(4) by (simp add: push_event_tickets(2) admitted_event_def tickets_fresh_def)
  moreover have "k < max (arb_next_ticket a + 1) 1" if "k \<in> set (tickets_of (arb_panes a'))" for k
    using that assms(1) grows enq(1) unfolding enq(4)
    by (auto simp: push_event_tickets(1) admitted_event_def tickets_fresh_def
        intro: order.strict_trans)
  ultimately show ?thesis using enq(1) by (simp add: tickets_fresh_def enq(4))
qed

lemma commit_next_ticket:
  "commit_chunk sent a = Inr (completed, a') \<Longrightarrow> arb_next_ticket a' = arb_next_ticket a"
  by (erule commit_cases)

text \<open>Each operation draws at most one ticket, so a bounded number of them cannot wrap the counter.\<close>

lemma arb_apply_tickets:
  assumes inv: "arb_inv a" and fresh: "tickets_fresh a" and room: "unat (arb_next_ticket a) + 1 < 2 ^ 64"
  shows "tickets_fresh (arb_apply a op)"
    and "unat (arb_next_ticket (arb_apply a op)) \<le> unat (arb_next_ticket a) + 1"
proof -
  let ?k = "arb_next_ticket a"
  have old: "?k \<noteq> - 1" using room by (auto simp: word_unat_eq_iff)
  have up: "unat (max (?k + 1) 1) \<le> unat ?k + 1" using room by (simp add: max_def unat_word_ariths)
  have "tickets_fresh a' \<and> unat (arb_next_ticket a') \<le> unat ?k + 1" if step: "arb_step a op = Inr a'" for a'
  proof (cases op)
    case (Admit attachment target sid sid_cap line line_cap label)
    show ?thesis
    proof (cases "a' = a")
      case False
      then obtain t ticket where "enqueue_reserved sid sid_cap t line line_cap label a = Inr (ticket, a')"
        using step Admit
        by (auto simp: enqueue_routed_daemon_output_def res_bind_eq_Inr split: option.splits if_splits)
      then show ?thesis
        using enqueue_tickets [OF fresh _ old] enqueue_cases(1,4) up by fastforce
    qed (use fresh in simp)
  next
    case StartCodec
    then show ?thesis using step fresh by (auto simp: start_preparations_def tickets_fresh_def)
  next
    case (FinishCodec ticket prepared)
    then show ?thesis
      using step fresh finish_tickets [of ticket prepared a a'] by (auto simp: tickets_fresh_def)
  next
    case (RetireStale live)
    then show ?thesis
      using step fresh retired_tickets [where live = live and ps = "arb_panes a"]
      by (auto simp: retire_stale_eq [OF inv] tickets_fresh_def)
  next
    case (SendChunk active)
    then show ?thesis
      using step fresh commit_tickets [OF fresh]
      by (auto simp: res_bind_eq_Inr commit_next_ticket split: option.splits)
  qed
  then show "tickets_fresh (arb_apply a op)" "unat (arb_next_ticket (arb_apply a op)) \<le> unat ?k + 1"
    using fresh by (auto simp: arb_apply_def split: sum.split)
qed

lemma run_tickets:
  assumes "arb_inv a" "tickets_fresh a" "unat (arb_next_ticket a) + length ops < 2 ^ 64"
  shows "tickets_fresh (forwarder.run ops a)"
    and "unat (arb_next_ticket (forwarder.run ops a)) \<le> unat (arb_next_ticket a) + length ops"
proof -
  have "tickets_fresh (forwarder.run ops a) \<and>
      unat (arb_next_ticket (forwarder.run ops a)) \<le> unat (arb_next_ticket a) + length ops"
    using assms
  proof (induction ops arbitrary: a)
    case (Cons op ops)
    have "unat (arb_next_ticket a) + 1 < 2 ^ 64" using Cons.prems(3) by simp
    note one = arb_apply_tickets [OF Cons.prems(1,2) this, of op]
    show ?case
      using Cons.IH [OF forwarder.step_inv [OF Cons.prems(1)] one(1)] one(2) Cons.prems(3) by simp
  qed simp
  then show "tickets_fresh (forwarder.run ops a)"
    "unat (arb_next_ticket (forwarder.run ops a)) \<le> unat (arb_next_ticket a) + length ops" by simp_all
qed

lemma head_unique:
  assumes "distinct (tickets_of (pre @ p # suf))" "head_ticket_is k p" "q \<in> set pre \<union> set suf"
  shows "\<not> head_ticket_is k q"
proof
  assume q: "head_ticket_is k q"
  have "k \<in> set (map qo_ticket (po_events p))" "k \<in> set (map qo_ticket (po_events q))"
    using assms(2) q by (auto simp: head_ticket_is_def split: list.splits)
  moreover have "set (map qo_ticket (po_events q)) \<subseteq> set (tickets_of pre) \<union> set (tickets_of suf)"
    using assms(3) by (auto simp: tickets_of_def)
  ultimately show False using assms(1) by auto
qed

lemma selected_ready:
  assumes "selected_index a active = Some i"
  shows "i < length (arb_panes a)" "pane_ready (arb_panes a ! i)"
  using assms by (auto simp: selected_index_def active_index_def fairness_index_def any_ready_index_def
      selected_as_active_def pane_ready_def position_Some Option.bind_eq_Some_conv
      split: if_splits option.splits)

lemma pane_ready_head:
  assumes "pane_ready p"
  obtains e es out off where "po_events p = e # es" "qo_state e = Ready out off"
  using assms by (auto simp: pane_ready_def head_ready_def split: list.splits output_state.splits)

text \<open>Sending one chunk: the pane that was chosen is the pane that is committed.\<close>

lemma send_cases:
  assumes fresh: "tickets_fresh a" and nx: "next_chunk a active = Inr (Some c)"
    and com: "commit_chunk c a = Inr (completed, a')"
  obtains pre p suf e es out off where
    "arb_panes a = pre @ p # suf" "selected_index a active = Some (length pre)" "pane_ready p"
    "po_events p = e # es" "qo_ticket e = pc_ticket c" "qo_state e = Ready out off"
    "encode_next_terminal_chunk (tgt_channel (po_target p)) out off =
       Inr (pc_frame c, pc_next_offset c, pc_completes_event c)"
    "pc_selected_as_active c = selected_as_active a active"
    "arb_panes a' = (if selected_as_active a active then pre @ committed_pane c p @ suf
                     else pre @ suf @ committed_pane c p)"
    "arb_active_burst_chunks a' =
       (if selected_as_active a active
        then min (min (arb_active_burst_chunks a + 1) usize_max) (arb_active_burst_limit a) else 0)"
    "set (arb_priority_served_targets a') =
       (if selected_as_active a active then insert (po_target p) (set (arb_priority_served_targets a)) else {})"
proof -
  obtain i where i: "selected_index a active = Some i"
    using nx by (auto simp: next_chunk_def split: option.splits)
  let ?p = "arb_panes a ! i"
  note sel = selected_ready [OF i]
  obtain e es out off where e: "po_events ?p = e # es" "qo_state e = Ready out off"
    using sel(2) by (rule pane_ready_head)
  have c: "pc_ticket c = qo_ticket e" "pc_selected_as_active c = selected_as_active a active"
    "encode_next_terminal_chunk (tgt_channel (po_target ?p)) out off =
       Inr (pc_frame c, pc_next_offset c, pc_completes_event c)"
    using nx i e by (auto simp: next_chunk_def Let_def res_bind_eq_Inr)
  show ?thesis
    using com
  proof (cases rule: commit_cases)
    case (1 pre q suf e' es' out' off')
    have "i = length pre"
    proof (rule ccontr)
      assume "i \<noteq> length pre"
      then have "?p \<in> set pre \<union> set suf"
        using sel(1) 1(1) by (cases "i < length pre") (auto simp: nth_append nth_Cons split: nat.splits)
      moreover have "head_ticket_is (pc_ticket c) q" "head_ticket_is (pc_ticket c) ?p"
        using 1(3,4) e c(1) by (simp_all add: head_ticket_is_def)
      ultimately show False
        using head_unique fresh unfolding tickets_fresh_def 1(1) by blast
    qed
    then have "?p = q" using 1(1) by simp
    then show ?thesis
      using 1 e c sel i \<open>i = length pre\<close> by (intro that [of pre q suf e es out off]) simp_all
  qed
qed

section \<open>No pane starves\<close>

text \<open>
  How many chunks may still go out before the ready pane at position \<open>i\<close> is served: every full burst
  of the viewed pane and one sibling chunk bring it one position forward, and having been the viewed
  pane itself earlier costs it one turn.
\<close>

definition delay :: "arbiter \<Rightarrow> nat \<Rightarrow> nat" where
  "delay a i =
     (i + (if po_target (arb_panes a ! i) \<in> set (arb_priority_served_targets a) then 1 else 0))
       * (arb_active_burst_limit a + 1)
     + (arb_active_burst_limit a - arb_active_burst_chunks a)"

definition sole_target :: "arbiter \<Rightarrow> pane_output \<Rightarrow> bool" where
  "sole_target a p \<longleftrightarrow> filter (\<lambda>q. po_target q = po_target p) (arb_panes a) = [p]"

text \<open>Removing or replacing one pane moves the others by at most one position.\<close>

lemma splice_nth:
  assumes "i < length (pre @ p # suf)" "i \<noteq> length pre" "length kept \<le> 1"
  obtains j where "j < length (pre @ kept @ suf)" "j \<le> i" "(pre @ kept @ suf) ! j = (pre @ p # suf) ! i"
    "length pre < i \<Longrightarrow> kept = [] \<Longrightarrow> j < i"
proof (cases "i < length pre")
  case True
  then show ?thesis by (intro that [of i]) (simp_all add: nth_append)
next
  case False
  define m where "m = i - length pre - 1"
  have m: "i = length pre + Suc m" "m < length suf"
    using False assms(1,2) by (simp_all add: m_def)
  show ?thesis
    using assms(3) m by (intro that [of "length pre + length kept + m"]) (simp_all add: nth_append)
qed

lemma committed_pane_length: "length (committed_pane c p) \<le> 1"
  by (simp add: committed_pane_def Let_def split: list.splits output_state.splits)

lemma committed_pane_target: "q \<in> set (committed_pane c p) \<Longrightarrow> po_target q = po_target p"
  by (auto simp: committed_pane_def Let_def split: list.splits output_state.splits if_splits)

lemma delay_decreases:
  assumes fresh: "tickets_fresh a" and lim: "arb_active_burst_limit a \<le> usize_max"
    and i: "i < length (arb_panes a)" "arb_panes a ! i = P" "pane_ready P" "sole_target a P"
    and nx: "next_chunk a active = Inr (Some c)" and com: "commit_chunk c a = Inr (completed, a')"
    and other: "\<not> head_ticket_is (pc_ticket c) P"
  shows "sole_target a' P \<and> (\<exists>j < length (arb_panes a'). arb_panes a' ! j = P \<and> delay a' j < delay a i)"
  using fresh nx com
proof (cases rule: send_cases)
  case (1 pre p suf e es out off)
  let ?L = "arb_active_burst_limit a"
  let ?kept = "committed_pane c p"
  have L': "arb_active_burst_limit a' = ?L" using com by (rule commit_cases)
  have "p \<noteq> P" using other 1(4,5) by (auto simp: head_ticket_is_def)
  then have ne: "i \<noteq> length pre" and tp: "po_target p \<noteq> po_target P"
    using i(2,4) 1(1) by (auto simp: sole_target_def append_eq_Cons_conv filter_eq_Cons_iff split: if_splits)
  have "filter (\<lambda>q. po_target q = po_target P) ?kept = []"
    using tp committed_pane_target by (auto simp: filter_empty_conv)
  then have sole: "sole_target a' P"
    using i(4) tp 1(1,9) by (auto simp: sole_target_def)
  show ?thesis
  proof (cases "selected_as_active a active")
    case True
    obtain j where j: "j < length (pre @ ?kept @ suf)" "j \<le> i" "(pre @ ?kept @ suf) ! j = P"
      using splice_nth [of i pre p suf ?kept] i(1,2) ne committed_pane_length unfolding 1(1) by metis
    have burst: "arb_active_burst_chunks a < ?L" using True by (simp add: selected_as_active_def)
    then have "arb_active_burst_chunks a' = arb_active_burst_chunks a + 1"
      using 1(10) True lim by simp
    moreover have "po_target P \<in> set (arb_priority_served_targets a') \<longleftrightarrow>
        po_target P \<in> set (arb_priority_served_targets a)"
      using 1(11) True tp by auto
    moreover have "arb_panes a' ! j = P" using j(3) 1(9) True by simp
    ultimately have "delay a' j < delay a i"
      using burst L' i(2) mult_le_mono1 [OF j(2), of "?L + 1"] unfolding delay_def by (auto simp: algebra_simps)
    with j 1(9) True sole show ?thesis by auto
  next
    case False
    obtain j where j: "j < length (pre @ [] @ suf)" "j \<le> i" "(pre @ [] @ suf) ! j = P"
        "length pre < i \<Longrightarrow> j < i"
      using splice_nth [of i pre p suf "[]"] i(1,2) ne unfolding 1(1) by (metis list.size(3) zero_le)
    have a': "arb_panes a' = pre @ suf @ ?kept" "arb_active_burst_chunks a' = 0"
        "set (arb_priority_served_targets a') = {}"
      using False 1(9,10,11) by simp_all
    have jP: "j < length (arb_panes a')" "arb_panes a' ! j = P"
      using j a'(1) by (auto simp: nth_append)
    have "delay a' j < delay a i"
    proof (cases "po_target P \<in> set (arb_priority_served_targets a)")
      case True
      then show ?thesis
        using mult_le_mono1 [OF j(2), of "?L + 1"] a'(2,3) L' i(2) by (simp add: delay_def)
    next
      case unserved: False
      have "fairness_index a \<noteq> None"
        using i(1-3) unserved by (auto simp: fairness_index_def position_None)
      then have "fairness_index a = Some (length pre)"
        using 1(2) False by (auto simp: selected_index_def)
      then have "\<not> i < length pre"
        using i(2,3) unserved by (auto simp: fairness_index_def position_Some)
      then have "j < i" using ne j(4) by simp
      then have "j * (?L + 1) + ?L < i * (?L + 1)"
        using mult_le_mono1 [of "Suc j" i "?L + 1"] by simp
      then show ?thesis using a'(2,3) L' i(2) by (simp add: delay_def)
    qed
    with jP sole show ?thesis by blast
  qed
qed

text \<open>
  A pane that waits for its turn: the pane of the attachment \<open>key\<close> stands at position \<open>i\<close>, is ready with
  ticket \<open>k\<close>, and is the only one with its target.
\<close>

definition waits :: "arbiter \<Rightarrow> nat \<Rightarrow> string \<times> output_target \<Rightarrow> u64 \<Rightarrow> bool" where
  "waits a i key k \<longleftrightarrow>
     (\<exists>pre p suf. arb_panes a = pre @ p # suf \<and> length pre = i \<and> pane_ready p \<and> head_ticket_is k p \<and>
        pane_key p = key \<and> (\<forall>q \<in> set pre \<union> set suf. po_target q \<noteq> snd key))"

lemma waitsE:
  assumes "waits a i key k"
  obtains pre p suf where "arb_panes a = pre @ p # suf" "length pre = i" "pane_ready p"
    "head_ticket_is k p" "pane_key p = key" "\<forall>q \<in> set pre \<union> set suf. po_target q \<noteq> snd key"
  using assms unfolding waits_def by blast

lemma waits_iff:
  "waits a i key k \<longleftrightarrow> i < length (arb_panes a) \<and> pane_ready (arb_panes a ! i) \<and>
     head_ticket_is k (arb_panes a ! i) \<and> pane_key (arb_panes a ! i) = key \<and> sole_target a (arb_panes a ! i)"
  (is "_ \<longleftrightarrow> ?at")
proof
  assume "waits a i key k"
  then show ?at
    by (rule waitsE) (auto simp: nth_append sole_target_def pane_key_def filter_empty_conv)
next
  assume at: ?at
  let ?p = "arb_panes a ! i" and ?pre = "take i (arb_panes a)" and ?suf = "drop (Suc i) (arb_panes a)"
  have split: "arb_panes a = ?pre @ ?p # ?suf" using at by (simp add: id_take_nth_drop)
  then have "sole_target a ?p \<longleftrightarrow>
      filter (\<lambda>q. po_target q = po_target ?p) ?pre @ ?p # filter (\<lambda>q. po_target q = po_target ?p) ?suf = [?p]"
    unfolding sole_target_def by (metis (mono_tags, lifting) filter.simps(2) filter_append)
  then have "\<forall>q \<in> set ?pre \<union> set ?suf. po_target q \<noteq> po_target ?p"
    using at by (auto simp: append_eq_Cons_conv filter_empty_conv)
  with at split show "waits a i key k"
    unfolding waits_def by (intro exI [of _ ?pre] exI [of _ ?p] exI [of _ ?suf]) (auto simp: pane_key_def)
qed

lemma waits_delay:
  assumes "waits a i key k"
  shows "delay a i = (i + (if snd key \<in> set (arb_priority_served_targets a) then 1 else 0))
      * (arb_active_burst_limit a + 1) + (arb_active_burst_limit a - arb_active_burst_chunks a)"
  using assms by (rule waitsE) (auto simp: delay_def nth_append pane_key_def)

text \<open>
  What the fairness of the arbiter relies on: while the pane waits its attachment stays in the table,
  and its target, which carries the attachment's own generation, is used by no other session.
\<close>

fun keeps_attachment :: "string \<times> output_target \<Rightarrow> arb_op \<Rightarrow> bool" where
  "keeps_attachment key (Admit attachment target sid sid_cap line line_cap label) \<longleftrightarrow>
     (target = Some (snd key) \<longrightarrow> sid = fst key)"
| "keeps_attachment key (RetireStale live) \<longleftrightarrow> live (fst key) = Some (snd key)"
| "keeps_attachment key _ \<longleftrightarrow> True"

lemma push_event_targets:
  "q \<in> set (push_event sid t ev ps) \<Longrightarrow> po_target q = t \<or> (\<exists>p \<in> set ps. po_target q = po_target p)"
  by (induction ps) (auto split: if_splits)

lemma push_event_waits:
  assumes "\<forall>q \<in> set pre \<union> set suf. po_target q \<noteq> po_target p" "\<not> po_retired p"
    and "t = po_target p \<longrightarrow> sid = po_session_id p"
  shows "\<exists>pre' p' suf'. push_event sid t ev (pre @ p # suf) = pre' @ p' # suf' \<and>
     length pre' = length pre \<and> (p' = p \<or> p' = p\<lparr>po_events := po_events p @ [ev]\<rparr>) \<and>
     (\<forall>q \<in> set pre' \<union> set suf'. po_target q \<noteq> po_target p)"
  using assms
proof (induction pre)
  case Nil
  show ?case
  proof (cases "t = po_target p")
    case True
    with Nil show ?thesis
      by (intro exI [of _ "[]"] exI [of _ "p\<lparr>po_events := po_events p @ [ev]\<rparr>"] exI [of _ suf]) simp
  next
    case False
    with Nil show ?thesis
      using push_event_targets [of _ sid t ev suf]
      by (intro exI [of _ "[]"] exI [of _ p] exI [of _ "push_event sid t ev suf"]) fastforce
  qed
next
  case (Cons r pre)
  show ?case
  proof (cases "\<not> po_retired r \<and> po_session_id r = sid \<and> po_target r = t")
    case True
    with Cons.prems show ?thesis
      by (intro exI [of _ "r\<lparr>po_events := po_events r @ [ev]\<rparr> # pre"] exI [of _ p] exI [of _ suf]) auto
  next
    case False
    from Cons obtain pre' p' suf' where "push_event sid t ev (pre @ p # suf) = pre' @ p' # suf'"
      "length pre' = length pre" "p' = p \<or> p' = p\<lparr>po_events := po_events p @ [ev]\<rparr>"
      "\<forall>q \<in> set pre' \<union> set suf'. po_target q \<noteq> po_target p" by auto
    with False Cons.prems show ?thesis
      by (intro exI [of _ "r # pre'"] exI [of _ p'] exI [of _ suf']) auto
  qed
qed

lemma enqueue_waits:
  assumes "waits a i key k" "enqueue_reserved sid sid_cap t line line_cap label a = Inr (ticket, a')"
    and "t = snd key \<longrightarrow> sid = fst key"
  shows "waits a' i key k"
  using assms(1)
proof (rule waitsE)
  fix pre p suf
  assume w: "arb_panes a = pre @ p # suf" "length pre = i" "pane_ready p" "head_ticket_is k p"
    "pane_key p = key" "\<forall>q \<in> set pre \<union> set suf. po_target q \<noteq> snd key"
  let ?ev = "admitted_event t line (max (line_cap + sid_cap) 1) label ticket"
  obtain pre' p' suf' where "push_event sid t ?ev (pre @ p # suf) = pre' @ p' # suf'"
      "length pre' = length pre" "p' = p \<or> p' = p\<lparr>po_events := po_events p @ [?ev]\<rparr>"
      "\<forall>q \<in> set pre' \<union> set suf'. po_target q \<noteq> po_target p"
    using push_event_waits [of pre suf p t sid ?ev] w assms(3) by (auto simp: pane_key_def pane_ready_def)
  then show ?thesis
    using w unfolding enqueue_cases(4) [OF assms(2)] waits_def
    by (intro exI [of _ pre'] exI [of _ p'] exI [of _ suf'])
      (auto simp: pane_key_def pane_ready_def head_ready_def head_ticket_is_def split: list.splits)
qed

lemma start_pane_target [simp]: "po_target (fst (start_pane p)) = po_target p"
  using start_pane_simps(1) [of p] by (simp add: pane_key_def)

lemma start_waits:
  assumes "waits a i key k"
  shows "waits (fst (start_preparations a)) i key k"
  using assms
proof (rule waitsE)
  fix pre p suf
  assume w: "arb_panes a = pre @ p # suf" "length pre = i" "pane_ready p" "head_ticket_is k p"
    "pane_key p = key" "\<forall>q \<in> set pre \<union> set suf. po_target q \<noteq> snd key"
  have "fst (start_pane p) = p"
    using w(3) by (auto simp: start_pane_def pane_ready_def head_ready_def split: list.splits output_state.splits)
  with w show ?thesis
    unfolding waits_def start_preparations_def
    by (intro exI [of _ "map (fst \<circ> start_pane) pre"] exI [of _ p] exI [of _ "map (fst \<circ> start_pane) suf"]) auto
qed

lemma finish_waits:
  assumes "waits a i key k" "finish_preparation ticket prepared a = Inr a'"
  obtains j where "j \<le> i" "waits a' j key k"
  using assms(1)
proof (rule waitsE)
  fix pre p suf
  assume w: "arb_panes a = pre @ p # suf" "length pre = i" "pane_ready p" "head_ticket_is k p"
    "pane_key p = key" "\<forall>q \<in> set pre \<union> set suf. po_target q \<noteq> snd key"
  obtain r new pre1 suf1 where r: "arb_panes a = pre1 @ r # suf1" "head_preparing r"
      "arb_panes a' = pre1 @ new @ suf1" "length new \<le> 1" "\<forall>q \<in> set new. po_target q = po_target r"
    using assms(2) by (rule finish_cases) (force simp: head_preparing_def)+
  have "r \<noteq> p" using r(2) w(3)
    by (auto simp: head_preparing_def pane_ready_def head_ready_def split: option.splits output_state.splits)
  then consider us where "pre1 = pre @ p # us" "suf = us @ r # suf1"
    | us where "pre = pre1 @ r # us" "suf1 = us @ p # suf"
    using r(1) w(1) by (auto simp: append_eq_append_conv2 append_eq_Cons_conv Cons_eq_append_conv)
  then show ?thesis
  proof cases
    case 1
    then have "waits a' i key k"
      using w r(3,5) unfolding waits_def
      by (intro exI [of _ pre] exI [of _ p] exI [of _ "us @ new @ suf1"]) auto
    then show ?thesis using that [of i] by simp
  next
    case 2
    then have "waits a' (length (pre1 @ new @ us)) key k"
      using w r(3,5) unfolding waits_def
      by (intro exI [of _ "pre1 @ new @ us"] exI [of _ p] exI [of _ suf]) auto
    moreover have "length (pre1 @ new @ us) \<le> i" using 2 w(2) r(4) by auto
    ultimately show ?thesis using that by blast
  qed
qed

lemma retired_to_target: "q \<in> set (retired_to live p) \<Longrightarrow> po_target q = po_target p"
  by (auto simp: retired_to_def retire_pane_def split: if_splits list.splits)

lemma retire_waits:
  assumes "arb_inv a" "waits a i key k" "live (fst key) = Some (snd key)"
  obtains j where "j \<le> i" "waits (retire_stale_targets live a) j key k"
  using assms(2)
proof (rule waitsE)
  fix pre p suf
  assume w: "arb_panes a = pre @ p # suf" "length pre = i" "pane_ready p" "head_ticket_is k p"
    "pane_key p = key" "\<forall>q \<in> set pre \<union> set suf. po_target q \<noteq> snd key"
  let ?f = "\<lambda>ps. concat (map (retired_to live) ps)"
  have "retired_to live p = [p]" using assms(3) w(5) by (auto simp: retired_to_def pane_key_def)
  then have "waits (retire_stale_targets live a) (length (?f pre)) key k"
    using w unfolding waits_def retire_stale_eq [OF assms(1)]
    by (intro exI [of _ "?f pre"] exI [of _ p] exI [of _ "?f suf"]) (auto dest!: retired_to_target)
  moreover have "length (?f pre) \<le> length pre"
    by (induction pre) (auto simp: retired_to_def)
  ultimately show ?thesis using that w(2) by blast
qed

lemma other_ops_keep_turn:
  assumes "arb_step a op = Inr a'" "arb_inv a" "\<nexists>active. op = SendChunk active"
  shows "arb_priority_served_targets a' = arb_priority_served_targets a"
    "arb_active_burst_chunks a' = arb_active_burst_chunks a"
  using assms
  by (cases op; auto simp: enqueue_routed_daemon_output_def res_bind_eq_Inr start_preparations_def
      retire_stale_eq split: option.splits if_splits dest!: enqueue_cases(4) elim!: finish_cases)+

text \<open>Nothing but a sent chunk changes a waiting pane's turn, and never for the worse.\<close>

lemma other_op_waits:
  assumes inv: "arb_inv a" and w: "waits a i key k" and kept: "keeps_attachment key op"
    and step: "arb_step a op = Inr a'" and other: "\<nexists>active. op = SendChunk active"
  obtains j where "waits a' j key k" "delay a' j \<le> delay a i"
proof -
  obtain j where j: "j \<le> i" "waits a' j key k"
  proof (cases op)
    case (Admit attachment target sid sid_cap line line_cap label)
    show ?thesis
    proof (cases "a' = a")
      case False
      then obtain t ticket where "target = Some t"
          "enqueue_reserved sid sid_cap t line line_cap label a = Inr (ticket, a')"
        using step Admit
        by (auto simp: enqueue_routed_daemon_output_def res_bind_eq_Inr split: option.splits if_splits)
      then have "waits a' i key k" using enqueue_waits [OF w] kept Admit by simp
      then show ?thesis using that [of i] by simp
    qed (use w that [of i] in simp)
  next
    case StartCodec
    then show ?thesis using that [of i] start_waits [OF w] step by simp
  next
    case (FinishCodec ticket prepared)
    then have "finish_preparation ticket prepared a = Inr a'" using step by simp
    then show ?thesis using finish_waits [OF w] that by blast
  next
    case (RetireStale live)
    then show ?thesis using retire_waits [OF inv w, of live] that step kept by auto
  qed (use other in blast)
  have "arb_active_burst_limit a' = arb_active_burst_limit a"
    using arb_step_limits [OF inv step] by (simp add: same_limits_def)
  then have "delay a' j \<le> delay a i"
    using j(1) other_ops_keep_turn [OF step inv other] mult_le_mono1 [OF j(1)]
    by (simp add: waits_delay [OF w] waits_delay [OF j(2)] add_mono)
  with j(2) show ?thesis by (rule that)
qed

text \<open>
  The tickets of the chunks that go out in a run of operations. A send that fails puts nothing on the
  wire and is not counted.
\<close>

definition sent_by :: "arbiter \<Rightarrow> arb_op \<Rightarrow> u64 list" where
  "sent_by a op =
     (case op of
        SendChunk active \<Rightarrow>
          (case next_chunk a active of
             Inr (Some c) \<Rightarrow> (case commit_chunk c a of Inr _ \<Rightarrow> [pc_ticket c] | Inl _ \<Rightarrow> [])
           | _ \<Rightarrow> [])
      | _ \<Rightarrow> [])"

fun sent_tickets :: "arbiter \<Rightarrow> arb_op list \<Rightarrow> u64 list" where
  "sent_tickets a [] = []"
| "sent_tickets a (op # ops) = sent_by a op @ sent_tickets (arb_apply a op) ops"

lemma sent_by_cases:
  obtains active c completed a' where "op = SendChunk active" "next_chunk a active = Inr (Some c)"
    "commit_chunk c a = Inr (completed, a')" "sent_by a op = [pc_ticket c]" "arb_apply a op = a'"
  | "sent_by a op = []" "arb_apply a op = a"
  | a' where "sent_by a op = []" "arb_step a op = Inr a'" "arb_apply a op = a'"
      "\<nexists>active. op = SendChunk active"
proof (cases "\<exists>active. op = SendChunk active")
  case True
  then obtain active where op: "op = SendChunk active" by blast
  consider e where "next_chunk a active = Inl e" | "next_chunk a active = Inr None"
    | c e where "next_chunk a active = Inr (Some c)" "commit_chunk c a = Inl e"
    | c completed a' where "next_chunk a active = Inr (Some c)" "commit_chunk c a = Inr (completed, a')"
    by (metis option.exhaust sum.exhaust surj_pair)
  then show ?thesis
    by cases (use that op in \<open>auto simp: sent_by_def arb_apply_def\<close>)
next
  case False
  then have "sent_by a op = []" by (cases op) (auto simp: sent_by_def)
  with False that(2,3) show ?thesis by (cases "arb_step a op") (auto simp: arb_apply_def)
qed

lemma waiting_head_is_sent:
  assumes "arb_inv a" "tickets_fresh a" "unat (arb_next_ticket a) + length ops < 2 ^ 64"
    and "arb_active_burst_limit a \<le> usize_max" "waits a i key k"
    and "\<forall>op \<in> set ops. keeps_attachment key op" "delay a i < length (sent_tickets a ops)"
  shows "k \<in> set (sent_tickets a ops)"
  using assms
proof (induction ops arbitrary: a i)
  case (Cons op ops)
  have "unat (arb_next_ticket a) + 1 < 2 ^ 64" using Cons.prems(3) by simp
  note fresh = arb_apply_tickets [OF Cons.prems(1,2) this, of op]
  have later: "k \<in> set (sent_tickets (arb_apply a op) ops)"
    if "waits (arb_apply a op) j key k" "delay (arb_apply a op) j < length (sent_tickets (arb_apply a op) ops)" for j
    using Cons.IH [OF forwarder.step_inv [OF Cons.prems(1)] fresh(1) _ _ that(1) _ that(2)]
      fresh(2) Cons.prems(3,4,6) forwarder.step_before [OF Cons.prems(1), of op]
    by (simp add: same_limits_def)
  show ?case
  proof (cases rule: sent_by_cases [of op a])
    case (1 active c completed a')
    show ?thesis
    proof (cases "pc_ticket c = k")
      case False
      let ?p = "arb_panes a ! i"
      note at = Cons.prems(5) [unfolded waits_iff]
      have "\<not> head_ticket_is (pc_ticket c) ?p"
        using at False by (auto simp: head_ticket_is_def split: list.splits)
      then obtain j where j: "sole_target a' ?p" "j < length (arb_panes a')" "arb_panes a' ! j = ?p"
          "delay a' j < delay a i"
        using delay_decreases [OF Cons.prems(2,4) _ refl _ _ 1(2,3)] at by blast
      then have "waits a' j key k" using at by (simp add: waits_iff)
      then show ?thesis using later [of j] 1(4,5) j(4) Cons.prems(7) by simp
    qed (use 1(4) in simp)
  next
    case 2
    then show ?thesis using later [of i] Cons.prems(5,7) by simp
  next
    case (3 a')
    obtain j where "waits a' j key k" "delay a' j \<le> delay a i"
      using other_op_waits [OF Cons.prems(1,5) _ 3(2,4)] Cons.prems(6) by auto
    then show ?thesis using later [of j] 3 Cons.prems(7) by simp
  qed
qed simp

text \<open>
  C12: no pane starves. Start from any state of an arbiter with a pane that is ready and the only one
  with its target, and let the forwarder go on with any operations: sends with whatever panes the user
  views meanwhile, new events for any pane, codec jobs started and finished, other attachments retired.
  Provided the pane's own attachment stays in the table, no other session is routed to its target and
  the 64-bit ticket counter is not used up, the pane's next chunk is on the wire by the time more chunks
  than the pane's \<open>delay\<close> have gone out. The delay is the pane's position times one full burst plus one
  sibling chunk, one turn more if it was the viewed pane in the current burst, plus what is left of that
  burst; nothing that is queued behind the pane or into the viewed pane lengthens it.\<close>

theorem ready_pane_is_served:
  assumes "a = forwarder.run before (arb_with_limits max_items max_bytes burst)" "burst \<le> usize_max"
    and "length before + length ops < 2 ^ 64 - 1"
    and "i < length (arb_panes a)" "pane_ready (arb_panes a ! i)" "sole_target a (arb_panes a ! i)"
    and "\<forall>op \<in> set ops. keeps_attachment (pane_key (arb_panes a ! i)) op"
    and "delay a i < length (sent_tickets a ops)"
  shows "qo_ticket (hd (po_events (arb_panes a ! i))) \<in> set (sent_tickets a ops)"
proof -
  let ?start = "arb_with_limits max_items max_bytes burst"
  have start: "arb_inv ?start" "tickets_fresh ?start" "arb_next_ticket ?start = 1"
    by (simp_all add: arb_inv_limits) (simp_all add: arb_with_limits_def tickets_fresh_def)
  have inv: "arb_inv a" and lim: "arb_active_burst_limit a = burst"
    using forwarder.run_inv [OF start(1)] forwarder.run_before [OF start(1), of before] assms(1)
    by (simp_all add: same_limits_def arb_with_limits_def)
  have tickets: "tickets_fresh a" "unat (arb_next_ticket a) \<le> 1 + length before"
    using run_tickets [OF start(1,2), of before] start(3) assms(1,3) by simp_all
  have "head_ticket_is (qo_ticket (hd (po_events (arb_panes a ! i)))) (arb_panes a ! i)"
    using assms(5) by (auto simp: pane_ready_def head_ready_def head_ticket_is_def split: list.splits)
  then have "waits a i (pane_key (arb_panes a ! i)) (qo_ticket (hd (po_events (arb_panes a ! i))))"
    using assms(4-6) by (simp add: waits_iff)
  then show ?thesis
    using waiting_head_is_sent [OF inv tickets(1) _ _ _ assms(7,8)] tickets(2) lim assms(2,3) by simp
qed

text \<open>A viewed pane with a backlog and one sibling, with a burst limit of one.\<close>

definition demo_target :: "u16 \<Rightarrow> output_target" where
  "demo_target ch = \<lparr>tgt_channel = ch, tgt_encoding = EncLegacy, tgt_generation = 1\<rparr>"

definition demo_admissions :: "arb_op list" where
  "demo_admissions =
     [Admit AttLegacy (Some (demo_target 1)) ''A'' 1 [65] 1 ''Output'',
      Admit AttLegacy (Some (demo_target 1)) ''A'' 1 [66] 1 ''Output'',
      Admit AttLegacy (Some (demo_target 1)) ''A'' 1 [67] 1 ''Output'',
      Admit AttLegacy (Some (demo_target 2)) ''B'' 1 [68] 1 ''Output'']"

definition demo_arbiter :: arbiter where
  "demo_arbiter = forwarder.run demo_admissions (arb_with_limits 8 100 1)"

text \<open>The forwarder sends while the viewed pane keeps producing.\<close>

definition demo_ops :: "arb_op list" where
  "demo_ops =
     [SendChunk (Some ''A''),
      Admit AttLegacy (Some (demo_target 1)) ''A'' 1 [69] 1 ''Output'', StartCodec,
      RetireStale (\<lambda>sid. Some (if sid = ''A'' then demo_target 1 else demo_target 2)),
      SendChunk (Some ''A''),
      Admit AttLegacy (Some (demo_target 1)) ''A'' 1 [70] 1 ''Output'',
      SendChunk (Some ''A''), SendChunk (Some ''A'')]"

definition demo_event :: "u64 \<Rightarrow> u8 \<Rightarrow> queued_output" where
  "demo_event k b = \<lparr>qo_ticket = k, qo_byte_cost = 2, qo_original_len = 1, qo_event_label = ''Output'',
     qo_state = Ready (Legacy [b]) 0, qo_chunks_sent = 0\<rparr>"

lemma demo_arbiter_eq:
  "demo_arbiter =
     \<lparr>arb_panes = [\<lparr>po_session_id = ''A'', po_target = demo_target 1, po_retired = False,
                    po_events = [demo_event 1 65, demo_event 2 66, demo_event 3 67]\<rparr>,
                   \<lparr>po_session_id = ''B'', po_target = demo_target 2, po_retired = False,
                    po_events = [demo_event 4 68]\<rparr>],
      arb_queued_items = 4, arb_queued_bytes = 8, arb_max_items = 8, arb_max_bytes = 100,
      arb_next_ticket = 5, arb_active_burst_chunks = 0, arb_active_burst_limit = 1,
      arb_priority_served_targets = []\<rparr>"
  by (simp add: demo_arbiter_def demo_admissions_def arb_apply_def enqueue_routed_daemon_output_def enqueue_reserved_def
      enqueue_admission_def checked_add_usize_def usize_max_def arb_with_limits_def admission_state_def
      demo_target_def demo_event_def Let_def)

lemma demo_send: "sent_tickets demo_arbiter demo_ops = [1, 4, 2, 3]"
  by (simp add: demo_arbiter_eq demo_ops_def sent_by_def arb_apply_def demo_event_def demo_target_def
      next_chunk_def selected_index_def selected_as_active_def active_index_def fairness_index_def
      any_ready_index_def pane_ready_def head_ready_def commit_chunk_def head_ticket_is_def remove_at_def
      Let_def frame_encode_def OUTPUT_CHUNK_BYTES_def MAX_FRAME_PAYLOAD_def usize_max_def
      enqueue_routed_daemon_output_def enqueue_reserved_def enqueue_admission_def checked_add_usize_def
      admission_state_def start_preparations_def start_pane_def retire_stale_targets_def)

theorem ready_pane_is_served_witness:
  "delay demo_arbiter 1 < length (sent_tickets demo_arbiter demo_ops) \<and>
   qo_ticket (hd (po_events (arb_panes demo_arbiter ! 1))) \<in> set (sent_tickets demo_arbiter demo_ops)"
proof -
  have d: "delay demo_arbiter 1 < length (sent_tickets demo_arbiter demo_ops)"
    unfolding demo_send by (simp add: delay_def demo_arbiter_eq)
  have "qo_ticket (hd (po_events (arb_panes demo_arbiter ! 1))) \<in> set (sent_tickets demo_arbiter demo_ops)"
    by (rule ready_pane_is_served [OF demo_arbiter_def _ _ _ _ _ _ d])
       (simp_all add: demo_arbiter_eq demo_admissions_def demo_ops_def demo_event_def demo_target_def
         pane_ready_def head_ready_def sole_target_def pane_key_def usize_max_def)
  with d show ?thesis by blast
qed

end
