(* ===== verification/Output_Delivery.thy ===== *)
theory Output_Delivery
  imports Output_Arbiter
begin

text \<open>
  What the peer gets out of the arbiter: the forwarder's operations together with the codec jobs
  that are out and the record of every frame it put on the wire. The reachable sessions carry the
  end-to-end delivery theorem, by composing the arbiter's bookkeeping with the chunk codecs.
\<close>

section \<open>A session of the forwarder\<close>

record wire_session =
  ws_arb :: arbiter
  ws_admitted :: "u64 \<rightharpoonup> string \<times> output_target \<times> u8 list"
  ws_jobs :: "(u64 \<times> u8 list) list"
  ws_wire :: "(u64 \<times> u8 list) list"
  ws_done :: "u64 list"

definition start_wire_session :: "arbiter \<Rightarrow> wire_session" where
  "start_wire_session a = \<lparr>ws_arb = a, ws_admitted = Map.empty, ws_jobs = [], ws_wire = [], ws_done = []\<rparr>"

text \<open>
  The reachable sessions. \<open>admit\<close> carries the one restriction of the model: fewer than \<open>2 ^ 64 - 1\<close>
  events are admitted, so that the ticket counter does not wrap.
\<close>

inductive forwarding :: "'z gz_encoder \<Rightarrow> wire_session \<Rightarrow> bool" for gz where
  start: "forwarding gz (start_wire_session arb_new)"
| admit: "\<lbrakk>forwarding gz s; arb_next_ticket (ws_arb s) \<noteq> - 1;
     enqueue_reserved sid sid_cap t line line_cap label (ws_arb s) = Inr (k, a)\<rbrakk>
   \<Longrightarrow> forwarding gz (s\<lparr>ws_arb := a, ws_admitted := (ws_admitted s)(k \<mapsto> (sid, t, line))\<rparr>)"
| prepare: "forwarding gz s
   \<Longrightarrow> forwarding gz (s\<lparr>ws_arb := fst (start_preparations (ws_arb s)),
                       ws_jobs := ws_jobs s @ snd (start_preparations (ws_arb s))\<rparr>)"
| finish: "\<lbrakk>forwarding gz s; (k, line) \<in> set (ws_jobs s);
     finish_preparation k (prepare_terminal_line_with_cancel gz cancelled joined line) (ws_arb s) = Inr a\<rbrakk>
   \<Longrightarrow> forwarding gz (s\<lparr>ws_arb := a, ws_jobs := remove1 (k, line) (ws_jobs s)\<rparr>)"
| retire: "forwarding gz s \<Longrightarrow> forwarding gz (s\<lparr>ws_arb := retire_stale_targets live (ws_arb s)\<rparr>)"
| send: "\<lbrakk>forwarding gz s; next_chunk (ws_arb s) active = Inr (Some c);
     commit_chunk c (ws_arb s) = Inr (completed, a)\<rbrakk>
   \<Longrightarrow> forwarding gz (s\<lparr>ws_arb := a, ws_wire := ws_wire s @ [(pc_ticket c, pc_frame c)],
                       ws_done := (if pc_completes_event c then ws_done s @ [pc_ticket c] else ws_done s)\<rparr>)"

definition frames_of :: "u64 \<Rightarrow> (u64 \<times> u8 list) list \<Rightarrow> u8 list list" where
  "frames_of k wire = map snd (filter (\<lambda>x. fst x = k) wire)"

lemma frames_of_simps [simp]:
  "frames_of k [] = []"
  "frames_of k (wire @ [(j, f)]) = (if j = k then frames_of k wire @ [f] else frames_of k wire)"
  by (simp_all add: frames_of_def)

text \<open>The prepared forms a line can take.\<close>

definition prepared_from :: "'z gz_encoder \<Rightarrow> u8 list \<Rightarrow> prepared_line \<Rightarrow> bool" where
  "prepared_from gz line out \<longleftrightarrow> out = Legacy line \<or>
     (\<exists>cancelled joined. prepare_terminal_line_with_cancel gz cancelled joined line = Inr out)"

section \<open>The invariant\<close>

text \<open>
  Every queued event carries the line it was admitted with, and the frames it has put on the wire
  are exactly the part of its stream before its offset.
\<close>

definition sent_so_far :: "u16 \<Rightarrow> prepared_line \<Rightarrow> nat \<Rightarrow> u8 list list \<Rightarrow> bool" where
  "sent_so_far ch out off frames \<longleftrightarrow>
     (\<forall>rest. frame_stream ch out off = Inr rest \<longrightarrow> frame_stream ch out 0 = Inr (frames @ rest))"

fun state_tracks :: "'z gz_encoder \<Rightarrow> u16 \<Rightarrow> u8 list \<Rightarrow> u8 list list \<Rightarrow> output_state \<Rightarrow> bool" where
  "state_tracks gz ch line frames (WaitingForCodec l) \<longleftrightarrow> l = line \<and> frames = []"
| "state_tracks gz ch line frames (Preparing _) \<longleftrightarrow> frames = []"
| "state_tracks gz ch line frames (Ready out off) \<longleftrightarrow> prepared_from gz line out \<and> sent_so_far ch out off frames"

definition event_tracks :: "'z gz_encoder \<Rightarrow> wire_session \<Rightarrow> pane_output \<Rightarrow> queued_output \<Rightarrow> bool" where
  "event_tracks gz s p e \<longleftrightarrow>
     (\<exists>line. ws_admitted s (qo_ticket e) = Some (po_session_id p, po_target p, line) \<and>
        state_tracks gz (tgt_channel (po_target p)) line (frames_of (qo_ticket e) (ws_wire s)) (qo_state e))"

definition done_intact :: "'z gz_encoder \<Rightarrow> wire_session \<Rightarrow> u64 \<Rightarrow> bool" where
  "done_intact gz s k \<longleftrightarrow>
     (\<exists>sid t line out. ws_admitted s k = Some (sid, t, line) \<and> prepared_from gz line out \<and>
        frame_stream (tgt_channel t) out 0 = Inr (frames_of k (ws_wire s)))"

definition session_inv :: "'z gz_encoder \<Rightarrow> wire_session \<Rightarrow> bool" where
  "session_inv gz s \<longleftrightarrow>
     arb_inv (ws_arb s) \<and> tickets_fresh (ws_arb s) \<and>
     (\<forall>p \<in> set (arb_panes (ws_arb s)). \<forall>e \<in> set (po_events p). event_tracks gz s p e) \<and>
     (\<forall>k line. (k, line) \<in> set (ws_jobs s) \<longrightarrow> (\<exists>sid t. ws_admitted s k = Some (sid, t, line))) \<and>
     (\<forall>k \<in> dom (ws_admitted s). k < arb_next_ticket (ws_arb s)) \<and>
     fst ` set (ws_wire s) \<subseteq> dom (ws_admitted s) \<and>
     (\<forall>k \<in> set (ws_done s). done_intact gz s k) \<and>
     set (ws_done s) \<inter> set (tickets_of (arb_panes (ws_arb s))) = {}"

lemma session_invD:
  assumes "session_inv gz s"
  shows "arb_inv (ws_arb s)" "tickets_fresh (ws_arb s)"
    "p \<in> set (arb_panes (ws_arb s)) \<Longrightarrow> e \<in> set (po_events p) \<Longrightarrow> event_tracks gz s p e"
    "(k, line) \<in> set (ws_jobs s) \<Longrightarrow> \<exists>sid t. ws_admitted s k = Some (sid, t, line)"
    "k \<in> dom (ws_admitted s) \<Longrightarrow> k < arb_next_ticket (ws_arb s)"
    "fst ` set (ws_wire s) \<subseteq> dom (ws_admitted s)"
    "k \<in> set (ws_done s) \<Longrightarrow> done_intact gz s k"
    "set (ws_done s) \<inter> set (tickets_of (arb_panes (ws_arb s))) = {}"
  using assms unfolding session_inv_def by blast+

lemma sent_so_far_step:
  assumes "sent_so_far ch out off frames" "encode_next_terminal_chunk ch out off = Inr (frame, next, False)"
  shows "sent_so_far ch out next (frames @ [frame])"
  using assms frame_stream.simps [of ch out off] by (auto simp: sent_so_far_def)

lemma sent_so_far_last:
  assumes "sent_so_far ch out off frames" "encode_next_terminal_chunk ch out off = Inr (frame, next, True)"
  shows "frame_stream ch out 0 = Inr (frames @ [frame])"
  using assms frame_stream.simps [of ch out off] by (auto simp: sent_so_far_def)

lemma frames_of_fresh: "k \<notin> fst ` set wire \<Longrightarrow> frames_of k wire = []"
  by (force simp: frames_of_def filter_empty_conv)

text \<open>An event that a step does not touch still tracks, as long as its own record is unchanged.\<close>

lemma event_tracks_cong:
  assumes "event_tracks gz s p e" "po_session_id q = po_session_id p" "po_target q = po_target p"
    "ws_admitted s' (qo_ticket e) = ws_admitted s (qo_ticket e)"
    "frames_of (qo_ticket e) (ws_wire s') = frames_of (qo_ticket e) (ws_wire s)"
  shows "event_tracks gz s' q e"
  using assms by (simp add: event_tracks_def)

lemma event_tracks_ticket:
  "event_tracks gz s p e \<Longrightarrow> qo_ticket e \<in> dom (ws_admitted s)"
  by (auto simp: event_tracks_def)

lemma push_event_in:
  assumes "q \<in> set (push_event sid t ev ps)" "e \<in> set (po_events q)"
  shows "(\<exists>p \<in> set ps. e \<in> set (po_events p) \<and> po_session_id q = po_session_id p \<and> po_target q = po_target p) \<or>
         (e = ev \<and> po_session_id q = sid \<and> po_target q = t)"
  using assms by (induction ps) (auto split: if_splits)

lemma admit_keeps:
  assumes inv: "session_inv gz s" and wrap: "arb_next_ticket (ws_arb s) \<noteq> - 1"
    and enq: "enqueue_reserved sid sid_cap t line line_cap label (ws_arb s) = Inr (k, a)"
  shows "session_inv gz (s\<lparr>ws_arb := a, ws_admitted := (ws_admitted s)(k \<mapsto> (sid, t, line))\<rparr>)"
    (is "session_inv gz ?s'")
proof -
  let ?a = "ws_arb s"
  let ?ev = "admitted_event t line (max (line_cap + sid_cap) 1) label k"
  note ec = enqueue_cases [OF enq]
  have k1: "k \<notin> dom (ws_admitted s)" using session_invD(5) [OF inv] ec(1) by blast
  have k2: "k \<notin> fst ` set (ws_wire s)" using session_invD(6) [OF inv] k1 by blast
  have k3: "k \<notin> set (tickets_of (arb_panes ?a))"
    using session_invD(2) [OF inv] ec(1) by (auto simp: tickets_fresh_def)
  have k4: "k \<notin> set (ws_done s)" using session_invD(7) [OF inv] k1 by (auto simp: done_intact_def)
  note k = k1 k2 k3 k4
  have kn: "k < arb_next_ticket a"
    using next_ticket_less [OF wrap] ec(1) unfolding ec(4) by simp
  have tick: "qo_ticket ?ev = k" by (simp add: admitted_event_def)
  have old: "j < arb_next_ticket a" if "j < arb_next_ticket ?a" for j
    using that kn ec(1) by (metis less_trans)
  have panes: "arb_panes a = push_event sid t ?ev (arb_panes ?a)" unfolding ec(4) by simp
  have "arb_inv a" using session_invD(1) [OF inv] enq by (rule enqueue_inv)
  moreover have "tickets_fresh a"
    using session_invD(2) [OF inv] k3 kn old push_event_tickets(2) [of ?ev "arb_panes ?a"]
    unfolding tickets_fresh_def panes push_event_tickets(1) tick by auto
  moreover have "event_tracks gz ?s' q e" if q: "q \<in> set (arb_panes a)" "e \<in> set (po_events q)" for q e
    using push_event_in [OF q [unfolded panes]]
  proof
    assume "\<exists>p \<in> set (arb_panes ?a). e \<in> set (po_events p) \<and> po_session_id q = po_session_id p \<and>
      po_target q = po_target p"
    then obtain p where p: "p \<in> set (arb_panes ?a)" "e \<in> set (po_events p)"
      "po_session_id q = po_session_id p" "po_target q = po_target p" by blast
    then have tr: "event_tracks gz s p e" using session_invD(3) [OF inv] by blast
    then have "qo_ticket e \<noteq> k" using k(1) event_tracks_ticket by metis
    then show ?thesis by (intro event_tracks_cong [OF tr p(3,4)]) simp_all
  next
    assume "e = ?ev \<and> po_session_id q = sid \<and> po_target q = t"
    then show ?thesis
      using frames_of_fresh [OF k2]
      by (simp add: event_tracks_def admitted_event_def admission_state_def prepared_from_def
          sent_so_far_def split: terminal_encoding.splits)
  qed
  moreover have "done_intact gz ?s' j" if "j \<in> set (ws_done s)" for j
  proof -
    have "done_intact gz s j" "j \<noteq> k" using session_invD(7) [OF inv that] that k4 by blast+
    then show ?thesis by (simp add: done_intact_def)
  qed
  moreover have "\<exists>sid t. ws_admitted ?s' j = Some (sid, t, l)" if jl: "(j, l) \<in> set (ws_jobs s)" for j l
  proof -
    obtain sid' t' where "ws_admitted s j = Some (sid', t', l)" using session_invD(4) [OF inv jl] by blast
    then show ?thesis using k1 by (cases "j = k") auto
  qed
  moreover have "\<forall>j \<in> dom (ws_admitted ?s'). j < arb_next_ticket a"
    using session_invD(5) [OF inv] kn old by auto
  moreover have "fst ` set (ws_wire s) \<subseteq> dom (ws_admitted ?s')"
    using session_invD(6) [OF inv] by auto
  moreover have "set (ws_done s) \<inter> set (tickets_of (arb_panes a)) = {}"
    using session_invD(8) [OF inv] k4 unfolding panes push_event_tickets tick by blast
  ultimately show ?thesis unfolding session_inv_def by simp
qed

lemma set_head_state_fields [simp]:
  "po_session_id (set_head_state st p) = po_session_id p" "po_target (set_head_state st p) = po_target p"
  by (simp_all add: set_head_state_def split: list.splits)

lemma prepare_keeps:
  assumes inv: "session_inv gz s"
  shows "session_inv gz (s\<lparr>ws_arb := fst (start_preparations (ws_arb s)),
                          ws_jobs := ws_jobs s @ snd (start_preparations (ws_arb s))\<rparr>)"
    (is "session_inv gz ?s'")
proof -
  let ?a = "ws_arb s"
  have "event_tracks gz ?s' (fst (start_pane p)) e"
    if p: "p \<in> set (arb_panes ?a)" "e \<in> set (po_events (fst (start_pane p)))" for p e
  proof -
    have tr: "\<forall>e \<in> set (po_events p). event_tracks gz s p e" using inv p(1) by (auto simp: session_inv_def)
    show ?thesis
      using start_pane_eq [of p] tr p(2) by (auto simp: event_tracks_def set_head_state_def)
  qed
  moreover have "\<exists>sid t. ws_admitted s k = Some (sid, t, line)"
    if "p \<in> set (arb_panes ?a)" "(k, line) \<in> set (snd (start_pane p))" for p k line
    using start_pane_eq [of p] inv that by (fastforce simp: session_inv_def event_tracks_def)
  ultimately show ?thesis
    using inv start_preparations_inv [of ?a]
    unfolding session_inv_def start_preparations_def
    by (auto simp: tickets_fresh_def done_intact_def)
qed

lemma finish_keeps:
  assumes inv: "session_inv gz s" and job: "(k, line) \<in> set (ws_jobs s)"
    and fin: "finish_preparation k (prepare_terminal_line_with_cancel gz cancelled joined line) (ws_arb s) = Inr a"
  shows "session_inv gz (s\<lparr>ws_arb := a, ws_jobs := remove1 (k, line) (ws_jobs s)\<rparr>)" (is "session_inv gz ?s'")
proof -
  note i = session_invD [OF inv]
  have arb: "arb_inv a" using i(1) fin by (rule finish_preparation_inv)
  have jobs: "\<exists>sid t. ws_admitted s j = Some (sid, t, l)" if "(j, l) \<in> set (remove1 (k, line) (ws_jobs s))" for j l
    using that i(4) notin_set_remove1 by fastforce
  have rest: "session_inv gz ?s'"
    if "tickets_fresh a" "arb_next_ticket a = arb_next_ticket (ws_arb s)"
      "set (tickets_of (arb_panes a)) \<subseteq> set (tickets_of (arb_panes (ws_arb s)))"
      "\<And>p e. p \<in> set (arb_panes a) \<Longrightarrow> e \<in> set (po_events p) \<Longrightarrow> event_tracks gz ?s' p e"
    using that arb jobs i(5-8) by (auto simp: session_inv_def done_intact_def)
  show ?thesis
    using fin
  proof (cases rule: finish_cases)
    case (1 pre p suf e es c)
    have "event_tracks gz ?s' q e" if "q \<in> set pre \<union> set suf" "e \<in> set (po_events q)" for q e
      using i(3) [of q e] that 1(1) by (auto simp: event_tracks_def)
    then show ?thesis using i(2) 1(1,6) by (intro rest) (auto simp: tickets_fresh_def)
  next
    case (2 pre p suf e es c out)
    let ?p = "p\<lparr>po_events := e\<lparr>qo_state := Ready out 0\<rparr> # es\<rparr>"
    have others: "event_tracks gz ?s' q e" if "q \<in> set pre \<union> set suf" "e \<in> set (po_events q)" for q e
      using i(3) [of q e] that 2(1) by (auto simp: event_tracks_def)
    have tail: "event_tracks gz ?s' ?p e'" if "e' \<in> set es" for e'
      using i(3) [of p e'] that 2(1,2) by (auto simp: event_tracks_def)
    have "event_tracks gz s p e" using i(3) [of p e] 2(1,2) by simp
    moreover obtain sid t where "ws_admitted s k = Some (sid, t, line)" using i(4) [OF job] by blast
    moreover have "prepared_from gz line out" using 2(6) by (auto simp: prepared_from_def)
    ultimately have "event_tracks gz ?s' ?p (e\<lparr>qo_state := Ready out 0\<rparr>)"
      using 2(3,4) by (auto simp: event_tracks_def sent_so_far_def)
    with others tail show ?thesis
      using i(2) 2(1,2,7) by (intro rest) (auto simp: tickets_fresh_def)
  qed
qed

lemma retired_to_events:
  assumes "q \<in> set (retired_to live p)" "e \<in> set (po_events q)"
  shows "po_session_id q = po_session_id p \<and> po_target q = po_target p \<and>
    (e \<in> set (po_events p) \<or> (\<exists>e' c. e' \<in> set (po_events p) \<and> qo_state e' = Preparing c \<and>
       e = e'\<lparr>qo_state := Preparing True\<rparr>))"
proof (cases "po_retired p \<or> live (po_session_id p) = Some (po_target p)")
  case True
  with assms show ?thesis by (simp add: retired_to_def)
next
  case False
  with assms have hp: "head_preparing p" "q = retire_pane p"
    by (auto simp: retired_to_def split: if_splits)
  obtain e0 es c where "po_events p = e0 # es" "qo_state e0 = Preparing c"
    "retire_pane p = p\<lparr>po_retired := True, po_events := [e0\<lparr>qo_state := Preparing True\<rparr>]\<rparr>"
    using hp(1) by (rule retire_pane_preparing)
  with hp(2) assms(2) show ?thesis by auto
qed

lemma retire_keeps:
  assumes inv: "session_inv gz s"
  shows "session_inv gz (s\<lparr>ws_arb := retire_stale_targets live (ws_arb s)\<rparr>)" (is "session_inv gz ?s'")
proof -
  note i = session_invD [OF inv]
  let ?ps = "concat (map (retired_to live) (arb_panes (ws_arb s)))"
  have eq: "arb_panes (retire_stale_targets live (ws_arb s)) = ?ps"
    "arb_next_ticket (retire_stale_targets live (ws_arb s)) = arb_next_ticket (ws_arb s)"
    by (simp_all add: retire_stale_eq [OF i(1)])
  have "event_tracks gz ?s' q e" if q: "q \<in> set ?ps" "e \<in> set (po_events q)" for q e
  proof -
    obtain p where p: "p \<in> set (arb_panes (ws_arb s))" "q \<in> set (retired_to live p)" using q(1) by auto
    show ?thesis
      using retired_to_events [OF p(2) q(2)] i(3) [OF p(1)] by (fastforce simp: event_tracks_def)
  qed
  then show ?thesis
    using i retire_stale_inv [OF i(1), of live] retired_tickets [where live = live and ps = "arb_panes (ws_arb s)"]
    by (auto simp: session_inv_def eq tickets_fresh_def done_intact_def)
qed

lemma in_tickets_of: "e \<in> set (po_events q) \<Longrightarrow> q \<in> set ps \<Longrightarrow> qo_ticket e \<in> set (tickets_of ps)"
  by (auto simp: tickets_of_def)

lemma send_keeps:
  assumes inv: "session_inv gz s" and nx: "next_chunk (ws_arb s) active = Inr (Some c)"
    and com: "commit_chunk c (ws_arb s) = Inr (completed, a)"
  shows "session_inv gz (s\<lparr>ws_arb := a, ws_wire := ws_wire s @ [(pc_ticket c, pc_frame c)],
           ws_done := (if pc_completes_event c then ws_done s @ [pc_ticket c] else ws_done s)\<rparr>)"
    (is "session_inv gz ?s'")
proof -
  note i = session_invD [OF inv]
  have arb: "arb_inv a" using i(1) com by (rule commit_chunk_inv)
  have fresh: "tickets_fresh a" using i(2) com by (rule commit_tickets)
  have next_ticket: "arb_next_ticket a = arb_next_ticket (ws_arb s)" using com by (rule commit_cases)
  show ?thesis
    using i(2) nx com
  proof (cases rule: send_cases)
    case (1 pre p suf e es out off)
    let ?k = "pc_ticket c"
    note enc = 1(7)
    have dist: "distinct (tickets_of (pre @ p # suf))" using i(2) 1(1) by (simp add: tickets_fresh_def)
    have kin: "?k \<in> set (tickets_of (arb_panes (ws_arb s)))" using 1(1,4,5) by (simp flip: 1(5))
    have panes: "set (arb_panes a) = set pre \<union> set suf \<union> set (committed_pane c p)"
      using 1(9) by auto
    note ct = committed_pane_tickets [OF 1(4,6), of c]
    obtain line where line: "ws_admitted s ?k = Some (po_session_id p, po_target p, line)"
      "prepared_from gz line out" "sent_so_far (tgt_channel (po_target p)) out off (frames_of ?k (ws_wire s))"
      using i(3) [of p e] 1(1,4,5,6) by (auto simp: event_tracks_def)
    have unchanged: "event_tracks gz ?s' q e'"
      if "event_tracks gz s p' e'" "po_session_id q = po_session_id p'" "po_target q = po_target p'"
        "qo_ticket e' \<noteq> ?k" for p' q e'
      using that by (intro event_tracks_cong [OF that(1-3)]) simp_all
    have others: "event_tracks gz ?s' q e'" if "q \<in> set pre \<union> set suf" "e' \<in> set (po_events q)" for q e'
    proof (rule unchanged)
      show "event_tracks gz s q e'" using i(3) [of q e'] that 1(1) by auto
      show "qo_ticket e' \<noteq> ?k"
        using dist that(1) 1(4,5) in_tickets_of [OF that(2), of pre] in_tickets_of [OF that(2), of suf] by auto
    qed simp_all
    have tail: "event_tracks gz ?s' (p\<lparr>po_events := x\<rparr>) e'" if "e' \<in> set es" for e' x
    proof (rule unchanged)
      show "event_tracks gz s p e'" using i(3) [of p e'] that 1(1,4) by simp
      have "?k \<notin> set (map qo_ticket es)" using dist 1(4,5) by auto
      then show "qo_ticket e' \<noteq> ?k" using that by (metis image_eqI image_set)
    qed simp_all
    have kept: "event_tracks gz ?s' q e'" if "q \<in> set (committed_pane c p)" "e' \<in> set (po_events q)" for q e'
    proof (cases rule: committed_pane_cases [OF 1(4,6), of c])
      case 3
      let ?e = "e\<lparr>qo_state := Ready out (pc_next_offset c), qo_chunks_sent := qo_chunks_sent e + 1\<rparr>"
      have "sent_so_far (tgt_channel (po_target p)) out (pc_next_offset c)
          (frames_of ?k (ws_wire s) @ [pc_frame c])"
        using sent_so_far_step [OF line(3)] enc 3(1) by simp
      then have "event_tracks gz ?s' (p\<lparr>po_events := ?e # es\<rparr>) ?e"
        using line 1(5) by (simp add: event_tracks_def)
      then show ?thesis using that 3(2) tail by auto
    qed (use that tail in auto)
    have wire: "fst ` set (ws_wire ?s') \<subseteq> dom (ws_admitted ?s')" using i(6) line(1) by auto
    have "done_intact gz ?s' ?k" if "pc_completes_event c"
      using sent_so_far_last [OF line(3)] enc that line by (auto simp: done_intact_def)
    moreover have "done_intact gz ?s' j" if "j \<in> set (ws_done s)" for j
    proof -
      have "j \<noteq> ?k" using i(8) that kin by auto
      then show ?thesis using i(7) [OF that] by (simp add: done_intact_def)
    qed
    moreover have "?k \<notin> set (tickets_of (arb_panes a))" if "pc_completes_event c"
      using dist that ct 1(4,5,9) by auto
    moreover have "set (tickets_of (arb_panes a)) \<subseteq> set (tickets_of (arb_panes (ws_arb s)))"
      using ct 1(1,4,9) by auto
    ultimately have fin: "\<forall>j \<in> set (ws_done ?s'). done_intact gz ?s' j"
        "set (ws_done ?s') \<inter> set (tickets_of (arb_panes a)) = {}"
      using i(8) by (auto simp del: Int_iff)
    have "\<forall>q \<in> set (arb_panes a). \<forall>e' \<in> set (po_events q). event_tracks gz ?s' q e'"
      unfolding panes using others kept by blast
    moreover have "\<forall>j \<in> dom (ws_admitted s). j < arb_next_ticket a"
      unfolding next_ticket using i(5) by blast
    moreover have "\<forall>j l. (j, l) \<in> set (ws_jobs s) \<longrightarrow> (\<exists>sid t. ws_admitted s j = Some (sid, t, l))"
      using i(4) by blast
    ultimately show ?thesis
      using arb fresh wire fin unfolding session_inv_def by simp
  qed
qed

lemma forwarding_inv: "forwarding gz s \<Longrightarrow> session_inv gz s"
proof (induction rule: forwarding.induct)
  case start
  show ?case
    by (simp add: session_inv_def start_wire_session_def tickets_fresh_def arb_new_def arb_inv_limits)
       (simp add: arb_with_limits_def)
next
  case (send s active c completed a)
  then show ?case by (intro send_keeps)
qed (auto intro: admit_keeps prepare_keeps finish_keeps retire_keeps)

section \<open>Delivery\<close>

lemma prepared_stream_received:
  assumes "prepared_from gz line out" "inflates gz inflate" "frame_stream ch out 0 = Inr frames"
  shows "receive inflate ch frames = Some line"
proof (cases "out = Legacy line")
  case True
  then show ?thesis using assms(3) legacy_reaches_peer [of ch line inflate] by auto
next
  case False
  then obtain cancelled joined where
    prep: "prepare_terminal_line_with_cancel gz cancelled joined line = Inr out"
    using assms(1) by (auto simp: prepared_from_def)
  have g: "out = Gzip (gz_output gz line) (of_nat (length line))" "length line \<le> 16777216"
    using prepare_cases [OF prep] False by (auto simp: gzip_limits)
  have "\<not> length (gz_output gz line) * MAX_TERMINAL_CODEC_EXPANSION < length line"
    using over_expanded_refused [of "gz_output gz line" "of_nat (length line)" ch] assms(3) g by auto
  then show ?thesis
    using gzip_reaches_peer [OF prep False assms(2), of ch] assms(3) by auto
qed

text \<open>
  C10: whatever the interleaving of admissions, codec jobs, detaches, focus changes and sends, an
  event the arbiter reports complete has reached the peer intact: the frames that went out under its
  ticket, in the order they went out, are accepted by the receiver and give back the admitted line
  byte for byte. A session in which the codec fails, or an event cannot be encoded, ends with an
  error before it completes.\<close>

theorem completed_events_delivered_intact:
  assumes "forwarding gz s" "inflates gz inflate" "k \<in> set (ws_done s)"
  shows "\<exists>sid t line. ws_admitted s k = Some (sid, t, line) \<and>
           receive inflate (tgt_channel t) (frames_of k (ws_wire s)) = Some line"
  using session_invD(7) [OF forwarding_inv [OF assms(1)] assms(3)] prepared_stream_received assms(2)
  unfolding done_intact_def by blast

definition demo_wire :: wire_session where
  "demo_wire =
     (let a = snd (projr (enqueue_reserved ''A'' 1 (demo_target 1) [65] 1 ''Output'' arb_new));
          c = the (projr (next_chunk a (Some ''A'')))
      in \<lparr>ws_arb = snd (projr (commit_chunk c a)), ws_admitted = [1 \<mapsto> (''A'', demo_target 1, [65])],
          ws_jobs = [], ws_wire = [(1, pc_frame c)], ws_done = [1]\<rparr>)"

lemmas demo_wire_eval = next_chunk_def selected_index_def
  selected_as_active_def active_index_def fairness_index_def any_ready_index_def pane_ready_def
  head_ready_def commit_chunk_def head_ticket_is_def remove_at_def Let_def frame_encode_def
  OUTPUT_CHUNK_BYTES_def MAX_FRAME_PAYLOAD_def usize_max_def demo_target_def arb_new_def
  arb_with_limits_def DAEMON_OUTPUT_QUEUE_CAP_def DAEMON_OUTPUT_QUEUE_BYTE_CAP_def
  ACTIVE_PANE_BURST_CHUNKS_def enqueue_reserved_def enqueue_admission_def checked_add_usize_def
  admission_state_def

lemma demo_wire_forwarding: "forwarding gz demo_wire"
proof -
  define a where "a = snd (projr (enqueue_reserved ''A'' 1 (demo_target 1) [65] 1 ''Output'' arb_new))"
  define c where "c = the (projr (next_chunk a (Some ''A'')))"
  have enq: "enqueue_reserved ''A'' 1 (demo_target 1) [65] 1 ''Output'' arb_new = Inr (1, a)"
    unfolding a_def by (simp add: demo_wire_eval)
  have nx: "next_chunk a (Some ''A'') = Inr (Some c)"
    unfolding c_def a_def by (simp add: demo_wire_eval)
  have c: "pc_ticket c = 1" "pc_completes_event c"
    unfolding c_def a_def by (simp_all add: demo_wire_eval)
  obtain d where com: "commit_chunk c a = Inr (d, snd (projr (commit_chunk c a)))"
    unfolding c_def a_def by (simp add: demo_wire_eval)
  have "arb_next_ticket arb_new \<noteq> - 1" by (simp add: arb_new_def arb_with_limits_def)
  then have "forwarding gz (start_wire_session arb_new\<lparr>ws_arb := a,
      ws_admitted := (ws_admitted (start_wire_session arb_new))(1 \<mapsto> (''A'', demo_target 1, [65]))\<rparr>)"
    using enq by (intro forwarding.admit forwarding.start) (simp_all add: start_wire_session_def)
  from forwarding.send [OF this, of "Some ''A''" c d "snd (projr (commit_chunk c a))"] nx com c show ?thesis
    unfolding demo_wire_def a_def [symmetric] Let_def c_def [symmetric]
    by (simp add: start_wire_session_def)
qed

theorem completed_events_delivered_intact_witness:
  "\<exists>sid t line. ws_admitted demo_wire 1 = Some (sid, t, line) \<and>
     receive run_inflate (tgt_channel t) (frames_of 1 (ws_wire demo_wire)) = Some line"
  by (rule completed_events_delivered_intact [OF demo_wire_forwarding run_encoder_inflates])
     (simp add: demo_wire_def Let_def)

section \<open>Order\<close>

definition on_key :: "wire_session \<Rightarrow> string \<times> output_target \<Rightarrow> u64 \<Rightarrow> bool" where
  "on_key s key k \<longleftrightarrow> (\<exists>line. ws_admitted s k = Some (fst key, snd key, line))"

definition wire_tickets :: "wire_session \<Rightarrow> string \<times> output_target \<Rightarrow> u64 list" where
  "wire_tickets s key = filter (on_key s key) (map fst (ws_wire s))"

definition pane_ordered :: "wire_session \<Rightarrow> pane_output \<Rightarrow> bool" where
  "pane_ordered s p \<longleftrightarrow> (\<not> po_retired p \<longrightarrow>
     sorted_wrt (<) (map qo_ticket (po_events p)) \<and>
     (\<forall>k \<in> set (wire_tickets s (pane_key p)). \<forall>e \<in> set (po_events p). k \<le> qo_ticket e))"

definition order_inv :: "wire_session \<Rightarrow> bool" where
  "order_inv s \<longleftrightarrow> (\<forall>key. sorted (wire_tickets s key)) \<and> (\<forall>p \<in> set (arb_panes (ws_arb s)). pane_ordered s p)"

lemma push_event_ordered:
  assumes "\<forall>p \<in> set ps. pane_ordered s p" "\<forall>k \<in> set (tickets_of ps). k < qo_ticket ev"
    "\<forall>k \<in> set (wire_tickets s (sid, t)). k \<le> qo_ticket ev"
  shows "\<forall>p \<in> set (push_event sid t ev ps). pane_ordered s p"
  using assms
proof (induction ps)
  case Nil
  then show ?case by (simp add: pane_ordered_def pane_key_def)
next
  case (Cons p ps)
  show ?case
  proof (cases "\<not> po_retired p \<and> po_session_id p = sid \<and> po_target p = t")
    case True
    then have "pane_key p = (sid, t)" by (simp add: pane_key_def)
    with True Cons.prems show ?thesis by (auto simp: pane_ordered_def sorted_wrt_append)
  next
    case False
    with Cons show ?thesis by auto
  qed
qed

lemma wire_tickets_cong:
  assumes "ws_wire s' = ws_wire s" "\<And>k. k \<in> fst ` set (ws_wire s) \<Longrightarrow> ws_admitted s' k = ws_admitted s k"
  shows "wire_tickets s' key = wire_tickets s key"
  unfolding wire_tickets_def assms(1) using assms(2) by (intro filter_cong) (auto simp: on_key_def)

lemma wire_tickets_subset: "set (wire_tickets s key) \<subseteq> fst ` set (ws_wire s)"
  by (auto simp: wire_tickets_def)

lemma order_inv_same_wire:
  assumes "order_inv s" "ws_wire s' = ws_wire s" "ws_admitted s' = ws_admitted s"
    "\<And>q. q \<in> set (arb_panes (ws_arb s')) \<Longrightarrow> \<not> po_retired q \<Longrightarrow>
       \<exists>p \<in> set (arb_panes (ws_arb s)). \<not> po_retired p \<and> pane_key q = pane_key p \<and>
         map qo_ticket (po_events q) = map qo_ticket (po_events p)"
  shows "order_inv s'"
proof -
  have w: "wire_tickets s' key = wire_tickets s key" for key
    by (rule wire_tickets_cong) (simp_all add: assms(2,3))
  have "pane_ordered s' q" if q: "q \<in> set (arb_panes (ws_arb s'))" for q
  proof (cases "po_retired q")
    case False
    then obtain p where p: "p \<in> set (arb_panes (ws_arb s))" "\<not> po_retired p" "pane_key q = pane_key p"
      and m: "map qo_ticket (po_events q) = map qo_ticket (po_events p)"
      using assms(4) [OF q] by blast
    have "qo_ticket ` set (po_events q) = qo_ticket ` set (po_events p)"
      using m by (metis list.set_map)
    then have "\<forall>e \<in> set (po_events q). \<exists>e' \<in> set (po_events p). qo_ticket e = qo_ticket e'" by force
    moreover have "pane_ordered s p" using assms(1) p(1) by (simp add: order_inv_def)
    ultimately show ?thesis using p m by (fastforce simp: pane_ordered_def w)
  qed (simp add: pane_ordered_def)
  then show ?thesis using assms(1) by (simp add: order_inv_def w)
qed

lemma admit_ordered:
  assumes inv: "session_inv gz s" and ord: "order_inv s"
    and enq: "enqueue_reserved sid sid_cap t line line_cap label (ws_arb s) = Inr (k, a)"
  shows "order_inv (s\<lparr>ws_arb := a, ws_admitted := (ws_admitted s)(k \<mapsto> (sid, t, line))\<rparr>)"
    (is "order_inv ?s'")
proof -
  note i = session_invD [OF inv] and ec = enqueue_cases [OF enq]
  let ?ev = "admitted_event t line (max (line_cap + sid_cap) 1) label k"
  have tick: "qo_ticket ?ev = k" by (simp add: admitted_event_def)
  have below: "j < k" if "j \<in> fst ` set (ws_wire s)" for j
    using i(5,6) that ec(1) by blast
  have w: "wire_tickets ?s' key = wire_tickets s key" for key
    using below by (intro wire_tickets_cong) auto
  have "\<forall>p \<in> set (arb_panes (ws_arb s)). pane_ordered ?s' p"
    using ord by (simp add: order_inv_def pane_ordered_def w)
  moreover have "\<forall>j \<in> set (tickets_of (arb_panes (ws_arb s))). j < qo_ticket ?ev"
    using i(2) ec(1) unfolding tick tickets_fresh_def by blast
  moreover have "\<forall>j \<in> set (wire_tickets ?s' (sid, t)). j \<le> qo_ticket ?ev"
    unfolding w tick using below wire_tickets_subset [of s "(sid, t)"] by (blast intro: less_imp_le)
  ultimately have "\<forall>p \<in> set (push_event sid t ?ev (arb_panes (ws_arb s))). pane_ordered ?s' p"
    by (rule push_event_ordered)
  moreover have "arb_panes a = push_event sid t ?ev (arb_panes (ws_arb s))" unfolding ec(4) by simp
  ultimately have "\<forall>p \<in> set (arb_panes (ws_arb ?s')). pane_ordered ?s' p" by simp
  moreover have "\<forall>key. sorted (wire_tickets ?s' key)"
    using ord unfolding w order_inv_def by blast
  ultimately show ?thesis unfolding order_inv_def by blast
qed

lemma send_ordered:
  assumes inv: "session_inv gz s" and ord: "order_inv s" and nx: "next_chunk (ws_arb s) active = Inr (Some c)"
    and com: "commit_chunk c (ws_arb s) = Inr (completed, a)"
    and s': "s' = s\<lparr>ws_arb := a, ws_wire := ws_wire s @ [(pc_ticket c, pc_frame c)], ws_done := d\<rparr>"
  shows "order_inv s'"
proof -
  note i = session_invD [OF inv]
  show ?thesis
    using i(2) nx com
  proof (cases rule: send_cases)
    case (1 pre p suf e es out off)
    let ?k = "pc_ticket c"
    have p: "\<not> po_retired p" "pane_ordered s p"
      using 1(1,3) ord by (auto simp: pane_ready_def order_inv_def)
    have "event_tracks gz s p e" using i(3) [of p e] 1(1,4) by simp
    then have key: "on_key s key ?k \<longleftrightarrow> key = pane_key p" for key
      using 1(5) by (cases key) (auto simp: event_tracks_def on_key_def pane_key_def)
    have on: "on_key s' = on_key s" by (simp add: fun_eq_iff on_key_def s')
    have w: "wire_tickets s' key = wire_tickets s key @ (if key = pane_key p then [?k] else [])" for key
      unfolding wire_tickets_def on using key [of key] by (simp add: s')
    have le: "\<forall>j \<in> set (wire_tickets s (pane_key p)). j \<le> ?k"
      using p 1(4,5) by (simp add: pane_ordered_def)
    have srt: "sorted (wire_tickets s key)" for key using ord unfolding order_inv_def by blast
    have "sorted (wire_tickets s' key)" for key
      using srt [of key] le by (simp add: w sorted_append)
    moreover have "pane_ordered s' q" if q: "q \<in> set pre \<union> set suf" for q
    proof -
      have "\<not> po_retired q \<Longrightarrow> pane_key q \<noteq> pane_key p"
        using i(1) 1(1) p(1) q by (auto simp: arb_inv_def in_live_keys)
      moreover have "pane_ordered s q" using ord 1(1) q by (auto simp: order_inv_def)
      ultimately show ?thesis by (auto simp: pane_ordered_def w)
    qed
    moreover have "pane_ordered s' q" if q: "q \<in> set (committed_pane c p)" for q
      by (cases rule: committed_pane_cases [OF 1(4,6), of c])
         (use q p le 1(4,5) in \<open>auto simp: pane_ordered_def w intro: less_imp_le\<close>)
    ultimately show ?thesis
      using 1(9) by (auto simp: order_inv_def s')
  qed
qed

lemma forwarding_ordered: "forwarding gz s \<Longrightarrow> order_inv s"
proof (induction rule: forwarding.induct)
  case start
  show ?case by (simp add: order_inv_def wire_tickets_def start_wire_session_def arb_new_def arb_with_limits_def)
next
  case (admit s sid sid_cap t line line_cap label k a)
  then show ?case using admit_ordered [OF forwarding_inv] by blast
next
  case (prepare s)
  have "map qo_ticket (po_events (fst (start_pane p))) = map qo_ticket (po_events p)" for p
    using start_pane_eq [of p] by auto
  then show ?case
    by (intro order_inv_same_wire [OF prepare.IH]) (auto simp: start_preparations_def)
next
  case (finish s k line cancelled joined a)
  show ?case
    using finish.hyps(3)
    by (cases rule: finish_cases) (intro order_inv_same_wire [OF finish.IH]; fastforce)+
next
  case (retire s live)
  note arb = session_invD(1) [OF forwarding_inv [OF retire.hyps(1)]]
  show ?case
  proof (rule order_inv_same_wire [OF retire.IH])
    fix q
    assume "q \<in> set (arb_panes (ws_arb (s\<lparr>ws_arb := retire_stale_targets live (ws_arb s)\<rparr>)))" "\<not> po_retired q"
    then obtain p where "p \<in> set (arb_panes (ws_arb s))" "q \<in> set (retired_to live p)"
      by (auto simp: retire_stale_eq [OF arb])
    moreover from this have "q = p"
      using arb \<open>\<not> po_retired q\<close> by (intro retired_to_ok(3)) (auto simp: arb_inv_def)
    ultimately show "\<exists>p \<in> set (arb_panes (ws_arb s)). \<not> po_retired p \<and> pane_key q = pane_key p \<and>
         map qo_ticket (po_events q) = map qo_ticket (po_events p)"
      using \<open>\<not> po_retired q\<close> by blast
  qed simp_all
next
  case (send s active c completed a)
  then show ?case using send_ordered [OF forwarding_inv] by blast
qed

text \<open>
  C11: codec jobs and the burst policy never reorder a pane. Restricted to the events admitted for one
  session and attachment, the tickets on the wire never go back: all chunks of an earlier event
  precede every chunk of a later one, however the panes are interleaved.\<close>

theorem pane_output_in_admission_order:
  assumes "forwarding gz s"
  shows "sorted (wire_tickets s key)"
  using forwarding_ordered [OF assms] unfolding order_inv_def by blast

theorem pane_output_in_admission_order_witness:
  "sorted (wire_tickets demo_wire (''A'', demo_target 1)) \<and> wire_tickets demo_wire (''A'', demo_target 1) = [1]"
  using pane_output_in_admission_order [OF demo_wire_forwarding [of run_encoder]]
  by (simp add: wire_tickets_def on_key_def demo_wire_def Let_def)

section \<open>Stale attachments\<close>

lemma selected_pane:
  assumes "next_chunk a active = Inr (Some c)"
  obtains p out off where "p \<in> set (arb_panes a)" "pane_ready p" "head_ticket_is (pc_ticket c) p"
    "encode_next_terminal_chunk (tgt_channel (po_target p)) out off =
       Inr (pc_frame c, pc_next_offset c, pc_completes_event c)"
proof -
  obtain i where i: "selected_index a active = Some i"
    using assms by (auto simp: next_chunk_def split: option.splits)
  let ?p = "arb_panes a ! i"
  note sel = selected_ready [OF i]
  obtain e es out off where e: "po_events ?p = e # es" "qo_state e = Ready out off"
    using sel(2) by (rule pane_ready_head)
  show ?thesis
    using assms i e sel by (intro that [of ?p out off])
      (auto simp: next_chunk_def Let_def res_bind_eq_Inr head_ticket_is_def)
qed

text \<open>Every live pane belongs to a current attachment; joining codec jobs does not change that.\<close>

definition all_current :: "(string \<Rightarrow> output_target option) \<Rightarrow> arbiter \<Rightarrow> bool" where
  "all_current live a \<longleftrightarrow>
     (\<forall>p \<in> set (arb_panes a). \<not> po_retired p \<longrightarrow> live (po_session_id p) = Some (po_target p))"

lemma retire_current:
  assumes "arb_inv a"
  shows "all_current live (fst (start_preparations (retire_stale_targets live a)))"
proof -
  have "live (po_session_id q) = Some (po_target q)"
    if "q \<in> set (retired_to live p)" "\<not> po_retired q" for p q
    using that by (auto simp: retired_to_def retire_pane_def split: if_splits list.splits)
  moreover have "po_session_id (fst (start_pane p)) = po_session_id p \<and> po_target (fst (start_pane p)) = po_target p" for p
    using start_pane_eq [of p] by auto
  ultimately show ?thesis
    by (auto simp: all_current_def retire_stale_eq [OF assms] start_preparations_def)
qed

lemma finish_all_current: "all_current live a \<Longrightarrow> finish_all js a = Inr a' \<Longrightarrow> all_current live a'"
proof (induction js arbitrary: a)
  case (Cons j js)
  then obtain k prepared a1 where "j = Some (k, prepared)" "finish_preparation k prepared a = Inr a1"
    and rest: "finish_all js a1 = Inr a'"
    by (auto simp: res_bind_eq_Inr finish_codec_job_def split: option.splits)
  then have "all_current live a1"
    using Cons.prems(1) by (auto simp: all_current_def elim!: finish_cases)
  then show ?case using rest by (rule Cons.IH)
qed simp

lemma admit_all_inv: "arb_inv a \<Longrightarrow> admit_all rs a = Inr a' \<Longrightarrow> arb_inv a'"
  by (induction rs arbitrary: a)
     (auto simp: res_bind_eq_Inr enqueue_routed_daemon_output_def split: option.splits if_splits
       dest: enqueue_inv)

text \<open>
  C14: no frame is ever addressed to a stale attachment. In a round of the forwarder that puts a frame
  on the wire, whatever was admitted and whichever codec jobs ended in it, the frame decodes to one
  whose channel is that of a session attached right now, under the attachment table the round
  locked.\<close>

theorem frame_goes_to_current_attachment:
  assumes "arb_inv a" "forwarder_round outputs live active joined send a = Inr (a', jobs, Some c)"
  shows "\<exists>sid t f. live sid = Some t \<and> frame_decode (pc_frame c) = Inr f \<and> fr_channel f = tgt_channel t"
proof -
  obtain a0 a2 where r: "admit_all outputs a = Inr a0"
      "finish_all joined (fst (start_preparations (retire_stale_targets live a0))) = Inr a2"
      "next_chunk a2 active = Inr (Some c)"
    using assms(2) unfolding forwarder_round_def case_prod_unfold res_bind_eq_Inr
    by (force split: option.splits simp: res_bind_eq_Inr)
  have "all_current live a2"
    using finish_all_current [OF retire_current r(2)] admit_all_inv [OF assms(1) r(1)] by blast
  moreover obtain p out off where p: "p \<in> set (arb_panes a2)" "pane_ready p"
      "encode_next_terminal_chunk (tgt_channel (po_target p)) out off =
         Inr (pc_frame c, pc_next_offset c, pc_completes_event c)"
    using r(3) by (rule selected_pane)
  ultimately show ?thesis
    using encode_next_channel [OF p(3)] by (auto simp: all_current_def pane_ready_def)
qed

definition demo_output :: routed_output where
  "demo_output = \<lparr>ro_attachment = AttExact 1, ro_target = Some (demo_target 3), ro_session_id = ''C'',
     ro_session_cap = 1, ro_line = [69], ro_line_cap = 1, ro_label = ''Output''\<rparr>"

lemma demo_round:
  "\<exists>a' c. forwarder_round [demo_output] [''C'' \<mapsto> demo_target 3] (Some ''B'') [] (\<lambda>_. None) demo_arbiter
     = Inr (a', [], Some c)"
  by (simp add: forwarder_round_def demo_output_def enqueue_routed_daemon_output_def demo_arbiter_eq
      demo_event_def retire_stale_targets_def head_preparing_def start_preparations_def start_pane_def
      demo_wire_eval)

theorem frame_goes_to_current_attachment_witness:
  "\<exists>a' c sid t f. forwarder_round [demo_output] [''C'' \<mapsto> demo_target 3] (Some ''B'') [] (\<lambda>_. None)
       demo_arbiter = Inr (a', [], Some c) \<and>
     [''C'' \<mapsto> demo_target 3] sid = Some t \<and> frame_decode (pc_frame c) = Inr f \<and>
     fr_channel f = tgt_channel t"
proof -
  have inv: "arb_inv demo_arbiter"
    unfolding demo_arbiter_def by (intro forwarder.run_inv arb_inv_limits)
  obtain a' c where r: "forwarder_round [demo_output] [''C'' \<mapsto> demo_target 3] (Some ''B'') [] (\<lambda>_. None)
      demo_arbiter = Inr (a', [], Some c)"
    using demo_round by blast
  from frame_goes_to_current_attachment [OF inv r] r show ?thesis by blast
qed

end
