(* ===== verification/Winsize_Owner.thy ===== *)
theory Winsize_Owner
  imports Prelude "HOL-Library.List_Lexorder" "HOL-Library.Char_ord"
begin

text \<open>
  Who sizes each PTY (\<^verbatim>\<open>hydra-agent/src/winsize_owner.rs\<close>): the presence-driven ownership state
  machine with its reconnect grace, creation leases, deferred viewed attaches and local reclaims,
  and the serialized two-file publication of the result.

  \<^item> Time is the \<^verbatim>\<open>now_ms\<close> argument of the sources, a \<open>64 word\<close>; the saturating operations are
    written out.
  \<^item> Authority generations are the \<open>64 word\<close>s the allocator hands out, \<open>None\<close> once it is exhausted.
  \<^item> The \<^verbatim>\<open>HashSet\<close> of reclaimed sessions is a set, the \<^verbatim>\<open>BTreeMap\<close> of owned sessions an association
    list kept in the byte order of its keys.
  \<^item> A deferred attach token's weak reference is taken to be alive (the sources answer \<^verbatim>\<open>false\<close> when it
    is not). Publication works on the contents of the two files, with the outcome of each atomic
    write an argument.
\<close>

section \<open>State\<close>

definition GRACE_MS :: u64 where "GRACE_MS = 10000"
definition CREATION_LEASE_MS :: u64 where "CREATION_LEASE_MS = 45000"
definition MAX_TERMINAL_DIMENSION :: u16 where "MAX_TERMINAL_DIMENSION = 2000"

record viewport_geometry =
  vg_cols :: u16
  vg_rows :: u16
  vg_pixel_width :: u32
  vg_pixel_height :: u32

definition clamp_u16 :: "u16 \<Rightarrow> u16 \<Rightarrow> u16 \<Rightarrow> u16" where
  "clamp_u16 v lo hi = (if v < lo then lo else if hi < v then hi else v)"

text \<open>
  \<^verbatim>\<open>viewport_geometry\<close>: the products cannot saturate, since the clamped dimensions are at most 2000.
\<close>

definition viewport_geometry_of :: "u16 \<Rightarrow> u16 \<Rightarrow> viewport_geometry" where
  "viewport_geometry_of cols rows =
     (let c = clamp_u16 cols 1 MAX_TERMINAL_DIMENSION; r = clamp_u16 rows 1 MAX_TERMINAL_DIMENSION
      in \<lparr>vg_cols = c, vg_rows = r, vg_pixel_width = ucast c * 8, vg_pixel_height = ucast r * 16\<rparr>)"

record creation_lease =
  cl_connection_id :: string
  cl_session_id :: string
  cl_geometry :: viewport_geometry
  cl_expires_at_ms :: u64
  cl_authority_generation :: u64

record pending_viewed_attach =
  pv_connection_id :: string
  pv_session_id :: string
  pv_authority_generation :: u64
  pv_cols :: u16
  pv_rows :: u16
  pv_reclaimed_before_reservation :: bool

record deferred_resize_authority =
  da_connection_id :: string
  da_session_id :: string
  da_authority_generation :: u64

record remote_owned_viewport =
  rv_session_id :: string
  rv_geometry :: viewport_geometry
  rv_valid_until_ms :: "u64 option"
  rv_authority_generation :: u64

datatype owner_kind = OwnerLocal | OwnerRemote

record winsize_owner =
  wo_remote_selected :: "bool option"
  wo_viewed_session :: "string option"
  wo_viewed_connection_id :: "string option"
  wo_viewed_authority_generation :: "u64 option"
  wo_viewed_geometry :: "viewport_geometry option"
  wo_creation_leases :: "creation_lease list"
  wo_pending :: "pending_viewed_attach option"
  wo_next_authority_generation :: "u64 option"
  wo_local_reclaimed :: "string set"
  wo_serving :: nat
  wo_zero_since_ms :: "u64 option"
  wo_publication_dirty :: bool
  wo_published_effective :: "owner_kind option"
  wo_published_sessions :: "string list option"

definition new_owner :: winsize_owner where
  "new_owner = \<lparr>wo_remote_selected = None, wo_viewed_session = None, wo_viewed_connection_id = None,
     wo_viewed_authority_generation = None, wo_viewed_geometry = None, wo_creation_leases = [],
     wo_pending = None, wo_next_authority_generation = Some 1, wo_local_reclaimed = {}, wo_serving = 0,
     wo_zero_since_ms = Some 0, wo_publication_dirty = False, wo_published_effective = None,
     wo_published_sessions = None\<rparr>"

section \<open>Authority generations and deferred attaches\<close>

text \<open>\<open>None\<close> is \<^verbatim>\<open>AuthorityGenerationExhausted\<close>.\<close>

definition issue_authority_generation :: "winsize_owner \<Rightarrow> u64 option \<times> winsize_owner" where
  "issue_authority_generation o1 =
     (case wo_next_authority_generation o1 of
        None \<Rightarrow> (None, o1)
      | Some g \<Rightarrow> (Some g, o1\<lparr>wo_next_authority_generation := checked_add_u64 g 1\<rparr>))"

definition invalidate_pending_viewed_attach :: "winsize_owner \<Rightarrow> winsize_owner" where
  "invalidate_pending_viewed_attach o1 =
     (case wo_pending o1 of
        None \<Rightarrow> o1
      | Some p \<Rightarrow>
          o1\<lparr>wo_pending := None,
             wo_local_reclaimed := (if pv_reclaimed_before_reservation p
                                    then insert (pv_session_id p) (wo_local_reclaimed o1)
                                    else wo_local_reclaimed o1)\<rparr>)"

definition remote_resize_allowed :: "winsize_owner \<Rightarrow> string \<Rightarrow> string \<Rightarrow> bool \<Rightarrow> bool" where
  "remote_resize_allowed o1 connection_id session_id viewed \<longleftrightarrow>
     session_id \<notin> wo_local_reclaimed o1 \<or>
     (viewed \<and> (wo_viewed_session o1 \<noteq> Some session_id \<or> wo_viewed_connection_id o1 \<noteq> Some connection_id))"

definition reserve_viewed_attach_authority ::
    "string \<Rightarrow> string \<Rightarrow> u16 \<Rightarrow> u16 \<Rightarrow> winsize_owner \<Rightarrow> (unit + u64 option) \<times> winsize_owner" where
  "reserve_viewed_attach_authority connection_id session_id cols rows o0 =
     (case issue_authority_generation o0 of
        (None, o1) \<Rightarrow> (Inl (), o1)
      | (Some g, o1) \<Rightarrow>
          let o2 = invalidate_pending_viewed_attach o1 in
          if wo_remote_selected o2 = Some False \<or> \<not> remote_resize_allowed o2 connection_id session_id True
          then (Inr None, o2)
          else (Inr (Some g),
                o2\<lparr>wo_local_reclaimed := wo_local_reclaimed o2 - {session_id},
                   wo_pending := Some \<lparr>pv_connection_id = connection_id, pv_session_id = session_id,
                     pv_authority_generation = g, pv_cols = cols, pv_rows = rows,
                     pv_reclaimed_before_reservation = (session_id \<in> wo_local_reclaimed o2)\<rparr>\<rparr>))"

definition deferred_reserve ::
    "string \<Rightarrow> string \<Rightarrow> u16 \<Rightarrow> u16 \<Rightarrow> winsize_owner
     \<Rightarrow> (unit + deferred_resize_authority option) \<times> winsize_owner" where
  "deferred_reserve connection_id session_id cols rows o0 =
     (case reserve_viewed_attach_authority connection_id session_id cols rows o0 of
        (Inl e, o1) \<Rightarrow> (Inl e, o1)
      | (Inr None, o1) \<Rightarrow> (Inr None, o1)
      | (Inr (Some g), o1) \<Rightarrow>
          (Inr (Some \<lparr>da_connection_id = connection_id, da_session_id = session_id,
                     da_authority_generation = g\<rparr>), o1))"

definition pending_viewed_attach_matches :: "winsize_owner \<Rightarrow> deferred_resize_authority \<Rightarrow> bool" where
  "pending_viewed_attach_matches o1 token \<longleftrightarrow>
     (case wo_pending o1 of
        None \<Rightarrow> False
      | Some p \<Rightarrow> pv_connection_id p = da_connection_id token \<and> pv_session_id p = da_session_id token \<and>
          pv_authority_generation p = da_authority_generation token)"

definition update_pending_viewed_attach_geometry ::
    "deferred_resize_authority \<Rightarrow> u16 \<Rightarrow> u16 \<Rightarrow> winsize_owner \<Rightarrow> bool \<times> winsize_owner" where
  "update_pending_viewed_attach_geometry token cols rows o1 =
     (if \<not> pending_viewed_attach_matches o1 token then (False, o1)
      else (True, o1\<lparr>wo_pending := map_option (\<lambda>p. p\<lparr>pv_cols := cols, pv_rows := rows\<rparr>) (wo_pending o1)\<rparr>))"

definition cancel_viewed_attach_authority :: "deferred_resize_authority \<Rightarrow> winsize_owner \<Rightarrow> winsize_owner" where
  "cancel_viewed_attach_authority token o1 =
     (if pending_viewed_attach_matches o1 token then invalidate_pending_viewed_attach o1 else o1)"

definition drop_lease :: "string \<Rightarrow> string \<Rightarrow> creation_lease list \<Rightarrow> creation_lease list" where
  "drop_lease connection_id session_id =
     filter (\<lambda>l. cl_connection_id l \<noteq> connection_id \<or> cl_session_id l \<noteq> session_id)"

text \<open>\<open>published\<close> is what the caller's queuing closure answers at the exact Grid boundary.\<close>

definition publish_viewed_attach_resize ::
    "deferred_resize_authority \<Rightarrow> bool \<Rightarrow> winsize_owner \<Rightarrow> bool \<times> winsize_owner" where
  "publish_viewed_attach_resize token published o1 =
     (if \<not> pending_viewed_attach_matches o1 token then (False, o1)
      else if wo_remote_selected o1 = Some False \<or> da_session_id token \<in> wo_local_reclaimed o1 \<or>
              \<not> remote_resize_allowed o1 (da_connection_id token) (da_session_id token) True
      then (False, invalidate_pending_viewed_attach o1)
      else if \<not> published then (False, invalidate_pending_viewed_attach o1)
      else case wo_pending o1 of
        None \<Rightarrow> (False, o1)
      | Some p \<Rightarrow>
          (True, o1\<lparr>wo_pending := None,
             wo_creation_leases := drop_lease (pv_connection_id p) (pv_session_id p) (wo_creation_leases o1),
             wo_viewed_session := Some (pv_session_id p),
             wo_viewed_connection_id := Some (pv_connection_id p),
             wo_viewed_authority_generation := Some (pv_authority_generation p),
             wo_viewed_geometry := Some (viewport_geometry_of (pv_cols p) (pv_rows p)),
             wo_local_reclaimed := wo_local_reclaimed o1 - {pv_session_id p}\<rparr>))"

section \<open>Presence, overrides and leases\<close>

text \<open>
  The lease loop of \<^verbatim>\<open>refresh_live_authority_generations\<close>: \<open>None\<close> when the allocator runs out, where
  the sources clear every lease.
\<close>

fun refresh_leases ::
    "u64 \<Rightarrow> string set \<Rightarrow> u64 option \<Rightarrow> creation_lease list \<Rightarrow> creation_lease list option \<times> u64 option" where
  "refresh_leases now reclaimed nxt [] = (Some [], nxt)"
| "refresh_leases now reclaimed nxt (l # ls) =
     (if now < cl_expires_at_ms l \<and> cl_session_id l \<notin> reclaimed
      then case nxt of
        None \<Rightarrow> (None, None)
      | Some g \<Rightarrow>
          (case refresh_leases now reclaimed (checked_add_u64 g 1) ls of
             (None, n) \<Rightarrow> (None, n)
           | (Some ls', n) \<Rightarrow> (Some (l\<lparr>cl_authority_generation := g\<rparr> # ls'), n))
      else case refresh_leases now reclaimed nxt ls of
        (None, n) \<Rightarrow> (None, n)
      | (Some ls', n) \<Rightarrow> (Some (l # ls'), n))"

definition refresh_live_authority_generations :: "u64 \<Rightarrow> winsize_owner \<Rightarrow> winsize_owner" where
  "refresh_live_authority_generations now o0 =
     (let refresh_viewed = (case wo_viewed_session o0 of None \<Rightarrow> False | Some s \<Rightarrow> s \<notin> wo_local_reclaimed o0);
          o1 = (if refresh_viewed
                then case issue_authority_generation o0 of (g, o') \<Rightarrow> o'\<lparr>wo_viewed_authority_generation := g\<rparr>
                else o0)
      in case refresh_leases now (wo_local_reclaimed o1) (wo_next_authority_generation o1) (wo_creation_leases o1) of
           (None, n) \<Rightarrow> o1\<lparr>wo_creation_leases := [], wo_next_authority_generation := n\<rparr>
         | (Some ls, n) \<Rightarrow> o1\<lparr>wo_creation_leases := ls, wo_next_authority_generation := n\<rparr>)"

definition set_remote_selected :: "bool option \<Rightarrow> winsize_owner \<Rightarrow> bool \<times> winsize_owner" where
  "set_remote_selected selected o0 =
     (let previous = wo_remote_selected o0;
          selected_changed = (previous \<noteq> selected);
          o1 = (if selected_changed then invalidate_pending_viewed_attach o0 else o0);
          viewed_was_reclaimed =
            (case wo_viewed_session o1 of None \<Rightarrow> False | Some s \<Rightarrow> s \<in> wo_local_reclaimed o1);
          reexposes_viewed = (wo_viewed_session o1 \<noteq> None \<and>
            ((previous = Some False \<and> selected \<noteq> Some False \<and> \<not> viewed_was_reclaimed) \<or>
             (selected = Some True \<and> viewed_was_reclaimed)));
          o2 = o1\<lparr>wo_remote_selected := selected\<rparr>;
          leases_cleared = (selected = Some False \<and> wo_creation_leases o2 \<noteq> []);
          o3 = (if selected = Some False then o2\<lparr>wo_creation_leases := []\<rparr> else o2);
          reclaims_cleared = (selected = Some True \<and> wo_local_reclaimed o3 \<noteq> {});
          o4 = (if selected = Some True then o3\<lparr>wo_local_reclaimed := {}\<rparr> else o3);
          o5 = (if reexposes_viewed
                then case issue_authority_generation o4 of (g, o') \<Rightarrow> o'\<lparr>wo_viewed_authority_generation := g\<rparr>
                else o4)
      in (selected_changed \<or> leases_cleared \<or> reclaims_cleared, o5))"

definition note_remote_viewing_with_geometry ::
    "string \<Rightarrow> string \<Rightarrow> u16 \<Rightarrow> u16 \<Rightarrow> winsize_owner \<Rightarrow> bool \<times> winsize_owner" where
  "note_remote_viewing_with_geometry connection_id session_id cols rows o0 =
     (let o1 = invalidate_pending_viewed_attach o0;
          leases = drop_lease connection_id session_id (wo_creation_leases o1);
          lease_changed = (length leases \<noteq> length (wo_creation_leases o1));
          o2 = o1\<lparr>wo_creation_leases := leases\<rparr>;
          viewed_changed = (wo_viewed_session o2 \<noteq> Some session_id \<or>
                            wo_viewed_connection_id o2 \<noteq> Some connection_id);
          geometry = viewport_geometry_of cols rows;
          geometry_changed = (wo_viewed_geometry o2 \<noteq> Some geometry)
      in if viewed_changed
         then case issue_authority_generation o2 of
           (None, o3) \<Rightarrow> (lease_changed \<or> geometry_changed, o3\<lparr>wo_viewed_authority_generation := None\<rparr>)
         | (Some g, o3) \<Rightarrow>
             (True, o3\<lparr>wo_viewed_session := Some session_id, wo_viewed_connection_id := Some connection_id,
                       wo_viewed_authority_generation := Some g,
                       wo_local_reclaimed := wo_local_reclaimed o3 - {session_id},
                       wo_viewed_geometry := Some geometry\<rparr>)
         else (lease_changed \<or> geometry_changed, o2\<lparr>wo_viewed_geometry := Some geometry\<rparr>))"

definition note_remote_viewing :: "string \<Rightarrow> string \<Rightarrow> winsize_owner \<Rightarrow> bool \<times> winsize_owner" where
  "note_remote_viewing connection_id session_id =
     note_remote_viewing_with_geometry connection_id session_id 80 24"

definition note_remote_creation :: "string \<Rightarrow> string \<Rightarrow> u64 \<Rightarrow> winsize_owner \<Rightarrow> bool \<times> winsize_owner" where
  "note_remote_creation connection_id session_id now o0 =
     (let o1 = o0\<lparr>wo_creation_leases := filter (\<lambda>l. now < cl_expires_at_ms l) (wo_creation_leases o0)\<rparr>
      in if wo_remote_selected o1 = Some False \<or>
            (wo_viewed_session o1 = Some session_id \<and> wo_viewed_connection_id o1 = Some connection_id) \<or>
            (\<exists>l \<in> set (wo_creation_leases o1). cl_connection_id l = connection_id \<and> cl_session_id l = session_id)
         then (False, o1)
         else case issue_authority_generation o1 of
           (None, o2) \<Rightarrow> (False, o2)
         | (Some g, o2) \<Rightarrow>
             (True, o2\<lparr>wo_creation_leases := wo_creation_leases o2 @
                        [\<lparr>cl_connection_id = connection_id, cl_session_id = session_id,
                          cl_geometry = viewport_geometry_of 80 24,
                          cl_expires_at_ms = saturating_add_u64 now CREATION_LEASE_MS,
                          cl_authority_generation = g\<rparr>],
                       wo_local_reclaimed := wo_local_reclaimed o2 - {session_id}\<rparr>))"

definition clear_remote_creation :: "string \<Rightarrow> string \<Rightarrow> winsize_owner \<Rightarrow> bool \<times> winsize_owner" where
  "clear_remote_creation connection_id session_id o0 =
     (let leases = drop_lease connection_id session_id (wo_creation_leases o0)
      in (length leases \<noteq> length (wo_creation_leases o0), o0\<lparr>wo_creation_leases := leases\<rparr>))"

definition clear_remote_creations_for_connection :: "string \<Rightarrow> winsize_owner \<Rightarrow> bool \<times> winsize_owner" where
  "clear_remote_creations_for_connection connection_id o0 =
     (let leases = filter (\<lambda>l. cl_connection_id l \<noteq> connection_id) (wo_creation_leases o0)
      in (length leases \<noteq> length (wo_creation_leases o0), o0\<lparr>wo_creation_leases := leases\<rparr>))"

definition clear_remote_viewing :: "winsize_owner \<Rightarrow> bool \<times> winsize_owner" where
  "clear_remote_viewing o0 =
     (let o1 = invalidate_pending_viewed_attach o0
      in if wo_viewed_session o1 = None then (False, o1)
         else (True, o1\<lparr>wo_viewed_session := None, wo_viewed_connection_id := None,
                       wo_viewed_authority_generation := None, wo_viewed_geometry := None\<rparr>))"

definition reclaim_viewport :: "string \<Rightarrow> winsize_owner \<Rightarrow> bool \<times> winsize_owner" where
  "reclaim_viewport session_id o0 =
     (let o1 = (case wo_pending o0 of
                  None \<Rightarrow> o0
                | Some p \<Rightarrow> if pv_session_id p = session_id then invalidate_pending_viewed_attach o0 else o0);
          inserted = (session_id \<notin> wo_local_reclaimed o1);
          leases = filter (\<lambda>l. cl_session_id l \<noteq> session_id) (wo_creation_leases o1)
      in (inserted \<or> length leases \<noteq> length (wo_creation_leases o1),
          o1\<lparr>wo_local_reclaimed := insert session_id (wo_local_reclaimed o1), wo_creation_leases := leases\<rparr>))"

definition past_grace :: "winsize_owner \<Rightarrow> u64 \<Rightarrow> bool" where
  "past_grace o1 now \<longleftrightarrow>
     (case wo_zero_since_ms o1 of
        Some since \<Rightarrow> GRACE_MS \<le> saturating_sub_u64 now since
      | None \<Rightarrow> False)"

definition remote_present :: "winsize_owner \<Rightarrow> u64 \<Rightarrow> bool" where
  "remote_present o1 now \<longleftrightarrow> 0 < wo_serving o1 \<or> \<not> past_grace o1 now"

definition set_serving :: "nat \<Rightarrow> u64 \<Rightarrow> winsize_owner \<Rightarrow> winsize_owner" where
  "set_serving serving now o0 =
     (let was_zero = (wo_serving o0 = 0);
          is_zero = (serving = 0);
          o1 = (if was_zero \<and> \<not> is_zero \<and> past_grace o0 now \<and> wo_remote_selected o0 \<noteq> Some False
                then refresh_live_authority_generations now o0 else o0);
          o2 = o1\<lparr>wo_serving := serving\<rparr>
      in if is_zero \<and> wo_zero_since_ms o2 = None then o2\<lparr>wo_zero_since_ms := Some now\<rparr>
         else if \<not> is_zero then o2\<lparr>wo_zero_since_ms := None\<rparr>
         else o2)"

section \<open>The owned set\<close>

text \<open>
  \<^verbatim>\<open>entry(k).and_modify(f).or_insert(v)\<close> on a \<^verbatim>\<open>BTreeMap\<close> held as an association list in key order; an
  \<^verbatim>\<open>insert\<close> is the entry that overwrites.
\<close>

fun bt_entry :: "'k::linorder \<Rightarrow> ('v \<Rightarrow> 'v) \<Rightarrow> 'v \<Rightarrow> ('k \<times> 'v) list \<Rightarrow> ('k \<times> 'v) list" where
  "bt_entry k f v [] = [(k, v)]"
| "bt_entry k f v ((k', v') # kvs) =
     (if k < k' then (k, v) # (k', v') # kvs
      else if k = k' then (k', f v') # kvs
      else (k', v') # bt_entry k f v kvs)"

type_synonym owned_entry = "viewport_geometry \<times> u64 option \<times> u64"

definition presence_deadline :: "winsize_owner \<Rightarrow> u64 option" where
  "presence_deadline o1 =
     (if 0 < wo_serving o1 then None
      else map_option (\<lambda>since. saturating_add_u64 since GRACE_MS) (wo_zero_since_ms o1))"

definition viewed_owned :: "winsize_owner \<Rightarrow> (string \<times> owned_entry) list" where
  "viewed_owned o1 =
     (case (wo_viewed_session o1, wo_viewed_geometry o1, wo_viewed_authority_generation o1) of
        (Some s, Some geo, Some g) \<Rightarrow>
          if s \<notin> wo_local_reclaimed o1 then [(s, (geo, presence_deadline o1, g))] else []
      | _ \<Rightarrow> [])"

definition lease_deadline :: "winsize_owner \<Rightarrow> creation_lease \<Rightarrow> u64 option" where
  "lease_deadline o1 l =
     (case presence_deadline o1 of
        Some deadline \<Rightarrow> Some (min deadline (cl_expires_at_ms l))
      | None \<Rightarrow> Some (cl_expires_at_ms l))"

definition merge_deadline :: "u64 option \<Rightarrow> u64 option \<Rightarrow> u64 option" where
  "merge_deadline a b = (case (a, b) of (Some x, Some y) \<Rightarrow> Some (max x y) | _ \<Rightarrow> None)"

definition add_lease :: "winsize_owner \<Rightarrow> creation_lease \<Rightarrow> (string \<times> owned_entry) list \<Rightarrow> (string \<times> owned_entry) list" where
  "add_lease o1 l owned =
     (if cl_session_id l \<in> wo_local_reclaimed o1 then owned
      else bt_entry (cl_session_id l)
             (\<lambda>(geo, d, g). (geo, merge_deadline d (lease_deadline o1 l), max g (cl_authority_generation l)))
             (cl_geometry l, lease_deadline o1 l, cl_authority_generation l) owned)"

definition remote_owned_viewports :: "winsize_owner \<Rightarrow> u64 \<Rightarrow> remote_owned_viewport list" where
  "remote_owned_viewports o1 now =
     (if wo_remote_selected o1 = Some False then []
      else if \<not> remote_present o1 now then []
      else map (\<lambda>(s, geo, d, g). \<lparr>rv_session_id = s, rv_geometry = geo, rv_valid_until_ms = d,
                                rv_authority_generation = g\<rparr>)
             (fold (add_lease o1) (filter (\<lambda>l. now < cl_expires_at_ms l) (wo_creation_leases o1))
                (viewed_owned o1)))"

definition remote_owned_sessions :: "winsize_owner \<Rightarrow> u64 \<Rightarrow> string list" where
  "remote_owned_sessions o1 now = map rv_session_id (remote_owned_viewports o1 now)"

definition effective_owner :: "winsize_owner \<Rightarrow> u64 \<Rightarrow> owner_kind" where
  "effective_owner o1 now =
     (if remote_owned_sessions o1 now \<noteq> [] then OwnerRemote
      else if wo_remote_selected o1 = Some True \<and> remote_present o1 now then OwnerRemote
      else OwnerLocal)"

definition publication_needed :: "winsize_owner \<Rightarrow> u64 \<Rightarrow> bool" where
  "publication_needed o1 now \<longleftrightarrow>
     wo_publication_dirty o1 \<or> wo_published_effective o1 \<noteq> Some (effective_owner o1 now) \<or>
     wo_published_sessions o1 \<noteq> Some (remote_owned_sessions o1 now)"

section \<open>Publication\<close>

record owner_files =
  of_sessions :: "string list"
  of_effective :: owner_kind

text \<open>
  \<^verbatim>\<open>mutate_and_publish_owner\<close>: \<open>mutate\<close> is the closure's effect and whether it reports a change;
  \<open>sessions_ok\<close> and \<open>effective_ok\<close> the outcomes of the two atomic writes (a failed one leaves its file
  as it was, and the second is not attempted after a failed first).
\<close>

definition mutate_and_publish_owner ::
    "(winsize_owner \<Rightarrow> bool \<times> winsize_owner) \<Rightarrow> bool \<Rightarrow> u64 \<Rightarrow> bool \<Rightarrow> bool \<Rightarrow> winsize_owner \<times> owner_files
     \<Rightarrow> bool \<times> bool \<times> winsize_owner \<times> owner_files" where
  "mutate_and_publish_owner mutate force_publish now sessions_ok effective_ok st =
     (case st of (o0, files) \<Rightarrow>
      (case mutate o0 of (changed, o1) \<Rightarrow>
        let sessions = remote_owned_sessions o1 now;
            effective = effective_owner o1 now;
            snapshot_changed = (wo_published_effective o1 \<noteq> Some effective \<or>
                                wo_published_sessions o1 \<noteq> Some sessions)
        in if \<not> force_publish \<and> \<not> changed \<and> \<not> wo_publication_dirty o1 \<and> \<not> snapshot_changed
           then (changed, True, o1, files)
           else let o2 = o1\<lparr>wo_publication_dirty := True\<rparr> in
                if \<not> sessions_ok then (changed, False, o2, files)
                else let files1 = files\<lparr>of_sessions := sessions\<rparr> in
                     if \<not> effective_ok then (changed, False, o2, files1)
                     else (changed, True,
                           o2\<lparr>wo_publication_dirty := False, wo_published_effective := Some effective,
                              wo_published_sessions := Some sessions\<rparr>,
                           files1\<lparr>of_effective := effective\<rparr>)))"

definition publish_owner_state ::
    "u64 \<Rightarrow> bool \<Rightarrow> bool \<Rightarrow> winsize_owner \<times> owner_files \<Rightarrow> bool \<times> winsize_owner \<times> owner_files" where
  "publish_owner_state now sessions_ok effective_ok st =
     (case mutate_and_publish_owner (\<lambda>o1. (False, o1)) True now sessions_ok effective_ok st of
        (_, ok, st') \<Rightarrow> (ok, st'))"

text \<open>
  \<^verbatim>\<open>RemoteCreationLeasePublisher::reserve\<close>: \<open>w1\<close>, \<open>w2\<close> are the outcomes of the publication and \<open>w3\<close>, \<open>w4\<close>
  those of the rollback's. \<open>Inl\<close> is the I/O error; \<open>Inr True\<close> a guard that owns a new lease.
\<close>

definition lease_reserve ::
    "string \<Rightarrow> string \<Rightarrow> u64 \<Rightarrow> bool \<Rightarrow> bool \<Rightarrow> bool \<Rightarrow> bool \<Rightarrow> winsize_owner \<times> owner_files
     \<Rightarrow> (unit + bool) \<times> winsize_owner \<times> owner_files" where
  "lease_reserve connection_id session_id now w1 w2 w3 w4 st =
     (case mutate_and_publish_owner (note_remote_creation connection_id session_id now) False now w1 w2 st of
        (inserted, ok, st1) \<Rightarrow>
          if ok then (Inr inserted, st1)
          else if inserted
          then (case mutate_and_publish_owner (clear_remote_creation connection_id session_id) False now w3 w4 st1 of
                  (_, _, st2) \<Rightarrow> (Inl (), st2))
          else (Inl (), st1))"

definition lease_clear_connection ::
    "string \<Rightarrow> u64 \<Rightarrow> bool \<Rightarrow> bool \<Rightarrow> winsize_owner \<times> owner_files \<Rightarrow> bool \<times> winsize_owner \<times> owner_files" where
  "lease_clear_connection connection_id now w1 w2 st =
     (case mutate_and_publish_owner (clear_remote_creations_for_connection connection_id) False now w1 w2 st of
        (_, ok, st') \<Rightarrow> (ok, st'))"

text \<open>Dropping a guard: a committed guard, or one that inserted nothing, releases nothing.\<close>

definition lease_guard_drop ::
    "bool \<Rightarrow> bool \<Rightarrow> string \<Rightarrow> string \<Rightarrow> u64 \<Rightarrow> bool \<Rightarrow> bool \<Rightarrow> winsize_owner \<times> owner_files \<Rightarrow> winsize_owner \<times> owner_files" where
  "lease_guard_drop committed owns_lease connection_id session_id now w1 w2 st =
     (if committed \<or> \<not> owns_lease then st
      else case mutate_and_publish_owner (clear_remote_creation connection_id session_id) False now w1 w2 st of
        (_, _, st') \<Rightarrow> st')"

section \<open>What the owned set is\<close>

definition sorted_keys :: "('k::linorder \<times> 'v) list \<Rightarrow> bool" where
  "sorted_keys kvs \<longleftrightarrow> sorted_wrt (<) (map fst kvs)"

lemma bt_entry_keys: "fst ` set (bt_entry k f v kvs) = insert k (fst ` set kvs)"
  by (induction k f v kvs rule: bt_entry.induct) auto

lemma sorted_keys_bt_entry: "sorted_keys kvs \<Longrightarrow> sorted_keys (bt_entry k f v kvs)"
proof (induction k f v kvs rule: bt_entry.induct)
  case (2 k f v k' v' kvs)
  have "\<forall>x \<in> fst ` set (bt_entry k f v kvs). k' < x" if "\<not> k < k'" "k \<noteq> k'"
    using 2(2) that by (auto simp: bt_entry_keys sorted_keys_def)
  with 2 show ?case by (auto simp: sorted_keys_def)
qed (simp add: sorted_keys_def)

lemma map_of_bt_entry:
  "sorted_keys kvs \<Longrightarrow> map_of (bt_entry k f v kvs) =
     (map_of kvs)(k \<mapsto> (case map_of kvs k of None \<Rightarrow> v | Some v' \<Rightarrow> f v'))"
proof (induction k f v kvs rule: bt_entry.induct)
  case (2 k f v k' v' kvs)
  have "map_of kvs k = None" if "k < k'"
    using 2(2) that by (force simp: sorted_keys_def map_of_eq_None_iff)
  with 2 show ?case by (auto simp: sorted_keys_def fun_eq_iff)
qed simp

definition owned_map :: "winsize_owner \<Rightarrow> u64 \<Rightarrow> (string \<times> owned_entry) list" where
  "owned_map o1 now = fold (add_lease o1) (filter (\<lambda>l. now < cl_expires_at_ms l) (wo_creation_leases o1)) (viewed_owned o1)"

lemma viewed_owned_keys:
  "fst ` set (viewed_owned o1) = {s. wo_viewed_session o1 = Some s \<and> wo_viewed_geometry o1 \<noteq> None \<and>
     wo_viewed_authority_generation o1 \<noteq> None \<and> s \<notin> wo_local_reclaimed o1}"
  "sorted_keys (viewed_owned o1)"
  by (cases "wo_viewed_session o1"; cases "wo_viewed_geometry o1"; cases "wo_viewed_authority_generation o1";
      auto simp: viewed_owned_def sorted_keys_def)+

lemma fold_add_lease:
  "sorted_keys owned \<Longrightarrow>
     sorted_keys (fold (add_lease o1) ls owned) \<and>
     fst ` set (fold (add_lease o1) ls owned) =
       fst ` set owned \<union> (cl_session_id ` set ls - wo_local_reclaimed o1)"
proof (induction ls arbitrary: owned)
  case (Cons l ls)
  have "sorted_keys (add_lease o1 l owned)"
    using Cons.prems by (simp add: add_lease_def sorted_keys_bt_entry)
  from Cons.IH [OF this] show ?case by (auto simp: add_lease_def bt_entry_keys)
qed simp

lemma owned_map_keys:
  "sorted_keys (owned_map o1 now)"
  "fst ` set (owned_map o1 now) =
     {s. s \<notin> wo_local_reclaimed o1 \<and>
         (wo_viewed_session o1 = Some s \<and> wo_viewed_geometry o1 \<noteq> None \<and> wo_viewed_authority_generation o1 \<noteq> None \<or>
          (\<exists>l \<in> set (wo_creation_leases o1). cl_session_id l = s \<and> now < cl_expires_at_ms l))}"
  using fold_add_lease [OF viewed_owned_keys(2), where ls = "filter (\<lambda>l. now < cl_expires_at_ms l) (wo_creation_leases o1)"]
  by (auto simp: owned_map_def viewed_owned_keys(1))

lemma remote_owned_viewports_map:
  "remote_owned_viewports o1 now =
     (if wo_remote_selected o1 = Some False \<or> \<not> remote_present o1 now then []
      else map (\<lambda>(s, geo, d, g). \<lparr>rv_session_id = s, rv_geometry = geo, rv_valid_until_ms = d,
                                rv_authority_generation = g\<rparr>) (owned_map o1 now))"
  by (simp add: remote_owned_viewports_def owned_map_def)

lemma remote_owned_sessions_keys:
  "remote_owned_sessions o1 now =
     (if wo_remote_selected o1 = Some False \<or> \<not> remote_present o1 now then [] else map fst (owned_map o1 now))"
  by (auto simp: remote_owned_sessions_def remote_owned_viewports_map)

text \<open>
  the remote owns exactly the sessions the presence rules give it. The owned list is in strict
  byte order without duplicates, and a session is in it if and only if local sizing is not forced, a
  remote is connected or within its reconnect grace, the user has not reclaimed the session, and it
  is either the viewed pane of a claim that still holds its authority or covered by an unexpired
  creation lease.\<close>

theorem owned_sessions_exact:
  "sorted_wrt (<) (remote_owned_sessions o1 now) \<and>
   (s \<in> set (remote_owned_sessions o1 now) \<longleftrightarrow>
      wo_remote_selected o1 \<noteq> Some False \<and> remote_present o1 now \<and> s \<notin> wo_local_reclaimed o1 \<and>
      (wo_viewed_session o1 = Some s \<and> wo_viewed_geometry o1 \<noteq> None \<and> wo_viewed_authority_generation o1 \<noteq> None \<or>
       (\<exists>l \<in> set (wo_creation_leases o1). cl_session_id l = s \<and> now < cl_expires_at_ms l)))"
proof -
  have "s \<in> set (map fst (owned_map o1 now)) \<longleftrightarrow> s \<in> fst ` set (owned_map o1 now)" by simp
  then show ?thesis
    using owned_map_keys(1) [of o1 now, unfolded sorted_keys_def]
    by (auto simp: remote_owned_sessions_keys owned_map_keys(2))
qed

section \<open>How long ownership can last\<close>

text \<open>
  What an entry may claim: no deadline only for the viewed pane of a connected remote, otherwise a
  deadline within the reconnect grace and, for a session held by creation leases alone, within one
  of its leases.
\<close>

definition entry_bounded :: "winsize_owner \<Rightarrow> string \<Rightarrow> u64 option \<Rightarrow> bool" where
  "entry_bounded o1 s d \<longleftrightarrow>
     (case d of
        None \<Rightarrow> 0 < wo_serving o1 \<and> wo_viewed_session o1 = Some s
      | Some x \<Rightarrow>
          (\<forall>deadline. presence_deadline o1 = Some deadline \<longrightarrow> x \<le> deadline) \<and>
          (wo_viewed_session o1 \<noteq> Some s \<longrightarrow>
             (\<exists>l \<in> set (wo_creation_leases o1). cl_session_id l = s \<and> x \<le> cl_expires_at_ms l)))"

lemma entry_bounded_lease:
  assumes "l \<in> set (wo_creation_leases o1)" "cl_session_id l = s"
  shows "entry_bounded o1 s (lease_deadline o1 l)"
  using assms by (force simp: entry_bounded_def lease_deadline_def split: option.splits)

lemma entry_bounded_merge:
  assumes "entry_bounded o1 s d" "entry_bounded o1 s (Some x)"
  shows "entry_bounded o1 s (merge_deadline d (Some x))"
  using assms by (cases d) (auto simp: entry_bounded_def merge_deadline_def max_def)

lemma lease_deadline_Some: "\<exists>x. lease_deadline o1 l = Some x"
  by (simp add: lease_deadline_def split: option.splits)

lemma add_lease_bounded:
  assumes "sorted_keys owned" "\<And>s geo d g. map_of owned s = Some (geo, d, g) \<Longrightarrow> entry_bounded o1 s d"
    and l: "l \<in> set (wo_creation_leases o1)" and m: "map_of (add_lease o1 l owned) s = Some (geo, d, g)"
  shows "entry_bounded o1 s d"
proof (cases "cl_session_id l \<notin> wo_local_reclaimed o1 \<and> s = cl_session_id l")
  case True
  obtain x where x: "lease_deadline o1 l = Some x" using lease_deadline_Some by blast
  have eb: "entry_bounded o1 s (Some x)" using entry_bounded_lease [OF l, of s] True x by simp
  show ?thesis
  proof (cases "map_of owned s")
    case None
    with m True x eb assms(1) show ?thesis by (simp add: add_lease_def map_of_bt_entry)
  next
    case (Some e)
    obtain geo' d' g' where e: "e = (geo', d', g')" by (cases e) auto
    have "d = merge_deadline d' (Some x)"
      using m True x Some e assms(1) by (simp add: add_lease_def map_of_bt_entry)
    then show ?thesis using entry_bounded_merge [OF _ eb] assms(2) Some e by metis
  qed
next
  case False
  then have "map_of owned s = Some (geo, d, g)"
    using m assms(1) by (auto simp: add_lease_def map_of_bt_entry split: if_splits)
  then show ?thesis by (rule assms(2))
qed

lemma fold_entries_bounded:
  assumes "sorted_keys owned" "\<And>s geo d g. map_of owned s = Some (geo, d, g) \<Longrightarrow> entry_bounded o1 s d"
    and "set ls \<subseteq> set (wo_creation_leases o1)" "map_of (fold (add_lease o1) ls owned) s = Some (geo, d, g)"
  shows "entry_bounded o1 s d"
  using assms
proof (induction ls arbitrary: owned)
  case (Cons l ls)
  have "sorted_keys (add_lease o1 l owned)"
    using Cons.prems(1) by (simp add: add_lease_def sorted_keys_bt_entry)
  then show ?case
  proof (rule Cons.IH)
    show "entry_bounded o1 s d" if "map_of (add_lease o1 l owned) s = Some (geo, d, g)" for s geo d g
    proof -
      have l: "l \<in> set (wo_creation_leases o1)" using Cons.prems(3) by simp
      show ?thesis
        by (rule add_lease_bounded [OF Cons.prems(1) _ l that]) (erule Cons.prems(2))
    qed
  qed (use Cons.prems(3,4) in simp_all)
qed auto

section \<open>The invariant of the state machine\<close>

text \<open>
  Authority generations are handed out in increasing order: every generation in use is below the
  allocator's next one, and no two claims share one. The disconnect stamp is set exactly while no
  peer is connected.
\<close>

definition live_generations :: "winsize_owner \<Rightarrow> u64 list" where
  "live_generations o1 =
     (case wo_viewed_authority_generation o1 of None \<Rightarrow> [] | Some g \<Rightarrow> [g]) @
     (case wo_pending o1 of None \<Rightarrow> [] | Some p \<Rightarrow> [pv_authority_generation p]) @
     map cl_authority_generation (wo_creation_leases o1)"

definition below_next :: "u64 option \<Rightarrow> u64 \<Rightarrow> bool" where
  "below_next n g \<longleftrightarrow> (case n of None \<Rightarrow> True | Some x \<Rightarrow> g < x)"

definition issued :: "winsize_owner \<Rightarrow> u64 \<Rightarrow> bool" where
  "issued o1 g \<longleftrightarrow> below_next (wo_next_authority_generation o1) g"

definition owner_inv :: "winsize_owner \<Rightarrow> bool" where
  "owner_inv o1 \<longleftrightarrow> distinct (live_generations o1) \<and> list_all (issued o1) (live_generations o1) \<and>
     (wo_serving o1 = 0 \<longleftrightarrow> wo_zero_since_ms o1 \<noteq> None)"

text \<open>The operations of the owner, as one step function over their arguments.\<close>

datatype owner_op =
    Reserve string string u16 u16
  | Cancel deferred_resize_authority
  | UpdateGeometry deferred_resize_authority u16 u16
  | PublishResize deferred_resize_authority bool
  | Select "bool option"
  | Viewing string string u16 u16
  | Creation string string u64
  | ClearCreation string string
  | ClearConnection string
  | ClearViewing
  | Reclaim string
  | Serving nat u64

fun owner_step :: "winsize_owner \<Rightarrow> owner_op \<Rightarrow> winsize_owner" where
  "owner_step o1 (Reserve c s cols rows) = snd (deferred_reserve c s cols rows o1)"
| "owner_step o1 (Cancel tok) = cancel_viewed_attach_authority tok o1"
| "owner_step o1 (UpdateGeometry tok cols rows) = snd (update_pending_viewed_attach_geometry tok cols rows o1)"
| "owner_step o1 (PublishResize tok ok) = snd (publish_viewed_attach_resize tok ok o1)"
| "owner_step o1 (Select sel) = snd (set_remote_selected sel o1)"
| "owner_step o1 (Viewing c s cols rows) = snd (note_remote_viewing_with_geometry c s cols rows o1)"
| "owner_step o1 (Creation c s now) = snd (note_remote_creation c s now o1)"
| "owner_step o1 (ClearCreation c s) = snd (clear_remote_creation c s o1)"
| "owner_step o1 (ClearConnection c) = snd (clear_remote_creations_for_connection c o1)"
| "owner_step o1 ClearViewing = snd (clear_remote_viewing o1)"
| "owner_step o1 (Reclaim s) = snd (reclaim_viewport s o1)"
| "owner_step o1 (Serving n now) = set_serving n now o1"

text \<open>Handing out a generation: it was not in use before, and everything in use stays issued.\<close>

lemma issue_cases:
  obtains "issue_authority_generation o1 = (None, o1)" "wo_next_authority_generation o1 = None"
  | g where "issue_authority_generation o1 = (Some g, o1\<lparr>wo_next_authority_generation := checked_add_u64 g 1\<rparr>)"
      "wo_next_authority_generation o1 = Some g"
  by (cases "wo_next_authority_generation o1") (auto simp: issue_authority_generation_def)

lemma below_next_None [simp]: "below_next None g"
  by (simp add: below_next_def)

lemma below_next_Some:
  "below_next (checked_add_u64 g 1) g" "\<not> below_next (Some g) g"
  "below_next (Some g) h \<Longrightarrow> below_next (checked_add_u64 g 1) h"
proof -
  have "g < x \<and> (h < g \<longrightarrow> h < x)" if "checked_add_u64 g 1 = Some x" for x h
    using that by (auto simp: checked_add_u64_one word_less_nat_alt)
  then show "below_next (checked_add_u64 g 1) g" "\<not> below_next (Some g) g"
    "below_next (Some g) h \<Longrightarrow> below_next (checked_add_u64 g 1) h"
    by (auto simp: below_next_def split: option.splits)
qed

lemma issued_next:
  assumes "wo_next_authority_generation o1 = Some g" "wo_next_authority_generation o2 = checked_add_u64 g 1"
  shows "issued o2 g" "issued o1 h \<Longrightarrow> issued o2 h" "\<not> issued o1 g"
  using assms below_next_Some [of g] by (simp_all add: issued_def)

text \<open>
  The shape every operation's effect on the generations has: nothing that was issued is forgotten,
  and a generation in use afterwards was in use before or is new.
\<close>

definition gen_step :: "winsize_owner \<Rightarrow> winsize_owner \<Rightarrow> bool" where
  "gen_step o1 o2 \<longleftrightarrow>
     (\<forall>g. issued o1 g \<longrightarrow> issued o2 g) \<and> (distinct (live_generations o1) \<longrightarrow> distinct (live_generations o2)) \<and>
     (\<forall>g \<in> set (live_generations o2). g \<in> set (live_generations o1) \<or> \<not> issued o1 g \<and> issued o2 g)"

lemma gen_step_refl [simp]: "gen_step o1 o1"
  by (simp add: gen_step_def)

lemma gen_step_trans: "gen_step o1 o2 \<Longrightarrow> gen_step o2 o3 \<Longrightarrow> gen_step o1 o3"
  unfolding gen_step_def by blast

lemma gen_step_inv:
  assumes "gen_step o1 o2" "owner_inv o1" "wo_serving o2 = 0 \<longleftrightarrow> wo_zero_since_ms o2 \<noteq> None"
  shows "owner_inv o2"
  using assms by (auto simp: gen_step_def owner_inv_def list_all_iff)

text \<open>Dropping claims, and changing anything but the claims and the allocator.\<close>

lemma gen_step_drop:
  assumes "wo_next_authority_generation o2 = wo_next_authority_generation o1"
    "wo_viewed_authority_generation o2 \<in> {None, wo_viewed_authority_generation o1}"
    "map_option pv_authority_generation (wo_pending o2) \<in> {None, map_option pv_authority_generation (wo_pending o1)}"
    "\<exists>P. wo_creation_leases o2 = filter P (wo_creation_leases o1)"
  shows "gen_step o1 o2"
proof -
  obtain P where P: "wo_creation_leases o2 = filter P (wo_creation_leases o1)" using assms(4) by blast
  have i: "issued o2 g \<longleftrightarrow> issued o1 g" for g using assms(1) by (simp add: issued_def)
  have p: "wo_pending o2 = None \<or> (\<exists>p q. wo_pending o2 = Some p \<and> wo_pending o1 = Some q \<and>
      pv_authority_generation p = pv_authority_generation q)"
    using assms(3) by (cases "wo_pending o2"; cases "wo_pending o1") auto
  show ?thesis
    using assms(2) p by (auto simp: gen_step_def i live_generations_def P distinct_map_filter
        split: option.splits)
qed

lemma filter_id: "\<exists>P. xs = filter P xs"
  by (rule exI [of _ "\<lambda>_. True"]) simp

lemma gen_step_invalidate: "gen_step o1 (invalidate_pending_viewed_attach o1)"
  by (rule gen_step_drop) (auto simp: invalidate_pending_viewed_attach_def filter_id split: option.splits)

lemma invalidate_simps [simp]:
  "wo_pending (invalidate_pending_viewed_attach o1) = None"
  "wo_serving (invalidate_pending_viewed_attach o1) = wo_serving o1"
  "wo_zero_since_ms (invalidate_pending_viewed_attach o1) = wo_zero_since_ms o1"
  "wo_next_authority_generation (invalidate_pending_viewed_attach o1) = wo_next_authority_generation o1"
  "wo_viewed_session (invalidate_pending_viewed_attach o1) = wo_viewed_session o1"
  "wo_viewed_connection_id (invalidate_pending_viewed_attach o1) = wo_viewed_connection_id o1"
  "wo_viewed_authority_generation (invalidate_pending_viewed_attach o1) = wo_viewed_authority_generation o1"
  "wo_viewed_geometry (invalidate_pending_viewed_attach o1) = wo_viewed_geometry o1"
  "wo_creation_leases (invalidate_pending_viewed_attach o1) = wo_creation_leases o1"
  "wo_remote_selected (invalidate_pending_viewed_attach o1) = wo_remote_selected o1"
  "wo_publication_dirty (invalidate_pending_viewed_attach o1) = wo_publication_dirty o1"
  "wo_published_effective (invalidate_pending_viewed_attach o1) = wo_published_effective o1"
  "wo_published_sessions (invalidate_pending_viewed_attach o1) = wo_published_sessions o1"
  by (auto simp: invalidate_pending_viewed_attach_def split: option.splits)

lemma invalidate_reclaimed:
  "wo_local_reclaimed o1 \<subseteq> wo_local_reclaimed (invalidate_pending_viewed_attach o1)"
  by (auto simp: invalidate_pending_viewed_attach_def split: option.splits)

text \<open>Giving a fresh generation to the viewed claim, to a pending attach, or to a new lease.\<close>

lemma gen_step_viewed:
  assumes "wo_next_authority_generation o1 = Some g" "wo_next_authority_generation o2 = checked_add_u64 g 1"
    "wo_viewed_authority_generation o2 = Some g" "wo_pending o2 = wo_pending o1"
    "wo_creation_leases o2 = wo_creation_leases o1" "list_all (issued o1) (live_generations o1)"
  shows "gen_step o1 o2"
  using assms(3-6) issued_next [OF assms(1,2)]
  by (auto simp: gen_step_def live_generations_def list_all_iff split: option.splits)

lemma gen_step_pending:
  assumes "wo_next_authority_generation o1 = Some g" "wo_next_authority_generation o2 = checked_add_u64 g 1"
    "wo_pending o2 = Some p" "pv_authority_generation p = g"
    "wo_viewed_authority_generation o2 = wo_viewed_authority_generation o1"
    "wo_creation_leases o2 = wo_creation_leases o1" "list_all (issued o1) (live_generations o1)"
  shows "gen_step o1 o2"
  using assms(3-7) issued_next [OF assms(1,2)]
  by (auto simp: gen_step_def live_generations_def list_all_iff split: option.splits)

lemma gen_step_lease:
  assumes "wo_next_authority_generation o1 = Some g" "wo_next_authority_generation o2 = checked_add_u64 g 1"
    "wo_creation_leases o2 = wo_creation_leases o1 @ [l]" "cl_authority_generation l = g"
    "wo_viewed_authority_generation o2 = wo_viewed_authority_generation o1"
    "wo_pending o2 = wo_pending o1" "list_all (issued o1) (live_generations o1)"
  shows "gen_step o1 o2"
  using assms(3-7) issued_next [OF assms(1,2)]
  by (auto simp: gen_step_def live_generations_def list_all_iff split: option.splits)

lemma gen_step_issued: "gen_step o1 o2 \<Longrightarrow> list_all (issued o1) (live_generations o1) \<Longrightarrow>
    list_all (issued o2) (live_generations o2)"
  by (auto simp: gen_step_def list_all_iff)

text \<open>Every operation has this shape.\<close>

lemma gen_step_reserve:
  assumes "list_all (issued o0) (live_generations o0)"
  shows "gen_step o0 (snd (deferred_reserve c s cols rows o0))"
proof (cases rule: issue_cases [of o0])
  case 1
  then show ?thesis by (simp add: deferred_reserve_def reserve_viewed_attach_authority_def)
next
  case (2 g)
  let ?o1 = "o0\<lparr>wo_next_authority_generation := checked_add_u64 g 1\<rparr>"
  let ?o2 = "invalidate_pending_viewed_attach ?o1"
  have refused: "gen_step o0 ?o2"
    using assms issued_next [OF 2(2), of ?o2]
    by (auto simp: gen_step_def live_generations_def list_all_iff split: option.splits)
  show ?thesis
  proof (cases "wo_remote_selected ?o2 = Some False \<or> \<not> remote_resize_allowed ?o2 c s True")
    case True
    with 2 refused show ?thesis by (simp add: deferred_reserve_def reserve_viewed_attach_authority_def Let_def)
  next
    case False
    then have "snd (deferred_reserve c s cols rows o0) =
        ?o2\<lparr>wo_local_reclaimed := wo_local_reclaimed ?o2 - {s},
           wo_pending := Some \<lparr>pv_connection_id = c, pv_session_id = s,
             pv_authority_generation = g, pv_cols = cols, pv_rows = rows,
             pv_reclaimed_before_reservation = (s \<in> wo_local_reclaimed ?o2)\<rparr>\<rparr>"
      using 2 by (simp add: deferred_reserve_def reserve_viewed_attach_authority_def Let_def)
    then show ?thesis using 2(2) assms by (intro gen_step_pending [of o0 g]) (simp_all, simp_all)
  qed
qed

lemma gen_step_publish: "gen_step o0 (snd (publish_viewed_attach_resize tok ok o0))"
proof -
  have taken: "gen_step o0 (o0\<lparr>wo_pending := None,
             wo_creation_leases := drop_lease (pv_connection_id p) (pv_session_id p) (wo_creation_leases o0),
             wo_viewed_session := Some (pv_session_id p),
             wo_viewed_connection_id := Some (pv_connection_id p),
             wo_viewed_authority_generation := Some (pv_authority_generation p),
             wo_viewed_geometry := Some (viewport_geometry_of (pv_cols p) (pv_rows p)),
             wo_local_reclaimed := wo_local_reclaimed o0 - {pv_session_id p}\<rparr>)"
    if "wo_pending o0 = Some p" for p
    using that by (auto simp: gen_step_def issued_def live_generations_def drop_lease_def distinct_map_filter
        split: option.splits)
  show ?thesis
    unfolding publish_viewed_attach_resize_def
    using taken by (auto simp: gen_step_invalidate split: option.splits)
qed

lemma gen_step_reexpose:
  assumes "list_all (issued o0) (live_generations o0)"
  shows "gen_step o0 (case issue_authority_generation o0 of (g, o') \<Rightarrow> o'\<lparr>wo_viewed_authority_generation := g\<rparr>)"
proof (cases rule: issue_cases [of o0])
  case 1
  then show ?thesis by (simp add: gen_step_drop filter_id)
next
  case (2 g)
  then show ?thesis using assms by (simp add: gen_step_viewed)
qed

lemma gen_step_select:
  assumes "list_all (issued o0) (live_generations o0)"
  shows "gen_step o0 (snd (set_remote_selected sel o0))"
proof -
  let ?o1 = "if wo_remote_selected o0 \<noteq> sel then invalidate_pending_viewed_attach o0 else o0"
  let ?o2 = "?o1\<lparr>wo_remote_selected := sel\<rparr>"
  let ?o3 = "if sel = Some False then ?o2\<lparr>wo_creation_leases := []\<rparr> else ?o2"
  let ?o4 = "if sel = Some True then ?o3\<lparr>wo_local_reclaimed := {}\<rparr> else ?o3"
  have "gen_step o0 ?o1" by (simp add: gen_step_invalidate)
  moreover have "gen_step ?o1 ?o4"
    by (rule gen_step_drop) (auto simp: filter_id intro: exI [of _ "\<lambda>_. False"])
  ultimately have o4: "gen_step o0 ?o4" by (rule gen_step_trans)
  then have "gen_step o0 (case issue_authority_generation ?o4 of (g, o') \<Rightarrow> o'\<lparr>wo_viewed_authority_generation := g\<rparr>)"
    using gen_step_trans [OF o4 gen_step_reexpose] gen_step_issued [OF o4 assms] by blast
  with o4 show ?thesis unfolding set_remote_selected_def Let_def snd_conv by (simp only: if_split simp_thms) auto
qed

lemma gen_step_viewing:
  assumes "list_all (issued o0) (live_generations o0)"
  shows "gen_step o0 (snd (note_remote_viewing_with_geometry c s cols rows o0))"
proof -
  let ?o1 = "invalidate_pending_viewed_attach o0"
  let ?o2 = "?o1\<lparr>wo_creation_leases := drop_lease c s (wo_creation_leases ?o1)\<rparr>"
  let ?changed = "wo_viewed_session ?o2 \<noteq> Some s \<or> wo_viewed_connection_id ?o2 \<noteq> Some c"
  have "gen_step ?o1 ?o2" by (rule gen_step_drop) (auto simp: drop_lease_def)
  then have o2: "gen_step o0 ?o2" using gen_step_invalidate gen_step_trans by blast
  show ?thesis
  proof (cases ?changed)
    case False
    have "gen_step ?o2 (?o2\<lparr>wo_viewed_geometry := Some (viewport_geometry_of cols rows)\<rparr>)"
      by (rule gen_step_drop) (auto simp: filter_id)
    with False gen_step_trans [OF o2] show ?thesis
      by (simp add: note_remote_viewing_with_geometry_def Let_def)
  next
    case True
    show ?thesis
    proof (cases rule: issue_cases [of ?o2])
      case 1
      have "gen_step ?o2 (?o2\<lparr>wo_viewed_authority_generation := None\<rparr>)"
        by (rule gen_step_drop) (auto simp: filter_id)
      with 1 True gen_step_trans [OF o2] show ?thesis
        by (simp add: note_remote_viewing_with_geometry_def Let_def)
    next
      case (2 g)
      let ?o3 = "?o2\<lparr>wo_next_authority_generation := checked_add_u64 g 1,
        wo_viewed_session := Some s, wo_viewed_connection_id := Some c,
        wo_viewed_authority_generation := Some g,
        wo_local_reclaimed := wo_local_reclaimed ?o2 - {s},
        wo_viewed_geometry := Some (viewport_geometry_of cols rows)\<rparr>"
      have "gen_step ?o2 ?o3"
        by (rule gen_step_viewed [OF 2(2)]) (use gen_step_issued [OF o2 assms] in simp_all)
      with 2 True gen_step_trans [OF o2] show ?thesis
        by (simp add: note_remote_viewing_with_geometry_def Let_def)
    qed
  qed
qed

lemma gen_step_creation:
  assumes "list_all (issued o0) (live_generations o0)"
  shows "gen_step o0 (snd (note_remote_creation c s now o0))"
proof -
  let ?o1 = "o0\<lparr>wo_creation_leases := filter (\<lambda>l. now < cl_expires_at_ms l) (wo_creation_leases o0)\<rparr>"
  have o1: "gen_step o0 ?o1" by (rule gen_step_drop) auto
  show ?thesis
  proof (cases rule: issue_cases [of ?o1])
    case 1
    with o1 show ?thesis by (simp add: note_remote_creation_def Let_def)
  next
    case (2 g)
    let ?l = "\<lparr>cl_connection_id = c, cl_session_id = s, cl_geometry = viewport_geometry_of 80 24,
                cl_expires_at_ms = saturating_add_u64 now CREATION_LEASE_MS, cl_authority_generation = g\<rparr>"
    let ?o2 = "?o1\<lparr>wo_next_authority_generation := checked_add_u64 g 1,
                 wo_creation_leases := wo_creation_leases ?o1 @ [?l],
                 wo_local_reclaimed := wo_local_reclaimed ?o1 - {s}\<rparr>"
    have "gen_step ?o1 ?o2"
      by (rule gen_step_lease [OF 2(2), of _ ?l]) (use gen_step_issued [OF o1 assms] in simp_all)
    with o1 2 gen_step_trans [OF o1] show ?thesis
      by (simp add: note_remote_creation_def Let_def)
  qed
qed

lemma refresh_leases_gens:
  assumes "refresh_leases now rec nxt ls = (Some ls', n)" "distinct (map cl_authority_generation ls)"
    "\<forall>l \<in> set ls. below_next nxt (cl_authority_generation l)"
  shows "distinct (map cl_authority_generation ls') \<and>
    (\<forall>l \<in> set ls'. cl_authority_generation l \<in> cl_authority_generation ` set ls \<or>
        \<not> below_next nxt (cl_authority_generation l) \<and> below_next n (cl_authority_generation l)) \<and>
    (\<forall>g. below_next nxt g \<longrightarrow> below_next n g)"
  using assms
proof (induction ls arbitrary: nxt ls')
  case Nil
  then show ?case by simp
next
  case (Cons l ls)
  show ?case
  proof (cases "now < cl_expires_at_ms l \<and> cl_session_id l \<notin> rec")
    case False
    obtain ls1 where r: "refresh_leases now rec nxt ls = (Some ls1, n)" "ls' = l # ls1"
      using Cons.prems(1) False by (auto split: prod.splits option.splits)
    have IH: "distinct (map cl_authority_generation ls1)"
        "\<forall>l \<in> set ls1. cl_authority_generation l \<in> cl_authority_generation ` set ls \<or>
          \<not> below_next nxt (cl_authority_generation l) \<and> below_next n (cl_authority_generation l)"
        "\<forall>g. below_next nxt g \<longrightarrow> below_next n g"
      using Cons.IH [OF r(1)] Cons.prems(2,3) by auto
    have "\<forall>l' \<in> set ls1. cl_authority_generation l' \<noteq> cl_authority_generation l"
    proof
      fix l' assume "l' \<in> set ls1"
      then show "cl_authority_generation l' \<noteq> cl_authority_generation l"
        using IH(2) Cons.prems(2,3) by (metis distinct.simps(2) list.set_intros(1) list.set_map list.simps(9))
    qed
    then show ?thesis using IH r(2) Cons.prems(2,3) by auto
  next
    case True
    obtain g ls1 where r: "nxt = Some g" "refresh_leases now rec (checked_add_u64 g 1) ls = (Some ls1, n)"
        "ls' = l\<lparr>cl_authority_generation := g\<rparr> # ls1"
      using Cons.prems(1) True by (auto split: prod.splits option.splits)
    have IH: "distinct (map cl_authority_generation ls1)"
        "\<forall>l \<in> set ls1. cl_authority_generation l \<in> cl_authority_generation ` set ls \<or>
          \<not> below_next (checked_add_u64 g 1) (cl_authority_generation l) \<and> below_next n (cl_authority_generation l)"
        "\<forall>g'. below_next (checked_add_u64 g 1) g' \<longrightarrow> below_next n g'"
      using Cons.IH [OF r(2)] Cons.prems(2,3) r(1) by (auto intro: below_next_Some(3))
    have "\<forall>l' \<in> set ls1. cl_authority_generation l' \<noteq> g"
    proof
      fix l' assume "l' \<in> set ls1"
      then show "cl_authority_generation l' \<noteq> g"
        using IH(2) Cons.prems(3) below_next_Some(1,2) [of g] r(1) by (metis imageE insert_iff list.set(2))
    qed
    then show ?thesis
      using IH r Cons.prems(2,3) below_next_Some [of g] by (auto simp: image_iff)
  qed
qed

lemma refresh_leases_exhausted: "refresh_leases now rec nxt ls = (None, n) \<Longrightarrow> n = None"
  by (induction ls arbitrary: nxt) (auto split: if_splits prod.splits option.splits)

text \<open>Replacing the leases by a refreshed list.\<close>

lemma gen_step_refreshed:
  assumes "distinct (live_generations o1)" "list_all (issued o1) (live_generations o1)"
    "refresh_leases now (wo_local_reclaimed o1) (wo_next_authority_generation o1) (wo_creation_leases o1) = (r, n)"
  shows "gen_step o1 (o1\<lparr>wo_creation_leases := (case r of None \<Rightarrow> [] | Some ls \<Rightarrow> ls),
                         wo_next_authority_generation := n\<rparr>)"
proof (cases r)
  case None
  then have "n = None" using assms(3) refresh_leases_exhausted by blast
  with None assms(1) show ?thesis by (auto simp: gen_step_def issued_def live_generations_def)
next
  case (Some ls)
  define rest where "rest = (case wo_viewed_authority_generation o1 of None \<Rightarrow> [] | Some g \<Rightarrow> [g]) @
     (case wo_pending o1 of None \<Rightarrow> [] | Some p \<Rightarrow> [pv_authority_generation p])"
  have live: "live_generations o1 = rest @ map cl_authority_generation (wo_creation_leases o1)"
    "live_generations (o1\<lparr>wo_creation_leases := ls, wo_next_authority_generation := n\<rparr>)
     = rest @ map cl_authority_generation ls"
    by (simp_all add: live_generations_def rest_def)
  have d: "distinct (map cl_authority_generation (wo_creation_leases o1))" using assms(1) by (simp add: live)
  have b: "\<forall>l \<in> set (wo_creation_leases o1). below_next (wo_next_authority_generation o1) (cl_authority_generation l)"
    "\<forall>x \<in> set rest. below_next (wo_next_authority_generation o1) x"
    using assms(2) by (auto simp: live list_all_iff issued_def)
  note g = refresh_leases_gens [OF assms(3) [unfolded Some] d b(1)]
  have "set rest \<inter> cl_authority_generation ` set ls = {}"
    using g b(2) assms(1) unfolding live by fastforce
  then show ?thesis
    using g assms(1) unfolding gen_step_def Some option.case live issued_def by auto
qed

lemma gen_step_refresh:
  assumes "distinct (live_generations o0)" "list_all (issued o0) (live_generations o0)"
  shows "gen_step o0 (refresh_live_authority_generations now o0)"
proof -
  define o1 where "o1 = (if case wo_viewed_session o0 of None \<Rightarrow> False | Some s \<Rightarrow> s \<notin> wo_local_reclaimed o0
      then case issue_authority_generation o0 of (g, o') \<Rightarrow> o'\<lparr>wo_viewed_authority_generation := g\<rparr> else o0)"
  have o1: "gen_step o0 o1" unfolding o1_def using gen_step_reexpose [OF assms(2)] by simp
  obtain r n where rn: "refresh_leases now (wo_local_reclaimed o1) (wo_next_authority_generation o1)
      (wo_creation_leases o1) = (r, n)" by fastforce
  have "refresh_live_authority_generations now o0 =
      o1\<lparr>wo_creation_leases := (case r of None \<Rightarrow> [] | Some ls \<Rightarrow> ls), wo_next_authority_generation := n\<rparr>"
    unfolding refresh_live_authority_generations_def Let_def o1_def [symmetric] rn by (cases r) simp_all
  moreover have "distinct (live_generations o1)" using o1 assms(1) by (simp add: gen_step_def)
  ultimately show ?thesis
    using gen_step_trans [OF o1] gen_step_refreshed [OF _ gen_step_issued [OF o1 assms(2)] rn] by simp
qed

lemma refresh_serving [simp]:
  "wo_serving (refresh_live_authority_generations now o0) = wo_serving o0"
  "wo_zero_since_ms (refresh_live_authority_generations now o0) = wo_zero_since_ms o0"
  by (auto simp: refresh_live_authority_generations_def Let_def issue_authority_generation_def
      split: option.splits prod.splits)

lemma gen_step_fields:
  assumes "gen_step o1 o2" "live_generations o3 = live_generations o2"
    "wo_next_authority_generation o3 = wo_next_authority_generation o2"
  shows "gen_step o1 o3"
  using assms by (simp add: gen_step_def issued_def)

lemma gen_step_serving:
  assumes "distinct (live_generations o0)" "list_all (issued o0) (live_generations o0)"
  shows "gen_step o0 (set_serving n now o0)"
proof -
  define o1 where "o1 = (if wo_serving o0 = 0 \<and> n \<noteq> 0 \<and> past_grace o0 now \<and> wo_remote_selected o0 \<noteq> Some False
      then refresh_live_authority_generations now o0 else o0)"
  have "gen_step o0 o1" unfolding o1_def using gen_step_refresh [OF assms] by simp
  then show ?thesis
    unfolding set_serving_def Let_def o1_def [symmetric]
    by (rule gen_step_fields) (simp_all add: live_generations_def)
qed

lemma owner_step_gen:
  assumes inv: "owner_inv o1"
  shows "gen_step o1 (owner_step o1 op)"
proof -
  have d: "distinct (live_generations o1)" and i: "list_all (issued o1) (live_generations o1)"
    using inv by (simp_all add: owner_inv_def)
  show ?thesis
  proof (cases op)
    case (UpdateGeometry tok cols rows)
    then show ?thesis
      by (simp add: update_pending_viewed_attach_geometry_def)
         (auto intro!: gen_step_drop simp: filter_id option.map_comp comp_def)
  next
    case (ClearCreation c s)
    then show ?thesis by (auto intro!: gen_step_drop simp: clear_remote_creation_def drop_lease_def Let_def)
  next
    case (ClearConnection c)
    then show ?thesis by (auto intro!: gen_step_drop simp: clear_remote_creations_for_connection_def Let_def)
  next
    case ClearViewing
    have "gen_step (invalidate_pending_viewed_attach o1) (snd (clear_remote_viewing o1))"
      by (rule gen_step_drop) (auto simp: clear_remote_viewing_def Let_def filter_id)
    then show ?thesis using ClearViewing gen_step_trans [OF gen_step_invalidate] by simp
  next
    case (Reclaim s)
    let ?o = "case wo_pending o1 of None \<Rightarrow> o1
      | Some p \<Rightarrow> if pv_session_id p = s then invalidate_pending_viewed_attach o1 else o1"
    have "gen_step o1 ?o" using gen_step_invalidate by (simp split: option.splits)
    moreover have "gen_step ?o (snd (reclaim_viewport s o1))"
      by (rule gen_step_drop) (auto simp: reclaim_viewport_def Let_def)
    ultimately show ?thesis using Reclaim gen_step_trans by simp
  qed (simp_all add: gen_step_reserve gen_step_publish gen_step_select gen_step_viewing gen_step_creation
        gen_step_serving gen_step_invalidate cancel_viewed_attach_authority_def i d)
qed

lemma owner_step_serving:
  assumes "wo_serving o1 = 0 \<longleftrightarrow> wo_zero_since_ms o1 \<noteq> None"
  shows "wo_serving (owner_step o1 op) = 0 \<longleftrightarrow> wo_zero_since_ms (owner_step o1 op) \<noteq> None"
proof (cases op)
  case (Serving n now)
  then show ?thesis using assms by (auto simp: set_serving_def Let_def)
qed (use assms in \<open>auto simp: deferred_reserve_def reserve_viewed_attach_authority_def
    issue_authority_generation_def cancel_viewed_attach_authority_def
    update_pending_viewed_attach_geometry_def publish_viewed_attach_resize_def set_remote_selected_def
    note_remote_viewing_with_geometry_def note_remote_creation_def clear_remote_creation_def
    clear_remote_creations_for_connection_def clear_remote_viewing_def reclaim_viewport_def Let_def
    split: option.splits\<close>)

lemma owner_step_inv: "owner_inv o1 \<Longrightarrow> owner_inv (owner_step o1 op)"
  using gen_step_inv [OF owner_step_gen] owner_step_serving by (metis owner_inv_def)

lemma owner_inv_new: "owner_inv new_owner"
  by (simp add: owner_inv_def new_owner_def live_generations_def)

interpretation owner: monotone_stepping owner_step owner_inv "\<lambda>o1 o2. \<forall>g. issued o1 g \<longrightarrow> issued o2 g"
  using owner_step_gen by unfold_locales (auto simp: owner_step_inv gen_step_def)

lemmas owner_ops = deferred_reserve_def reserve_viewed_attach_authority_def
  issue_authority_generation_def cancel_viewed_attach_authority_def
  update_pending_viewed_attach_geometry_def publish_viewed_attach_resize_def set_remote_selected_def
  note_remote_viewing_with_geometry_def note_remote_creation_def clear_remote_creation_def
  clear_remote_creations_for_connection_def clear_remote_viewing_def reclaim_viewport_def

section \<open>Authority is used at most once\<close>

lemma refresh_fields [simp]:
  "wo_pending (refresh_live_authority_generations now o0) = wo_pending o0"
  "wo_viewed_session (refresh_live_authority_generations now o0) = wo_viewed_session o0"
  "wo_viewed_connection_id (refresh_live_authority_generations now o0) = wo_viewed_connection_id o0"
  "wo_viewed_geometry (refresh_live_authority_generations now o0) = wo_viewed_geometry o0"
  "wo_local_reclaimed (refresh_live_authority_generations now o0) = wo_local_reclaimed o0"
  "wo_remote_selected (refresh_live_authority_generations now o0) = wo_remote_selected o0"
  "wo_publication_dirty (refresh_live_authority_generations now o0) = wo_publication_dirty o0"
  "wo_published_effective (refresh_live_authority_generations now o0) = wo_published_effective o0"
  "wo_published_sessions (refresh_live_authority_generations now o0) = wo_published_sessions o0"
  by (auto simp: refresh_live_authority_generations_def Let_def issue_authority_generation_def
      split: option.splits prod.splits)

text \<open>A pending attach is the one that was pending, or carries a generation issued just now.\<close>

lemma owner_step_pending:
  assumes "wo_pending (owner_step o1 op) = Some p"
  shows "(\<exists>q. wo_pending o1 = Some q \<and> pv_connection_id q = pv_connection_id p \<and>
            pv_session_id q = pv_session_id p \<and> pv_authority_generation q = pv_authority_generation p) \<or>
         \<not> issued o1 (pv_authority_generation p)"
proof (cases op)
  case (Reserve c s cols rows)
  then show ?thesis
    using assms below_next_Some(2) by (auto simp: owner_ops Let_def issued_def split: option.splits if_splits)
next
  case (Serving n now)
  then show ?thesis using assms by (auto simp: set_serving_def Let_def split: if_splits)
qed (use assms in \<open>auto simp: owner_ops Let_def split: option.splits if_splits\<close>)

definition token_spent :: "deferred_resize_authority \<Rightarrow> winsize_owner \<Rightarrow> bool" where
  "token_spent tok o1 \<longleftrightarrow> issued o1 (da_authority_generation tok) \<and> \<not> pending_viewed_attach_matches o1 tok"

lemma owner_step_spent:
  assumes "owner_inv o1" "token_spent tok o1"
  shows "token_spent tok (owner_step o1 op)"
  using assms owner_step_gen [OF assms(1), of op] owner_step_pending [of o1 op]
  by (fastforce simp: token_spent_def pending_viewed_attach_matches_def gen_step_def split: option.splits)

interpretation spent: stepping owner_step "\<lambda>o1. owner_inv o1 \<and> token_spent tok o1" for tok
  by unfold_locales (simp add: owner_step_inv owner_step_spent)

lemma spent_after_publish:
  assumes "owner_inv o1" "pending_viewed_attach_matches o1 tok"
  shows "token_spent tok (snd (publish_viewed_attach_resize tok ok o1))"
proof -
  have "issued o1 (da_authority_generation tok)"
    using assms by (auto simp: owner_inv_def live_generations_def pending_viewed_attach_matches_def
        split: option.splits)
  moreover have "wo_pending (snd (publish_viewed_attach_resize tok ok o1)) = None"
    using assms(2) by (auto simp: publish_viewed_attach_resize_def pending_viewed_attach_matches_def
        split: option.splits)
  ultimately show ?thesis
    using owner_step_gen [OF assms(1), of "PublishResize tok ok"]
    by (simp add: token_spent_def pending_viewed_attach_matches_def gen_step_def)
qed

text \<open>
  C27: a deferred viewed attach publishes at most once. Once its Grid has been offered for
  publication, whether it was queued or refused, no later interleaving of attaches, overrides,
  reclaims, leases and reconnects makes the same token publish, change geometry or cancel anything
  again: every further use answers \<^verbatim>\<open>false\<close> and leaves the state as it is.\<close>

theorem deferred_authority_used_once:
  assumes "pending_viewed_attach_matches (owner.run ops new_owner) tok"
  shows "let o1 = owner.run later (snd (publish_viewed_attach_resize tok ok (owner.run ops new_owner))) in
           publish_viewed_attach_resize tok ok' o1 = (False, o1) \<and>
           update_pending_viewed_attach_geometry tok cols rows o1 = (False, o1) \<and>
           cancel_viewed_attach_authority tok o1 = o1"
proof -
  let ?o = "owner.run ops new_owner"
  let ?p = "snd (publish_viewed_attach_resize tok ok ?o)"
  have inv: "owner_inv ?o" by (intro owner.run_inv owner_inv_new)
  then have "owner_inv ?p" using owner_step_inv [of ?o "PublishResize tok ok"] by simp
  then have "token_spent tok (owner.run later ?p)"
    using spent.run_inv [where tok = tok and s = ?p and es = later] spent_after_publish [OF inv assms]
    by (simp add: spent.run_def owner.run_def)
  then show ?thesis
    by (simp add: Let_def token_spent_def publish_viewed_attach_resize_def
        update_pending_viewed_attach_geometry_def cancel_viewed_attach_authority_def)
qed

definition demo_token :: deferred_resize_authority where
  "demo_token = \<lparr>da_connection_id = ''c1'', da_session_id = ''s1'', da_authority_generation = 1\<rparr>"

theorem deferred_authority_used_once_witness:
  "let o1 = owner.run [Reserve ''c1'' ''s1'' 100 40]
              (snd (publish_viewed_attach_resize demo_token True
                 (owner.run [Reserve ''c1'' ''s1'' 80 24] new_owner))) in
     publish_viewed_attach_resize demo_token True o1 = (False, o1) \<and>
     update_pending_viewed_attach_geometry demo_token 90 30 o1 = (False, o1) \<and>
     cancel_viewed_attach_authority demo_token o1 = o1"
  by (rule deferred_authority_used_once)
     (simp add: owner_ops Let_def new_owner_def demo_token_def pending_viewed_attach_matches_def
       remote_resize_allowed_def invalidate_pending_viewed_attach_def)

section \<open>Local choices win\<close>

text \<open>
  choosing local sizing takes effect at once and is not undone by its own withdrawal. Whatever the
  state, after the override the remote owns nothing at any later time and the legacy summary says
  local; every creation lease is gone, a pending viewed attach cannot publish, and clearing the
  override again leaves no lease to come back.\<close>

theorem force_local_is_immediate:
  "let o1 = snd (set_remote_selected (Some False) o0) in
     remote_owned_viewports o1 now = [] \<and> effective_owner o1 now = OwnerLocal \<and>
     fst (publish_viewed_attach_resize tok ok o1) = False \<and>
     wo_creation_leases (snd (set_remote_selected None o1)) = []"
proof -
  define o1 where "o1 = snd (set_remote_selected (Some False) o0)"
  have sel: "wo_remote_selected o1 = Some False" "wo_creation_leases o1 = []"
    by (auto simp: o1_def set_remote_selected_def Let_def issue_authority_generation_def split: option.splits)
  then have none: "remote_owned_viewports o1 now = []" by (simp add: remote_owned_viewports_def)
  moreover have "effective_owner o1 now = OwnerLocal"
    using none sel by (simp add: effective_owner_def remote_owned_sessions_def)
  moreover have "fst (publish_viewed_attach_resize tok ok o1) = False"
    using sel(1) by (simp add: publish_viewed_attach_resize_def)
  moreover have "wo_creation_leases (snd (set_remote_selected None o1)) = []"
    using sel(2) by (auto simp: set_remote_selected_def Let_def issue_authority_generation_def split: option.splits)
  ultimately show ?thesis by (simp add: Let_def o1_def [symmetric])
qed

text \<open>
  The state a local reclaim leaves while its viewer keeps viewing: the session is reclaimed, no
  pending attach hides it, and no lease covers it.
\<close>

definition held_back :: "string \<Rightarrow> string \<Rightarrow> winsize_owner \<Rightarrow> bool" where
  "held_back c s o1 \<longleftrightarrow> wo_viewed_session o1 = Some s \<and> wo_viewed_connection_id o1 = Some c \<and>
     s \<in> wo_local_reclaimed o1"

text \<open>
  What the same viewer, other panes' creations and the connection itself may do without a new claim
  on the session: anything but another viewed attach or viewing claim of a different connection or
  pane, a new creation of this very session, clearing the view, and an explicit remote override.
\<close>

fun no_new_claim :: "string \<Rightarrow> string \<Rightarrow> owner_op \<Rightarrow> bool" where
  "no_new_claim c s (Reserve c' s' _ _) \<longleftrightarrow> c' = c \<and> s' = s"
| "no_new_claim c s (PublishResize tok _) \<longleftrightarrow> da_session_id tok = s"
| "no_new_claim c s (Select sel) \<longleftrightarrow> sel \<noteq> Some True"
| "no_new_claim c s (Viewing c' s' _ _) \<longleftrightarrow> c' = c \<and> s' = s"
| "no_new_claim c s (Creation c' s' _) \<longleftrightarrow> s' \<noteq> s \<or> c' = c"
| "no_new_claim c s ClearViewing \<longleftrightarrow> False"
| "no_new_claim c s _ \<longleftrightarrow> True"

lemma held_back_invalidate: "held_back c s o1 \<Longrightarrow> held_back c s (invalidate_pending_viewed_attach o1)"
  using invalidate_reclaimed [of o1] by (auto simp: held_back_def)

lemma held_back_refused: "held_back c s o1 \<Longrightarrow> \<not> remote_resize_allowed o1 c s v"
  by (simp add: held_back_def remote_resize_allowed_def)

lemma held_back_reserve:
  assumes "held_back c s o1"
  shows "held_back c s (snd (deferred_reserve c s cols rows o1))"
proof (cases rule: issue_cases [of o1])
  case 1
  then show ?thesis using assms by (simp add: deferred_reserve_def reserve_viewed_attach_authority_def)
next
  case (2 g)
  let ?o2 = "invalidate_pending_viewed_attach (o1\<lparr>wo_next_authority_generation := checked_add_u64 g 1\<rparr>)"
  have "held_back c s ?o2" using assms by (intro held_back_invalidate) (simp add: held_back_def)
  then show ?thesis
    using 2 held_back_refused [of c s ?o2 True]
    by (simp add: deferred_reserve_def reserve_viewed_attach_authority_def Let_def)
qed

lemma held_back_viewing:
  assumes "held_back c s o1"
  shows "held_back c s (snd (note_remote_viewing_with_geometry c s cols rows o1))"
  using held_back_invalidate [OF assms]
  by (auto simp: note_remote_viewing_with_geometry_def Let_def held_back_def)

lemma held_back_publish:
  assumes "held_back c s o1" "da_session_id tok = s"
  shows "held_back c s (snd (publish_viewed_attach_resize tok ok o1))"
  using assms held_back_invalidate [OF assms(1)]
  by (auto simp: publish_viewed_attach_resize_def held_back_def)

lemma held_back_select:
  assumes "held_back c s o1" "sel \<noteq> Some True"
  shows "held_back c s (snd (set_remote_selected sel o1))"
  using assms held_back_invalidate [OF assms(1)]
  by (auto simp: set_remote_selected_def Let_def held_back_def issue_authority_generation_def split: option.splits)

lemma held_back_step:
  assumes "held_back c s o1" "no_new_claim c s op"
  shows "held_back c s (owner_step o1 op)"
proof (cases op)
  case (Serving n now)
  then show ?thesis using assms by (auto simp: set_serving_def Let_def held_back_def)
next
  case (Reclaim s')
  then show ?thesis
    using assms held_back_invalidate [OF assms(1)]
    by (auto simp: reclaim_viewport_def Let_def held_back_def split: option.splits)
next
  case (Creation c' s' now)
  then show ?thesis
    using assms by (auto simp: note_remote_creation_def Let_def held_back_def issue_authority_generation_def
        split: option.splits)
next
  case (Cancel tok)
  then show ?thesis using assms held_back_invalidate by (simp add: cancel_viewed_attach_authority_def)
qed (use assms in \<open>simp_all add: held_back_reserve held_back_viewing held_back_publish held_back_select\<close>,
     (simp add: held_back_def update_pending_viewed_attach_geometry_def clear_remote_creation_def
       clear_remote_creations_for_connection_def Let_def)+)

lemma held_back_run:
  assumes "held_back c s o1" "list_all (no_new_claim c s) ops"
  shows "held_back c s (owner.run ops o1)"
  using assms by (induction ops arbitrary: o1) (simp_all add: held_back_step)

text \<open>
  C28: a local reclaim holds against the viewer it was taken from. From the moment the user reclaims
  the viewed session, nothing that viewer or anyone else does short of a new claim gives the session
  back to the remote: it stays out of the owned set at every time, and the viewer's resizes stay
  refused. New claims, and not covered, are a viewing claim of another connection or of the same viewer on
  another pane, a creation of this session by another connection, the remote override, and clearing
  the view.\<close>

theorem local_reclaim_holds:
  assumes "wo_viewed_session o0 = Some s" "wo_viewed_connection_id o0 = Some c"
    "list_all (no_new_claim c s) ops"
  shows "let o1 = owner.run ops (snd (reclaim_viewport s o0)) in
           s \<notin> set (remote_owned_sessions o1 now) \<and> \<not> remote_resize_allowed o1 c s viewed"
proof -
  have "held_back c s (snd (reclaim_viewport s o0))"
    using assms(1,2) by (auto simp: reclaim_viewport_def Let_def held_back_def split: option.splits)
  then have "held_back c s (owner.run ops (snd (reclaim_viewport s o0)))"
    using assms(3) by (rule held_back_run)
  then show ?thesis
    using held_back_refused by (auto simp: Let_def held_back_def remote_owned_sessions_keys owned_map_keys(2)
        dest!: imageI [of _ _ fst] split: if_splits)
qed

definition demo_viewed :: winsize_owner where
  "demo_viewed = owner.run [Serving 1 5, Viewing ''c1'' ''s1'' 120 40, Creation ''c1'' ''s2'' 7] new_owner"

lemma demo_viewed_eq:
  "demo_viewed = new_owner\<lparr>wo_serving := 1, wo_zero_since_ms := None, wo_viewed_session := Some ''s1'',
     wo_viewed_connection_id := Some ''c1'', wo_viewed_authority_generation := Some 1,
     wo_viewed_geometry := Some (viewport_geometry_of 120 40), wo_next_authority_generation := Some 3,
     wo_creation_leases := [\<lparr>cl_connection_id = ''c1'', cl_session_id = ''s2'',
        cl_geometry = viewport_geometry_of 80 24, cl_expires_at_ms = 45007, cl_authority_generation = 2\<rparr>]\<rparr>"
  by (simp add: demo_viewed_def set_serving_def Let_def new_owner_def past_grace_def GRACE_MS_def
      saturating_sub_u64_def note_remote_viewing_with_geometry_def note_remote_creation_def drop_lease_def
      invalidate_pending_viewed_attach_def issue_authority_generation_def checked_add_u64_def
      saturating_add_u64_def CREATION_LEASE_MS_def)

theorem local_reclaim_holds_witness:
  "let o1 = owner.run [Viewing ''c1'' ''s1'' 90 30, Serving 0 9, Serving 2 10] (snd (reclaim_viewport ''s1'' demo_viewed)) in
     ''s1'' \<notin> set (remote_owned_sessions o1 11) \<and> \<not> remote_resize_allowed o1 ''c1'' ''s1'' True"
  by (rule local_reclaim_holds) (simp_all add: demo_viewed_eq)

section \<open>Deadlines\<close>

text \<open>
  remote ownership is always bounded. In every state the operations reach, an owned viewport is
  without deadline only while a remote is connected and viewing that pane; otherwise its deadline
  lies within ten seconds of the moment the last remote disconnected, and a session held only by
  creation leases never outlives them.\<close>

theorem ownership_deadlines_bounded:
  assumes "rv \<in> set (remote_owned_viewports (owner.run ops new_owner) now)"
  shows "entry_bounded (owner.run ops new_owner) (rv_session_id rv) (rv_valid_until_ms rv)"
proof -
  define o1 where "o1 = owner.run ops new_owner"
  have "owner_inv o1" unfolding o1_def by (intro owner.run_inv owner_inv_new)
  then have z: "wo_serving o1 = 0 \<Longrightarrow> wo_zero_since_ms o1 \<noteq> None" by (simp add: owner_inv_def)
  have v: "entry_bounded o1 s d" if "map_of (viewed_owned o1) s = Some (geo, d, g)" for s geo d g
    using that z
    by (cases "wo_viewed_session o1"; cases "wo_viewed_geometry o1"; cases "wo_viewed_authority_generation o1")
       (auto simp: viewed_owned_def entry_bounded_def presence_deadline_def split: option.splits if_splits)
  have b: "entry_bounded o1 s d" if "map_of (owned_map o1 now) s = Some (geo, d, g)" for s geo d g
    by (rule fold_entries_bounded [OF viewed_owned_keys(2) _ _ that [unfolded owned_map_def]])
       (auto intro: v)
  obtain geo g where "(rv_session_id rv, geo, rv_valid_until_ms rv, g) \<in> set (owned_map o1 now)"
    using assms by (auto simp: o1_def remote_owned_viewports_map split: if_splits)
  moreover have "distinct (map fst (owned_map o1 now))"
    using owned_map_keys(1) [of o1 now] by (simp add: sorted_keys_def strict_sorted_iff)
  ultimately show ?thesis using b unfolding o1_def by (metis map_of_eq_Some_iff)
qed

lemma demo_viewports:
  "remote_owned_viewports demo_viewed 100 =
     [\<lparr>rv_session_id = ''s1'', rv_geometry = viewport_geometry_of 120 40, rv_valid_until_ms = None,
       rv_authority_generation = 1\<rparr>,
      \<lparr>rv_session_id = ''s2'', rv_geometry = viewport_geometry_of 80 24, rv_valid_until_ms = Some 45007,
       rv_authority_generation = 2\<rparr>]"
  by (simp add: demo_viewed_eq remote_owned_viewports_def remote_present_def viewed_owned_def new_owner_def
      presence_deadline_def add_lease_def lease_deadline_def less_char_def)

theorem ownership_deadlines_bounded_witness:
  "entry_bounded demo_viewed ''s2'' (Some 45007)"
proof -
  have "\<lparr>rv_session_id = ''s2'', rv_geometry = viewport_geometry_of 80 24, rv_valid_until_ms = Some 45007,
       rv_authority_generation = 2\<rparr>
     \<in> set (remote_owned_viewports (owner.run [Serving 1 5, Viewing ''c1'' ''s1'' 120 40, Creation ''c1'' ''s2'' 7] new_owner) 100)"
    unfolding demo_viewed_def [symmetric] demo_viewports by simp
  from ownership_deadlines_bounded [OF this] show ?thesis by (simp add: demo_viewed_def)
qed

text \<open>Where a lease comes from.\<close>

lemma refresh_leases_same:
  "refresh_leases now rec nxt ls = (Some ls', n) \<Longrightarrow> l \<in> set ls' \<Longrightarrow>
     \<exists>l0 \<in> set ls. cl_connection_id l0 = cl_connection_id l \<and> cl_session_id l0 = cl_session_id l \<and>
        cl_expires_at_ms l0 = cl_expires_at_ms l"
proof (induction ls arbitrary: nxt ls')
  case (Cons x ls)
  then show ?case by (auto split: if_splits option.splits prod.splits) blast+
qed simp

lemma owner_step_leases:
  assumes "l \<in> set (wo_creation_leases (owner_step o1 op))"
  shows "(\<exists>l0 \<in> set (wo_creation_leases o1). cl_connection_id l0 = cl_connection_id l \<and>
            cl_session_id l0 = cl_session_id l \<and> cl_expires_at_ms l0 = cl_expires_at_ms l) \<or>
         (\<exists>t. op = Creation (cl_connection_id l) (cl_session_id l) t \<and>
            cl_expires_at_ms l = saturating_add_u64 t CREATION_LEASE_MS)"
proof (cases op)
  case (Serving n now)
  show ?thesis
  proof (cases "wo_serving o1 = 0 \<and> n \<noteq> 0 \<and> past_grace o1 now \<and> wo_remote_selected o1 \<noteq> Some False")
    case True
    then have "l \<in> set (wo_creation_leases (refresh_live_authority_generations now o1))"
      using assms Serving by (simp add: set_serving_def Let_def)
    then show ?thesis
      by (auto simp: refresh_live_authority_generations_def Let_def issue_authority_generation_def
          split: option.splits prod.splits if_splits dest: refresh_leases_same)
  next
    case False
    then show ?thesis using assms Serving by (auto simp: set_serving_def Let_def split: if_splits)
  qed
qed (use assms in \<open>auto simp: owner_ops Let_def drop_lease_def split: option.splits if_splits\<close>)

text \<open>
  creation leases cannot be renewed. Whatever the sequence of operations, every lease held at its
  end was reserved by a creation of that very connection and session, and expires 45 seconds after
  that reservation; replays, reconnects and rotations of the authority never extend it.\<close>

theorem creation_leases_never_extended:
  assumes "l \<in> set (wo_creation_leases (owner.run ops new_owner))"
  shows "\<exists>t. Creation (cl_connection_id l) (cl_session_id l) t \<in> set ops \<and>
             cl_expires_at_ms l = saturating_add_u64 t CREATION_LEASE_MS"
  using assms
proof (induction ops arbitrary: l rule: rev_induct)
  case Nil
  then show ?case by (simp add: new_owner_def)
next
  case (snoc op ops)
  have "l \<in> set (wo_creation_leases (owner_step (owner.run ops new_owner) op))" using snoc.prems by simp
  from owner_step_leases [OF this] show ?case
  proof
    assume "\<exists>l0 \<in> set (wo_creation_leases (owner.run ops new_owner)). cl_connection_id l0 = cl_connection_id l \<and>
            cl_session_id l0 = cl_session_id l \<and> cl_expires_at_ms l0 = cl_expires_at_ms l"
    then show ?thesis using snoc.IH by fastforce
  next
    assume "\<exists>t. op = Creation (cl_connection_id l) (cl_session_id l) t \<and>
            cl_expires_at_ms l = saturating_add_u64 t CREATION_LEASE_MS"
    then show ?thesis by auto
  qed
qed

theorem creation_leases_never_extended_witness:
  "\<exists>t. Creation ''c1'' ''s2'' t \<in> set [Serving 1 5, Viewing ''c1'' ''s1'' 120 40, Creation ''c1'' ''s2'' 7] \<and>
     (45007 :: u64) = saturating_add_u64 t CREATION_LEASE_MS"
proof -
  have "\<lparr>cl_connection_id = ''c1'', cl_session_id = ''s2'', cl_geometry = viewport_geometry_of 80 24,
      cl_expires_at_ms = 45007, cl_authority_generation = 2\<rparr>
    \<in> set (wo_creation_leases (owner.run [Serving 1 5, Viewing ''c1'' ''s1'' 120 40, Creation ''c1'' ''s2'' 7] new_owner))"
    unfolding demo_viewed_def [symmetric] demo_viewed_eq by simp
  from creation_leases_never_extended [OF this] show ?thesis by simp
qed

section \<open>Disconnects and reconnects\<close>

lemma refresh_leases_new:
  "refresh_leases now rec nxt ls = (Some ls', n) \<Longrightarrow> l \<in> set ls' \<Longrightarrow> now < cl_expires_at_ms l \<Longrightarrow>
     cl_session_id l \<notin> rec \<Longrightarrow> \<not> below_next nxt (cl_authority_generation l)"
proof (induction ls arbitrary: nxt ls')
  case (Cons x ls)
  show ?case
  proof (cases "now < cl_expires_at_ms x \<and> cl_session_id x \<notin> rec")
    case True
    then obtain g ls1 where r: "nxt = Some g" "refresh_leases now rec (checked_add_u64 g 1) ls = (Some ls1, n)"
        "ls' = x\<lparr>cl_authority_generation := g\<rparr> # ls1"
      using Cons.prems(1) by (auto split: prod.splits option.splits)
    show ?thesis
      using Cons.IH [OF r(2)] Cons.prems(2-4) r(1,3) below_next_Some by auto
  next
    case False
    then obtain ls1 where "refresh_leases now rec nxt ls = (Some ls1, n)" "ls' = x # ls1"
      using Cons.prems(1) by (auto split: prod.splits option.splits)
    then show ?thesis using Cons.IH Cons.prems(2-4) False by auto
  qed
qed simp

text \<open>The generations an owned entry can carry.\<close>

definition claimable :: "winsize_owner \<Rightarrow> u64 \<Rightarrow> u64 \<Rightarrow> bool" where
  "claimable o1 now g \<longleftrightarrow>
     (\<exists>s. wo_viewed_session o1 = Some s \<and> s \<notin> wo_local_reclaimed o1 \<and> wo_viewed_authority_generation o1 = Some g) \<or>
     (\<exists>l \<in> set (wo_creation_leases o1). now < cl_expires_at_ms l \<and> cl_session_id l \<notin> wo_local_reclaimed o1 \<and>
        cl_authority_generation l = g)"

lemma bt_entry_values:
  "(s, v') \<in> set (bt_entry k f v kvs) \<Longrightarrow> v' = v \<or> (s, v') \<in> set kvs \<or> (\<exists>w. (s, w) \<in> set kvs \<and> v' = f w)"
  by (induction k f v kvs rule: bt_entry.induct) (auto split: if_splits)

lemma fold_claimable:
  assumes "\<forall>(s, geo, d, g) \<in> set owned. claimable o1 now g"
    "\<forall>l \<in> set ls. l \<in> set (wo_creation_leases o1) \<and> now < cl_expires_at_ms l"
  shows "\<forall>(s, geo, d, g) \<in> set (fold (add_lease o1) ls owned). claimable o1 now g"
  using assms
proof (induction ls arbitrary: owned)
  case (Cons l ls)
  have "\<forall>(s, geo, d, g) \<in> set (add_lease o1 l owned). claimable o1 now g"
  proof (cases "cl_session_id l \<in> wo_local_reclaimed o1")
    case True
    then show ?thesis using Cons.prems(1) by (simp add: add_lease_def)
  next
    case False
    then have cl: "claimable o1 now (cl_authority_generation l)"
      using Cons.prems(2) by (auto simp: claimable_def)
    show ?thesis
    proof (clarify)
      fix s geo d g
      assume "(s, geo, d, g) \<in> set (add_lease o1 l owned)"
      with False show "claimable o1 now g"
        using Cons.prems(1) cl by (auto simp: add_lease_def max_def dest!: bt_entry_values split: if_splits)
    qed
  qed
  then show ?case using Cons.IH Cons.prems(2) by simp
qed simp

lemma owned_claimable:
  assumes "rv \<in> set (remote_owned_viewports o1 now)"
  shows "claimable o1 now (rv_authority_generation rv)"
proof -
  have "\<forall>(s, geo, d, g) \<in> set (viewed_owned o1). claimable o1 now g"
    by (auto simp: viewed_owned_def claimable_def split: option.splits)
  then have "\<forall>(s, geo, d, g) \<in> set (owned_map o1 now). claimable o1 now g"
    unfolding owned_map_def by (intro fold_claimable) auto
  then show ?thesis using assms by (auto simp: remote_owned_viewports_map split: if_splits)
qed

lemma refresh_claims_fresh:
  assumes "claimable (refresh_live_authority_generations t o0) now g" "t \<le> now"
  shows "\<not> issued o0 g"
proof -
  define o1 where "o1 = (if case wo_viewed_session o0 of None \<Rightarrow> False | Some s \<Rightarrow> s \<notin> wo_local_reclaimed o0
      then case issue_authority_generation o0 of (g, o') \<Rightarrow> o'\<lparr>wo_viewed_authority_generation := g\<rparr> else o0)"
  have o1: "wo_local_reclaimed o1 = wo_local_reclaimed o0" "wo_viewed_session o1 = wo_viewed_session o0"
    "\<And>x. issued o0 x \<Longrightarrow> issued o1 x"
    "\<And>s x. wo_viewed_session o0 = Some s \<Longrightarrow> s \<notin> wo_local_reclaimed o0 \<Longrightarrow>
       wo_viewed_authority_generation o1 = Some x \<Longrightarrow> \<not> issued o0 x"
    using below_next_Some by (auto simp: o1_def issue_authority_generation_def issued_def split: option.splits)
  obtain r n where rn: "refresh_leases t (wo_local_reclaimed o1) (wo_next_authority_generation o1)
      (wo_creation_leases o1) = (r, n)" by fastforce
  have eq: "refresh_live_authority_generations t o0 =
      o1\<lparr>wo_creation_leases := (case r of None \<Rightarrow> [] | Some ls \<Rightarrow> ls), wo_next_authority_generation := n\<rparr>"
    unfolding refresh_live_authority_generations_def Let_def o1_def [symmetric] rn by (cases r) simp_all
  show ?thesis
  proof (cases "\<exists>s. wo_viewed_session o1 = Some s \<and> s \<notin> wo_local_reclaimed o1 \<and> wo_viewed_authority_generation o1 = Some g")
    case True
    then show ?thesis using o1 by auto
  next
    case False
    then obtain ls l where "r = Some ls" "l \<in> set ls" "now < cl_expires_at_ms l"
        "cl_session_id l \<notin> wo_local_reclaimed o1" "cl_authority_generation l = g"
      using assms(1) unfolding eq claimable_def by (auto split: option.splits)
    then have "\<not> issued o1 g"
      using refresh_leases_new [of t _ _ _ ls n l] rn assms(2) by (auto simp: issued_def)
    then show ?thesis using o1(3) by blast
  qed
qed

lemma past_grace_since:
  "wo_zero_since_ms o1 = Some since \<Longrightarrow> past_grace o1 now \<longleftrightarrow> 10000 \<le> unat now - unat since"
  by (simp add: past_grace_def word_le_nat_alt unat_saturating_sub_u64 GRACE_MS_def)

lemma owned_map_cong:
  assumes "wo_viewed_session o2 = wo_viewed_session o1" "wo_viewed_geometry o2 = wo_viewed_geometry o1"
    "wo_viewed_authority_generation o2 = wo_viewed_authority_generation o1"
    "wo_creation_leases o2 = wo_creation_leases o1" "wo_local_reclaimed o2 = wo_local_reclaimed o1"
    "presence_deadline o2 = presence_deadline o1"
  shows "owned_map o2 now = owned_map o1 now"
proof -
  have "add_lease o2 = add_lease o1"
    using assms by (simp add: fun_eq_iff add_lease_def lease_deadline_def)
  moreover have "viewed_owned o2 = viewed_owned o1" by (simp only: viewed_owned_def assms)
  ultimately show ?thesis using assms(4) by (simp add: owned_map_def)
qed

text \<open>
  a flaky connection keeps its panes, an expired one loses them for good. When the last remote
  disconnects and one reconnects within ten seconds, the owned viewports, their geometry and their
  authority are what they were. When ten seconds pass first, the remote owns nothing at that moment,
  and whatever it owns after reconnecting carries an authority generation no earlier claim had, so a
  token or reclaim captured before the disconnect can no longer match it.\<close>

theorem reconnect_grace:
  assumes "owner_inv o0" "0 < wo_serving o0" "0 < n" "t \<le> t'" "t' \<le> now"
  shows "let gone = set_serving 0 t o0; back = set_serving n t' gone in
     (unat t' - unat t < 10000 \<longrightarrow> remote_owned_viewports back now = remote_owned_viewports o0 now) \<and>
     (10000 \<le> unat t' - unat t \<longrightarrow> remote_owned_viewports gone t' = [] \<and>
        (\<forall>rv \<in> set (remote_owned_viewports back now). \<not> issued gone (rv_authority_generation rv)))"
proof -
  define gone where "gone = o0\<lparr>wo_serving := 0, wo_zero_since_ms := Some t\<rparr>"
  have z: "wo_zero_since_ms o0 = None" using assms(1,2) by (simp add: owner_inv_def)
  have gone: "set_serving 0 t o0 = gone"
    using assms(2) z by (simp add: set_serving_def Let_def gone_def)
  have grace: "past_grace gone x \<longleftrightarrow> 10000 \<le> unat x - unat t" for x
    by (rule past_grace_since) (simp add: gone_def)
  have soon: "remote_owned_viewports (set_serving n t' gone) now = remote_owned_viewports o0 now"
    if "unat t' - unat t < 10000"
  proof -
    have "set_serving n t' gone = o0\<lparr>wo_serving := n, wo_zero_since_ms := None\<rparr>"
      using that assms(3) grace [of t'] by (simp add: set_serving_def Let_def gone_def)
    moreover have "owned_map (o0\<lparr>wo_serving := n, wo_zero_since_ms := None\<rparr>) now = owned_map o0 now"
      using assms(2,3) by (intro owned_map_cong) (simp_all add: presence_deadline_def)
    ultimately show ?thesis
      using assms(2,3) by (simp add: remote_owned_viewports_map remote_present_def)
  qed
  have late: "remote_owned_viewports gone t' = []" if "10000 \<le> unat t' - unat t"
    using that grace [of t'] by (simp add: remote_owned_viewports_def remote_present_def gone_def)
  have fresh: "\<not> issued gone (rv_authority_generation rv)"
    if "10000 \<le> unat t' - unat t" and rv: "rv \<in> set (remote_owned_viewports (set_serving n t' gone) now)" for rv
  proof -
    have sel: "wo_remote_selected gone \<noteq> Some False"
    proof
      assume "wo_remote_selected gone = Some False"
      then have "wo_remote_selected (set_serving n t' gone) = Some False"
        by (simp add: set_serving_def Let_def)
      then show False using rv by (simp add: remote_owned_viewports_def)
    qed
    then have again: "set_serving n t' gone =
        (refresh_live_authority_generations t' gone)\<lparr>wo_serving := n, wo_zero_since_ms := None\<rparr>"
      using that(1) assms(3) grace [of t'] by (simp add: set_serving_def Let_def gone_def)
    have "claimable (refresh_live_authority_generations t' gone) now (rv_authority_generation rv)"
      using owned_claimable [OF rv] unfolding again by (simp add: claimable_def)
    then show ?thesis using assms(5) by (rule refresh_claims_fresh)
  qed
  show ?thesis unfolding Let_def gone using soon late fresh by blast
qed

theorem reconnect_grace_witness:
  "let gone = set_serving 0 100 demo_viewed; back = set_serving 1 20000 gone in
     (unat (20000 :: u64) - unat (100 :: u64) < 10000 \<longrightarrow>
        remote_owned_viewports back 20001 = remote_owned_viewports demo_viewed 20001) \<and>
     (10000 \<le> unat (20000 :: u64) - unat (100 :: u64) \<longrightarrow> remote_owned_viewports gone 20000 = [] \<and>
        (\<forall>rv \<in> set (remote_owned_viewports back 20001). \<not> issued gone (rv_authority_generation rv)))"
proof (rule reconnect_grace)
  show "owner_inv demo_viewed" unfolding demo_viewed_def by (intro owner.run_inv owner_inv_new)
qed (simp_all add: demo_viewed_eq)

section \<open>Publication\<close>

text \<open>
  The writers of the two files: operations that only change memory, and mutations that publish, with
  whatever the closure reports as changed and however the two writes end.
\<close>

datatype publication =
    InMemory owner_op
  | Published "owner_op option" bool bool u64 bool bool

fun publication_step :: "winsize_owner \<times> owner_files \<Rightarrow> publication \<Rightarrow> winsize_owner \<times> owner_files" where
  "publication_step (o1, files) (InMemory op) = (owner_step o1 op, files)"
| "publication_step st (Published op changed force now w1 w2) =
     snd (snd (mutate_and_publish_owner
       (\<lambda>o1. (changed, case op of None \<Rightarrow> o1 | Some x \<Rightarrow> owner_step o1 x)) force now w1 w2 st))"

text \<open>Unless a write is outstanding, the files hold what the state says it published.\<close>

fun files_synced :: "winsize_owner \<times> owner_files \<Rightarrow> bool" where
  "files_synced (o1, files) \<longleftrightarrow> wo_publication_dirty o1 \<or>
     (wo_published_sessions o1 \<in> {None, Some (of_sessions files)} \<and>
      wo_published_effective o1 \<in> {None, Some (of_effective files)})"

lemma owner_step_publication [simp]:
  "wo_publication_dirty (owner_step o1 op) = wo_publication_dirty o1"
  "wo_published_sessions (owner_step o1 op) = wo_published_sessions o1"
  "wo_published_effective (owner_step o1 op) = wo_published_effective o1"
  by (cases op; auto simp: owner_ops set_serving_def Let_def split: option.splits if_splits)+

lemma mutate_synced:
  assumes "files_synced st" "mutate = (\<lambda>o1. (changed, case op of None \<Rightarrow> o1 | Some x \<Rightarrow> owner_step o1 x))"
  shows "files_synced (snd (snd (mutate_and_publish_owner mutate force now w1 w2 st)))"
  using assms by (cases st) (auto simp: mutate_and_publish_owner_def Let_def split: option.splits)

lemma publication_step_synced: "files_synced st \<Longrightarrow> files_synced (publication_step st p)"
  by (cases st; cases p) (auto simp: mutate_synced)

interpretation publisher: stepping publication_step files_synced
  by unfold_locales (rule publication_step_synced)

text \<open>
  C29: the desktop is never left with a stale answer that the publisher thinks is current. After any
  interleaving of in-memory changes, eager publications and failed or partial writes, if the
  publisher sees no need to publish at time \<open>now\<close> then both files on disk hold exactly the owned
  sessions and the owner of that moment; and one publication whose writes succeed brings it there.\<close>

theorem publication_never_strands_files:
  "let st = publisher.run ps (new_owner, files) in
     (publication_needed (fst st) now \<or>
      (of_sessions (snd st) = remote_owned_sessions (fst st) now \<and> of_effective (snd st) = effective_owner (fst st) now)) \<and>
     (let st' = snd (publish_owner_state now True True st) in
        of_sessions (snd st') = remote_owned_sessions (fst st') now \<and>
        of_effective (snd st') = effective_owner (fst st') now \<and> publication_needed (fst st') now = False)"
proof -
  define st where "st = publisher.run ps (new_owner, files)"
  obtain o1 fs where st: "st = (o1, fs)" by (cases st)
  have "files_synced (new_owner, files)" by (simp add: new_owner_def)
  then have "files_synced (o1, fs)"
    unfolding st [symmetric] st_def by (rule publisher.run_inv)
  moreover have "remote_owned_sessions (o1\<lparr>wo_publication_dirty := d, wo_published_effective := e,
        wo_published_sessions := p\<rparr>) now = remote_owned_sessions o1 now"
      "effective_owner (o1\<lparr>wo_publication_dirty := d, wo_published_effective := e,
        wo_published_sessions := p\<rparr>) now = effective_owner o1 now" for d e p
    by (simp_all add: remote_owned_sessions_def effective_owner_def remote_owned_viewports_map
        owned_map_cong [of "o1\<lparr>wo_publication_dirty := d, wo_published_effective := e,
          wo_published_sessions := p\<rparr>" o1] presence_deadline_def remote_present_def past_grace_def)
  ultimately show ?thesis
    unfolding Let_def st_def [symmetric] st
    by (auto simp: publication_needed_def publish_owner_state_def mutate_and_publish_owner_def Let_def)
qed

text \<open>
  a reservation that cannot be published grants nothing. When the desktop's suppression file could
  not be written, the refused reservation leaves no lease behind that was not there before, even if
  the rollback's own writes fail as well.\<close>

theorem failed_reservation_grants_nothing:
  assumes "lease_reserve c s now w1 w2 w3 w4 (o0, files) = (Inl (), o1, files1)"
  shows "set (wo_creation_leases o1) \<subseteq> set (wo_creation_leases o0)"
  using assms
  by (auto simp: lease_reserve_def mutate_and_publish_owner_def note_remote_creation_def
      clear_remote_creation_def issue_authority_generation_def drop_lease_def Let_def
      split: if_splits option.splits prod.splits)

theorem failed_reservation_grants_nothing_witness:
  "\<exists>o1 files1. lease_reserve ''c1'' ''s9'' 50 False True False True (demo_viewed, \<lparr>of_sessions = [], of_effective = OwnerLocal\<rparr>)
       = (Inl (), o1, files1) \<and> set (wo_creation_leases o1) \<subseteq> set (wo_creation_leases demo_viewed)"
proof -
  obtain o1 files1 where r: "lease_reserve ''c1'' ''s9'' 50 False True False True
      (demo_viewed, \<lparr>of_sessions = [], of_effective = OwnerLocal\<rparr>) = (Inl (), o1, files1)"
    by (simp add: lease_reserve_def mutate_and_publish_owner_def note_remote_creation_def demo_viewed_eq
        new_owner_def clear_remote_creation_def issue_authority_generation_def Let_def)
  from failed_reservation_grants_nothing [OF r] r show ?thesis by blast
qed

end
