(* ===== verification/Pane_Layout.thy ===== *)
theory Pane_Layout
  imports Prelude Complex_Main
begin

text \<open>
  The pane-layout engine of the desktop shell (\<^verbatim>\<open>maestro-shell/src/pane_layout.rs\<close>): the canonical
  layouts, the assignment of agents to slots, and the transitions over them (swap, swallow, split,
  revive, reduce), with the laws that no transition loses, duplicates or invents an agent.

  A \<^verbatim>\<open>BTreeMap<SlotId, _>\<close> is a map whose iteration visits \<open>all_slots\<close> in order. The ratios are finite
  \<^verbatim>\<open>f32\<close> values, read as the rationals they are; no operation of this theory computes with them.
\<close>

section \<open>Slots and layouts\<close>

datatype slot_id = S0 | S1 | S2 | S3

datatype split_id = Col0 | Col1 | Col2 | Row0 | Row1 | Row2 | MainCut | SideCut

datatype canonical_layout =
    OneFull | TwoColumns | TwoRows
  | ThreeColumns | ThreeRows | ThreeLeftMain | ThreeRightMain | ThreeTopMain | ThreeBottomMain
  | FourGrid | FourColumns | FourRows | FourLeftSplit | FourTopSplit
  | FourLeftMain | FourRightMain | FourTopMain | FourBottomMain

type_synonym f32 = rat
type_synonym agent_id = string
type_synonym slot_assignment = "slot_id \<rightharpoonup> agent_id"

definition all_slots :: "slot_id list" where
  "all_slots = [S0, S1, S2, S3]"

fun pane_count :: "canonical_layout \<Rightarrow> nat" where
  "pane_count OneFull = 1"
| "pane_count TwoColumns = 2"
| "pane_count TwoRows = 2"
| "pane_count ThreeColumns = 3"
| "pane_count ThreeRows = 3"
| "pane_count ThreeLeftMain = 3"
| "pane_count ThreeRightMain = 3"
| "pane_count ThreeTopMain = 3"
| "pane_count ThreeBottomMain = 3"
| "pane_count FourGrid = 4"
| "pane_count FourColumns = 4"
| "pane_count FourRows = 4"
| "pane_count FourLeftSplit = 4"
| "pane_count FourTopSplit = 4"
| "pane_count FourLeftMain = 4"
| "pane_count FourRightMain = 4"
| "pane_count FourTopMain = 4"
| "pane_count FourBottomMain = 4"

definition first_slots :: "nat \<Rightarrow> slot_id list" where
  "first_slots n = take n all_slots"

definition layout_slots :: "canonical_layout \<Rightarrow> slot_id list" where
  "layout_slots l = first_slots (pane_count l)"

record pane_layout_model =
  pl_layout :: canonical_layout
  pl_assignment :: slot_assignment
  pl_ratios :: "split_id \<rightharpoonup> f32"

datatype pane_layout_error =
    UnsupportedAgentCount nat
  | EmptyAgentId
  | DuplicateAgent agent_id
  | AgentNotFound string

fun default_layout_for :: "nat \<Rightarrow> canonical_layout option" where
  "default_layout_for n =
     (if n = 1 then Some OneFull
      else if n = 2 then Some TwoColumns
      else if n = 3 then Some ThreeColumns
      else if n = 4 then Some FourGrid
      else None)"

declare default_layout_for.simps [simp del]

section \<open>The model and its invariant\<close>

text \<open>\<^verbatim>\<open>BTreeMap::values\<close>: the occupants in slot order.\<close>

definition assigned_agents :: "slot_assignment \<Rightarrow> agent_id list" where
  "assigned_agents asg = List.map_filter asg all_slots"

text \<open>The loop of \<^verbatim>\<open>from_agents\<close>.\<close>

fun assign_agents ::
    "(slot_id \<times> agent_id) list \<Rightarrow> slot_assignment \<Rightarrow> pane_layout_error + slot_assignment" where
  "assign_agents [] asg = Inr asg"
| "assign_agents ((slot, agent) # rest) asg =
     (if agent = [] then Inl EmptyAgentId
      else if agent \<in> set (assigned_agents asg) then Inl (DuplicateAgent agent)
      else assign_agents rest (asg(slot \<mapsto> agent)))"

definition preferred_layout :: "nat \<Rightarrow> canonical_layout option \<Rightarrow> canonical_layout option" where
  "preferred_layout n prefer =
     (case prefer of
        Some p \<Rightarrow> if pane_count p = n then Some p else default_layout_for n
      | None \<Rightarrow> default_layout_for n)"

definition from_agents ::
    "agent_id list \<Rightarrow> canonical_layout option \<Rightarrow> pane_layout_error + pane_layout_model" where
  "from_agents agents prefer =
     (case preferred_layout (length agents) prefer of
        None \<Rightarrow> Inl (UnsupportedAgentCount (length agents))
      | Some l \<Rightarrow>
          res_bind (assign_agents (zip (layout_slots l) agents) Map.empty) (\<lambda>asg.
            Inr \<lparr>pl_layout = l, pl_assignment = asg, pl_ratios = Map.empty\<rparr>))"

text \<open>\<^verbatim>\<open>all(|a| !a.is_empty() && seen.insert(a.clone()))\<close>.\<close>

fun all_fresh :: "agent_id set \<Rightarrow> agent_id list \<Rightarrow> bool" where
  "all_fresh seen [] = True"
| "all_fresh seen (a # as) = (a \<noteq> [] \<and> a \<notin> seen \<and> all_fresh (insert a seen) as)"

definition is_valid :: "pane_layout_model \<Rightarrow> bool" where
  "is_valid m =
     (let slots = layout_slots (pl_layout m); occupants = assigned_agents (pl_assignment m) in
      if length occupants \<noteq> length slots then False
      else if \<not> list_all (\<lambda>s. pl_assignment m s \<noteq> None) slots then False
      else all_fresh {} occupants)"

definition slot_of :: "pane_layout_model \<Rightarrow> agent_id \<Rightarrow> slot_id option" where
  "slot_of m agent = List.find (\<lambda>s. pl_assignment m s = Some agent) all_slots"

definition agents_in_reading_order :: "pane_layout_model \<Rightarrow> agent_id list" where
  "agents_in_reading_order m = List.map_filter (pl_assignment m) (layout_slots (pl_layout m))"

section \<open>Transitions that keep the pane count\<close>

definition swap_agents ::
    "pane_layout_model \<Rightarrow> agent_id \<Rightarrow> agent_id \<Rightarrow> pane_layout_error + pane_layout_model" where
  "swap_agents m a b =
     (case slot_of m a of
        None \<Rightarrow> Inl (AgentNotFound a)
      | Some slot_a \<Rightarrow>
          (case slot_of m b of
             None \<Rightarrow> Inl (AgentNotFound b)
           | Some slot_b \<Rightarrow>
               Inr (if slot_a \<noteq> slot_b
                    then m\<lparr>pl_assignment := (pl_assignment m)(slot_a \<mapsto> b, slot_b \<mapsto> a)\<rparr>
                    else m)))"

datatype swallow_dir = SwLeft | SwRight | SwUp | SwDown

fun swallow_horizontal :: "swallow_dir \<Rightarrow> bool" where
  "swallow_horizontal d = (d = SwLeft \<or> d = SwRight)"

definition swallow_target ::
    "canonical_layout \<Rightarrow> slot_id \<Rightarrow> swallow_dir \<Rightarrow> canonical_layout option" where
  "swallow_target l slot dir =
     (let h = swallow_horizontal dir in
      case (l, slot) of
        (ThreeLeftMain, S1) \<Rightarrow> if h then Some ThreeTopMain else None
      | (ThreeLeftMain, S2) \<Rightarrow> if h then Some ThreeBottomMain else None
      | (ThreeRightMain, S0) \<Rightarrow> if h then Some ThreeTopMain else None
      | (ThreeRightMain, S2) \<Rightarrow> if h then Some ThreeBottomMain else None
      | (ThreeTopMain, S1) \<Rightarrow> if \<not> h then Some ThreeLeftMain else None
      | (ThreeTopMain, S2) \<Rightarrow> if \<not> h then Some ThreeRightMain else None
      | (ThreeBottomMain, S0) \<Rightarrow> if \<not> h then Some ThreeLeftMain else None
      | (ThreeBottomMain, S1) \<Rightarrow> if \<not> h then Some ThreeRightMain else None
      | (ThreeColumns, S0) \<Rightarrow> if \<not> h then Some ThreeLeftMain else None
      | (ThreeColumns, S2) \<Rightarrow> if \<not> h then Some ThreeRightMain else None
      | (ThreeRows, S0) \<Rightarrow> if h then Some ThreeTopMain else None
      | (ThreeRows, S2) \<Rightarrow> if h then Some ThreeBottomMain else None
      | (FourLeftMain, S1) \<Rightarrow> if h then Some FourTopMain else None
      | (FourLeftMain, S3) \<Rightarrow> if h then Some FourBottomMain else None
      | (FourRightMain, S0) \<Rightarrow> if h then Some FourTopMain else None
      | (FourRightMain, S2) \<Rightarrow> if h then Some FourBottomMain else None
      | (FourTopMain, S1) \<Rightarrow> if \<not> h then Some FourLeftMain else None
      | (FourTopMain, S3) \<Rightarrow> if \<not> h then Some FourRightMain else None
      | (FourBottomMain, S0) \<Rightarrow> if \<not> h then Some FourLeftMain else None
      | (FourBottomMain, S2) \<Rightarrow> if \<not> h then Some FourRightMain else None
      | _ \<Rightarrow> None)"

fun main_slot_for_layout :: "canonical_layout \<Rightarrow> slot_id option" where
  "main_slot_for_layout l =
     (case l of
        ThreeLeftMain \<Rightarrow> Some S0
      | ThreeTopMain \<Rightarrow> Some S0
      | ThreeRightMain \<Rightarrow> Some S1
      | ThreeBottomMain \<Rightarrow> Some S2
      | FourLeftMain \<Rightarrow> Some S0
      | FourTopMain \<Rightarrow> Some S0
      | FourRightMain \<Rightarrow> Some S1
      | FourBottomMain \<Rightarrow> Some S3
      | _ \<Rightarrow> None)"

text \<open>
  The loop of \<^verbatim>\<open>apply_swallow\<close>: each remaining slot takes the next survivor. It ends with no value when
  there are too few survivors or one is left over.
\<close>

fun fill_slots :: "slot_id list \<Rightarrow> agent_id list \<Rightarrow> slot_assignment \<Rightarrow> slot_assignment option" where
  "fill_slots [] survivors asg = (if survivors = [] then Some asg else None)"
| "fill_slots (s # ss) survivors asg =
     (case survivors of [] \<Rightarrow> None | a # rest \<Rightarrow> fill_slots ss rest (asg(s \<mapsto> a)))"

definition apply_swallow ::
    "pane_layout_model \<Rightarrow> slot_id \<Rightarrow> swallow_dir \<Rightarrow> pane_layout_model option" where
  "apply_swallow m slot dir =
     (case swallow_target (pl_layout m) slot dir of
        None \<Rightarrow> None
      | Some target \<Rightarrow>
          (case pl_assignment m slot of
             None \<Rightarrow> None
           | Some selected \<Rightarrow>
               (case main_slot_for_layout target of
                  None \<Rightarrow> None
                | Some main_slot \<Rightarrow>
                    map_option (\<lambda>asg. \<lparr>pl_layout = target, pl_assignment = asg, pl_ratios = Map.empty\<rparr>)
                      (fill_slots (filter (\<lambda>s. s \<noteq> main_slot) (layout_slots target))
                         (filter (\<lambda>a. a \<noteq> selected) (agents_in_reading_order m))
                         [main_slot \<mapsto> selected]))))"

section \<open>Transitions that change the pane count\<close>

datatype edge_dir = EdgeLeft | EdgeRight | EdgeTop | EdgeBottom

fun edge_horizontal :: "edge_dir \<Rightarrow> bool" where
  "edge_horizontal e = (e = EdgeLeft \<or> e = EdgeRight)"

fun edge_front :: "edge_dir \<Rightarrow> bool" where
  "edge_front e = (e = EdgeLeft \<or> e = EdgeTop)"

fun edge_after :: "edge_dir \<Rightarrow> bool" where
  "edge_after e = (e = EdgeRight \<or> e = EdgeBottom)"

definition split_growth_target ::
    "canonical_layout \<Rightarrow> edge_dir \<Rightarrow> (canonical_layout \<times> bool) option" where
  "split_growth_target l edge =
     (let h = edge_horizontal edge in
      map_option (\<lambda>target. (target, edge_front edge))
        (case l of
           OneFull \<Rightarrow> Some (if h then TwoColumns else TwoRows)
         | TwoColumns \<Rightarrow> if h then Some ThreeColumns else None
         | ThreeColumns \<Rightarrow> if h then Some FourColumns else None
         | TwoRows \<Rightarrow> if \<not> h then Some ThreeRows else None
         | ThreeRows \<Rightarrow> if \<not> h then Some FourRows else None
         | _ \<Rightarrow> None))"

text \<open>The two checks every growing operation makes of the incoming agent.\<close>

definition incoming_ok :: "pane_layout_model \<Rightarrow> agent_id \<Rightarrow> pane_layout_error + unit" where
  "incoming_ok m agent =
     (if agent = [] then Inl EmptyAgentId
      else if agent \<in> set (assigned_agents (pl_assignment m)) then Inl (DuplicateAgent agent)
      else Inr ())"

definition split_in_direction ::
    "pane_layout_model \<Rightarrow> edge_dir \<Rightarrow> agent_id \<Rightarrow> pane_layout_error + pane_layout_model option" where
  "split_in_direction m edge new_agent =
     res_bind (incoming_ok m new_agent) (\<lambda>_.
       case split_growth_target (pl_layout m) edge of
         None \<Rightarrow> Inr None
       | Some (target, at_front) \<Rightarrow>
           let agents = agents_in_reading_order m;
               agents1 = (if at_front then new_agent # agents else agents @ [new_agent])
           in res_bind (from_agents agents1 (Some target)) (\<lambda>m1. Inr (Some m1)))"

definition split_growth_target_from_slot ::
    "canonical_layout \<Rightarrow> slot_id \<Rightarrow> edge_dir \<Rightarrow> canonical_layout option" where
  "split_growth_target_from_slot l from_slot edge =
     (let h = edge_horizontal edge in
      case l of
        OneFull \<Rightarrow> if from_slot = S0 then Some (if h then TwoColumns else TwoRows) else None
      | TwoColumns \<Rightarrow>
          if h then Some ThreeColumns
          else if from_slot = S0 then Some ThreeRightMain
          else if from_slot = S1 then Some ThreeLeftMain else None
      | TwoRows \<Rightarrow>
          if \<not> h then Some ThreeRows
          else if from_slot = S0 then Some ThreeBottomMain
          else if from_slot = S1 then Some ThreeTopMain else None
      | ThreeColumns \<Rightarrow>
          if h then Some FourColumns else if from_slot = S0 then Some FourLeftSplit else None
      | ThreeRows \<Rightarrow> if \<not> h then Some FourRows else None
      | ThreeRightMain \<Rightarrow> if from_slot = S1 \<and> \<not> h then Some FourGrid else None
      | ThreeBottomMain \<Rightarrow> if from_slot = S2 \<and> h then Some FourGrid else None
      | _ \<Rightarrow> None)"

text \<open>\<^verbatim>\<open>format!("{from_slot:?}")\<close> and \<^verbatim>\<open>Vec::insert\<close> at an index within the bounds.\<close>

fun slot_debug :: "slot_id \<Rightarrow> string" where
  "slot_debug S0 = ''S0''"
| "slot_debug S1 = ''S1''"
| "slot_debug S2 = ''S2''"
| "slot_debug S3 = ''S3''"

definition insert_at :: "nat \<Rightarrow> 'a \<Rightarrow> 'a list \<Rightarrow> 'a list" where
  "insert_at i x xs = take i xs @ x # drop i xs"

definition split_in_direction_from_slot ::
    "pane_layout_model \<Rightarrow> slot_id \<Rightarrow> edge_dir \<Rightarrow> agent_id
     \<Rightarrow> pane_layout_error + pane_layout_model option" where
  "split_in_direction_from_slot m from_slot edge new_agent =
     res_bind (incoming_ok m new_agent) (\<lambda>_.
       if pl_assignment m from_slot = None then Inl (AgentNotFound (slot_debug from_slot))
       else case split_growth_target_from_slot (pl_layout m) from_slot edge of
         None \<Rightarrow> Inr None
       | Some target \<Rightarrow>
           let agents = agents_in_reading_order m;
               agents1 = (if pl_layout m = TwoRows \<and> from_slot = S0 \<and> edge = EdgeRight
                          then insert_at 1 new_agent agents else agents @ [new_agent])
           in res_bind (from_agents agents1 (Some target)) (\<lambda>m1. Inr (Some m1)))"

text \<open>
  \<^verbatim>\<open>split_ordered_from_slot\<close> chooses a layout and a reading order in one \<^verbatim>\<open>match\<close>. The outer option is
  \<open>None\<close> where an index is out of bounds (a panic), the inner one where the code returns \<^verbatim>\<open>Ok(None)\<close>.
  \<open>near\<close> is the closure \<^verbatim>\<open>insert_near_source\<close>, \<open>need n k\<close> indexes the agents below \<open>n\<close>.
\<close>

definition dock_pair :: "bool \<Rightarrow> agent_id \<Rightarrow> agent_id \<Rightarrow> agent_id \<times> agent_id" where
  "dock_pair insert_after source new_agent =
     (if insert_after then (source, new_agent) else (new_agent, source))"

definition get_or_default :: "agent_id list \<Rightarrow> nat \<Rightarrow> agent_id" where
  "get_or_default as i = (if i < length as then as ! i else [])"

definition docked_order ::
    "canonical_layout \<Rightarrow> slot_id \<Rightarrow> bool \<Rightarrow> bool \<Rightarrow> nat \<Rightarrow> agent_id \<Rightarrow> agent_id \<Rightarrow> agent_id list
     \<Rightarrow> (canonical_layout \<times> agent_id list) option option" where
  "docked_order l from_slot h insert_after source_index source new_agent agents =
     (let near = (\<lambda>target.
            let i = source_index + of_bool insert_after in
            if i \<le> length agents then Some (Some (target, insert_at i new_agent agents)) else None);
          (p0, p1) = dock_pair insert_after source new_agent;
          other = get_or_default agents (of_bool (source_index = 0));
          need = (\<lambda>n target order. if length agents < n then None else Some (Some (target, order)))
      in case l of
        OneFull \<Rightarrow> near (if h then TwoColumns else TwoRows)
      | TwoColumns \<Rightarrow>
          if h then near ThreeColumns
          else if from_slot = S0 then Some (Some (ThreeRightMain, [p0, other, p1]))
          else Some (Some (ThreeLeftMain, [other, p0, p1]))
      | TwoRows \<Rightarrow>
          if \<not> h then near ThreeRows
          else if from_slot = S0 then Some (Some (ThreeBottomMain, [p0, p1, other]))
          else Some (Some (ThreeTopMain, [other, p0, p1]))
      | ThreeRightMain \<Rightarrow>
          if from_slot = S1 \<and> \<not> h then need 3 FourGrid [agents ! 0, p0, agents ! 2, p1]
          else if from_slot = S1 \<and> h then need 3 FourLeftSplit [agents ! 0, p0, p1, agents ! 2]
          else if from_slot = S0 then need 3 FourRightMain [p0, agents ! 1, p1, agents ! 2]
          else if from_slot = S2 then need 2 FourRightMain [agents ! 0, agents ! 1, p0, p1]
          else near (if h then FourColumns else FourRows)
      | ThreeLeftMain \<Rightarrow>
          if from_slot = S0 \<and> \<not> h then need 3 FourGrid [p0, agents ! 1, p1, agents ! 2]
          else if from_slot = S1 \<or> from_slot = S2 then near FourLeftMain
          else near (if h then FourColumns else FourRows)
      | ThreeBottomMain \<Rightarrow>
          if from_slot = S2 \<and> h then need 2 FourGrid [agents ! 0, agents ! 1, p0, p1]
          else if from_slot = S2 \<and> \<not> h then need 2 FourTopSplit [agents ! 0, agents ! 1, p0, p1]
          else if from_slot = S0 \<or> from_slot = S1 then near FourBottomMain
          else near (if h then FourColumns else FourRows)
      | ThreeTopMain \<Rightarrow>
          if from_slot = S0 \<and> h then need 3 FourGrid [p0, p1, agents ! 1, agents ! 2]
          else if from_slot = S1 \<or> from_slot = S2 then near FourTopMain
          else near (if h then FourColumns else FourRows)
      | ThreeColumns \<Rightarrow> near (if h then FourColumns else FourRows)
      | ThreeRows \<Rightarrow> near (if h then FourColumns else FourRows)
      | _ \<Rightarrow> Some None)"

definition split_ordered_from_slot ::
    "pane_layout_model \<Rightarrow> slot_id \<Rightarrow> edge_dir \<Rightarrow> agent_id
     \<Rightarrow> (pane_layout_error + pane_layout_model option) option" where
  "split_ordered_from_slot m from_slot edge new_agent =
     (case incoming_ok m new_agent of
        Inl e \<Rightarrow> Some (Inl e)
      | Inr _ \<Rightarrow>
          (case pl_assignment m from_slot of
             None \<Rightarrow> Some (Inl (AgentNotFound (slot_debug from_slot)))
           | Some source \<Rightarrow>
               (case position (\<lambda>s. s = from_slot) (layout_slots (pl_layout m)) of
                  None \<Rightarrow> Some (Inl (AgentNotFound (slot_debug from_slot)))
                | Some source_index \<Rightarrow>
                    (case docked_order (pl_layout m) from_slot (edge_horizontal edge) (edge_after edge)
                            source_index source new_agent (agents_in_reading_order m) of
                       None \<Rightarrow> None
                     | Some None \<Rightarrow> Some (Inr None)
                     | Some (Some (target, order)) \<Rightarrow>
                         Some (res_bind (from_agents order (Some target)) (\<lambda>m1. Inr (Some m1)))))))"

fun revive_target :: "canonical_layout \<Rightarrow> canonical_layout option" where
  "revive_target l =
     (case l of
        OneFull \<Rightarrow> Some TwoColumns
      | TwoColumns \<Rightarrow> Some ThreeRightMain
      | TwoRows \<Rightarrow> Some ThreeBottomMain
      | ThreeColumns \<Rightarrow> Some FourLeftSplit
      | ThreeRows \<Rightarrow> Some FourTopSplit
      | ThreeLeftMain \<Rightarrow> Some FourGrid
      | ThreeRightMain \<Rightarrow> Some FourGrid
      | ThreeTopMain \<Rightarrow> Some FourGrid
      | ThreeBottomMain \<Rightarrow> Some FourGrid
      | _ \<Rightarrow> None)"

definition revive ::
    "pane_layout_model \<Rightarrow> agent_id \<Rightarrow> pane_layout_error + pane_layout_model option" where
  "revive m revived =
     res_bind (incoming_ok m revived) (\<lambda>_.
       case revive_target (pl_layout m) of
         None \<Rightarrow> Inr None
       | Some target \<Rightarrow>
           res_bind (from_agents (agents_in_reading_order m @ [revived]) (Some target))
             (\<lambda>m1. Inr (Some m1)))"

definition reduce_removing ::
    "pane_layout_model \<Rightarrow> agent_id \<Rightarrow> pane_layout_error + pane_layout_model option" where
  "reduce_removing m agent =
     (if slot_of m agent = None then Inl (AgentNotFound agent)
      else let survivors = filter (\<lambda>a. a \<noteq> agent) (agents_in_reading_order m) in
           if survivors = [] then Inr None
           else res_bind (from_agents survivors None) (\<lambda>m1. Inr (Some m1)))"

lemmas [layout_defs] = swap_agents_def apply_swallow_def split_in_direction_def
  split_in_direction_from_slot_def split_ordered_from_slot_def revive_def reduce_removing_def

section \<open>A model is a layout and a reading order\<close>

lemma set_all_slots [simp]: "set all_slots = UNIV"
proof -
  have "s \<in> set all_slots" for s
    by (cases s) (simp_all add: all_slots_def)
  then show ?thesis by blast
qed

lemma distinct_all_slots [simp]: "distinct all_slots"
  by (simp add: all_slots_def)

lemma pane_count_bounds [simp]: "0 < pane_count l" "pane_count l \<le> 4"
  by (cases l; simp)+

lemma layout_slots_distinct [simp]: "distinct (layout_slots l)"
  by (simp add: layout_slots_def first_slots_def)

lemma length_layout_slots [simp]: "length (layout_slots l) = pane_count l"
  by (cases l) (simp_all add: layout_slots_def first_slots_def all_slots_def)

lemma layout_slots_prefix: "all_slots = layout_slots l @ drop (pane_count l) all_slots"
  by (simp add: layout_slots_def first_slots_def)

lemma set_assigned_agents [simp]: "set (assigned_agents asg) = ran asg"
proof -
  have "set (List.map_filter asg xs) = {a. \<exists>s \<in> set xs. asg s = Some a}" for xs
    by (induction xs) (auto simp: map_filter_simps split: option.splits)
  then show ?thesis
    by (simp add: assigned_agents_def ran_def)
qed

lemma length_map_filter_card:
  assumes "distinct xs"
  shows "length (List.map_filter f xs) = card (dom f \<inter> set xs)"
proof -
  have "length (List.map_filter f xs) = card (set (filter (\<lambda>x. f x \<noteq> None) xs))"
    using assms distinct_card [OF distinct_filter [OF assms, of "\<lambda>x. f x \<noteq> None"]]
    by (simp only: map_filter_def length_map)
  also have "set (filter (\<lambda>x. f x \<noteq> None) xs) = dom f \<inter> set xs"
    by auto
  finally show ?thesis .
qed

lemma all_fresh_iff: "all_fresh seen as \<longleftrightarrow> distinct as \<and> [] \<notin> set as \<and> set as \<inter> seen = {}"
  by (induction seen as rule: all_fresh.induct) auto

lemma map_filter_total:
  "set xs \<subseteq> dom f \<Longrightarrow> List.map_filter f xs = map (\<lambda>x. the (f x)) xs"
  by (induction xs) (auto simp: map_filter_def)

lemma assigned_reading:
  assumes "dom (pl_assignment m) = set (layout_slots (pl_layout m))"
  shows "assigned_agents (pl_assignment m) = agents_in_reading_order m"
proof -
  have "set (drop (pane_count (pl_layout m)) all_slots) \<inter> set (layout_slots (pl_layout m)) = {}"
    using distinct_all_slots
    by (metis layout_slots_prefix distinct_append inf_commute)
  then have "List.map_filter (pl_assignment m) (drop (pane_count (pl_layout m)) all_slots) = []"
    using assms by (auto simp: map_filter_def filter_empty_conv)
  then show ?thesis
    by (subst assigned_agents_def, subst layout_slots_prefix [of "pl_layout m"])
      (simp add: agents_in_reading_order_def map_filter_def)
qed

lemma is_valid_iff:
  "is_valid m \<longleftrightarrow>
     dom (pl_assignment m) = set (layout_slots (pl_layout m)) \<and>
     distinct (agents_in_reading_order m) \<and> [] \<notin> set (agents_in_reading_order m)"
proof -
  let ?asg = "pl_assignment m" and ?slots = "layout_slots (pl_layout m)"
  have "length (assigned_agents ?asg) = card (dom ?asg)"
    by (simp add: assigned_agents_def length_map_filter_card)
  moreover have "list_all (\<lambda>s. ?asg s \<noteq> None) ?slots \<longleftrightarrow> set ?slots \<subseteq> dom ?asg"
    by (auto simp: list_all_iff)
  moreover have "card (set ?slots) = length ?slots"
    by (simp add: distinct_card)
  moreover have "finite (dom ?asg)"
    by (rule finite_subset [OF _ finite_set [of all_slots]]) simp
  ultimately have "length (assigned_agents ?asg) = length ?slots \<and> list_all (\<lambda>s. ?asg s \<noteq> None) ?slots
      \<longleftrightarrow> dom ?asg = set ?slots"
    by (metis card_subset_eq order_refl)
  then show ?thesis
    unfolding is_valid_def Let_def using assigned_reading [of m]
    by (auto simp: all_fresh_iff simp del: set_assigned_agents)
qed

definition model_of :: "canonical_layout \<Rightarrow> agent_id list \<Rightarrow> pane_layout_model" where
  "model_of l agents =
     \<lparr>pl_layout = l, pl_assignment = map_of (zip (layout_slots l) agents), pl_ratios = Map.empty\<rparr>"

lemma model_of_sel [simp]:
  "pl_layout (model_of l agents) = l" "pl_ratios (model_of l agents) = Map.empty"
  by (simp_all add: model_of_def)

lemma reading_model_of [simp]:
  assumes "length agents = pane_count l"
  shows "agents_in_reading_order (model_of l agents) = agents"
proof -
  have "List.map_filter (map_of (zip xs ys)) xs = ys" if "distinct xs" "length xs = length ys"
    for xs :: "slot_id list" and ys :: "agent_id list"
  proof -
    have "List.map_filter (map_of (zip xs ys)) xs = map (\<lambda>x. the (map_of (zip xs ys) x)) xs"
      using that by (intro map_filter_total) simp
    also have "\<dots> = ys"
      using that by (intro nth_equalityI) (simp_all add: map_of_zip_nth)
    finally show ?thesis .
  qed
  then show ?thesis
    using assms by (simp add: agents_in_reading_order_def model_of_def)
qed

lemma valid_model_of:
  "length agents = pane_count l \<Longrightarrow> is_valid (model_of l agents) \<longleftrightarrow> distinct agents \<and> [] \<notin> set agents"
  by (simp add: is_valid_iff) (simp add: model_of_def)

lemma length_reading:
  "is_valid m \<Longrightarrow> length (agents_in_reading_order m) = pane_count (pl_layout m)"
  by (simp add: is_valid_iff agents_in_reading_order_def map_filter_total)

lemma valid_is_model_of:
  assumes "is_valid m"
  shows "m = (model_of (pl_layout m) (agents_in_reading_order m))\<lparr>pl_ratios := pl_ratios m\<rparr>"
proof -
  let ?slots = "layout_slots (pl_layout m)"
  have dom: "dom (pl_assignment m) = set ?slots"
    using assms by (simp add: is_valid_iff)
  have "map_of (zip ?slots (agents_in_reading_order m)) = pl_assignment m"
  proof (rule ext)
    fix s
    show "map_of (zip ?slots (agents_in_reading_order m)) s = pl_assignment m s"
      using dom domIff [of s "pl_assignment m"]
      by (auto simp: agents_in_reading_order_def map_filter_total map_of_zip_map)
  qed
  then show ?thesis
    by (simp add: model_of_def)
qed

text \<open>Two valid models with the same layout, reading order and ratios are the same model.\<close>

lemma valid_model_eqI:
  assumes "is_valid m" "is_valid n" "pl_layout m = pl_layout n" "pl_ratios m = pl_ratios n"
    "agents_in_reading_order m = agents_in_reading_order n"
  shows "m = n"
  using valid_is_model_of [OF assms(1)] valid_is_model_of [OF assms(2)] assms(3-5) by metis

lemma ran_assignment: "is_valid m \<Longrightarrow> ran (pl_assignment m) = set (agents_in_reading_order m)"
  using assigned_reading [of m] set_assigned_agents [of "pl_assignment m"] by (simp add: is_valid_iff)

section \<open>Building a model\<close>

lemma assign_agents_Inr:
  assumes "length slots = length agents" "distinct slots" "set slots \<inter> dom asg = {}"
  shows "assign_agents (zip slots agents) asg = Inr asg' \<longleftrightarrow>
     distinct agents \<and> [] \<notin> set agents \<and> set agents \<inter> ran asg = {} \<and>
     asg' = asg ++ map_of (zip slots agents)"
  using assms
proof (induction slots agents arbitrary: asg rule: list_induct2)
  case Nil
  then show ?case by auto
next
  case (Cons s slots a agents)
  then have free: "asg s = None" and slots: "distinct slots" "set slots \<inter> dom (asg(s \<mapsto> a)) = {}"
    by auto
  have dom: "s \<notin> dom (map_of (zip slots agents))"
    using Cons.prems(1) Cons.hyps by simp
  have "asg(s \<mapsto> a) ++ map_of (zip slots agents) = asg ++ ((map_of (zip slots agents))(s \<mapsto> a))"
    using dom by (auto simp: map_add_def fun_eq_iff domIff split: option.splits)
  then have IH: "assign_agents (zip slots agents) (asg(s \<mapsto> a)) = Inr asg' \<longleftrightarrow>
      distinct agents \<and> [] \<notin> set agents \<and> set agents \<inter> insert a (ran asg) = {} \<and>
      asg' = asg ++ ((map_of (zip slots agents))(s \<mapsto> a))"
    using Cons.IH [OF slots] by (simp only: ran_map_upd [of asg s, OF free])
  have upd: "map_of ((s, a) # zip slots agents) = (map_of (zip slots agents))(s \<mapsto> a)"
    by (simp add: fun_eq_iff)
  show ?case
    by (simp only: zip_Cons_Cons assign_agents.simps set_assigned_agents upd)
      (use IH in \<open>auto simp: fun_upd_def simp del: map_add_upd\<close>)
qed

lemma preferred_layout_count: "preferred_layout n prefer = Some l \<Longrightarrow> pane_count l = n"
  by (auto simp: preferred_layout_def default_layout_for.simps split: option.splits if_splits)

lemma preferred_layout_exists: "0 < n \<Longrightarrow> n \<le> 4 \<Longrightarrow> \<exists>l. preferred_layout n prefer = Some l"
  by (auto simp: preferred_layout_def default_layout_for.simps split: option.splits)

lemma from_agents_Inr:
  "from_agents agents prefer = Inr m \<longleftrightarrow>
     distinct agents \<and> [] \<notin> set agents \<and>
     (\<exists>l. preferred_layout (length agents) prefer = Some l \<and> m = model_of l agents)"
proof (cases "preferred_layout (length agents) prefer")
  case None
  then show ?thesis by (simp add: from_agents_def)
next
  case (Some l)
  then have "length (layout_slots l) = length agents"
    by (simp add: preferred_layout_count)
  then have "assign_agents (zip (layout_slots l) agents) Map.empty = Inr asg \<longleftrightarrow>
      distinct agents \<and> [] \<notin> set agents \<and> asg = map_of (zip (layout_slots l) agents)" for asg
    by (simp add: assign_agents_Inr)
  with Some show ?thesis
    by (auto simp: from_agents_def res_bind_eq_Inr model_of_def)
qed

text \<open>What every growing or shrinking transition relies on.\<close>

lemma from_agents_ok:
  assumes "agents \<noteq> []" "length agents \<le> 4" "distinct agents" "[] \<notin> set agents"
  obtains m where "from_agents agents prefer = Inr m" "is_valid m"
    "agents_in_reading_order m = agents" "preferred_layout (length agents) prefer = Some (pl_layout m)"
    "pl_ratios m = Map.empty"
proof -
  obtain l where l: "preferred_layout (length agents) prefer = Some l"
    using assms preferred_layout_exists by blast
  then have "length agents = pane_count l"
    by (simp add: preferred_layout_count)
  with l assms show ?thesis
    by (intro that [of "model_of l agents"]) (auto simp: from_agents_Inr valid_model_of)
qed

section \<open>Swapping\<close>

definition transposed :: "agent_id \<Rightarrow> agent_id \<Rightarrow> agent_id \<Rightarrow> agent_id" where
  "transposed a b x = (if x = a then b else if x = b then a else x)"

lemma transposed_involution [simp]: "transposed a b (transposed a b x) = x"
  by (simp add: transposed_def)

lemma inj_transposed: "inj (transposed a b)"
  by (rule inj_on_inverseI [where g = "transposed a b"]) simp

lemma find_SomeD: "List.find P xs = Some x \<Longrightarrow> P x \<and> x \<in> set xs"
  by (auto simp: find_Some_iff)

lemma slot_of_Some: "slot_of m agent = Some s \<Longrightarrow> pl_assignment m s = Some agent"
  unfolding slot_of_def using find_SomeD by fast

lemma slot_of_None: "slot_of m agent = None \<longleftrightarrow> agent \<notin> ran (pl_assignment m)"
  by (auto simp: slot_of_def find_None_iff ran_def)

lemma valid_assignment_inj:
  assumes "is_valid m" "pl_assignment m s = Some a" "pl_assignment m s' = Some a"
  shows "s = s'"
proof -
  let ?slots = "layout_slots (pl_layout m)"
  have dom: "set ?slots = dom (pl_assignment m)"
    and "distinct (map (\<lambda>s. the (pl_assignment m s)) ?slots)"
    using assms(1) map_filter_total [of ?slots "pl_assignment m"]
    by (auto simp: is_valid_iff agents_in_reading_order_def)
  then have "inj_on (\<lambda>s. the (pl_assignment m s)) (dom (pl_assignment m))"
    by (simp add: distinct_map)
  then show ?thesis
    by (rule inj_onD) (use assms(2,3) in auto)
qed

text \<open>Swapping is the renaming of the reading order that exchanges the two agents.\<close>

lemma swap_agents_spec:
  assumes "is_valid m" "swap_agents m a b = Inr m'"
  shows "m' = m\<lparr>pl_assignment := map_option (transposed a b) \<circ> pl_assignment m\<rparr>"
proof -
  obtain sa sb where slots: "slot_of m a = Some sa" "slot_of m b = Some sb"
    and m': "m' = (if sa \<noteq> sb then m\<lparr>pl_assignment := (pl_assignment m)(sa \<mapsto> b, sb \<mapsto> a)\<rparr> else m)"
    using assms(2) by (auto simp: swap_agents_def split: option.splits)
  note at = slot_of_Some [OF slots(1)] slot_of_Some [OF slots(2)]
  have only: "pl_assignment m s = Some a \<longleftrightarrow> s = sa" "pl_assignment m s = Some b \<longleftrightarrow> s = sb" for s
    using valid_assignment_inj [OF assms(1)] at by auto
  have "(if sa \<noteq> sb then (pl_assignment m)(sa \<mapsto> b, sb \<mapsto> a) else pl_assignment m) s =
      map_option (transposed a b) (pl_assignment m s)" for s
    using at only [of s] by (cases "pl_assignment m s") (auto simp: transposed_def)
  then have "(if sa \<noteq> sb then (pl_assignment m)(sa \<mapsto> b, sb \<mapsto> a) else pl_assignment m) =
      map_option (transposed a b) \<circ> pl_assignment m"
    by (simp add: fun_eq_iff)
  with m' show ?thesis
    by (auto split: if_splits)
qed

lemma reading_map_assignment:
  "agents_in_reading_order (m\<lparr>pl_assignment := map_option f \<circ> pl_assignment m\<rparr>) =
     map f (agents_in_reading_order m)"
proof -
  have "List.map_filter (map_option f \<circ> g) xs = map f (List.map_filter g xs)" for g :: slot_assignment and xs
    by (induction xs) (auto simp: map_filter_simps split: option.splits)
  then show ?thesis
    by (simp add: agents_in_reading_order_def)
qed

lemma swap_agents_valid:
  assumes "is_valid m" "swap_agents m a b = Inr m'"
  shows "is_valid m'" "pl_layout m' = pl_layout m" "pl_ratios m' = pl_ratios m"
    "agents_in_reading_order m' = map (transposed a b) (agents_in_reading_order m)"
    "a \<in> set (agents_in_reading_order m)" "b \<in> set (agents_in_reading_order m)"
proof -
  note m' = swap_agents_spec [OF assms]
  show mem: "a \<in> set (agents_in_reading_order m)" "b \<in> set (agents_in_reading_order m)"
    using assms by (auto simp: swap_agents_def slot_of_None ran_assignment [symmetric] ran_def
        dest!: slot_of_Some split: option.splits)
  show "pl_layout m' = pl_layout m" "pl_ratios m' = pl_ratios m"
    "agents_in_reading_order m' = map (transposed a b) (agents_in_reading_order m)"
    by (simp_all add: m' reading_map_assignment)
  have "[] \<notin> transposed a b ` set (agents_in_reading_order m)"
    using assms(1) mem by (auto simp: is_valid_iff transposed_def split: if_splits)
  moreover have "dom (map_option (transposed a b) \<circ> pl_assignment m) = dom (pl_assignment m)"
    by auto
  moreover have "inj_on (transposed a b) A" for A
    using inj_transposed by (rule inj_on_subset) simp
  ultimately show "is_valid m'"
    using assms(1) by (simp add: is_valid_iff m' reading_map_assignment distinct_map)
qed

section \<open>Swallowing\<close>

lemma swallow_target_main:
  assumes "swallow_target l slot dir = Some target"
  shows "pane_count target = pane_count l" "slot \<in> set (layout_slots l)"
    "main_slot_for_layout target \<noteq> None"
  using assms
  by (cases l; cases slot;
      simp add: swallow_target_def layout_slots_def first_slots_def all_slots_def split: if_splits;
      force)+

fun slot_index :: "slot_id \<Rightarrow> nat" where
  "slot_index S0 = 0"
| "slot_index S1 = 1"
| "slot_index S2 = 2"
| "slot_index S3 = 3"

text \<open>The reading order after a swallow: the selected agent moves to the main slot of the target.\<close>

definition swallowed_order :: "canonical_layout \<Rightarrow> agent_id \<Rightarrow> agent_id list \<Rightarrow> agent_id list" where
  "swallowed_order target selected as =
     insert_at (slot_index (the (main_slot_for_layout target))) selected (filter (\<lambda>a. a \<noteq> selected) as)"

lemma map_slot_eqI:
  assumes "f S0 = g S0" "f S1 = g S1" "f S2 = g S2" "f S3 = g S3"
  shows "f = g"
proof
  fix s
  show "f s = g s" using assms by (cases s) simp_all
qed

lemmas slot_tables = layout_slots_def first_slots_def all_slots_def map_filter_def

lemma list_of_three:
  assumes "length xs = 3" obtains a b c where "xs = [a, b, c]"
  using assms by (auto simp: numeral_eq_Suc length_Suc_conv)

lemma list_of_four:
  assumes "length xs = 4" obtains a b c d where "xs = [a, b, c, d]"
  using assms by (auto simp: numeral_eq_Suc length_Suc_conv)

lemma apply_swallow_three:
  assumes "distinct [a, b, c]" "swallow_target l slot dir = Some target" "pane_count l = 3"
    "selected = [a, b, c] ! slot_index slot"
  shows "apply_swallow ((model_of l [a, b, c])\<lparr>pl_ratios := r\<rparr>) slot dir =
     Some (model_of target (swallowed_order target selected [a, b, c]))"
  using assms
  by (cases l; cases slot;
      simp add: swallow_target_def split: if_splits;
      force simp: apply_swallow_def swallow_target_def model_of_def agents_in_reading_order_def
        swallowed_order_def insert_at_def slot_tables intro!: map_slot_eqI)

lemma apply_swallow_four:
  assumes "distinct [a, b, c, d]" "swallow_target l slot dir = Some target" "pane_count l = 4"
    "selected = [a, b, c, d] ! slot_index slot"
  shows "apply_swallow ((model_of l [a, b, c, d])\<lparr>pl_ratios := r\<rparr>) slot dir =
     Some (model_of target (swallowed_order target selected [a, b, c, d]))"
  using assms
  by (cases l; cases slot;
      simp add: swallow_target_def split: if_splits;
      force simp: apply_swallow_def swallow_target_def model_of_def agents_in_reading_order_def
        swallowed_order_def insert_at_def slot_tables intro!: map_slot_eqI)


lemma swallow_target_panes:
  "swallow_target l slot dir = Some target \<Longrightarrow> pane_count l = 3 \<or> pane_count l = 4"
  by (cases l) (auto simp: swallow_target_def split: slot_id.splits)

lemma slot_index_nth:
  "slot_index s < pane_count l \<longleftrightarrow> s \<in> set (layout_slots l)"
  "slot_index s < pane_count l \<Longrightarrow> layout_slots l ! slot_index s = s"
  by (cases l; cases s; simp add: slot_tables)+

lemma agent_at_slot:
  assumes "is_valid m" "pl_assignment m slot = Some a"
  shows "agents_in_reading_order m ! slot_index slot = a" "slot_index slot < pane_count (pl_layout m)"
proof -
  let ?slots = "layout_slots (pl_layout m)"
  have "slot \<in> set ?slots"
    using assms by (auto simp: is_valid_iff)
  then have idx: "slot_index slot < pane_count (pl_layout m)" "?slots ! slot_index slot = slot"
    using slot_index_nth [of slot "pl_layout m"] by simp_all
  then show "slot_index slot < pane_count (pl_layout m)" by blast
  show "agents_in_reading_order m ! slot_index slot = a"
    using assms idx by (simp add: is_valid_iff agents_in_reading_order_def map_filter_total)
qed

text \<open>A legal swallow of a valid model always succeeds.\<close>

lemma apply_swallow_spec:
  assumes valid: "is_valid m" and target: "swallow_target (pl_layout m) slot dir = Some target"
    and sel: "pl_assignment m slot = Some selected"
  shows "apply_swallow m slot dir = Some (model_of target (swallowed_order target selected (agents_in_reading_order m)))"
proof -
  let ?as = "agents_in_reading_order m"
  have m: "m = (model_of (pl_layout m) ?as)\<lparr>pl_ratios := pl_ratios m\<rparr>"
    by (rule valid_is_model_of [OF valid])
  have as: "distinct ?as" "length ?as = pane_count (pl_layout m)" "selected = ?as ! slot_index slot"
    using valid length_reading [OF valid] agent_at_slot [OF valid sel] by (simp_all add: is_valid_iff)
  from swallow_target_panes [OF target] show ?thesis
  proof
    assume n: "pane_count (pl_layout m) = 3"
    then obtain a b c where abc: "?as = [a, b, c]"
      using as(2) by (metis list_of_three)
    show ?thesis
      using apply_swallow_three [OF _ target n, of a b c selected "pl_ratios m"] as abc m by simp
  next
    assume n: "pane_count (pl_layout m) = 4"
    then obtain a b c d where abcd: "?as = [a, b, c, d]"
      using as(2) by (metis list_of_four)
    show ?thesis
      using apply_swallow_four [OF _ target n, of a b c d selected "pl_ratios m"] as abcd m by simp
  qed
qed

lemma set_insert_at [simp]: "set (insert_at i x xs) = insert x (set xs)"
  using set_append [of "take i xs" "drop i xs"] by (simp add: insert_at_def del: set_append)
     (simp only: set_append list.set(2) Un_insert_right)

lemma length_insert_at [simp]: "length (insert_at i x xs) = Suc (length xs)"
  by (simp add: insert_at_def)

lemma distinct_insert_at [simp]: "distinct (insert_at i x xs) \<longleftrightarrow> distinct xs \<and> x \<notin> set xs"
proof -
  have "distinct (insert_at i x xs) \<longleftrightarrow> distinct (x # take i xs @ drop i xs)"
    by (auto simp: insert_at_def simp del: append_take_drop_id)
  then show ?thesis by auto
qed

lemma filter_insert_at: "\<not> P x \<Longrightarrow> filter P (insert_at i x xs) = filter P xs"
  using filter_append [of P "take i xs" "drop i xs"] by (simp add: insert_at_def)

lemma length_filter_one_out:
  "distinct xs \<Longrightarrow> x \<in> set xs \<Longrightarrow> Suc (length (filter (\<lambda>y. y \<noteq> x) xs)) = length xs"
  by (induction xs) (auto intro!: arg_cong [where f = length] filter_True)

lemma swallowed_order_laws:
  assumes "distinct as" "selected \<in> set as"
  shows "set (swallowed_order target selected as) = set as"
    "distinct (swallowed_order target selected as)"
    "length (swallowed_order target selected as) = length as"
    "filter (\<lambda>a. a \<noteq> selected) (swallowed_order target selected as) = filter (\<lambda>a. a \<noteq> selected) as"
  using assms length_filter_one_out [OF assms]
  by (auto simp: swallowed_order_def filter_insert_at)

lemma assignment_model_of:
  assumes "length agents = pane_count l" "slot_index s < pane_count l"
  shows "pl_assignment (model_of l agents) s = Some (agents ! slot_index s)"
proof -
  have "layout_slots l ! slot_index s = s"
    using assms(2) by (rule slot_index_nth)
  then show ?thesis
    using assms map_of_zip_nth [of "layout_slots l" agents "slot_index s"]
    by (simp add: model_of_def)
qed

section \<open>Growing and shrinking\<close>

lemma incoming_ok_Inr:
  "is_valid m \<Longrightarrow> incoming_ok m a = Inr u \<longleftrightarrow> a \<noteq> [] \<and> a \<notin> set (agents_in_reading_order m)"
  by (auto simp: incoming_ok_def ran_assignment)

text \<open>Every growth table leads to a layout with exactly one more pane.\<close>

lemma growth_target_count:
  "split_growth_target l edge = Some (target, front) \<Longrightarrow> pane_count target = Suc (pane_count l)"
  "split_growth_target_from_slot l s edge = Some target \<Longrightarrow> pane_count target = Suc (pane_count l)"
  "revive_target l = Some target \<Longrightarrow> pane_count target = Suc (pane_count l)"
  by (cases l; auto simp: split_growth_target_def split_growth_target_from_slot_def split: if_splits)+

text \<open>Rebuilding a valid model with one more agent, in any order, into a layout with room for it.\<close>

lemma grown_model:
  assumes "is_valid m" "incoming_ok m a = Inr u" "pane_count target = Suc (pane_count (pl_layout m))"
    "set order = insert a (set (agents_in_reading_order m))"
    "length order = Suc (length (agents_in_reading_order m))"
  shows "from_agents order (Some target) = Inr (model_of target order)" "is_valid (model_of target order)"
    "agents_in_reading_order (model_of target order) = order"
proof -
  let ?as = "agents_in_reading_order m"
  have as: "distinct ?as" "[] \<notin> set ?as" "length ?as = pane_count (pl_layout m)"
    using assms(1) length_reading [OF assms(1)] by (auto simp: is_valid_iff)
  have new: "a \<noteq> []" "a \<notin> set ?as"
    using assms(1,2) by (simp_all add: incoming_ok_Inr)
  have "card (set order) = length order"
    using as new assms(4,5) by (simp add: distinct_card)
  then have "distinct order" "[] \<notin> set order" "length order = pane_count target"
    using as new assms(3-5) by (auto simp: card_distinct)
  then show "from_agents order (Some target) = Inr (model_of target order)"
    "is_valid (model_of target order)" "agents_in_reading_order (model_of target order) = order"
    by (simp_all add: from_agents_Inr preferred_layout_def valid_model_of)
qed


lemma position_slot:
  "s \<in> set (layout_slots l) \<Longrightarrow> position (\<lambda>x. x = s) (layout_slots l) = Some (slot_index s)"
  by (cases l; cases s; simp add: slot_tables)

text \<open>Docking never indexes out of bounds and always makes room for exactly the incoming agent.\<close>

definition grows_by :: "agent_id \<Rightarrow> agent_id list \<Rightarrow> canonical_layout \<Rightarrow> (canonical_layout \<times> agent_id list) option option \<Rightarrow> bool" where
  "grows_by new_agent as l res \<longleftrightarrow>
     (case res of
        None \<Rightarrow> False
      | Some None \<Rightarrow> pane_count l = 4
      | Some (Some (target, order)) \<Rightarrow>
          pane_count target = Suc (pane_count l) \<and> set order = insert new_agent (set as) \<and>
          length order = Suc (length as))"

lemma list_of_count:
  assumes "length xs = pane_count l"
  obtains (one) a where "xs = [a]" "pane_count l = 1" | (two) a b where "xs = [a, b]" "pane_count l = 2"
    | (three) a b c where "xs = [a, b, c]" "pane_count l = 3" | (four) "pane_count l = 4"
proof -
  have "pane_count l = 1 \<or> pane_count l = 2 \<or> pane_count l = 3 \<or> pane_count l = 4"
    by (cases l) simp_all
  then show ?thesis
    using assms one two three four by (auto simp: numeral_eq_Suc length_Suc_conv)
qed

lemma docked_order_grows:
  assumes "length as = pane_count l" "slot_index s < pane_count l"
  shows "grows_by n as l (docked_order l s h after (slot_index s) (as ! slot_index s) n as)"
  using assms(1)
proof (cases rule: list_of_count)
  case one
  then show ?thesis
    using assms(2) by (cases l) (auto simp: grows_by_def docked_order_def dock_pair_def insert_at_def Let_def)
next
  case (two a b)
  then show ?thesis
    using assms(2)
    by (cases l; cases s; simp)
      (auto simp: grows_by_def docked_order_def dock_pair_def insert_at_def get_or_default_def Let_def)
next
  case (three a b c)
  then show ?thesis
    using assms(2)
    by (cases l; cases s; cases h; cases after; simp)
      (auto simp: grows_by_def docked_order_def dock_pair_def insert_at_def Let_def)
next
  case four
  then show ?thesis
    by (cases l) (simp_all add: grows_by_def docked_order_def Let_def split: prod.splits)
qed


section \<open>All transitions\<close>

datatype layout_op =
    OpSwap agent_id agent_id
  | OpSwallow slot_id swallow_dir
  | OpSplit edge_dir agent_id
  | OpSplitFrom slot_id edge_dir agent_id
  | OpDock slot_id edge_dir agent_id
  | OpRevive agent_id
  | OpReduce agent_id

text \<open>One call: \<open>None\<close> is a panic, \<open>Inl\<close> an error, \<open>Inr None\<close> a call without a target.\<close>

fun layout_call :: "pane_layout_model \<Rightarrow> layout_op \<Rightarrow> (pane_layout_error + pane_layout_model option) option" where
  "layout_call m (OpSwap a b) = Some (res_bind (swap_agents m a b) (\<lambda>m1. Inr (Some m1)))"
| "layout_call m (OpSwallow slot dir) = Some (Inr (apply_swallow m slot dir))"
| "layout_call m (OpSplit edge a) = Some (split_in_direction m edge a)"
| "layout_call m (OpSplitFrom slot edge a) = Some (split_in_direction_from_slot m slot edge a)"
| "layout_call m (OpDock slot edge a) = split_ordered_from_slot m slot edge a"
| "layout_call m (OpRevive a) = Some (revive m a)"
| "layout_call m (OpReduce a) = Some (reduce_removing m a)"

fun occupants_after :: "layout_op \<Rightarrow> agent_id set \<Rightarrow> agent_id set" where
  "occupants_after (OpSwap a b) A = A"
| "occupants_after (OpSwallow slot dir) A = A"
| "occupants_after (OpSplit edge a) A = insert a A"
| "occupants_after (OpSplitFrom slot edge a) A = insert a A"
| "occupants_after (OpDock slot edge a) A = insert a A"
| "occupants_after (OpRevive a) A = insert a A"
| "occupants_after (OpReduce a) A = A - {a}"

text \<open>What a call may not do, whatever it answers.\<close>

definition keeps_panes ::
    "layout_op \<Rightarrow> pane_layout_model \<Rightarrow> (pane_layout_error + pane_layout_model option) option \<Rightarrow> bool" where
  "keeps_panes op m res \<longleftrightarrow>
     (case res of
        None \<Rightarrow> False
      | Some (Inl e) \<Rightarrow> True
      | Some (Inr None) \<Rightarrow> True
      | Some (Inr (Some m1)) \<Rightarrow>
          is_valid m1 \<and>
          set (agents_in_reading_order m1) = occupants_after op (set (agents_in_reading_order m)))"

lemma swap_keeps_panes: "is_valid m \<Longrightarrow> keeps_panes (OpSwap a b) m (layout_call m (OpSwap a b))"
proof (cases "swap_agents m a b")
  case (Inr m')
  assume "is_valid m"
  note swapped = swap_agents_valid [OF this Inr]
  have "transposed a b ` set (agents_in_reading_order m) = set (agents_in_reading_order m)"
    using swapped(5,6) by (auto simp: transposed_def image_iff)
  with swapped(1,4) Inr show ?thesis
    by (simp add: keeps_panes_def)
qed (simp add: keeps_panes_def)

lemma swallow_keeps_panes:
  assumes "is_valid m"
  shows "keeps_panes (OpSwallow slot dir) m (layout_call m (OpSwallow slot dir))"
proof (cases "swallow_target (pl_layout m) slot dir")
  case None
  then show ?thesis by (simp add: keeps_panes_def apply_swallow_def)
next
  case (Some target)
  have "slot \<in> dom (pl_assignment m)"
    using swallow_target_main(2) [OF Some] assms by (simp add: is_valid_iff)
  then obtain selected where sel: "pl_assignment m slot = Some selected"
    by blast
  have "selected \<in> set (agents_in_reading_order m)"
    using sel assms by (auto simp: ran_assignment [symmetric] ran_def)
  then show ?thesis
    using assms length_reading [OF assms] swallow_target_main(1) [OF Some]
    by (simp add: keeps_panes_def apply_swallow_spec [OF assms Some sel] valid_model_of
        swallowed_order_laws is_valid_iff [of m])
qed

text \<open>The shape the growing calls share: check the incoming agent, look up the table, rebuild.\<close>

lemma rebuild_keeps_panes:
  assumes "is_valid m" "\<And>A. occupants_after op A = insert a A"
    and "\<And>target order. plan = Some (target, order) \<Longrightarrow>
      pane_count target = Suc (pane_count (pl_layout m)) \<and>
      set order = insert a (set (agents_in_reading_order m)) \<and>
      length order = Suc (length (agents_in_reading_order m))"
  shows "keeps_panes op m (Some (res_bind (incoming_ok m a) (\<lambda>_.
     case plan of
       None \<Rightarrow> Inr None
     | Some (target, order) \<Rightarrow> res_bind (from_agents order (Some target)) (\<lambda>m1. Inr (Some m1)))))"
proof (cases "incoming_ok m a")
  case (Inr u)
  show ?thesis
  proof (cases plan)
    case (Some p)
    obtain target order where p: "p = (target, order)"
      by fastforce
    show ?thesis
      using grown_model [OF assms(1) Inr] assms(3) [of target order] Some p
      by (simp add: keeps_panes_def Inr assms(2))
  qed (simp add: keeps_panes_def Inr)
qed (simp add: keeps_panes_def)

lemma split_keeps_panes:
  assumes "is_valid m"
  shows "keeps_panes (OpSplit edge a) m (layout_call m (OpSplit edge a))"
proof -
  let ?as = "agents_in_reading_order m"
  define plan where "plan = map_option (\<lambda>(target, at_front). (target, if at_front then a # ?as else ?as @ [a]))
    (split_growth_target (pl_layout m) edge)"
  have eq: "split_in_direction m edge a = res_bind (incoming_ok m a) (\<lambda>_. case plan of None \<Rightarrow> Inr None
      | Some (target, order) \<Rightarrow> res_bind (from_agents order (Some target)) (\<lambda>m1. Inr (Some m1)))"
    by (auto simp: split_in_direction_def plan_def Let_def split: option.splits)
  have ok: "pane_count target = Suc (pane_count (pl_layout m)) \<and>
      set order = insert a (set (agents_in_reading_order m)) \<and>
      length order = Suc (length (agents_in_reading_order m))" if "plan = Some (target, order)" for target order
    using that by (auto simp: plan_def growth_target_count split: if_splits)
  show ?thesis
    unfolding layout_call.simps eq by (rule rebuild_keeps_panes [OF assms _ ok]) simp_all
qed

lemma split_from_keeps_panes:
  assumes "is_valid m"
  shows "keeps_panes (OpSplitFrom s edge a) m (layout_call m (OpSplitFrom s edge a))"
proof (cases "pl_assignment m s = None")
  case True
  then show ?thesis
    by (cases "incoming_ok m a") (simp_all add: keeps_panes_def split_in_direction_from_slot_def)
next
  case False
  let ?as = "agents_in_reading_order m"
  define plan where "plan = map_option (\<lambda>target. (target, if pl_layout m = TwoRows \<and> s = S0 \<and> edge = EdgeRight
      then insert_at 1 a ?as else ?as @ [a])) (split_growth_target_from_slot (pl_layout m) s edge)"
  have eq: "split_in_direction_from_slot m s edge a = res_bind (incoming_ok m a) (\<lambda>_. case plan of None \<Rightarrow> Inr None
      | Some (target, order) \<Rightarrow> res_bind (from_agents order (Some target)) (\<lambda>m1. Inr (Some m1)))"
    using False by (auto simp: split_in_direction_from_slot_def plan_def Let_def split: option.splits)
  have ok: "pane_count target = Suc (pane_count (pl_layout m)) \<and>
      set order = insert a (set (agents_in_reading_order m)) \<and>
      length order = Suc (length (agents_in_reading_order m))" if "plan = Some (target, order)" for target order
    using that by (auto simp: plan_def growth_target_count split: if_splits)
  show ?thesis
    unfolding layout_call.simps eq by (rule rebuild_keeps_panes [OF assms _ ok]) simp_all
qed

lemma revive_keeps_panes:
  assumes "is_valid m"
  shows "keeps_panes (OpRevive a) m (layout_call m (OpRevive a))"
proof -
  define plan where "plan = map_option (\<lambda>target. (target, agents_in_reading_order m @ [a])) (revive_target (pl_layout m))"
  have eq: "revive m a = res_bind (incoming_ok m a) (\<lambda>_. case plan of None \<Rightarrow> Inr None
      | Some (target, order) \<Rightarrow> res_bind (from_agents order (Some target)) (\<lambda>m1. Inr (Some m1)))"
    unfolding revive_def plan_def by (cases "revive_target (pl_layout m)") (simp_all del: revive_target.simps)
  have ok: "pane_count target = Suc (pane_count (pl_layout m)) \<and>
      set order = insert a (set (agents_in_reading_order m)) \<and>
      length order = Suc (length (agents_in_reading_order m))" if "plan = Some (target, order)" for target order
    using that by (auto simp: plan_def growth_target_count simp del: revive_target.simps)
  show ?thesis
    unfolding layout_call.simps eq by (rule rebuild_keeps_panes [OF assms _ ok]) simp_all
qed

text \<open>Where a dock on a valid model leads.\<close>

definition dock_plan ::
    "pane_layout_model \<Rightarrow> slot_id \<Rightarrow> edge_dir \<Rightarrow> agent_id \<Rightarrow> (canonical_layout \<times> agent_id list) option option" where
  "dock_plan m s edge a =
     docked_order (pl_layout m) s (edge_horizontal edge) (edge_after edge) (slot_index s)
       (agents_in_reading_order m ! slot_index s) a (agents_in_reading_order m)"

lemma dock_plan_spec:
  assumes "is_valid m" "pl_assignment m s \<noteq> None"
  obtains plan where "dock_plan m s edge a = Some plan"
    "split_ordered_from_slot m s edge a = Some (res_bind (incoming_ok m a) (\<lambda>_. case plan of None \<Rightarrow> Inr None
       | Some (target, order) \<Rightarrow> res_bind (from_agents order (Some target)) (\<lambda>m1. Inr (Some m1))))"
    "\<And>target order. plan = Some (target, order) \<Longrightarrow>
      pane_count target = Suc (pane_count (pl_layout m)) \<and>
      set order = insert a (set (agents_in_reading_order m)) \<and>
      length order = Suc (length (agents_in_reading_order m))"
    "plan = None \<Longrightarrow> pane_count (pl_layout m) = 4"
proof -
  obtain source where src: "pl_assignment m s = Some source"
    using assms(2) by blast
  note at = agent_at_slot [OF assms(1) src]
  have grows: "grows_by a (agents_in_reading_order m) (pl_layout m) (dock_plan m s edge a)"
    unfolding dock_plan_def using length_reading [OF assms(1)] at(2) by (rule docked_order_grows)
  then obtain plan where plan: "dock_plan m s edge a = Some plan"
    by (auto simp: grows_by_def split: option.splits)
  have "position (\<lambda>x. x = s) (layout_slots (pl_layout m)) = Some (slot_index s)"
    using at(2) by (simp add: position_slot slot_index_nth(1) [symmetric])
  then have "split_ordered_from_slot m s edge a = Some (res_bind (incoming_ok m a) (\<lambda>_. case plan of
      None \<Rightarrow> Inr None
    | Some (target, order) \<Rightarrow> res_bind (from_agents order (Some target)) (\<lambda>m1. Inr (Some m1))))"
    using plan src at(1)
    by (cases "incoming_ok m a") (auto simp: split_ordered_from_slot_def dock_plan_def split: option.splits)
  with plan grows show ?thesis
    by (intro that [of plan]) (auto simp: grows_by_def)
qed

lemma dock_keeps_panes:
  assumes "is_valid m"
  shows "keeps_panes (OpDock s edge a) m (layout_call m (OpDock s edge a))"
proof (cases "pl_assignment m s = None")
  case True
  then show ?thesis
    by (cases "incoming_ok m a") (simp_all add: keeps_panes_def split_ordered_from_slot_def)
next
  case False
  show ?thesis
  proof (rule dock_plan_spec [OF assms False, of edge a])
    fix plan
    assume eq: "split_ordered_from_slot m s edge a = Some (res_bind (incoming_ok m a) (\<lambda>_. case plan of
        None \<Rightarrow> Inr None
      | Some (target, order) \<Rightarrow> res_bind (from_agents order (Some target)) (\<lambda>m1. Inr (Some m1))))"
      and ok: "\<And>target order. plan = Some (target, order) \<Longrightarrow>
        pane_count target = Suc (pane_count (pl_layout m)) \<and>
        set order = insert a (set (agents_in_reading_order m)) \<and>
        length order = Suc (length (agents_in_reading_order m))"
    show ?thesis
      unfolding layout_call.simps eq by (rule rebuild_keeps_panes [OF assms _ ok]) simp_all
  qed
qed

lemma reduce_keeps_panes:
  assumes "is_valid m"
  shows "keeps_panes (OpReduce a) m (layout_call m (OpReduce a))"
proof (cases "slot_of m a = None \<or> filter (\<lambda>x. x \<noteq> a) (agents_in_reading_order m) = []")
  case True
  then show ?thesis
    by (auto simp: keeps_panes_def reduce_removing_def)
next
  case False
  let ?survivors = "filter (\<lambda>x. x \<noteq> a) (agents_in_reading_order m)"
  have "length ?survivors \<le> 4"
    using length_filter_le [of "\<lambda>x. x \<noteq> a" "agents_in_reading_order m"] length_reading [OF assms]
      pane_count_bounds(2) [of "pl_layout m"] by linarith
  moreover have "?survivors \<noteq> []" "distinct ?survivors" "[] \<notin> set ?survivors"
    using False assms by (auto simp: is_valid_iff)
  ultimately obtain m' where "from_agents ?survivors None = Inr m'" "is_valid m'"
    "agents_in_reading_order m' = ?survivors"
    by (metis from_agents_ok)
  then show ?thesis
    using False by (auto simp: keeps_panes_def reduce_removing_def)
qed

lemma call_keeps_panes:
  assumes "is_valid m"
  shows "keeps_panes op m (layout_call m op)"
  by (cases op) (simp_all only: assms swap_keeps_panes swallow_keeps_panes split_keeps_panes
      split_from_keeps_panes dock_keeps_panes revive_keeps_panes reduce_keeps_panes)


text \<open>A session of calls: a call that answers with a model replaces the current one.\<close>

definition layout_step :: "pane_layout_model \<Rightarrow> layout_op \<Rightarrow> pane_layout_model" where
  "layout_step m op = (case layout_call m op of Some (Inr (Some m1)) \<Rightarrow> m1 | _ \<Rightarrow> m)"

interpretation layout: stepping layout_step is_valid
proof unfold_locales
  show "is_valid (layout_step m op)" if "is_valid m" for m op
    using call_keeps_panes [OF that, of op] that
    by (auto simp: layout_step_def keeps_panes_def split: option.splits sum.splits)
qed

text \<open>Swapping twice restores the model.\<close>

lemma swap_agents_involution:
  assumes "is_valid m" "swap_agents m a b = Inr m'"
  shows "swap_agents m' a b = Inr m"
proof -
  note once = swap_agents_valid [OF assms]
  have "a \<in> set (agents_in_reading_order m')" "b \<in> set (agents_in_reading_order m')"
    using once(4-6) by (auto simp: transposed_def image_iff)
  then have "slot_of m' a \<noteq> None" "slot_of m' b \<noteq> None"
    using once(1) by (simp_all add: slot_of_None ran_assignment)
  then obtain m'' where m'': "swap_agents m' a b = Inr m''"
    by (auto simp: swap_agents_def)
  note twice = swap_agents_valid [OF once(1) m'']
  have "m'' = m"
    by (rule valid_model_eqI) (simp_all add: assms(1) once twice o_def)
  with m'' show ?thesis by simp
qed

section \<open>Properties of the layout engine\<close>

text \<open>
  C34: The pane-layout engine never loses, duplicates or invents an agent. Starting from any list of
  agents it accepts, after any sequence of calls (swaps, swallows, splits, docks, revivals and
  removals, refused ones included) the model is valid: exactly the slots of its layout are occupied,
  by between one and four distinct agents with non-empty ids. Any further call answers without
  indexing out of bounds, and if it answers with a model, that model is again valid and holds exactly
  the agents the operation names: the same ones for a swap or a swallow, one more for a split, a dock
  or a revival, one fewer for a removal.
\<close>

theorem layout_calls_keep_panes:
  assumes "from_agents agents prefer = Inr m0" "m = fold (\<lambda>op m. layout_step m op) ops m0"
  shows "is_valid m \<and> 1 \<le> length (agents_in_reading_order m) \<and>
    length (agents_in_reading_order m) \<le> 4 \<and> keeps_panes op m (layout_call m op)"
proof -
  have "is_valid m0"
    using assms(1) by (auto simp: from_agents_Inr valid_model_of preferred_layout_count)
  then have valid: "is_valid m"
    using layout.run_inv [of m0 ops] assms(2) by (simp add: layout.run_def)
  then show ?thesis
    using call_keeps_panes [OF valid] length_reading [OF valid] pane_count_bounds [of "pl_layout m"]
    by (simp add: Suc_le_eq)
qed

definition demo_panes :: pane_layout_model where
  "demo_panes = model_of ThreeRightMain [''a'', ''b'', ''c'']"

lemma demo_panes_valid: "is_valid demo_panes"
  by (simp add: demo_panes_def valid_model_of)

lemma demo_panes_from_agents: "from_agents [''a'', ''b'', ''c''] (Some ThreeRightMain) = Inr demo_panes"
  by (simp add: from_agents_Inr demo_panes_def preferred_layout_def)

theorem layout_calls_keep_panes_witness:
  "is_valid (layout_step demo_panes (OpDock S1 EdgeRight ''d'')) \<and>
   keeps_panes (OpReduce ''b'') (layout_step demo_panes (OpDock S1 EdgeRight ''d''))
     (layout_call (layout_step demo_panes (OpDock S1 EdgeRight ''d'')) (OpReduce ''b''))"
  using layout_calls_keep_panes [OF demo_panes_from_agents refl, 
      where ops = "[OpDock S1 EdgeRight ''d'']" and op = "OpReduce ''b''"]
  by (simp del: layout_call.simps)

lemma main_slot_in_layout: "main_slot_for_layout l = Some s \<Longrightarrow> slot_index s < pane_count l"
  by (cases l) auto

lemma nth_insert_at: "i \<le> length xs \<Longrightarrow> insert_at i x xs ! i = x"
  by (simp add: insert_at_def nth_append)

text \<open>
  A swallow gives the selected pane the full-span main slot and disturbs nothing else. On a valid
  model it succeeds exactly when the table has a target; the result is a valid model of the target
  layout with the same number of panes and default ratios, the selected agent sits in the target's
  main slot, and the other agents keep their relative reading order.
\<close>

theorem swallow_promotes_selected:
  assumes "is_valid m"
  shows "(case apply_swallow m slot dir of
      None \<Rightarrow> swallow_target (pl_layout m) slot dir = None
    | Some m' \<Rightarrow>
        is_valid m' \<and> swallow_target (pl_layout m) slot dir = Some (pl_layout m') \<and>
        pane_count (pl_layout m') = pane_count (pl_layout m) \<and> pl_ratios m' = Map.empty \<and>
        (\<exists>selected main_slot.
           pl_assignment m slot = Some selected \<and> main_slot_for_layout (pl_layout m') = Some main_slot \<and>
           pl_assignment m' main_slot = Some selected \<and>
           filter (\<lambda>a. a \<noteq> selected) (agents_in_reading_order m') =
           filter (\<lambda>a. a \<noteq> selected) (agents_in_reading_order m)))"
proof (cases "swallow_target (pl_layout m) slot dir")
  case None
  then show ?thesis by (simp add: apply_swallow_def)
next
  case (Some target)
  let ?as = "agents_in_reading_order m"
  have "slot \<in> dom (pl_assignment m)"
    using swallow_target_main(2) [OF Some] assms by (simp add: is_valid_iff)
  then obtain selected where sel: "pl_assignment m slot = Some selected"
    by blast
  obtain ms where ms: "main_slot_for_layout target = Some ms"
    using swallow_target_main(3) [OF Some] by blast
  have as: "distinct ?as" "selected \<in> set ?as" "length ?as = pane_count target" "[] \<notin> set ?as"
    using assms length_reading [OF assms] swallow_target_main(1) [OF Some]
      ranI [of "pl_assignment m", OF sel, unfolded ran_assignment [OF assms]]
    by (simp_all add: is_valid_iff)
  note order = swallowed_order_laws [OF as(1,2), of target]
  have "Suc (length (filter (\<lambda>a. a \<noteq> selected) ?as)) = pane_count target"
    using length_filter_one_out [OF as(1,2)] as(3) by simp
  then have "swallowed_order target selected ?as ! slot_index ms = selected"
    unfolding swallowed_order_def ms option.sel
    using main_slot_in_layout [OF ms] by (intro nth_insert_at) linarith
  then show ?thesis
    using Some sel ms order as main_slot_in_layout [OF ms] swallow_target_main(1) [OF Some]
    by (simp add: apply_swallow_spec [OF assms Some sel] valid_model_of assignment_model_of
        del: main_slot_for_layout.simps)
qed

theorem swallow_promotes_selected_witness:
  "\<exists>m'. apply_swallow demo_panes S2 SwLeft = Some m' \<and> pl_layout m' = ThreeBottomMain \<and>
     pl_assignment m' S2 = Some ''c''"
  using swallow_promotes_selected [OF demo_panes_valid, of S2 SwLeft]
  by (auto simp: demo_panes_def swallow_target_def assignment_model_of split: option.splits)

end
