(* ===== verification/Pane_Geometry.thy ===== *)
theory Pane_Geometry
  imports Pane_Layout "HOL-Library.Log_Nat"
begin

text \<open>
  The geometry of the pane layouts (\<^verbatim>\<open>maestro-shell/src/pane_layout.rs\<close>): completing and ordering the
  ratios (\<^verbatim>\<open>normalize_ratios\<close>) and the rectangles of the slots (\<^verbatim>\<open>slot_rects\<close>), computed with the
  rounding of \<^verbatim>\<open>f32\<close>. The theorems say which layouts tile the unit square for every ratio map, and
  where a docked pane lands.
\<close>

section \<open>Single precision\<close>

text \<open>
  Every \<^verbatim>\<open>f32\<close> operation of the source is the exact operation followed by rounding to 24 significant
  bits, ties to even, with the fixed spacing of the subnormal numbers below \<open>2 ^ -126\<close>. The operands
  are finite and far from the overflow bound: each stored ratio is clamped before any arithmetic.
\<close>

definition round_even :: "rat \<Rightarrow> int" where
  "round_even q =
     (let f = \<lfloor>q\<rfloor> in
      if q - of_int f < 1 / 2 then f
      else if 1 / 2 < q - of_int f then f + 1
      else if even f then f else f + 1)"

definition binade :: "rat \<Rightarrow> int" where
  "binade x =
     (if 1 \<le> \<bar>x\<bar> then int (floorlog 2 (nat \<lfloor>\<bar>x\<bar>\<rfloor>)) - 1
      else - int (floorlog 2 (nat \<lceil>1 / \<bar>x\<bar>\<rceil> - 1)))"

definition f32_round :: "rat \<Rightarrow> f32" where
  "f32_round x =
     (if x = 0 then 0
      else let u = 2 powi (max (binade x) (-126) - 23) in of_int (round_even (x / u)) * u)"

definition f32_add :: "f32 \<Rightarrow> f32 \<Rightarrow> f32" where
  "f32_add a b = f32_round (a + b)"

definition f32_sub :: "f32 \<Rightarrow> f32 \<Rightarrow> f32" where
  "f32_sub a b = f32_round (a - b)"

definition f32_mul :: "f32 \<Rightarrow> f32 \<Rightarrow> f32" where
  "f32_mul a b = f32_round (a * b)"

definition f32_div :: "f32 \<Rightarrow> f32 \<Rightarrow> f32" where
  "f32_div a b = f32_round (a / b)"

text \<open>\<^verbatim>\<open>f32::round\<close> (half away from zero) and \<^verbatim>\<open>f32::clamp\<close>.\<close>

definition f32_nearest :: "f32 \<Rightarrow> f32" where
  "f32_nearest x = (if 0 \<le> x then of_int \<lfloor>x + 1 / 2\<rfloor> else - of_int \<lfloor>1 / 2 - x\<rfloor>)"

definition f32_clamp :: "f32 \<Rightarrow> f32 \<Rightarrow> f32 \<Rightarrow> f32" where
  "f32_clamp v lo hi = (if v < lo then lo else if hi < v then hi else v)"

section \<open>Ratios\<close>

definition MIN_CUT_GAP :: f32 where
  "MIN_CUT_GAP = f32_round (5 / 100)"

definition RATIO_PRECISION :: nat where
  "RATIO_PRECISION = 2"

record split_spec =
  sp_id :: split_id
  sp_min :: f32
  sp_max :: f32
  sp_default :: f32

text \<open>A call \<^verbatim>\<open>spec(id, min, max, default)\<close>; its literals are rounded to \<^verbatim>\<open>f32\<close>.\<close>

definition spec_of :: "split_id \<Rightarrow> rat \<Rightarrow> rat \<Rightarrow> rat \<Rightarrow> split_spec" where
  "spec_of i lo hi d =
     \<lparr>sp_id = i, sp_min = f32_round lo, sp_max = f32_round hi, sp_default = f32_round d\<rparr>"

definition ordered_cuts :: "canonical_layout \<Rightarrow> split_id list option" where
  "ordered_cuts l =
     (case l of
        ThreeColumns \<Rightarrow> Some [Col0, Col1]
      | ThreeRows \<Rightarrow> Some [Col0, Col1]
      | FourColumns \<Rightarrow> Some [Col0, Col1, Col2]
      | FourRows \<Rightarrow> Some [Col0, Col1, Col2]
      | FourLeftMain \<Rightarrow> Some [Col0, Col1]
      | FourRightMain \<Rightarrow> Some [Col0, Col1]
      | FourTopMain \<Rightarrow> Some [Col0, Col1]
      | FourBottomMain \<Rightarrow> Some [Col0, Col1]
      | _ \<Rightarrow> None)"

definition halves :: "split_id \<Rightarrow> split_spec" where
  "halves i = spec_of i (20/100) (80/100) (50/100)"

definition first_third :: "split_id \<Rightarrow> split_spec" where
  "first_third i = spec_of i (15/100) (60/100) (1/3)"

definition second_third :: "split_id \<Rightarrow> split_spec" where
  "second_third i = spec_of i (40/100) (85/100) (2/3)"

definition split_specs :: "canonical_layout \<Rightarrow> split_spec list" where
  "split_specs l =
     (case l of
        OneFull \<Rightarrow> []
      | TwoColumns \<Rightarrow> [halves Col0]
      | TwoRows \<Rightarrow> [halves Col0]
      | ThreeColumns \<Rightarrow> [first_third Col0, second_third Col1]
      | ThreeRows \<Rightarrow> [first_third Col0, second_third Col1]
      | ThreeLeftMain \<Rightarrow> [spec_of MainCut (20/100) (80/100) (60/100), halves SideCut]
      | ThreeRightMain \<Rightarrow> [spec_of MainCut (20/100) (80/100) (60/100), halves SideCut]
      | ThreeTopMain \<Rightarrow> [spec_of MainCut (20/100) (80/100) (60/100), halves SideCut]
      | ThreeBottomMain \<Rightarrow> [spec_of MainCut (20/100) (80/100) (60/100), halves SideCut]
      | FourGrid \<Rightarrow> [halves Col0, halves Row0]
      | FourColumns \<Rightarrow> [spec_of Col0 (10/100) (40/100) (25/100), spec_of Col1 (35/100) (65/100) (50/100),
                        spec_of Col2 (60/100) (90/100) (75/100)]
      | FourRows \<Rightarrow> [spec_of Col0 (10/100) (40/100) (25/100), spec_of Col1 (35/100) (65/100) (50/100),
                     spec_of Col2 (60/100) (90/100) (75/100)]
      | FourLeftSplit \<Rightarrow> [first_third Col0, second_third Col1, halves Row0]
      | FourTopSplit \<Rightarrow> [first_third Row0, second_third Row1, halves Col0]
      | FourLeftMain \<Rightarrow> [spec_of MainCut (20/100) (80/100) (55/100), first_third Col0, second_third Col1]
      | FourRightMain \<Rightarrow> [spec_of MainCut (20/100) (80/100) (55/100), first_third Col0, second_third Col1]
      | FourTopMain \<Rightarrow> [spec_of MainCut (20/100) (80/100) (55/100), first_third Col0, second_third Col1]
      | FourBottomMain \<Rightarrow> [spec_of MainCut (20/100) (80/100) (55/100), first_third Col0, second_third Col1])"

definition round_ratio :: "f32 \<Rightarrow> f32" where
  "round_ratio v =
     (let f = 10 ^ RATIO_PRECISION in f32_div (f32_nearest (f32_mul v f)) f)"

type_synonym ratio_map = "split_id \<rightharpoonup> f32"

definition complete_ratios :: "canonical_layout \<Rightarrow> ratio_map \<Rightarrow> ratio_map" where
  "complete_ratios l partial =
     fold (\<lambda>s out.
        let v = (case partial (sp_id s) of Some v \<Rightarrow> v | None \<Rightarrow> sp_default s)
        in out(sp_id s \<mapsto> f32_clamp v (sp_min s) (sp_max s)))
       (split_specs l) Map.empty"

text \<open>The forward pass over \<^verbatim>\<open>order.windows(2)\<close>; every id of \<open>order\<close> is a key of \<open>out\<close>.\<close>

fun push_forward :: "split_id list \<Rightarrow> ratio_map \<Rightarrow> ratio_map" where
  "push_forward (i # j # rest) out =
     (let prev = the (out i); cur = the (out j);
          out1 = (if cur < f32_add prev MIN_CUT_GAP then out(j \<mapsto> f32_add prev MIN_CUT_GAP) else out)
      in push_forward (j # rest) out1)"
| "push_forward _ out = out"

text \<open>The backward pass, on the reversed order.\<close>

fun pull_back :: "split_id list \<Rightarrow> f32 \<Rightarrow> ratio_map \<Rightarrow> ratio_map" where
  "pull_back [] upper out = out"
| "pull_back (i # rest) upper out =
     (let cur = the (out i);
          out1 = (if upper < cur then out(i \<mapsto> upper) else out)
      in pull_back rest (f32_sub (the (out1 i)) MIN_CUT_GAP) out1)"

definition normalize_ratios :: "canonical_layout \<Rightarrow> ratio_map \<Rightarrow> ratio_map" where
  "normalize_ratios l partial =
     (let out = complete_ratios l partial;
          out1 = (case ordered_cuts l of
                    None \<Rightarrow> out
                  | Some order \<Rightarrow>
                      pull_back (List.rev order) (f32_sub 1 MIN_CUT_GAP) (push_forward order out))
      in map_option round_ratio \<circ> out1)"

section \<open>Rectangles\<close>

type_synonym unit_rect = "f32 \<times> f32 \<times> f32 \<times> f32"

definition slot_rects :: "canonical_layout \<Rightarrow> ratio_map \<Rightarrow> unit_rect list" where
  "slot_rects l ratios =
     (let r = normalize_ratios l ratios;
          g = (\<lambda>i. the (r i));
          sub = f32_sub
      in case l of
        OneFull \<Rightarrow> [(0, 0, 1, 1)]
      | TwoColumns \<Rightarrow> let c = g Col0 in [(0, 0, c, 1), (c, 0, sub 1 c, 1)]
      | TwoRows \<Rightarrow> let c = g Col0 in [(0, 0, 1, c), (0, c, 1, sub 1 c)]
      | ThreeColumns \<Rightarrow>
          let a = g Col0; b = g Col1 in [(0, 0, a, 1), (a, 0, sub b a, 1), (b, 0, sub 1 b, 1)]
      | ThreeRows \<Rightarrow>
          let a = g Col0; b = g Col1 in [(0, 0, 1, a), (0, a, 1, sub b a), (0, b, 1, sub 1 b)]
      | ThreeLeftMain \<Rightarrow>
          let m = g MainCut; s = g SideCut in
          [(0, 0, m, 1), (m, 0, sub 1 m, s), (m, s, sub 1 m, sub 1 s)]
      | ThreeRightMain \<Rightarrow>
          let m = g MainCut; s = g SideCut; left = sub 1 m in
          [(0, 0, left, s), (left, 0, m, 1), (0, s, left, sub 1 s)]
      | ThreeTopMain \<Rightarrow>
          let m = g MainCut; s = g SideCut in
          [(0, 0, 1, m), (0, m, s, sub 1 m), (s, m, sub 1 s, sub 1 m)]
      | ThreeBottomMain \<Rightarrow>
          let m = g MainCut; s = g SideCut; upper = sub 1 m in
          [(0, 0, s, upper), (s, 0, sub 1 s, upper), (0, upper, 1, m)]
      | FourGrid \<Rightarrow>
          let c = g Col0; r0 = g Row0 in
          [(0, 0, c, r0), (c, 0, sub 1 c, r0), (0, r0, c, sub 1 r0), (c, r0, sub 1 c, sub 1 r0)]
      | FourColumns \<Rightarrow>
          let a = g Col0; b = g Col1; d = g Col2 in
          [(0, 0, a, 1), (a, 0, sub b a, 1), (b, 0, sub d b, 1), (d, 0, sub 1 d, 1)]
      | FourRows \<Rightarrow>
          let a = g Col0; b = g Col1; d = g Col2 in
          [(0, 0, 1, a), (0, a, 1, sub b a), (0, b, 1, sub d b), (0, d, 1, sub 1 d)]
      | FourLeftSplit \<Rightarrow>
          let c0 = g Col0; c1 = g Col1; row = g Row0 in
          [(0, 0, c0, row), (c0, 0, sub c1 c0, 1), (c1, 0, sub 1 c1, 1), (0, row, c0, sub 1 row)]
      | FourTopSplit \<Rightarrow>
          let r0 = g Row0; r1 = g Row1; col = g Col0 in
          [(0, 0, col, r0), (col, 0, sub 1 col, r0), (0, r0, 1, sub r1 r0), (0, r1, 1, sub 1 r1)]
      | FourLeftMain \<Rightarrow>
          let m = g MainCut; a = g Col0; b = g Col1; side = sub 1 m in
          [(0, 0, m, 1), (m, 0, side, a), (m, a, side, sub b a), (m, b, side, sub 1 b)]
      | FourRightMain \<Rightarrow>
          let m = g MainCut; a = g Col0; b = g Col1; side = sub 1 m in
          [(0, 0, side, a), (side, 0, m, 1), (0, a, side, sub b a), (0, b, side, sub 1 b)]
      | FourTopMain \<Rightarrow>
          let m = g MainCut; a = g Col0; b = g Col1; side = sub 1 m in
          [(0, 0, 1, m), (0, m, a, side), (a, m, sub b a, side), (b, m, sub 1 b, side)]
      | FourBottomMain \<Rightarrow>
          let m = g MainCut; a = g Col0; b = g Col1; side = sub 1 m in
          [(0, 0, a, side), (a, 0, sub b a, side), (b, 0, sub 1 b, side), (0, side, 1, m)])"

section \<open>Rounding is accurate\<close>

lemma round_even_error: "\<bar>of_int (round_even q) - q\<bar> \<le> 1 / 2"
  unfolding round_even_def Let_def using floor_correct [of q] by (auto simp: abs_le_iff)

lemma binade_lower:
  assumes "x \<noteq> 0"
  shows "2 powi binade x \<le> \<bar>x\<bar>"
proof (cases "1 \<le> \<bar>x\<bar>")
  case True
  let ?n = "nat \<lfloor>\<bar>x\<bar>\<rfloor>"
  have n: "0 < ?n" "of_nat ?n \<le> \<bar>x\<bar>"
    using True by (auto simp: le_floor_iff)
  then have "2 ^ (floorlog 2 ?n - 1) \<le> ?n" "0 < floorlog 2 ?n"
    using floorlog_bounds [of ?n 2] by (auto simp: floorlog_eq_zero_iff neq0_conv [symmetric] simp del: neq0_conv)
  then have "(2 :: rat) ^ (floorlog 2 ?n - 1) \<le> of_nat ?n" and "binade x = int (floorlog 2 ?n - 1)"
    using True by (auto simp: binade_def of_nat_diff)
  with n(2) show ?thesis
    by (simp only: power_int_of_nat)
next
  case False
  let ?m = "nat \<lceil>1 / \<bar>x\<bar>\<rceil> - 1"
  have "?m < 2 ^ floorlog 2 ?m"
    by (rule floorlog_leD) simp_all
  then have "nat \<lceil>1 / \<bar>x\<bar>\<rceil> \<le> 2 ^ floorlog 2 ?m"
    by linarith
  then have "1 / \<bar>x\<bar> \<le> 2 ^ floorlog 2 ?m"
    by (simp add: nat_le_iff ceiling_le_iff)
  then have "inverse (2 ^ floorlog 2 ?m) \<le> \<bar>x\<bar>"
    using assms by (simp add: field_simps)
  then show ?thesis
    using False by (simp add: binade_def power_int_minus)
qed


lemma binade_upper:
  assumes "x \<noteq> 0"
  shows "\<bar>x\<bar> < 2 powi (binade x + 1)"
proof (cases "1 \<le> \<bar>x\<bar>")
  case True
  let ?n = "nat \<lfloor>\<bar>x\<bar>\<rfloor>"
  have "?n < 2 ^ floorlog 2 ?n"
    by (rule floorlog_leD) simp_all
  then have "\<lfloor>\<bar>x\<bar>\<rfloor> < 2 ^ floorlog 2 ?n"
    using True by (simp add: nat_less_iff)
  then have "\<bar>x\<bar> < 2 ^ floorlog 2 ?n"
    by (simp add: floor_less_iff)
  then show ?thesis
    using True by (simp add: binade_def)
next
  case False
  let ?m = "nat \<lceil>1 / \<bar>x\<bar>\<rceil> - 1"
  have gt: "1 < 1 / \<bar>x\<bar>"
    using False assms by (simp add: field_simps)
  then have m: "0 < ?m" "of_nat ?m < 1 / \<bar>x\<bar>"
  proof -
    have "1 < \<lceil>1 / \<bar>x\<bar>\<rceil>"
      using gt by (simp add: less_ceiling_iff)
    then show "0 < ?m" by linarith
    have "of_int (\<lceil>1 / \<bar>x\<bar>\<rceil> - 1) < 1 / \<bar>x\<bar>"
      using ceiling_correct [of "1 / \<bar>x\<bar>"] by simp
    moreover have "(of_nat ?m :: rat) = of_int (\<lceil>1 / \<bar>x\<bar>\<rceil> - 1)"
    proof -
      have "int ?m = \<lceil>1 / \<bar>x\<bar>\<rceil> - 1"
        using \<open>1 < \<lceil>1 / \<bar>x\<bar>\<rceil>\<close> by linarith
      then show ?thesis by (metis of_int_of_nat_eq)
    qed
    ultimately show "of_nat ?m < 1 / \<bar>x\<bar>" by simp
  qed
  have "2 ^ (floorlog 2 ?m - 1) \<le> ?m" "0 < floorlog 2 ?m"
    using floorlog_bounds [of ?m 2] m(1) by (auto simp: floorlog_eq_zero_iff neq0_conv [symmetric] simp del: neq0_conv)
  then have "(2 :: rat) ^ (floorlog 2 ?m - 1) < 1 / \<bar>x\<bar>"
    using m(2) by (metis le_less_trans of_nat_le_iff of_nat_numeral of_nat_power)
  then have "\<bar>x\<bar> < inverse (2 ^ (floorlog 2 ?m - 1))"
    using assms by (simp add: field_simps)
  moreover have "binade x + 1 = - int (floorlog 2 ?m - 1)"
    using False \<open>0 < floorlog 2 ?m\<close> by (simp add: binade_def of_nat_diff)
  ultimately show ?thesis
    by (simp add: power_int_minus)
qed

lemma f32_round_error: "\<bar>f32_round x - x\<bar> \<le> \<bar>x\<bar> / 2 ^ 24 + 1 / 2 ^ 150"
proof (cases "x = 0")
  case False
  define b where "b = max (binade x) (-126)"
  define u :: rat where "u = 2 powi (b - 23)"
  have u: "0 < u"
    by (simp add: u_def)
  have "f32_round x - x = (of_int (round_even (x / u)) - x / u) * u"
    using False u by (simp add: f32_round_def Let_def u_def b_def field_simps)
  then have "\<bar>f32_round x - x\<bar> \<le> 1 / 2 * u"
    using round_even_error [of "x / u"] u by (simp add: abs_mult mult_right_mono)
  also have "\<dots> = 2 powi b / 2 ^ 24"
    by (simp add: u_def power_int_diff)
  also have "2 powi b \<le> \<bar>x\<bar> + 2 powi (-126)"
    using binade_lower [OF False] by (simp add: b_def max_def power_int_minus add_increasing)
  finally show ?thesis
    by (simp add: power_int_minus field_simps)
qed (simp add: f32_round_def)

text \<open>Two-sided bounds in decimal, for linear arithmetic.\<close>

lemma f32_round_close:
  assumes "- 1 \<le> x" "x \<le> 1"
  shows "x - 1 / 10000000 \<le> f32_round x" "f32_round x \<le> x + 1 / 10000000"
proof -
  have "\<bar>x\<bar> / 2 ^ 24 \<le> 1 / 2 ^ 24"
    using assms by (intro divide_right_mono) (auto simp: abs_le_iff)
  then have "\<bar>f32_round x - x\<bar> \<le> 1 / 10000000"
    using f32_round_error [of x] by simp
  then show "x - 1 / 10000000 \<le> f32_round x" "f32_round x \<le> x + 1 / 10000000"
    by linarith+
qed

lemma f32_round_close_100:
  assumes "0 \<le> x" "x \<le> 100"
  shows "x - 1 / 100000 \<le> f32_round x" "f32_round x \<le> x + 1 / 100000"
proof -
  have "\<bar>x\<bar> / 2 ^ 24 \<le> 100 / 2 ^ 24"
    using assms by (intro divide_right_mono) auto
  then have "\<bar>f32_round x - x\<bar> \<le> 1 / 100000"
    using f32_round_error [of x] by simp
  then show "x - 1 / 100000 \<le> f32_round x" "f32_round x \<le> x + 1 / 100000"
    by linarith+
qed

lemma f32_sub_close:
  assumes "- 1 \<le> a - b" "a - b \<le> 1"
  shows "a - b - 1 / 10000000 \<le> f32_sub a b" "f32_sub a b \<le> a - b + 1 / 10000000"
  using f32_round_close [OF assms] by (simp_all add: f32_sub_def)

lemma f32_add_close:
  assumes "- 1 \<le> a + b" "a + b \<le> 1"
  shows "a + b - 1 / 10000000 \<le> f32_add a b" "f32_add a b \<le> a + b + 1 / 10000000"
  using f32_round_close [OF assms] by (simp_all add: f32_add_def)

lemma f32_nearest_close:
  assumes "0 \<le> x"
  shows "x - 1 / 2 \<le> f32_nearest x" "f32_nearest x \<le> x + 1 / 2"
  using floor_correct [of "x + 1/2"] assms by (simp_all add: f32_nearest_def)

lemma round_ratio_close:
  assumes "1 / 100 \<le> v" "v \<le> 97 / 100"
  shows "v - 51 / 10000 \<le> round_ratio v" "round_ratio v \<le> v + 51 / 10000"
proof -
  have p: "v * 100 - 1 / 100000 \<le> f32_mul v 100" "f32_mul v 100 \<le> v * 100 + 1 / 100000"
    unfolding f32_mul_def using assms by (intro f32_round_close_100; linarith)+
  have n: "f32_mul v 100 - 1 / 2 \<le> f32_nearest (f32_mul v 100)"
    "f32_nearest (f32_mul v 100) \<le> f32_mul v 100 + 1 / 2"
    using p assms by (intro f32_nearest_close; linarith)+
  have d: "f32_nearest (f32_mul v 100) / 100 - 1 / 10000000 \<le> round_ratio v"
    "round_ratio v \<le> f32_nearest (f32_mul v 100) / 100 + 1 / 10000000"
    unfolding round_ratio_def RATIO_PRECISION_def Let_def f32_div_def
    using f32_round_close [of "f32_nearest (f32_mul v 100) / 100"] p n assms by simp_all
  show "v - 51 / 10000 \<le> round_ratio v" "round_ratio v \<le> v + 51 / 10000"
    using p n d by linarith+
qed

section \<open>What normalization guarantees\<close>

lemma gap_close: "5 / 100 - 1 / 10000000 \<le> MIN_CUT_GAP" "MIN_CUT_GAP \<le> 5 / 100 + 1 / 10000000"
  unfolding MIN_CUT_GAP_def by (rule f32_round_close; simp)+

definition near_band :: "rat \<Rightarrow> rat \<Rightarrow> rat \<Rightarrow> bool" where
  "near_band lo hi v \<longleftrightarrow> lo - 1 / 100000 \<le> v \<and> v \<le> hi + 1 / 100000"

lemma clamp_near_band:
  assumes "0 \<le> lo" "lo + 1 / 100 \<le> hi" "hi \<le> 1"
  shows "near_band lo hi (f32_clamp v (f32_round lo) (f32_round hi))"
proof -
  have "lo - 1 / 10000000 \<le> f32_round lo" "f32_round lo \<le> lo + 1 / 10000000"
    "hi - 1 / 10000000 \<le> f32_round hi" "f32_round hi \<le> hi + 1 / 10000000"
    using assms by (intro f32_round_close; linarith)+
  then show ?thesis
    using assms(2) unfolding near_band_def f32_clamp_def by (simp only: split: if_split) linarith
qed

text \<open>The last cut of an ordered layout is never capped by the right edge.\<close>

lemma right_edge_close: "95 / 100 - 1 / 1000000 \<le> f32_sub 1 MIN_CUT_GAP"
  using f32_sub_close [of 1 MIN_CUT_GAP] gap_close by linarith

text \<open>
  The two passes on two cuts, and on three: every cut stays near its band and keeps the gap to the
  next one; cuts that are already apart stay as they are.
\<close>

lemma push_forward_step:
  assumes "out i = Some a" "out j = Some b"
  shows "push_forward (i # j # rest) out = push_forward (j # rest) (out(j \<mapsto> max b (f32_add a MIN_CUT_GAP)))"
proof -
  have "out = out(j \<mapsto> b)"
    using assms(2) by (simp add: fun_upd_idem)
  then show ?thesis
    using assms by (auto simp: Let_def max_def push_forward.simps(1))
qed

lemma pull_back_step:
  assumes "out i = Some v"
  shows "pull_back (i # rest) upper out =
     pull_back rest (f32_sub (min v upper) MIN_CUT_GAP) (out(i \<mapsto> min v upper))"
proof -
  have "out = out(i \<mapsto> v)"
    using assms by (simp add: fun_upd_idem)
  then show ?thesis
    using assms by (auto simp: Let_def min_def pull_back.simps(2))
qed

declare push_forward.simps(1) [simp del] pull_back.simps(2) [simp del]

lemmas cut_passes = push_forward_step pull_back_step push_forward.simps(3) pull_back.simps(1)

lemma two_cuts:
  assumes "out i = Some a" "out j = Some b" "i \<noteq> j"
    "near_band (15/100) (60/100) a" "near_band (40/100) (85/100) b"
  obtains a' b' where
    "pull_back [j, i] (f32_sub 1 MIN_CUT_GAP) (push_forward [i, j] out) = out(i \<mapsto> a', j \<mapsto> b')"
    "near_band (14/100) (61/100) a'" "near_band (39/100) (86/100) b'" "a' + 49 / 1000 \<le> b'"
    "a + 1 / 10 \<le> b \<Longrightarrow> a' = a \<and> b' = b"
proof -
  define b1 where "b1 = max b (f32_add a MIN_CUT_GAP)"
  define a1 where "a1 = min a (f32_sub b1 MIN_CUT_GAP)"
  have a: "15 / 100 - 1 / 100000 \<le> a" "a \<le> 60 / 100 + 1 / 100000"
    and b: "40 / 100 - 1 / 100000 \<le> b" "b \<le> 85 / 100 + 1 / 100000"
    using assms(4,5) by (simp_all only: near_band_def)
  have fwd: "a + MIN_CUT_GAP - 1 / 10000000 \<le> f32_add a MIN_CUT_GAP"
    "f32_add a MIN_CUT_GAP \<le> a + MIN_CUT_GAP + 1 / 10000000"
    using a gap_close by (intro f32_add_close; linarith)+
  have b1: "40 / 100 - 1 / 100000 \<le> b1" "b1 \<le> 85 / 100 + 1 / 100000"
    using a b fwd gap_close unfolding b1_def by linarith+
  have bwd: "b1 - MIN_CUT_GAP - 1 / 10000000 \<le> f32_sub b1 MIN_CUT_GAP"
    "f32_sub b1 MIN_CUT_GAP \<le> b1 - MIN_CUT_GAP + 1 / 10000000"
    using b1 gap_close by (intro f32_sub_close; linarith)+
  have last: "min b1 (f32_sub 1 MIN_CUT_GAP) = b1"
    using b1 right_edge_close by linarith
  show ?thesis
  proof (rule that [of a1 b1])
    show "pull_back [j, i] (f32_sub 1 MIN_CUT_GAP) (push_forward [i, j] out) = out(i \<mapsto> a1, j \<mapsto> b1)"
      using assms(1-3)
      by (simp add: cut_passes last a1_def [symmetric] b1_def [symmetric] fun_upd_twist)
    show "near_band (39/100) (86/100) b1"
      using b1 unfolding near_band_def by linarith
    show "near_band (14/100) (61/100) a1"
      using a b1 bwd gap_close unfolding near_band_def a1_def by linarith
    show "a1 + 49 / 1000 \<le> b1"
      using bwd gap_close unfolding a1_def by linarith
    show "a1 = a \<and> b1 = b" if "a + 1 / 10 \<le> b"
    proof -
      have "b1 = b"
        using that fwd gap_close unfolding b1_def by linarith
      then show ?thesis
        using that bwd gap_close unfolding a1_def by linarith
    qed
  qed
qed


lemma three_cuts:
  assumes "out i = Some a" "out j = Some b" "out k = Some d" "i \<noteq> j" "i \<noteq> k" "j \<noteq> k"
    "near_band (10/100) (40/100) a" "near_band (35/100) (65/100) b" "near_band (60/100) (90/100) d"
  obtains a' b' d' where
    "pull_back [k, j, i] (f32_sub 1 MIN_CUT_GAP) (push_forward [i, j, k] out) =
       out(i \<mapsto> a', j \<mapsto> b', k \<mapsto> d')"
    "near_band (9/100) (41/100) a'" "near_band (34/100) (66/100) b'" "near_band (59/100) (91/100) d'"
    "a' + 49 / 1000 \<le> b'" "b' + 49 / 1000 \<le> d'"
    "a + 1 / 10 \<le> b \<Longrightarrow> b + 1 / 10 \<le> d \<Longrightarrow> a' = a \<and> b' = b \<and> d' = d"
proof -
  define b1 where "b1 = max b (f32_add a MIN_CUT_GAP)"
  define d1 where "d1 = max d (f32_add b1 MIN_CUT_GAP)"
  define b2 where "b2 = min b1 (f32_sub d1 MIN_CUT_GAP)"
  define a2 where "a2 = min a (f32_sub b2 MIN_CUT_GAP)"
  have a: "10 / 100 - 1 / 100000 \<le> a" "a \<le> 40 / 100 + 1 / 100000"
    and b: "35 / 100 - 1 / 100000 \<le> b" "b \<le> 65 / 100 + 1 / 100000"
    and d: "60 / 100 - 1 / 100000 \<le> d" "d \<le> 90 / 100 + 1 / 100000"
    using assms(7-9) by (simp_all only: near_band_def)
  have fwd1: "a + MIN_CUT_GAP - 1 / 10000000 \<le> f32_add a MIN_CUT_GAP"
    "f32_add a MIN_CUT_GAP \<le> a + MIN_CUT_GAP + 1 / 10000000"
    using a gap_close by (intro f32_add_close; linarith)+
  have b1: "35 / 100 - 1 / 100000 \<le> b1" "b1 \<le> 65 / 100 + 1 / 100000"
    using a b fwd1 gap_close unfolding b1_def by linarith+
  have fwd2: "b1 + MIN_CUT_GAP - 1 / 10000000 \<le> f32_add b1 MIN_CUT_GAP"
    "f32_add b1 MIN_CUT_GAP \<le> b1 + MIN_CUT_GAP + 1 / 10000000"
    using b1 gap_close by (intro f32_add_close; linarith)+
  have d1: "60 / 100 - 1 / 100000 \<le> d1" "d1 \<le> 90 / 100 + 1 / 100000"
    using b1 d fwd2 gap_close unfolding d1_def by linarith+
  have bwd1: "d1 - MIN_CUT_GAP - 1 / 10000000 \<le> f32_sub d1 MIN_CUT_GAP"
    "f32_sub d1 MIN_CUT_GAP \<le> d1 - MIN_CUT_GAP + 1 / 10000000"
    using d1 gap_close by (intro f32_sub_close; linarith)+
  have b2: "35 / 100 - 1 / 100000 \<le> b2" "b2 \<le> 65 / 100 + 1 / 100000" "b2 + 49 / 1000 \<le> d1"
    using b1 d1 bwd1 gap_close unfolding b2_def by linarith+
  have bwd2: "b2 - MIN_CUT_GAP - 1 / 10000000 \<le> f32_sub b2 MIN_CUT_GAP"
    "f32_sub b2 MIN_CUT_GAP \<le> b2 - MIN_CUT_GAP + 1 / 10000000"
    using b2 gap_close by (intro f32_sub_close; linarith)+
  have last: "min d1 (f32_sub 1 MIN_CUT_GAP) = d1"
    using d1 right_edge_close by linarith
  show ?thesis
  proof (rule that [of a2 b2 d1])
    have "push_forward [i, j, k] out = out(j \<mapsto> b1, k \<mapsto> d1)"
      using assms(1-6)
      by (simp add: cut_passes b1_def [symmetric] d1_def [symmetric])
    then have "pull_back [k, j, i] (f32_sub 1 MIN_CUT_GAP) (push_forward [i, j, k] out) =
        out(j \<mapsto> b2, k \<mapsto> d1, i \<mapsto> a2)"
      using assms(1-6)
      by (simp add: cut_passes last a2_def [symmetric] b2_def [symmetric] fun_upd_twist)
    also have "\<dots> = out(i \<mapsto> a2, j \<mapsto> b2, k \<mapsto> d1)"
      using assms(4-6) by (metis fun_upd_twist)
    finally show "pull_back [k, j, i] (f32_sub 1 MIN_CUT_GAP) (push_forward [i, j, k] out) =
        out(i \<mapsto> a2, j \<mapsto> b2, k \<mapsto> d1)" .
    show "near_band (9/100) (41/100) a2"
      using a b2 bwd2 gap_close unfolding near_band_def a2_def by linarith
    show "near_band (34/100) (66/100) b2" "near_band (59/100) (91/100) d1"
      using b2 d1 unfolding near_band_def by linarith+
    show "a2 + 49 / 1000 \<le> b2"
      using bwd2 gap_close unfolding a2_def by linarith
    show "b2 + 49 / 1000 \<le> d1" by (rule b2(3))
    show "a2 = a \<and> b2 = b \<and> d1 = d" if "a + 1 / 10 \<le> b" "b + 1 / 10 \<le> d"
    proof -
      have "b1 = b"
        using that fwd1 gap_close unfolding b1_def by linarith
      moreover have "d1 = d"
        using calculation that fwd2 gap_close unfolding d1_def by linarith
      moreover have "b2 = b"
        using calculation that bwd1 gap_close unfolding b2_def by linarith
      moreover have "a2 = a"
        using calculation that bwd2 gap_close unfolding a2_def by linarith
      ultimately show ?thesis by blast
    qed
  qed
qed

section \<open>The cuts of a layout\<close>

definition cut_value :: "ratio_map \<Rightarrow> split_spec \<Rightarrow> f32" where
  "cut_value partial s =
     f32_clamp (case partial (sp_id s) of Some v \<Rightarrow> v | None \<Rightarrow> sp_default s) (sp_min s) (sp_max s)"

definition insert_cut :: "ratio_map \<Rightarrow> split_spec \<Rightarrow> ratio_map \<Rightarrow> ratio_map" where
  "insert_cut partial s out = out(sp_id s \<mapsto> cut_value partial s)"

lemma insert_cuts_other: "i \<notin> sp_id ` set specs \<Longrightarrow> fold (insert_cut partial) specs out i = out i"
  by (induction specs arbitrary: out) (auto simp: insert_cut_def)

lemma insert_cut_same: "insert_cut partial s out (sp_id s) = Some (cut_value partial s)"
  by (simp add: insert_cut_def)

lemma insert_cuts_lookup:
  assumes "distinct (map sp_id specs)" "s \<in> set specs"
  shows "fold (insert_cut partial) specs out (sp_id s) = Some (cut_value partial s)"
  using assms
proof (induction specs arbitrary: out)
  case (Cons x specs)
  then show ?case
    by (cases "s = x") (auto simp: insert_cuts_other insert_cut_same)
qed simp

lemma complete_ratios_lookup:
  assumes "distinct (map sp_id (split_specs l))" "s \<in> set (split_specs l)"
  shows "complete_ratios l partial (sp_id s) = Some (cut_value partial s)"
proof -
  have "complete_ratios l partial = fold (insert_cut partial) (split_specs l) Map.empty"
    by (simp add: complete_ratios_def insert_cut_def [abs_def] cut_value_def Let_def)
  then show ?thesis
    using insert_cuts_lookup [OF assms] by simp
qed

lemma cut_value_band:
  assumes "0 \<le> lo" "lo + 1 / 100 \<le> hi" "hi \<le> 1"
  shows "near_band lo hi (cut_value partial (spec_of i lo hi d))"
  using clamp_near_band [OF assms] by (simp add: cut_value_def spec_of_def)

lemma cut_value_default:
  assumes "0 \<le> lo" "lo + 1 / 100 \<le> d" "d + 1 / 100 \<le> hi" "hi \<le> 1"
  shows "near_band d d (cut_value Map.empty (spec_of i lo hi d))"
proof -
  have "f32_round lo \<le> lo + 1 / 10000000" "hi - 1 / 10000000 \<le> f32_round hi"
    "d - 1 / 10000000 \<le> f32_round d" "f32_round d \<le> d + 1 / 10000000"
    using assms by (intro f32_round_close; linarith)+
  then show ?thesis
    using assms by (auto simp: cut_value_def spec_of_def f32_clamp_def near_band_def)
qed


definition normal_cut :: "canonical_layout \<Rightarrow> ratio_map \<Rightarrow> split_id \<Rightarrow> f32" where
  "normal_cut l partial i = the (normalize_ratios l partial i)"

lemma sp_id_spec_of [simp]: "sp_id (spec_of i lo hi d) = i"
  by (simp add: spec_of_def)

lemmas spec_tables = split_specs_def ordered_cuts_def halves_def first_third_def second_third_def

lemma specs_distinct: "distinct (map sp_id (split_specs l))"
  by (cases l) (simp_all add: spec_tables)

lemma round_ratio_band:
  assumes "near_band lo hi v" "5 / 100 \<le> lo" "hi \<le> 95 / 100"
  shows "lo - 6 / 1000 \<le> round_ratio v" "round_ratio v \<le> hi + 6 / 1000"
proof -
  have "v - 51 / 10000 \<le> round_ratio v" "round_ratio v \<le> v + 51 / 10000"
    using assms unfolding near_band_def by (intro round_ratio_close; linarith)+
  then show "lo - 6 / 1000 \<le> round_ratio v" "round_ratio v \<le> hi + 6 / 1000"
    using assms(1) unfolding near_band_def by linarith+
qed

text \<open>A cut that the passes leave alone.\<close>

lemma free_cut:
  assumes "spec_of i lo hi d \<in> set (split_specs l)"
    "case ordered_cuts l of None \<Rightarrow> True | Some order \<Rightarrow> order = [Col0, Col1] \<and> i \<noteq> Col0 \<and> i \<noteq> Col1 \<and>
       first_third Col0 \<in> set (split_specs l) \<and> second_third Col1 \<in> set (split_specs l)"
  shows "normal_cut l partial i = round_ratio (cut_value partial (spec_of i lo hi d))"
proof -
  have at: "complete_ratios l partial i = Some (cut_value partial (spec_of i lo hi d))"
    using complete_ratios_lookup [OF specs_distinct assms(1)] by simp
  show ?thesis
  proof (cases "ordered_cuts l")
    case None
    then show ?thesis
      using at by (simp add: normal_cut_def normalize_ratios_def)
  next
    case (Some order)
    note cuts = assms(2) [unfolded Some option.case]
    have c0: "complete_ratios l partial Col0 = Some (cut_value partial (first_third Col0))"
      and c1: "complete_ratios l partial Col1 = Some (cut_value partial (second_third Col1))"
      using complete_ratios_lookup [OF specs_distinct, of "first_third Col0" l partial]
        complete_ratios_lookup [OF specs_distinct, of "second_third Col1" l partial] cuts
      by (simp_all add: first_third_def second_third_def)
    have bands: "near_band (15/100) (60/100) (cut_value partial (first_third Col0))"
      "near_band (40/100) (85/100) (cut_value partial (second_third Col1))"
      unfolding first_third_def second_third_def by (rule cut_value_band; simp)+
    obtain a b where "pull_back [Col1, Col0] (f32_sub 1 MIN_CUT_GAP)
        (push_forward [Col0, Col1] (complete_ratios l partial)) =
        (complete_ratios l partial)(Col0 \<mapsto> a, Col1 \<mapsto> b)"
      using two_cuts [OF c0 c1 split_id.distinct(1) bands] by metis
    then show ?thesis
      using Some cuts at by (simp add: normal_cut_def normalize_ratios_def)
  qed
qed

definition middle_cut :: "f32 \<Rightarrow> bool" where
  "middle_cut c \<longleftrightarrow> 8 / 100 \<le> c \<and> c \<le> 92 / 100"

lemma free_cut_middle:
  assumes "spec_of i (20/100) (80/100) d \<in> set (split_specs l)"
    "case ordered_cuts l of None \<Rightarrow> True | Some order \<Rightarrow> order = [Col0, Col1] \<and> i \<noteq> Col0 \<and> i \<noteq> Col1 \<and>
       first_third Col0 \<in> set (split_specs l) \<and> second_third Col1 \<in> set (split_specs l)"
  shows "middle_cut (normal_cut l partial i)"
    and "30 / 100 \<le> d \<Longrightarrow> d \<le> 70 / 100 \<Longrightarrow>
      d - 6 / 1000 \<le> normal_cut l Map.empty i \<and> normal_cut l Map.empty i \<le> d + 6 / 1000"
proof -
  note cut = free_cut [OF assms]
  have "near_band (20/100) (80/100) (cut_value partial (spec_of i (20/100) (80/100) d))"
    by (rule cut_value_band) simp_all
  from round_ratio_band [OF this] show "middle_cut (normal_cut l partial i)"
    by (simp add: cut middle_cut_def)
  assume d: "30 / 100 \<le> d" "d \<le> 70 / 100"
  have "near_band d d (cut_value Map.empty (spec_of i (20/100) (80/100) d))"
    using d by (intro cut_value_default) simp_all
  from round_ratio_band [OF this] d
  show "d - 6 / 1000 \<le> normal_cut l Map.empty i \<and> normal_cut l Map.empty i \<le> d + 6 / 1000"
    by (simp add: cut)
qed

text \<open>Ordered cuts.\<close>

lemma ordered_two_cuts:
  assumes "ordered_cuts l = Some [Col0, Col1]"
    "first_third Col0 \<in> set (split_specs l)" "second_third Col1 \<in> set (split_specs l)"
  shows "middle_cut (normal_cut l partial Col0)" "middle_cut (normal_cut l partial Col1)"
    "normal_cut l partial Col0 + 3 / 100 \<le> normal_cut l partial Col1"
    "1 / 3 - 6 / 1000 \<le> normal_cut l Map.empty Col0" "normal_cut l Map.empty Col0 \<le> 1 / 3 + 6 / 1000"
    "2 / 3 - 6 / 1000 \<le> normal_cut l Map.empty Col1" "normal_cut l Map.empty Col1 \<le> 2 / 3 + 6 / 1000"
proof -
  have at: "complete_ratios l q Col0 = Some (cut_value q (first_third Col0))"
    "complete_ratios l q Col1 = Some (cut_value q (second_third Col1))" for q
    using complete_ratios_lookup [OF specs_distinct assms(2), of q]
      complete_ratios_lookup [OF specs_distinct assms(3), of q]
    by (simp_all add: first_third_def second_third_def)
  have bands: "near_band (15/100) (60/100) (cut_value q (first_third Col0))"
    "near_band (40/100) (85/100) (cut_value q (second_third Col1))" for q
    unfolding first_third_def second_third_def by (rule cut_value_band; simp)+
  have cuts: "\<exists>a b. normal_cut l q Col0 = round_ratio a \<and> normal_cut l q Col1 = round_ratio b \<and>
      near_band (14/100) (61/100) a \<and> near_band (39/100) (86/100) b \<and> a + 49 / 1000 \<le> b \<and>
      (cut_value q (first_third Col0) + 1 / 10 \<le> cut_value q (second_third Col1) \<longrightarrow>
        a = cut_value q (first_third Col0) \<and> b = cut_value q (second_third Col1))" for q
  proof -
    obtain a b where "pull_back [Col1, Col0] (f32_sub 1 MIN_CUT_GAP)
        (push_forward [Col0, Col1] (complete_ratios l q)) = (complete_ratios l q)(Col0 \<mapsto> a, Col1 \<mapsto> b)"
      "near_band (14/100) (61/100) a" "near_band (39/100) (86/100) b" "a + 49 / 1000 \<le> b"
      "cut_value q (first_third Col0) + 1 / 10 \<le> cut_value q (second_third Col1) \<Longrightarrow>
        a = cut_value q (first_third Col0) \<and> b = cut_value q (second_third Col1)"
      using two_cuts [OF at [of q] split_id.distinct(1) bands [of q]] by metis
    then show ?thesis
      using assms(1) by (intro exI [of _ a] exI [of _ b]) (auto simp: normal_cut_def normalize_ratios_def)
  qed
  obtain a b where ab: "normal_cut l partial Col0 = round_ratio a" "normal_cut l partial Col1 = round_ratio b"
      "near_band (14/100) (61/100) a" "near_band (39/100) (86/100) b" "a + 49 / 1000 \<le> b"
    using cuts by metis
  have close: "a - 51 / 10000 \<le> round_ratio a" "round_ratio a \<le> a + 51 / 10000"
    "b - 51 / 10000 \<le> round_ratio b" "round_ratio b \<le> b + 51 / 10000"
    using ab(3,4) unfolding near_band_def by (intro round_ratio_close; linarith)+
  show "middle_cut (normal_cut l partial Col0)" "middle_cut (normal_cut l partial Col1)"
    "normal_cut l partial Col0 + 3 / 100 \<le> normal_cut l partial Col1"
    using ab close unfolding near_band_def middle_cut_def by linarith+
  have thirds: "near_band (1/3) (1/3) (cut_value Map.empty (first_third Col0))"
    "near_band (2/3) (2/3) (cut_value Map.empty (second_third Col1))"
    unfolding first_third_def second_third_def by (rule cut_value_default; simp)+
  then have "cut_value Map.empty (first_third Col0) + 1 / 10 \<le> cut_value Map.empty (second_third Col1)"
    unfolding near_band_def by linarith
  then have defaults: "normal_cut l Map.empty Col0 = round_ratio (cut_value Map.empty (first_third Col0))"
    "normal_cut l Map.empty Col1 = round_ratio (cut_value Map.empty (second_third Col1))"
    using cuts [of Map.empty] by auto
  show "1 / 3 - 6 / 1000 \<le> normal_cut l Map.empty Col0" "normal_cut l Map.empty Col0 \<le> 1 / 3 + 6 / 1000"
    "2 / 3 - 6 / 1000 \<le> normal_cut l Map.empty Col1" "normal_cut l Map.empty Col1 \<le> 2 / 3 + 6 / 1000"
    unfolding defaults
    using round_ratio_band [OF thirds(1)] round_ratio_band [OF thirds(2)] by simp_all
qed


definition quarter_specs :: "split_spec list" where
  "quarter_specs = [spec_of Col0 (10/100) (40/100) (25/100), spec_of Col1 (35/100) (65/100) (50/100),
     spec_of Col2 (60/100) (90/100) (75/100)]"

lemma ordered_three_cuts:
  assumes "ordered_cuts l = Some [Col0, Col1, Col2]" "split_specs l = quarter_specs"
  shows "middle_cut (normal_cut l partial Col0)" "middle_cut (normal_cut l partial Col1)"
    "middle_cut (normal_cut l partial Col2)"
    "normal_cut l partial Col0 + 3 / 100 \<le> normal_cut l partial Col1"
    "normal_cut l partial Col1 + 3 / 100 \<le> normal_cut l partial Col2"
    "25 / 100 - 6 / 1000 \<le> normal_cut l Map.empty Col0" "normal_cut l Map.empty Col0 \<le> 25 / 100 + 6 / 1000"
    "50 / 100 - 6 / 1000 \<le> normal_cut l Map.empty Col1" "normal_cut l Map.empty Col1 \<le> 50 / 100 + 6 / 1000"
    "75 / 100 - 6 / 1000 \<le> normal_cut l Map.empty Col2" "normal_cut l Map.empty Col2 \<le> 75 / 100 + 6 / 1000"
proof -
  let ?s0 = "spec_of Col0 (10/100) (40/100) (25/100)" and ?s1 = "spec_of Col1 (35/100) (65/100) (50/100)"
    and ?s2 = "spec_of Col2 (60/100) (90/100) (75/100)"
  have at: "complete_ratios l q Col0 = Some (cut_value q ?s0)" "complete_ratios l q Col1 = Some (cut_value q ?s1)"
    "complete_ratios l q Col2 = Some (cut_value q ?s2)" for q
    using complete_ratios_lookup [OF specs_distinct, of ?s0 l q] complete_ratios_lookup [OF specs_distinct, of ?s1 l q]
      complete_ratios_lookup [OF specs_distinct, of ?s2 l q]
    by (simp_all add: assms(2) quarter_specs_def)
  have bands: "near_band (10/100) (40/100) (cut_value q ?s0)" "near_band (35/100) (65/100) (cut_value q ?s1)"
    "near_band (60/100) (90/100) (cut_value q ?s2)" for q
    by (rule cut_value_band; simp)+
  have cuts: "\<exists>a b d. normal_cut l q Col0 = round_ratio a \<and> normal_cut l q Col1 = round_ratio b \<and>
      normal_cut l q Col2 = round_ratio d \<and> near_band (9/100) (41/100) a \<and> near_band (34/100) (66/100) b \<and>
      near_band (59/100) (91/100) d \<and> a + 49 / 1000 \<le> b \<and> b + 49 / 1000 \<le> d \<and>
      (cut_value q ?s0 + 1 / 10 \<le> cut_value q ?s1 \<and> cut_value q ?s1 + 1 / 10 \<le> cut_value q ?s2 \<longrightarrow>
        a = cut_value q ?s0 \<and> b = cut_value q ?s1 \<and> d = cut_value q ?s2)" for q
  proof -
    obtain a b d where "pull_back [Col2, Col1, Col0] (f32_sub 1 MIN_CUT_GAP)
        (push_forward [Col0, Col1, Col2] (complete_ratios l q)) =
          (complete_ratios l q)(Col0 \<mapsto> a, Col1 \<mapsto> b, Col2 \<mapsto> d)"
      "near_band (9/100) (41/100) a" "near_band (34/100) (66/100) b" "near_band (59/100) (91/100) d"
      "a + 49 / 1000 \<le> b" "b + 49 / 1000 \<le> d"
      "cut_value q ?s0 + 1 / 10 \<le> cut_value q ?s1 \<Longrightarrow> cut_value q ?s1 + 1 / 10 \<le> cut_value q ?s2 \<Longrightarrow>
        a = cut_value q ?s0 \<and> b = cut_value q ?s1 \<and> d = cut_value q ?s2"
      by (rule three_cuts [OF at [of q] _ _ _ bands [of q]]; simp)
    then show ?thesis
      using assms(1)
      by (intro exI [of _ a] exI [of _ b] exI [of _ d]) (auto simp: normal_cut_def normalize_ratios_def)
  qed
  obtain a b d where abd: "normal_cut l partial Col0 = round_ratio a" "normal_cut l partial Col1 = round_ratio b"
      "normal_cut l partial Col2 = round_ratio d" "near_band (9/100) (41/100) a" "near_band (34/100) (66/100) b"
      "near_band (59/100) (91/100) d" "a + 49 / 1000 \<le> b" "b + 49 / 1000 \<le> d"
    using cuts by metis
  have close: "a - 51 / 10000 \<le> round_ratio a" "round_ratio a \<le> a + 51 / 10000"
    "b - 51 / 10000 \<le> round_ratio b" "round_ratio b \<le> b + 51 / 10000"
    "d - 51 / 10000 \<le> round_ratio d" "round_ratio d \<le> d + 51 / 10000"
    using abd(4-6) unfolding near_band_def by (intro round_ratio_close; linarith)+
  show "middle_cut (normal_cut l partial Col0)" "middle_cut (normal_cut l partial Col1)"
    "middle_cut (normal_cut l partial Col2)"
    "normal_cut l partial Col0 + 3 / 100 \<le> normal_cut l partial Col1"
    "normal_cut l partial Col1 + 3 / 100 \<le> normal_cut l partial Col2"
    using abd close unfolding near_band_def middle_cut_def by linarith+
  have quarters: "near_band (25/100) (25/100) (cut_value Map.empty ?s0)"
    "near_band (50/100) (50/100) (cut_value Map.empty ?s1)" "near_band (75/100) (75/100) (cut_value Map.empty ?s2)"
    by (rule cut_value_default; simp)+
  then have "cut_value Map.empty ?s0 + 1 / 10 \<le> cut_value Map.empty ?s1 \<and>
      cut_value Map.empty ?s1 + 1 / 10 \<le> cut_value Map.empty ?s2"
    unfolding near_band_def by linarith
  then have "normal_cut l Map.empty Col0 = round_ratio (cut_value Map.empty ?s0) \<and>
      normal_cut l Map.empty Col1 = round_ratio (cut_value Map.empty ?s1) \<and>
      normal_cut l Map.empty Col2 = round_ratio (cut_value Map.empty ?s2)"
    using cuts [of Map.empty] by metis
  then show "25 / 100 - 6 / 1000 \<le> normal_cut l Map.empty Col0" "normal_cut l Map.empty Col0 \<le> 25 / 100 + 6 / 1000"
    "50 / 100 - 6 / 1000 \<le> normal_cut l Map.empty Col1" "normal_cut l Map.empty Col1 \<le> 50 / 100 + 6 / 1000"
    "75 / 100 - 6 / 1000 \<le> normal_cut l Map.empty Col2" "normal_cut l Map.empty Col2 \<le> 75 / 100 + 6 / 1000"
    using round_ratio_band [OF quarters(1)] round_ratio_band [OF quarters(2)] round_ratio_band [OF quarters(3)]
    by simp_all
qed


section \<open>Tilings of the unit square\<close>

definition EPS :: rat where
  "EPS = 1 / 10000"

fun inside :: "unit_rect \<Rightarrow> bool" where
  "inside (x, y, w, h) \<longleftrightarrow>
     0 \<le> x \<and> 0 \<le> y \<and> 5 / 1000 < w \<and> 5 / 1000 < h \<and> x + w \<le> 1 + EPS \<and> y + h \<le> 1 + EPS"

fun apart :: "unit_rect \<Rightarrow> unit_rect \<Rightarrow> bool" where
  "apart (x, y, w, h) (x', y', w', h') \<longleftrightarrow>
     x + w \<le> x' + EPS \<or> x' + w' \<le> x + EPS \<or> y + h \<le> y' + EPS \<or> y' + h' \<le> y + EPS"

fun holds_point :: "rat \<Rightarrow> rat \<Rightarrow> unit_rect \<Rightarrow> bool" where
  "holds_point px py (x, y, w, h) \<longleftrightarrow>
     x - EPS \<le> px \<and> px \<le> x + w + EPS \<and> y - EPS \<le> py \<and> py \<le> y + h + EPS"

definition tiles :: "unit_rect list \<Rightarrow> bool" where
  "tiles rs \<longleftrightarrow>
     list_all inside rs \<and> sorted_wrt apart rs \<and>
     (\<forall>px py. 0 \<le> px \<and> px \<le> 1 \<and> 0 \<le> py \<and> py \<le> 1 \<longrightarrow> (\<exists>r \<in> set rs. holds_point px py r))"

definition approx :: "rat \<Rightarrow> rat \<Rightarrow> bool" where
  "approx r v \<longleftrightarrow> v - 1 / 10000000 \<le> r \<and> r \<le> v + 1 / 10000000"

lemma f32_sub_approx: "- 1 \<le> a - b \<Longrightarrow> a - b \<le> 1 \<Longrightarrow> approx (f32_sub a b) (a - b)"
  using f32_sub_close [of a b] by (simp add: approx_def)

lemmas tile_defs = tiles_def approx_def middle_cut_def

lemma tile_two:
  assumes "middle_cut c" "approx r (1 - c)"
  shows "tiles [(0, 0, c, 1), (c, 0, r, 1)]" "tiles [(0, 0, 1, c), (0, c, 1, r)]"
  using assms unfolding tile_defs by (auto simp: EPS_def)

lemma tile_three:
  assumes "middle_cut a" "middle_cut b" "a + 3 / 100 \<le> b" "approx r (b - a)" "approx s (1 - b)"
  shows "tiles [(0, 0, a, 1), (a, 0, r, 1), (b, 0, s, 1)]" "tiles [(0, 0, 1, a), (0, a, 1, r), (0, b, 1, s)]"
  using assms unfolding tile_defs by (auto simp: EPS_def)

lemma tile_three_main:
  assumes "middle_cut m" "middle_cut s" "approx r (1 - m)" "approx q (1 - s)"
  shows "tiles [(0, 0, m, 1), (m, 0, r, s), (m, s, r, q)]"
    "tiles [(0, 0, r, s), (r, 0, m, 1), (0, s, r, q)]"
    "tiles [(0, 0, 1, m), (0, m, s, r), (s, m, q, r)]"
    "tiles [(0, 0, s, r), (s, 0, q, r), (0, r, 1, m)]"
    "tiles [(0, 0, m, s), (m, 0, r, s), (0, s, m, q), (m, s, r, q)]"
  using assms unfolding tile_defs by (auto simp: EPS_def)


lemma tile_four:
  assumes "middle_cut a" "middle_cut d" "a + 3 / 100 \<le> b" "b + 3 / 100 \<le> d"
    "approx r (b - a)" "approx s (d - b)" "approx q (1 - d)"
  shows "tiles [(0, 0, a, 1), (a, 0, r, 1), (b, 0, s, 1), (d, 0, q, 1)]"
    "tiles [(0, 0, 1, a), (0, a, 1, r), (0, b, 1, s), (0, d, 1, q)]"
  using assms unfolding tile_defs by (auto simp: EPS_def)

lemma tile_four_main:
  assumes "middle_cut m" "middle_cut a" "middle_cut b" "a + 3 / 100 \<le> b"
    "approx e (1 - m)" "approx r (b - a)" "approx q (1 - b)"
  shows "tiles [(0, 0, m, 1), (m, 0, e, a), (m, a, e, r), (m, b, e, q)]"
    "tiles [(0, 0, e, a), (e, 0, m, 1), (0, a, e, r), (0, b, e, q)]"
    "tiles [(0, 0, 1, m), (0, m, a, e), (a, m, r, e), (b, m, q, e)]"
    "tiles [(0, 0, a, e), (a, 0, r, e), (b, 0, q, e), (0, e, 1, m)]"
  using assms unfolding tile_defs by (auto simp: EPS_def)


lemma approx_one_minus: "middle_cut c \<Longrightarrow> approx (f32_sub 1 c) (1 - c)"
  unfolding middle_cut_def by (rule f32_sub_approx) linarith+

lemma approx_between: "middle_cut a \<Longrightarrow> middle_cut b \<Longrightarrow> approx (f32_sub b a) (b - a)"
  unfolding middle_cut_def by (rule f32_sub_approx) linarith+

text \<open>The cuts of every layout, gathered.\<close>

lemma middle_cuts:
  "middle_cut (normal_cut TwoColumns p Col0)" "middle_cut (normal_cut TwoRows p Col0)"
  "middle_cut (normal_cut FourGrid p Col0)" "middle_cut (normal_cut FourGrid p Row0)"
  "l \<in> {ThreeLeftMain, ThreeRightMain, ThreeTopMain, ThreeBottomMain} \<Longrightarrow>
     middle_cut (normal_cut l p MainCut) \<and> middle_cut (normal_cut l p SideCut)"
  "l \<in> {FourLeftMain, FourRightMain, FourTopMain, FourBottomMain} \<Longrightarrow> middle_cut (normal_cut l p MainCut)"
  by (auto simp: spec_tables intro!: free_cut_middle(1))

lemma third_cuts:
  assumes "l \<in> {ThreeColumns, ThreeRows, FourLeftMain, FourRightMain, FourTopMain, FourBottomMain}"
  shows "middle_cut (normal_cut l p Col0)" "middle_cut (normal_cut l p Col1)"
    "normal_cut l p Col0 + 3 / 100 \<le> normal_cut l p Col1"
  using assms by (auto simp: spec_tables intro!: ordered_two_cuts)

lemma quarter_cuts:
  assumes "l \<in> {FourColumns, FourRows}"
  shows "middle_cut (normal_cut l p Col0)" "middle_cut (normal_cut l p Col1)" "middle_cut (normal_cut l p Col2)"
    "normal_cut l p Col0 + 3 / 100 \<le> normal_cut l p Col1" "normal_cut l p Col1 + 3 / 100 \<le> normal_cut l p Col2"
  using assms by (auto simp: split_specs_def ordered_cuts_def quarter_specs_def intro!: ordered_three_cuts)

section \<open>Properties of the geometry\<close>

text \<open>
  C35: The rectangles of a layout tile the unit square for every ratio map, up to the test suite's
  tolerance of \<open>1 / 10000\<close>. Whatever finite ratios are stored (missing, out of band, in the wrong
  order), in every layout but \<^verbatim>\<open>FourLeftSplit\<close> and \<^verbatim>\<open>FourTopSplit\<close> there is one rectangle per slot,
  each has a width and a height above \<open>5 / 1000\<close> and lies in the square, no two overlap, and every
  point of the square is in one of them. All of it holds under the rounding of \<^verbatim>\<open>f32\<close>.
\<close>

theorem slot_rects_tile:
  assumes "l \<noteq> FourLeftSplit" "l \<noteq> FourTopSplit"
  shows "length (slot_rects l ratios) = pane_count l \<and> tiles (slot_rects l ratios)"
  using assms
proof (cases l)
  case OneFull
  then show ?thesis by (simp add: slot_rects_def tiles_def EPS_def)
qed (simp_all add: slot_rects_def Let_def normal_cut_def [symmetric] tile_two tile_three tile_three_main
    tile_four tile_four_main middle_cuts third_cuts quarter_cuts approx_one_minus approx_between)


theorem slot_rects_tile_witness:
  "length (slot_rects FourColumns [Col0 \<mapsto> 9, Col2 \<mapsto> - 3]) = 4 \<and>
   tiles (slot_rects FourColumns [Col0 \<mapsto> 9, Col2 \<mapsto> - 3])"
  using slot_rects_tile [of FourColumns "[Col0 \<mapsto> 9, Col2 \<mapsto> - 3]"] by simp

text \<open>
  The two layouts that \<^verbatim>\<open>ordered_cuts\<close> leaves out: their bands overlap, so the stored cuts may cross,
  and the column or row between them gets a negative extent.
\<close>

lemma cut_value_given:
  assumes "partial i = Some v" "0 \<le> lo" "lo \<le> v" "v \<le> hi" "hi \<le> 1"
  shows "near_band v v (cut_value partial (spec_of i lo hi d))"
proof -
  have "f32_round lo \<le> lo + 1 / 10000000" "hi - 1 / 10000000 \<le> f32_round hi"
    using assms by (intro f32_round_close; linarith)+
  moreover have "lo - 1 / 10000000 \<le> f32_round lo" "f32_round hi \<le> hi + 1 / 10000000"
    using assms by (intro f32_round_close; linarith)+
  ultimately show ?thesis
    using assms by (auto simp: cut_value_def spec_of_def f32_clamp_def near_band_def)
qed

lemma crossed_cuts_break_tiling:
  defines "rs \<equiv> slot_rects FourLeftSplit [Col0 \<mapsto> 60/100, Col1 \<mapsto> 40/100]"
  shows "fst (snd (snd (rs ! 1))) < 0" "\<not> tiles rs"
proof -
  let ?p = "[Col0 \<mapsto> 60/100, Col1 \<mapsto> 40/100] :: ratio_map"
  have "normal_cut FourLeftSplit ?p Col0 = round_ratio (cut_value ?p (first_third Col0))"
    "normal_cut FourLeftSplit ?p Col1 = round_ratio (cut_value ?p (second_third Col1))"
    unfolding first_third_def second_third_def by (rule free_cut; simp add: spec_tables)+
  moreover have "near_band (60/100) (60/100) (cut_value ?p (first_third Col0))"
    "near_band (40/100) (40/100) (cut_value ?p (second_third Col1))"
    unfolding first_third_def second_third_def by (rule cut_value_given; simp)+
  ultimately have cuts: "59 / 100 \<le> normal_cut FourLeftSplit ?p Col0" "normal_cut FourLeftSplit ?p Col0 \<le> 61 / 100"
    "39 / 100 \<le> normal_cut FourLeftSplit ?p Col1" "normal_cut FourLeftSplit ?p Col1 \<le> 41 / 100"
    using round_ratio_band [of "60/100" "60/100" "cut_value ?p (first_third Col0)"]
      round_ratio_band [of "40/100" "40/100" "cut_value ?p (second_third Col1)"] by simp_all
  then have "f32_sub (normal_cut FourLeftSplit ?p Col1) (normal_cut FourLeftSplit ?p Col0) < 0"
    using f32_sub_close [of "normal_cut FourLeftSplit ?p Col1" "normal_cut FourLeftSplit ?p Col0"] by linarith
  then show "fst (snd (snd (rs ! 1))) < 0"
    by (simp add: rs_def slot_rects_def Let_def normal_cut_def)
  then show "\<not> tiles rs"
    by (auto simp: rs_def slot_rects_def Let_def tiles_def)
qed

end
