(* ===== verification/Pane_Docking.thy ===== *)
theory Pane_Docking
  imports Pane_Geometry
begin

text \<open>
  Docking a pane next to another (\<^verbatim>\<open>split_ordered_from_slot\<close>): the transition tables of \<open>Pane_Layout\<close>
  composed with the rectangles of \<open>Pane_Geometry\<close>, to say on which side of the split pane the new one
  appears.
\<close>

section \<open>Where a docked pane lands\<close>

text \<open>\<open>beside r r'\<close>: \<open>r'\<close> touches the right side of \<open>r\<close>; \<open>below r r'\<close>: its lower side.\<close>

fun beside :: "unit_rect \<Rightarrow> unit_rect \<Rightarrow> bool" where
  "beside (x, y, w, h) (x', y', w', h') \<longleftrightarrow>
     x + w \<le> x' + EPS \<and> x' \<le> x + w + EPS \<and> y + EPS < y' + h' \<and> y' + EPS < y + h"

fun below :: "unit_rect \<Rightarrow> unit_rect \<Rightarrow> bool" where
  "below (x, y, w, h) (x', y', w', h') \<longleftrightarrow>
     y + h \<le> y' + EPS \<and> y' \<le> y + h + EPS \<and> x + EPS < x' + w' \<and> x' + EPS < x + w"

fun on_edge :: "edge_dir \<Rightarrow> unit_rect \<Rightarrow> unit_rect \<Rightarrow> bool" where
  "on_edge EdgeRight source new = beside source new"
| "on_edge EdgeLeft source new = beside new source"
| "on_edge EdgeBottom source new = below source new"
| "on_edge EdgeTop source new = below new source"

section \<open>Neighbours in each layout\<close>

definition wide :: "rat \<Rightarrow> bool" where
  "wide w \<longleftrightarrow> 1 / 100 \<le> w"

lemma wide_cuts: "middle_cut c \<Longrightarrow> wide c" "middle_cut c \<Longrightarrow> wide (f32_sub 1 c)" "wide 1"
  using approx_one_minus [of c] by (auto simp: wide_def middle_cut_def approx_def)

text \<open>Two panes of one column are stacked, two panes of one row lie side by side, never both.\<close>

lemma neighbour_rules:
  "wide w \<Longrightarrow> below (x, 0, w, y) (x, y, w, h)"
  "wide w \<Longrightarrow> approx h (y' - y) \<Longrightarrow> below (x, y, w, h) (x, y', w, h')"
  "wide h \<Longrightarrow> beside (0, y, x, h) (x, y, w, h)"
  "wide h \<Longrightarrow> approx w (x' - x) \<Longrightarrow> beside (x, y, w, h) (x', y, w', h)"
  "wide w \<Longrightarrow> \<not> beside (x, y, w, h) (x, y', w', h')"
  "wide h \<Longrightarrow> \<not> below (x, y, w, h) (x', y, w', h')"
  by (auto simp: wide_def approx_def EPS_def)

declare beside.simps [simp del] below.simps [simp del]

lemma split_cuts:
  "middle_cut (normal_cut FourLeftSplit p Col0)" "middle_cut (normal_cut FourLeftSplit p Col1)"
  "middle_cut (normal_cut FourTopSplit p Row0)" "middle_cut (normal_cut FourTopSplit p Row1)"
proof -
  have bands: "near_band (15/100) (60/100) (cut_value p (first_third i))"
    "near_band (40/100) (85/100) (cut_value p (second_third i))" for i
    unfolding first_third_def second_third_def by (rule cut_value_band; simp)+
  have "middle_cut (round_ratio (cut_value p (first_third i)))"
    "middle_cut (round_ratio (cut_value p (second_third i)))" for i
    using round_ratio_band [OF bands(1) [of i]] round_ratio_band [OF bands(2) [of i]]
    by (simp_all add: middle_cut_def)
  moreover have "normal_cut FourLeftSplit p Col0 = round_ratio (cut_value p (first_third Col0))"
    "normal_cut FourLeftSplit p Col1 = round_ratio (cut_value p (second_third Col1))"
    "normal_cut FourTopSplit p Row0 = round_ratio (cut_value p (first_third Row0))"
    "normal_cut FourTopSplit p Row1 = round_ratio (cut_value p (second_third Row1))"
    unfolding first_third_def second_third_def by (rule free_cut; simp add: spec_tables)+
  ultimately show "middle_cut (normal_cut FourLeftSplit p Col0)" "middle_cut (normal_cut FourLeftSplit p Col1)"
    "middle_cut (normal_cut FourTopSplit p Row0)" "middle_cut (normal_cut FourTopSplit p Row1)"
    by simp_all
qed

lemmas rect_tables = slot_rects_def Let_def normal_cut_def [symmetric]

lemmas neighbour_facts = rect_tables neighbour_rules wide_cuts middle_cuts third_cuts quarter_cuts split_cuts
  approx_one_minus approx_between

text \<open>The slots that lie side by side, and the ones that are stacked.\<close>

lemma beside_slots:
  "beside (slot_rects TwoColumns p ! 0) (slot_rects TwoColumns p ! 1)"
  "beside (slot_rects ThreeColumns p ! 0) (slot_rects ThreeColumns p ! 1)"
  "beside (slot_rects ThreeColumns p ! 1) (slot_rects ThreeColumns p ! 2)"
  "beside (slot_rects ThreeBottomMain p ! 0) (slot_rects ThreeBottomMain p ! 1)"
  "beside (slot_rects ThreeTopMain p ! 1) (slot_rects ThreeTopMain p ! 2)"
  "beside (slot_rects FourGrid p ! 0) (slot_rects FourGrid p ! 1)"
  "beside (slot_rects FourGrid p ! 2) (slot_rects FourGrid p ! 3)"
  "beside (slot_rects FourLeftSplit p ! 1) (slot_rects FourLeftSplit p ! 2)"
  "beside (slot_rects FourColumns p ! 0) (slot_rects FourColumns p ! 1)"
  "beside (slot_rects FourColumns p ! 1) (slot_rects FourColumns p ! 2)"
  "beside (slot_rects FourColumns p ! 2) (slot_rects FourColumns p ! 3)"
  "beside (slot_rects FourTopMain p ! 1) (slot_rects FourTopMain p ! 2)"
  "beside (slot_rects FourTopMain p ! 2) (slot_rects FourTopMain p ! 3)"
  "beside (slot_rects FourBottomMain p ! 0) (slot_rects FourBottomMain p ! 1)"
  "beside (slot_rects FourBottomMain p ! 1) (slot_rects FourBottomMain p ! 2)"
  by (simp_all add: neighbour_facts)

lemma below_slots:
  "below (slot_rects TwoRows p ! 0) (slot_rects TwoRows p ! 1)"
  "below (slot_rects ThreeRows p ! 0) (slot_rects ThreeRows p ! 1)"
  "below (slot_rects ThreeRows p ! 1) (slot_rects ThreeRows p ! 2)"
  "below (slot_rects ThreeRightMain p ! 0) (slot_rects ThreeRightMain p ! 2)"
  "below (slot_rects ThreeLeftMain p ! 1) (slot_rects ThreeLeftMain p ! 2)"
  "below (slot_rects FourGrid p ! 0) (slot_rects FourGrid p ! 2)"
  "below (slot_rects FourGrid p ! 1) (slot_rects FourGrid p ! 3)"
  "below (slot_rects FourTopSplit p ! 2) (slot_rects FourTopSplit p ! 3)"
  "below (slot_rects FourRows p ! 0) (slot_rects FourRows p ! 1)"
  "below (slot_rects FourRows p ! 1) (slot_rects FourRows p ! 2)"
  "below (slot_rects FourRows p ! 2) (slot_rects FourRows p ! 3)"
  "below (slot_rects FourLeftMain p ! 1) (slot_rects FourLeftMain p ! 2)"
  "below (slot_rects FourLeftMain p ! 2) (slot_rects FourLeftMain p ! 3)"
  "below (slot_rects FourRightMain p ! 0) (slot_rects FourRightMain p ! 2)"
  "below (slot_rects FourRightMain p ! 2) (slot_rects FourRightMain p ! 3)"
  by (simp_all add: neighbour_facts)

lemma not_below_slots:
  "\<not> below (slot_rects FourTopMain p ! 1) (slot_rects FourTopMain p ! 2)"
  "\<not> below (slot_rects FourTopMain p ! 2) (slot_rects FourTopMain p ! 3)"
  "\<not> below (slot_rects FourBottomMain p ! 0) (slot_rects FourBottomMain p ! 1)"
  "\<not> below (slot_rects FourBottomMain p ! 1) (slot_rects FourBottomMain p ! 2)"
  by (simp_all add: neighbour_facts)

lemma not_beside_slots:
  "\<not> beside (slot_rects FourLeftMain p ! 1) (slot_rects FourLeftMain p ! 2)"
  "\<not> beside (slot_rects FourLeftMain p ! 2) (slot_rects FourLeftMain p ! 3)"
  "\<not> beside (slot_rects FourRightMain p ! 0) (slot_rects FourRightMain p ! 2)"
  "\<not> beside (slot_rects FourRightMain p ! 2) (slot_rects FourRightMain p ! 3)"
  by (simp_all add: neighbour_facts)


section \<open>Composition with the transition table\<close>

definition agent_rect :: "pane_layout_model \<Rightarrow> agent_id \<Rightarrow> unit_rect option" where
  "agent_rect m a =
     map_option (\<lambda>s. slot_rects (pl_layout m) (pl_ratios m) ! slot_index s) (slot_of m a)"

lemma slot_index_inj: "slot_index s = slot_index s' \<longleftrightarrow> s = s'"
  by (cases s; cases s') simp_all

lemma agent_rect_model_of:
  assumes "is_valid (model_of l order)" "length order = pane_count l" "i < length order"
  shows "agent_rect (model_of l order) (order ! i) = Some (slot_rects l Map.empty ! i)"
proof -
  have "i = 0 \<or> i = 1 \<or> i = 2 \<or> i = 3"
    using assms(2,3) pane_count_bounds(2) [of l] by linarith
  then obtain s where i: "i = slot_index s"
    by (elim disjE) (metis slot_index.simps)+
  have at: "pl_assignment (model_of l order) s = Some (order ! i)"
    using assms(2,3) i by (simp add: assignment_model_of)
  then have "order ! i \<in> ran (pl_assignment (model_of l order))"
    by (auto simp: ran_def)
  then obtain s' where s': "slot_of (model_of l order) (order ! i) = Some s'"
    using slot_of_None by fastforce
  have "s' = s"
    using valid_assignment_inj [OF assms(1) slot_of_Some [OF s'] at] .
  with s' i show ?thesis by (simp add: agent_rect_def)
qed

text \<open>
  The calls whose edge is perpendicular to the band that the split pane shares with a sibling: a pane
  of the side column split to the left or right, a pane of the side row split up or down.
\<close>

definition crosses_side_band :: "canonical_layout \<Rightarrow> slot_id \<Rightarrow> edge_dir \<Rightarrow> bool" where
  "crosses_side_band l s edge \<longleftrightarrow>
     main_slot_for_layout l \<noteq> Some s \<and>
     (l = ThreeLeftMain \<and> edge_horizontal edge \<or> l = ThreeRightMain \<and> edge_horizontal edge \<or>
      l = ThreeTopMain \<and> \<not> edge_horizontal edge \<or> l = ThreeBottomMain \<and> \<not> edge_horizontal edge)"

definition index_of :: "'a \<Rightarrow> 'a list \<Rightarrow> nat" where
  "index_of x xs = length (takeWhile (\<lambda>y. y \<noteq> x) xs)"

lemma index_of_nth: "x \<in> set xs \<Longrightarrow> index_of x xs < length xs \<and> xs ! index_of x xs = x"
proof -
  assume "x \<in> set xs"
  then obtain ys zs where xs: "xs = ys @ x # zs" "x \<notin> set ys"
    by (meson split_list_first)
  from xs(2) have "takeWhile (\<lambda>y. y \<noteq> x) (ys @ x # zs) = ys"
    by (induction ys) auto
  with xs show ?thesis by (simp add: index_of_def)
qed

lemmas slot_neighbours =
  beside_slots [unfolded One_nat_def numeral_2_eq_2 numeral_3_eq_3]
  below_slots [unfolded One_nat_def numeral_2_eq_2 numeral_3_eq_3]
  not_below_slots [unfolded One_nat_def numeral_2_eq_2 numeral_3_eq_3]
  not_beside_slots [unfolded One_nat_def numeral_2_eq_2 numeral_3_eq_3]

lemmas dock_tables = docked_order_def dock_pair_def insert_at_def get_or_default_def Let_def index_of_def
  crosses_side_band_def

lemma dock_geometry:
  assumes "length as = pane_count l" "slot_index s < pane_count l" "distinct as" "n \<notin> set as"
    "docked_order l s (edge_horizontal edge) (edge_after edge) (slot_index s) (as ! slot_index s) n as =
       Some (Some (target, order))"
  shows "on_edge edge (slot_rects target p ! index_of (as ! slot_index s) order)
      (slot_rects target p ! index_of n order) \<longleftrightarrow> \<not> crosses_side_band l s edge"
  using assms(1)
proof (cases rule: list_of_count)
  case (one a)
  then show ?thesis
    using assms(2-) by (cases l; cases s; cases edge; simp) (auto simp: dock_tables slot_neighbours)
next
  case (two a b)
  then show ?thesis
    using assms(2-) by (cases l; cases s; cases edge; simp) (auto simp: dock_tables slot_neighbours)
next
  case (three a b c)
  then show ?thesis
    using assms(2-) by (cases l; cases s; cases edge; simp) (auto simp: dock_tables slot_neighbours)
next
  case four
  then show ?thesis
    using assms(5) by (cases l) (simp_all add: docked_order_def Let_def split: prod.splits)
qed


text \<open>
  C36: Where a docked pane appears. When \<^verbatim>\<open>split_ordered_from_slot\<close> answers with a model, both the split
  pane and the new one have a rectangle in it, and the new one touches the split pane on the
  requested side exactly when the edge does not cross a side band: for every edge of a pane in a
  one-, two- or uniform three-pane layout and for every edge of a main pane, but for a pane of the side
  column only above or below, and for a pane of the side row only left or right. In the remaining
  cases the new pane joins the band instead, on another side than the one asked for.
\<close>

theorem dock_lands_on_edge:
  assumes "is_valid m" "pl_assignment m s = Some source"
    "split_ordered_from_slot m s edge a = Some (Inr (Some m'))"
  shows "\<exists>rs rn. agent_rect m' source = Some rs \<and> agent_rect m' a = Some rn \<and>
    (on_edge edge rs rn \<longleftrightarrow> \<not> crosses_side_band (pl_layout m) s edge)"
proof -
  let ?as = "agents_in_reading_order m"
  obtain plan where plan: "dock_plan m s edge a = Some plan"
    and eq: "split_ordered_from_slot m s edge a = Some (res_bind (incoming_ok m a) (\<lambda>_. case plan of
        None \<Rightarrow> Inr None
      | Some (target, order) \<Rightarrow> res_bind (from_agents order (Some target)) (\<lambda>m1. Inr (Some m1))))"
    and ok: "\<And>target order. plan = Some (target, order) \<Longrightarrow>
        pane_count target = Suc (pane_count (pl_layout m)) \<and> set order = insert a (set ?as) \<and>
        length order = Suc (length ?as)"
    using assms(2) by (auto intro: dock_plan_spec [OF assms(1), of s edge a])
  obtain u target order where inc: "incoming_ok m a = Inr u" and p: "plan = Some (target, order)"
    and built: "from_agents order (Some target) = Inr m'"
    using assms(3) eq by (auto simp: res_bind_eq_Inr split: option.splits)
  note facts = ok [OF p, THEN conjunct1] ok [OF p, THEN conjunct2, THEN conjunct1]
    ok [OF p, THEN conjunct2, THEN conjunct2]
  note grown = grown_model [OF assms(1) inc facts]
  have m': "m' = model_of target order"
    using grown(1) built by simp
  note at = agent_at_slot [OF assms(1,2)]
  have as: "length ?as = pane_count (pl_layout m)" "distinct ?as" "a \<notin> set ?as" "source \<in> set ?as"
    using assms(1) inc length_reading [OF assms(1)] ranI [of "pl_assignment m", OF assms(2)]
    by (simp_all add: is_valid_iff incoming_ok_Inr ran_assignment)
  have len: "length order = pane_count target"
    using facts as(1) by simp
  have pos: "index_of source order < length order" "order ! index_of source order = source"
    "index_of a order < length order" "order ! index_of a order = a"
    using index_of_nth [of source order] index_of_nth [of a order] facts(2) as(4) by auto
  have "on_edge edge (slot_rects target Map.empty ! index_of source order)
      (slot_rects target Map.empty ! index_of a order) \<longleftrightarrow> \<not> crosses_side_band (pl_layout m) s edge"
    using dock_geometry [OF as(1) at(2) as(2,3), of edge target order Map.empty] plan p at(1)
    by (simp add: dock_plan_def)
  then show ?thesis
    unfolding m' using agent_rect_model_of [OF grown(2) len pos(1)] agent_rect_model_of [OF grown(2) len pos(3)] pos
    by simp
qed

definition docked_demo :: pane_layout_model where
  "docked_demo = model_of FourRightMain [''a'', ''b'', ''n'', ''c'']"

theorem dock_lands_on_edge_witness:
  "\<exists>rs rn. agent_rect docked_demo ''a'' = Some rs \<and> agent_rect docked_demo ''n'' = Some rn \<and>
     \<not> on_edge EdgeRight rs rn"
proof -
  have "pl_assignment demo_panes S0 = Some ''a''"
    unfolding demo_panes_def by (subst assignment_model_of) simp_all
  moreover have "split_ordered_from_slot demo_panes S0 EdgeRight ''n'' = Some (Inr (Some docked_demo))"
    using calculation
    by (simp add: split_ordered_from_slot_def incoming_ok_Inr incoming_ok_def ran_assignment [OF demo_panes_valid])
       (simp add: demo_panes_def docked_demo_def slot_tables docked_order_def dock_pair_def Let_def from_agents_Inr
         preferred_layout_def res_bind_eq_Inr)
  ultimately show ?thesis
    using dock_lands_on_edge [OF demo_panes_valid, of S0 "''a''" EdgeRight "''n''" docked_demo]
    by (simp add: crosses_side_band_def demo_panes_def)
qed

end
