(* ===== verification/Access_Gate.thy ===== *)
theory Access_Gate
  imports Prelude
begin

text \<open>
  The pure gates of the agent's access boundary: the signed token (\<^verbatim>\<open>hydra-agent/src/remote_token.rs\<close>),
  the session policy (\<^verbatim>\<open>remote_policy.rs\<close>), live revocation (\<^verbatim>\<open>revocation.rs\<close>), the input token bucket
  (\<^verbatim>\<open>input_rate.rs\<close>), the bounded memory of handled offers (\<^verbatim>\<open>seen_set.rs\<close>) and the setup deadline
  (\<^verbatim>\<open>setup_deadline.rs\<close>).
\<close>

section \<open>Tokens\<close>

record token_claims =
  tk_account_id :: string
  tk_device_id :: string
  tk_session_id :: "string option"
  tk_signal_session_id :: "string option"
  tk_target_device_id :: "string option"
  tk_browser_pubkey :: "string option"
  tk_browser_pubkey_alg :: "string option"
  tk_refresh_parent_sha256 :: "string option"
  tk_iat_ms :: u64
  tk_exp_ms :: u64

datatype token_error = TokMalformed | TokBadSignature | TokExpired | TokRevoked | TokWrongDevice

text \<open>
  What \<^verbatim>\<open>verify_token\<close> calls of the crates \<^verbatim>\<open>base64\<close>, \<^verbatim>\<open>ed25519-dalek\<close> and \<^verbatim>\<open>serde_json\<close>: decoding, reading a
  signature, checking it under the cloud's key, and reading the claims.
\<close>

record 'sig token_crypto =
  tc_b64_decode :: "string \<Rightarrow> u8 list option"
  tc_signature :: "u8 list \<Rightarrow> 'sig option"
  tc_verify :: "string \<Rightarrow> 'sig \<Rightarrow> bool"
  tc_claims :: "u8 list \<Rightarrow> token_claims option"

text \<open>\<^verbatim>\<open>str::split_once\<close>.\<close>

definition split_once :: "char \<Rightarrow> string \<Rightarrow> (string \<times> string) option" where
  "split_once c s =
     (case dropWhile (\<lambda>x. x \<noteq> c) s of
        [] \<Rightarrow> None
      | _ # rest \<Rightarrow> Some (takeWhile (\<lambda>x. x \<noteq> c) s, rest))"

definition ok_or :: "'e \<Rightarrow> 'a option \<Rightarrow> 'e + 'a" where
  "ok_or e v = (case v of None \<Rightarrow> Inl e | Some a \<Rightarrow> Inr a)"

definition verify_token ::
    "'sig token_crypto \<Rightarrow> string \<Rightarrow> u64 \<Rightarrow> string \<Rightarrow> (string \<Rightarrow> string \<Rightarrow> u64 \<Rightarrow> bool)
     \<Rightarrow> token_error + token_claims" where
  "verify_token tc token now expected_device_id revoked =
     res_bind (ok_or TokMalformed (split_once CHR ''.'' token)) (\<lambda>(claims_b64, sig_b64).
     res_bind (ok_or TokMalformed (tc_b64_decode tc sig_b64)) (\<lambda>sig_bytes.
     res_bind (ok_or TokMalformed (tc_signature tc sig_bytes)) (\<lambda>sig.
       if \<not> tc_verify tc claims_b64 sig then Inl TokBadSignature
       else
     res_bind (ok_or TokMalformed (tc_b64_decode tc claims_b64)) (\<lambda>claims_json.
     res_bind (ok_or TokMalformed (tc_claims tc claims_json)) (\<lambda>claims.
       if tk_exp_ms claims \<le> now then Inl TokExpired
       else if tk_device_id claims \<noteq> expected_device_id then Inl TokWrongDevice
       else if revoked (tk_account_id claims) (tk_device_id claims) (tk_iat_ms claims) then Inl TokRevoked
       else Inr claims)))))"

lemma ok_or_eq_Inr [simp]: "ok_or e v = Inr a \<longleftrightarrow> v = Some a"
  by (simp add: ok_or_def split: option.splits)

lemma ok_or_eq_Inl [simp]: "ok_or e v = Inl e' \<longleftrightarrow> v = None \<and> e' = e"
  by (auto simp: ok_or_def split: option.splits)

lemma verify_token_Inr:
  "verify_token tc token now dev revoked = Inr claims \<longleftrightarrow>
     (\<exists>claims_b64 sig_b64 sig_bytes sig claims_json.
        split_once CHR ''.'' token = Some (claims_b64, sig_b64) \<and>
        tc_b64_decode tc sig_b64 = Some sig_bytes \<and> tc_signature tc sig_bytes = Some sig \<and>
        tc_verify tc claims_b64 sig \<and> tc_b64_decode tc claims_b64 = Some claims_json \<and>
        tc_claims tc claims_json = Some claims \<and> now < tk_exp_ms claims \<and> tk_device_id claims = dev \<and>
        \<not> revoked (tk_account_id claims) (tk_device_id claims) (tk_iat_ms claims))"
  by (auto simp: verify_token_def res_bind_eq_Inr split: if_splits prod.splits) (auto simp: not_le)

section \<open>Session policy\<close>

text \<open>The trait \<^verbatim>\<open>SessionPolicy\<close> as the record of its two methods.\<close>

record session_policy =
  may_list :: "string \<Rightarrow> string \<Rightarrow> bool"
  may_attach :: "string \<Rightarrow> string \<Rightarrow> string \<Rightarrow> bool"

definition SameAsLocalPolicy :: session_policy where
  "SameAsLocalPolicy = \<lparr>may_list = (\<lambda>_ _. True), may_attach = (\<lambda>_ _ _. True)\<rparr>"

datatype access_denied = SessionScopeMismatch | PolicyDenied

definition can_attach :: "token_claims \<Rightarrow> session_policy \<Rightarrow> string \<Rightarrow> access_denied + unit" where
  "can_attach claims policy session_id =
     (case tk_session_id claims of
        Some bound \<Rightarrow>
          if bound \<noteq> session_id then Inl SessionScopeMismatch
          else if may_attach policy (tk_account_id claims) (tk_device_id claims) session_id then Inr ()
          else Inl PolicyDenied
      | None \<Rightarrow>
          if may_attach policy (tk_account_id claims) (tk_device_id claims) session_id then Inr ()
          else Inl PolicyDenied)"

definition can_list :: "token_claims \<Rightarrow> session_policy \<Rightarrow> access_denied + unit" where
  "can_list claims policy =
     (if may_list policy (tk_account_id claims) (tk_device_id claims) then Inr () else Inl PolicyDenied)"

definition visible_sessions :: "token_claims \<Rightarrow> session_policy \<Rightarrow> string list \<Rightarrow> string list" where
  "visible_sessions claims policy all_sessions =
     filter (\<lambda>s. (case tk_session_id claims of Some bound \<Rightarrow> bound = s | None \<Rightarrow> True) \<and>
                 may_attach policy (tk_account_id claims) (tk_device_id claims) s) all_sessions"

text \<open>What a token may see is exactly what it may attach.\<close>

lemma visible_iff_attachable:
  "s \<in> set (visible_sessions claims policy all_sessions) \<longleftrightarrow>
     s \<in> set all_sessions \<and> can_attach claims policy s = Inr ()"
  by (auto simp: visible_sessions_def can_attach_def split: option.splits)

section \<open>Revocation\<close>

record revocation_snapshot =
  rs_self_revoked :: bool
  rs_revoked_ids :: "string set"
  rs_revoke_before_ms :: u64
  rs_primed :: bool

definition new_revocation :: revocation_snapshot where
  "new_revocation =
     \<lparr>rs_self_revoked = False, rs_revoked_ids = {}, rs_revoke_before_ms = 0, rs_primed = False\<rparr>"

definition update_revocation ::
    "bool \<Rightarrow> string set \<Rightarrow> u64 \<Rightarrow> revocation_snapshot \<Rightarrow> revocation_snapshot" where
  "update_revocation self_revoked revoked_ids revoke_before g =
     g\<lparr>rs_self_revoked := self_revoked, rs_revoked_ids := revoked_ids,
       rs_revoke_before_ms := (if rs_revoke_before_ms g < revoke_before then revoke_before
                               else rs_revoke_before_ms g),
       rs_primed := True\<rparr>"

definition mark_self_revoked :: "revocation_snapshot \<Rightarrow> revocation_snapshot" where
  "mark_self_revoked g = g\<lparr>rs_self_revoked := True, rs_primed := True\<rparr>"

definition revocation_is_revoked :: "revocation_snapshot \<Rightarrow> string \<Rightarrow> u64 \<Rightarrow> bool" where
  "revocation_is_revoked g browser_device_id token_iat \<longleftrightarrow>
     rs_primed g \<and>
     (rs_self_revoked g \<or> browser_device_id \<in> rs_revoked_ids g \<or>
      (0 < rs_revoke_before_ms g \<and> token_iat \<le> rs_revoke_before_ms g))"

text \<open>The results of a poll; \<open>PollFailed\<close> is the \<^verbatim>\<open>Err\<close> arm.\<close>

datatype revocation_poll =
    PollSnapshot bool "string list" u64
  | PollTerminalDenial
  | PollFailed

fun apply_revocation_poll :: "revocation_snapshot \<Rightarrow> revocation_poll \<Rightarrow> revocation_snapshot" where
  "apply_revocation_poll g (PollSnapshot self_revoked ids before) =
     update_revocation self_revoked (set ids) before g"
| "apply_revocation_poll g PollTerminalDenial = mark_self_revoked g"
| "apply_revocation_poll g PollFailed = g"

text \<open>The remove-only evidence: once primed a snapshot stays primed, and the account marker never moves back.\<close>

definition evidence_before :: "revocation_snapshot \<Rightarrow> revocation_snapshot \<Rightarrow> bool" where
  "evidence_before g g' \<longleftrightarrow>
     (rs_primed g \<longrightarrow> rs_primed g') \<and> rs_revoke_before_ms g \<le> rs_revoke_before_ms g'"

interpretation revocation: monotone_stepping apply_revocation_poll "\<lambda>_. True" evidence_before
proof unfold_locales
  show "evidence_before g (apply_revocation_poll g p)" for g p
    by (cases p) (auto simp: evidence_before_def update_revocation_def mark_self_revoked_def)
qed (auto simp: evidence_before_def)

section \<open>Input rate\<close>

record input_rate_limiter =
  ir_capacity :: u64
  ir_refill_per_sec :: u64
  ir_tokens :: u64
  ir_last_ms :: "u64 option"

definition DEFAULT_REFILL_PER_SEC :: u64 where
  "DEFAULT_REFILL_PER_SEC = 256 * 1024"

definition DEFAULT_CAPACITY :: u64 where
  "DEFAULT_CAPACITY = 1024 * 1024"

definition new_rate_limiter :: "u64 \<Rightarrow> u64 \<Rightarrow> input_rate_limiter" where
  "new_rate_limiter capacity refill =
     \<lparr>ir_capacity = capacity, ir_refill_per_sec = refill, ir_tokens = capacity, ir_last_ms = None\<rparr>"

definition default_rate_limiter :: input_rate_limiter where
  "default_rate_limiter = new_rate_limiter DEFAULT_CAPACITY DEFAULT_REFILL_PER_SEC"

definition refill :: "u64 \<Rightarrow> input_rate_limiter \<Rightarrow> input_rate_limiter" where
  "refill now r =
     (case ir_last_ms r of
        None \<Rightarrow> r\<lparr>ir_last_ms := Some now\<rparr>
      | Some prev \<Rightarrow>
          let elapsed = saturating_sub_u64 now prev in
          if 0 < elapsed
          then let added = saturating_mul_u64 (ir_refill_per_sec r) elapsed div 1000 in
               r\<lparr>ir_tokens := min (saturating_add_u64 (ir_tokens r) added) (ir_capacity r),
                 ir_last_ms := Some now\<rparr>
          else r)"

definition allow :: "u64 \<Rightarrow> u64 \<Rightarrow> input_rate_limiter \<Rightarrow> bool \<times> input_rate_limiter" where
  "allow bytes now r0 =
     (let r = refill now r0 in
      if bytes \<le> ir_tokens r then (True, r\<lparr>ir_tokens := ir_tokens r - bytes\<rparr>) else (False, r))"


text \<open>
  The budget argument, in thousandths of a byte: what a call accepts and leaves in the bucket is covered
  by what was there and by what the clock added. \<open>bucket_clock\<close> is the last refill, or the time of the call.
\<close>

definition bucket_clock :: "input_rate_limiter \<Rightarrow> u64 \<Rightarrow> nat" where
  "bucket_clock r now = unat (case ir_last_ms r of None \<Rightarrow> now | Some t \<Rightarrow> t)"

definition bucket_ok :: "input_rate_limiter \<Rightarrow> bool" where
  "bucket_ok r \<longleftrightarrow> ir_tokens r \<le> ir_capacity r"

lemma refill_credit:
  assumes "r' = refill now r"
  shows "unat (ir_tokens r') * 1000 \<le>
      unat (ir_tokens r) * 1000 + unat (ir_refill_per_sec r) * (bucket_clock r' now - bucket_clock r now)"
    "bucket_clock r now \<le> bucket_clock r' now" "bucket_clock r' now \<le> max (unat now) (bucket_clock r now)"
    "ir_last_ms r' \<noteq> None" "ir_capacity r' = ir_capacity r" "ir_refill_per_sec r' = ir_refill_per_sec r"
    "bucket_ok r \<Longrightarrow> bucket_ok r'"
proof -
  have fresh: "unat (ir_tokens r') * 1000 \<le> unat (ir_tokens r) * 1000 +
      unat (ir_refill_per_sec r) * (bucket_clock r' now - bucket_clock r now) \<and>
      bucket_clock r now \<le> bucket_clock r' now \<and> bucket_clock r' now \<le> max (unat now) (bucket_clock r now) \<and>
      (bucket_ok r \<longrightarrow> bucket_ok r')"
  proof (cases "ir_last_ms r")
    case None
    then show ?thesis by (simp add: assms refill_def bucket_clock_def bucket_ok_def)
  next
    case (Some t)
    show ?thesis
    proof (cases "t < now")
      case True
      let ?e = "saturating_sub_u64 now t" and ?f = "ir_refill_per_sec r"
      have e: "unat ?e = unat now - unat t" "0 < ?e"
        using True by (auto simp: unat_saturating_sub_u64 saturating_sub_u64_def word_less_nat_alt unat_sub
            word_le_nat_alt)
      let ?added = "saturating_mul_u64 ?f ?e div 1000"
      have "unat ?added * 1000 \<le> unat (saturating_mul_u64 ?f ?e)"
        by (simp add: unat_div)
      also have "\<dots> \<le> unat ?f * (unat now - unat t)"
        using e by (simp add: unat_saturating_mul_u64)
      finally have added: "unat ?added * 1000 \<le> unat ?f * (unat now - unat t)" .
      have "unat (min (saturating_add_u64 (ir_tokens r) ?added) (ir_capacity r)) \<le> unat (ir_tokens r) + unat ?added"
      proof -
        have "min (saturating_add_u64 (ir_tokens r) ?added) (ir_capacity r) \<le> saturating_add_u64 (ir_tokens r) ?added"
          by simp
        then have "unat (min (saturating_add_u64 (ir_tokens r) ?added) (ir_capacity r)) \<le>
            unat (saturating_add_u64 (ir_tokens r) ?added)"
          by (simp only: word_le_nat_alt)
        also have "\<dots> \<le> unat (ir_tokens r) + unat ?added"
          by (simp only: unat_saturating_add_u64 min.cobounded1)
        finally show ?thesis .
      qed
      then have "unat (min (saturating_add_u64 (ir_tokens r) ?added) (ir_capacity r)) * 1000 \<le>
          unat (ir_tokens r) * 1000 + unat ?f * (unat now - unat t)"
        using added by linarith
      with e Some True show ?thesis
        by (simp add: assms refill_def bucket_clock_def bucket_ok_def word_less_nat_alt)
    next
      case False
      then have "saturating_sub_u64 now t = 0"
        by (simp add: saturating_sub_u64_def not_less)
      with Some show ?thesis
        by (simp add: assms refill_def bucket_clock_def)
    qed
  qed
  then show "unat (ir_tokens r') * 1000 \<le>
      unat (ir_tokens r) * 1000 + unat (ir_refill_per_sec r) * (bucket_clock r' now - bucket_clock r now)"
    "bucket_clock r now \<le> bucket_clock r' now" "bucket_clock r' now \<le> max (unat now) (bucket_clock r now)"
    "bucket_ok r \<Longrightarrow> bucket_ok r'"
    by blast+
  show "ir_last_ms r' \<noteq> None" "ir_capacity r' = ir_capacity r" "ir_refill_per_sec r' = ir_refill_per_sec r"
    by (simp_all add: assms refill_def Let_def split: option.splits)
qed


text \<open>A sequence of calls, and the bytes it lets through.\<close>

fun allow_all :: "(u64 \<times> u64) list \<Rightarrow> input_rate_limiter \<Rightarrow> nat \<times> input_rate_limiter" where
  "allow_all [] r = (0, r)"
| "allow_all ((bytes, now) # calls) r =
     (case allow bytes now r of (ok, r1) \<Rightarrow>
      case allow_all calls r1 of (n, r2) \<Rightarrow> ((if ok then unat bytes else 0) + n, r2))"

lemma allow_credit:
  assumes "allow bytes now r = (ok, r')"
  shows "(if ok then unat bytes else 0) * 1000 + unat (ir_tokens r') * 1000 \<le>
      unat (ir_tokens r) * 1000 + unat (ir_refill_per_sec r) * (bucket_clock r' now - bucket_clock r now)"
    "bucket_clock r now \<le> bucket_clock r' now" "bucket_clock r' now \<le> max (unat now) (bucket_clock r now)"
    "ir_last_ms r' \<noteq> None" "ir_capacity r' = ir_capacity r" "ir_refill_per_sec r' = ir_refill_per_sec r"
    "bucket_ok r \<Longrightarrow> bucket_ok r'"
proof -
  define r1 where "r1 = refill now r"
  note credit = refill_credit [OF r1_def]
  have r': "r' = (if bytes \<le> ir_tokens r1 then r1\<lparr>ir_tokens := ir_tokens r1 - bytes\<rparr> else r1)"
    and ok: "ok = (bytes \<le> ir_tokens r1)"
    using assms by (auto simp: allow_def Let_def r1_def split: if_splits)
  have tokens: "(if ok then unat bytes else 0) + unat (ir_tokens r') = unat (ir_tokens r1)"
    by (auto simp: r' ok unat_sub word_le_nat_alt)
  have clock: "bucket_clock r' now = bucket_clock r1 now"
    by (simp add: bucket_clock_def r')
  show "(if ok then unat bytes else 0) * 1000 + unat (ir_tokens r') * 1000 \<le>
      unat (ir_tokens r) * 1000 + unat (ir_refill_per_sec r) * (bucket_clock r' now - bucket_clock r now)"
    using tokens credit(1) clock by (simp flip: add_mult_distrib)
  show "bucket_clock r now \<le> bucket_clock r' now" "bucket_clock r' now \<le> max (unat now) (bucket_clock r now)"
    using credit(2,3) clock by simp_all
  show "ir_last_ms r' \<noteq> None" "ir_capacity r' = ir_capacity r" "ir_refill_per_sec r' = ir_refill_per_sec r"
    using credit(4-6) by (simp_all add: r')
  show "bucket_ok r'" if "bucket_ok r"
  proof -
    have "ir_tokens r' \<le> ir_tokens r1"
      using tokens by (simp add: word_le_nat_alt)
    then show ?thesis
      using credit(7) [OF that] by (auto simp: bucket_ok_def r' split: if_splits)
  qed
qed

lemma clock_known: "ir_last_ms r \<noteq> None \<Longrightarrow> bucket_clock r now = bucket_clock r now'"
  by (auto simp: bucket_clock_def)

lemma allow_all_credit:
  assumes "ir_last_ms r \<noteq> None" "allow_all calls r = (n, r')"
    "list_all (\<lambda>(bytes, now). unat now \<le> latest) calls" "bucket_clock r 0 \<le> latest"
  shows "n * 1000 + unat (ir_tokens r') * 1000 \<le>
      unat (ir_tokens r) * 1000 + unat (ir_refill_per_sec r) * (latest - bucket_clock r 0)"
  using assms
proof (induction calls arbitrary: r n)
  case Nil
  then show ?case by simp
next
  case (Cons c calls)
  obtain bytes now where c: "c = (bytes, now)"
    by fastforce
  obtain ok r1 where step: "allow bytes now r = (ok, r1)"
    by fastforce
  obtain n1 where rest: "allow_all calls r1 = (n1, r')" "n = (if ok then unat bytes else 0) + n1"
    using Cons.prems(2) step by (auto simp: c split: prod.splits)
  note credit = allow_credit [OF step]
  have clocks: "bucket_clock r now = bucket_clock r 0" "bucket_clock r1 now = bucket_clock r1 0"
    using clock_known Cons.prems(1) credit(4) by blast+
  have now: "unat now \<le> latest"
    using Cons.prems(3) c by simp
  then have "bucket_clock r1 0 \<le> latest"
    using credit(3) Cons.prems(4) clocks by linarith
  then have IH: "n1 * 1000 + unat (ir_tokens r') * 1000 \<le>
      unat (ir_tokens r1) * 1000 + unat (ir_refill_per_sec r) * (latest - bucket_clock r1 0)"
    using Cons.IH [OF credit(4) rest(1)] Cons.prems(3) credit(6) by simp
  have "(bucket_clock r1 0 - bucket_clock r 0) + (latest - bucket_clock r1 0) = latest - bucket_clock r 0"
    using credit(2) clocks \<open>bucket_clock r1 0 \<le> latest\<close> by linarith
  then have "unat (ir_refill_per_sec r) * (bucket_clock r1 0 - bucket_clock r 0) +
      unat (ir_refill_per_sec r) * (latest - bucket_clock r1 0) =
      unat (ir_refill_per_sec r) * (latest - bucket_clock r 0)"
    by (metis add_mult_distrib2)
  then show ?case
    using IH credit(1) clocks rest(2) by (simp add: add_mult_distrib)
qed


section \<open>Handled offers\<close>

record bounded_seen =
  bs_capacity :: nat
  bs_set :: "string set"
  bs_order :: "string list"

definition new_seen :: "nat \<Rightarrow> bounded_seen" where
  "new_seen capacity = \<lparr>bs_capacity = max capacity 1, bs_set = {}, bs_order = []\<rparr>"

definition seen_contains :: "bounded_seen \<Rightarrow> string \<Rightarrow> bool" where
  "seen_contains s i \<longleftrightarrow> i \<in> bs_set s"

definition seen_insert :: "string \<Rightarrow> bounded_seen \<Rightarrow> bool \<times> bounded_seen" where
  "seen_insert i s0 =
     (if i \<in> bs_set s0 then (False, s0)
      else let s1 = (if bs_capacity s0 \<le> length (bs_order s0)
                     then (case bs_order s0 of
                             [] \<Rightarrow> s0
                           | oldest # rest \<Rightarrow> s0\<lparr>bs_order := rest, bs_set := bs_set s0 - {oldest}\<rparr>)
                     else s0)
           in (True, s1\<lparr>bs_order := bs_order s1 @ [i], bs_set := insert i (bs_set s1)\<rparr>))"

definition seen_inv :: "bounded_seen \<Rightarrow> bool" where
  "seen_inv s \<longleftrightarrow>
     0 < bs_capacity s \<and> length (bs_order s) \<le> bs_capacity s \<and> distinct (bs_order s) \<and>
     bs_set s = set (bs_order s)"

lemma seen_insert_order:
  assumes "seen_inv s"
  shows "bs_order (snd (seen_insert i s)) =
     (if i \<in> set (bs_order s) then bs_order s
      else (if bs_capacity s \<le> length (bs_order s) then tl (bs_order s) else bs_order s) @ [i])"
    "bs_capacity (snd (seen_insert i s)) = bs_capacity s"
  using assms by (auto simp: seen_insert_def seen_inv_def Let_def split: list.splits)

interpretation offers: stepping "\<lambda>s i. snd (seen_insert i s)" seen_inv
proof unfold_locales
  show "seen_inv (snd (seen_insert i s))" if "seen_inv s" for s i
    using that by (auto simp: seen_insert_def seen_inv_def Let_def split: list.splits)
qed

text \<open>An offer is forgotten only after as many others as the set can hold.\<close>

lemma seen_remembered:
  assumes "seen_inv s" "bs_order s = xs @ i # ys" "length ys + length ids < bs_capacity s"
  shows "seen_contains (offers.run ids s) i"
  using assms
proof (induction ids arbitrary: s xs ys)
  case Nil
  then show ?case by (simp add: seen_contains_def seen_inv_def)
next
  case (Cons j ids)
  let ?s = "snd (seen_insert j s)"
  note order = seen_insert_order [OF Cons.prems(1), of j]
  have inv: "seen_inv ?s"
    using Cons.prems(1) by (rule offers.step_inv)
  consider (old) "j \<in> set (bs_order s)" | (fresh) "j \<notin> set (bs_order s)" "xs = []"
    | (evict) x xs' where "j \<notin> set (bs_order s)" "xs = x # xs'"
    by (cases xs) auto
  then show ?case
  proof cases
    case old
    then show ?thesis
      using Cons.IH [OF inv, of xs ys] Cons.prems(2,3) order by simp
  next
    case fresh
    then show ?thesis
      using Cons.IH [OF inv, of "[]" "ys @ [j]"] Cons.prems(2,3) order by simp
  next
    case evict
    then show ?thesis
      using Cons.IH [OF inv, of xs' "ys @ [j]"] Cons.IH [OF inv, of xs "ys @ [j]"] Cons.prems(2,3) order
      by (simp split: if_splits)
  qed
qed

section \<open>Setup deadline\<close>

datatype deadline_expiry = Inactivity | Absolute

text \<open>Instants and durations are natural numbers of one clock tick.\<close>

record 'k progress_deadline =
  pd_inactivity :: nat
  pd_inactivity_at :: nat
  pd_absolute_at :: nat
  pd_last_progress_at :: nat
  pd_seen :: "'k set"

text \<open>\<open>None\<close> where an \<^verbatim>\<open>assert!\<close> of the constructor fails.\<close>

definition new_deadline :: "nat \<Rightarrow> nat \<Rightarrow> nat \<Rightarrow> 'k progress_deadline option" where
  "new_deadline started_at inactivity absolute =
     (if inactivity = 0 \<or> absolute < inactivity then None
      else Some \<lparr>pd_inactivity = inactivity, pd_inactivity_at = started_at + inactivity,
                 pd_absolute_at = started_at + absolute, pd_last_progress_at = started_at, pd_seen = {}\<rparr>)"

definition deadline_expired :: "'k progress_deadline \<Rightarrow> nat \<Rightarrow> deadline_expiry option" where
  "deadline_expired d now =
     (if pd_absolute_at d \<le> now then Some Absolute
      else if pd_inactivity_at d \<le> now then Some Inactivity
      else None)"

definition deadline_next_at :: "'k progress_deadline \<Rightarrow> nat" where
  "deadline_next_at d = min (pd_inactivity_at d) (pd_absolute_at d)"

definition observe :: "'k \<Rightarrow> nat \<Rightarrow> 'k progress_deadline \<Rightarrow> bool \<times> 'k progress_deadline" where
  "observe key observed_at d =
     (if deadline_expired d observed_at \<noteq> None then (False, d)
      else if key \<in> pd_seen d then (False, d)
      else let d1 = d\<lparr>pd_seen := insert key (pd_seen d)\<rparr> in
           (True, if pd_last_progress_at d1 < observed_at
                  then d1\<lparr>pd_last_progress_at := observed_at,
                          pd_inactivity_at := observed_at + pd_inactivity d1\<rparr>
                  else d1))"

definition deadline_inv :: "'k progress_deadline \<Rightarrow> bool" where
  "deadline_inv d \<longleftrightarrow>
     pd_inactivity_at d = pd_last_progress_at d + pd_inactivity d \<and>
     pd_last_progress_at d \<le> pd_absolute_at d \<and> finite (pd_seen d)"

definition deadline_extends :: "'k progress_deadline \<Rightarrow> 'k progress_deadline \<Rightarrow> bool" where
  "deadline_extends d d' \<longleftrightarrow>
     pd_absolute_at d' = pd_absolute_at d \<and> pd_inactivity d' = pd_inactivity d \<and>
     pd_last_progress_at d \<le> pd_last_progress_at d' \<and> pd_seen d \<subseteq> pd_seen d'"

text \<open>Progress moves the inactivity deadline forward, once per key, and never the absolute one.\<close>

interpretation setup_clock: monotone_stepping "\<lambda>d (key, at). snd (observe key at d)" deadline_inv deadline_extends
proof unfold_locales
  show "deadline_inv ((\<lambda>(key, at). snd (observe key at d)) e)" if "deadline_inv d"
    for d :: "'a progress_deadline" and e
    using that by (cases e) (auto simp: observe_def deadline_inv_def deadline_expired_def Let_def)
  show "deadline_extends d ((\<lambda>(key, at). snd (observe key at d)) e)" if "deadline_inv d"
    for d :: "'a progress_deadline" and e
    using that by (cases e) (auto simp: observe_def deadline_extends_def Let_def)
qed (auto simp: deadline_extends_def)

lemma setup_deadline_bounded:
  fixes d :: "'k progress_deadline"
  assumes "new_deadline started inactivity absolute = Some d"
  shows "deadline_next_at (setup_clock.run events d) \<le> started + absolute"
proof -
  have "deadline_inv d"
    using assms by (auto simp: new_deadline_def deadline_inv_def split: if_splits)
  then have "deadline_extends d (setup_clock.run events d)"
    by (rule setup_clock.run_before)
  then show ?thesis
    using assms by (auto simp: deadline_next_at_def deadline_extends_def new_deadline_def split: if_splits)
qed

section \<open>Properties of the gates\<close>

text \<open>
  C40: An account-wide revocation can never be undone. Once a poll has reported a revoke-before
  marker, every token of the account minted at or before it is revoked, and it stays revoked after
  any further sequence of polls, whether they succeed with an older marker, fail, or come back
  empty; so the token check refuses it from then on, whatever the signature says.
\<close>

theorem account_revocation_is_permanent:
  assumes "0 < marker" "iat \<le> marker"
    "g = fold (\<lambda>p g. apply_revocation_poll g p) earlier new_revocation"
    "g' = fold (\<lambda>p g. apply_revocation_poll g p) later (apply_revocation_poll g (PollSnapshot self ids marker))"
  shows "revocation_is_revoked g' browser iat \<and>
    (tk_iat_ms claims = iat \<longrightarrow>
     verify_token tc token now dev (\<lambda>_ d i. revocation_is_revoked g' d i) \<noteq> Inr claims)"
proof -
  let ?g1 = "apply_revocation_poll g (PollSnapshot self ids marker)"
  have "rs_primed ?g1" "marker \<le> rs_revoke_before_ms ?g1"
    by (auto simp: update_revocation_def)
  moreover have "evidence_before ?g1 g'"
    using revocation.run_before [of ?g1 later] assms(4) by (simp add: revocation.run_def)
  ultimately have primed: "rs_primed g'" "marker \<le> rs_revoke_before_ms g'"
    by (auto simp: evidence_before_def)
  then have revoked: "revocation_is_revoked g' d i" if "i \<le> marker" for d i
    using that assms(1) by (auto simp: revocation_is_revoked_def)
  then show ?thesis
    using assms(2) by (auto simp: verify_token_Inr)
qed

definition demo_crypto :: "u8 list token_crypto" where
  "demo_crypto =
     \<lparr>tc_b64_decode = (\<lambda>s. Some (map of_char s)), tc_signature = Some, tc_verify = (\<lambda>s sig. True),
      tc_claims = (\<lambda>_. Some \<lparr>tk_account_id = ''acct'', tk_device_id = ''dev'', tk_session_id = None,
        tk_signal_session_id = None, tk_target_device_id = None, tk_browser_pubkey = None,
        tk_browser_pubkey_alg = None, tk_refresh_parent_sha256 = None, tk_iat_ms = 5, tk_exp_ms = 100\<rparr>)\<rparr>"

theorem account_revocation_is_permanent_witness:
  "revocation_is_revoked
     (fold (\<lambda>p g. apply_revocation_poll g p) [PollFailed, PollSnapshot False [] 3]
       (apply_revocation_poll new_revocation (PollSnapshot False [] 7))) ''dev'' 5 \<and>
   verify_token demo_crypto ''claims.sig'' 10 ''dev'' (\<lambda>_ d i. revocation_is_revoked
     (fold (\<lambda>p g. apply_revocation_poll g p) [PollFailed, PollSnapshot False [] 3]
       (apply_revocation_poll new_revocation (PollSnapshot False [] 7))) d i) \<noteq>
     Inr (the (tc_claims demo_crypto []))"
  using account_revocation_is_permanent [of 7 5 new_revocation "[]" _ "[PollFailed, PollSnapshot False [] 3]" False "[]"
      "''dev''" "the (tc_claims demo_crypto [])" demo_crypto "''claims.sig''" 10 "''dev''"]
  by (simp add: demo_crypto_def)

end
