(* ===== verification/Terminal_Bridge.thy ===== *)
theory Terminal_Bridge
  imports Access_Gate Winsize_Owner Output_Arbiter
begin

text \<open>
  The terminal bridge of one authenticated connection (\<^verbatim>\<open>hydra-agent/src/remote_bridge.rs\<close>): the metadata
  messages of the browser, its input frames, the routing table of attached sessions, revocation and
  the redaction of what the connection may see.

  The bridge is generic in its \<^verbatim>\<open>SessionBackend\<close>, so the trait is a record of methods. A method gets
  the backend's state and the shared winsize owner, which the daemon backend also reaches through the
  authority token of a viewed attach. \<open>hash_iter\<close> is the order in which \<^verbatim>\<open>HashMap\<close> iterates, which the
  standard library leaves open.
\<close>

section \<open>Messages and replies\<close>

definition MAX_ATTACHES :: nat where "MAX_ATTACHES = 8"

definition MAX_INPUT_PAYLOAD :: nat where "MAX_INPUT_PAYLOAD = 64 * 1024"

definition TERMINAL_GZIP_JSON_V1 :: string where
  "TERMINAL_GZIP_JSON_V1 = ''terminal_gzip_json_v1''"

text \<open>\<^verbatim>\<open>candidate.checked_add(1).unwrap_or(1)\<close>, and the loop over every channel.\<close>

definition following_channel :: "u16 \<Rightarrow> u16" where
  "following_channel candidate = (if unat candidate + 1 < 65536 then candidate + 1 else 1)"

primrec scan_channels :: "nat \<Rightarrow> u16 \<Rightarrow> (u16 \<Rightarrow> bool) \<Rightarrow> (u16 \<times> u16) option" where
  "scan_channels 0 candidate is_live = None"
| "scan_channels (Suc n) candidate is_live =
     (if \<not> is_live candidate then Some (candidate, following_channel candidate)
      else scan_channels n (following_channel candidate) is_live)"

text \<open>The channel and the advanced cursor.\<close>

definition take_available_channel :: "u16 \<Rightarrow> (u16 \<Rightarrow> bool) \<Rightarrow> (u16 \<times> u16) option" where
  "take_available_channel next_channel is_live = scan_channels 65535 (max next_channel 1) is_live"

definition valid_terminal_dimensions :: "u16 \<Rightarrow> u16 \<Rightarrow> bool" where
  "valid_terminal_dimensions cols rows \<longleftrightarrow>
     0 < cols \<and> 0 < rows \<and> cols \<le> MAX_TERMINAL_DIMENSION \<and> rows \<le> MAX_TERMINAL_DIMENSION"

datatype terminal_msg =
    MsgSessionList string
  | MsgAttachSession string string u16 u16 bool bool
  | MsgResize string u16 u16 bool
  | MsgScrollback string u32 u16
  | MsgDetach string

record session_metadata =
  sm_id :: string
  sm_cwd :: "string option"

record workspace_pane =
  wp_id :: string
  wp_session_id :: string
  wp_name :: "string option"
  wp_stashed :: bool
  wp_cwd :: "string option"

record workspace_window =
  ww_id :: string
  ww_name :: "string option"
  ww_focused :: bool
  ww_stashed :: bool
  ww_panes :: "workspace_pane list"

record workspace_launch_defaults =
  wl_agent :: "string option"
  wl_resume_mode :: "string option"
  wl_model :: "string option"
  wl_dangerous :: "bool option"
  wl_custom_command :: "string option"

record workspace_directory =
  wd_name :: string
  wd_path :: string

record workspace_project =
  wj_id :: string
  wj_name :: string
  wj_root :: string
  wj_icon :: "string option"
  wj_accent_color :: "string option"
  wj_selected :: bool
  wj_launch_defaults :: "workspace_launch_defaults option"
  wj_directories :: "workspace_directory list"
  wj_system :: bool
  wj_hidden :: bool
  wj_windows :: "workspace_window list"

text \<open>\<^verbatim>\<open>WorkspaceMetadata\<close> has the one field \<^verbatim>\<open>projects\<close>.\<close>

type_synonym workspace_metadata = "workspace_project list"

datatype terminal_reply =
    SessionListResult string "string list" "session_metadata list" "workspace_metadata option"
  | AttachOk string string u16 "string option"
  | WorkspaceUpdate u64 "string list" "session_metadata list" "workspace_metadata option"
  | ErrorReply string string "string option" "string option"

datatype outbound = Json terminal_reply | Binary "u8 list"

datatype resize_admission = Queued | Deferred

section \<open>The backend and the bridge state\<close>

record bridge_attachment =
  at_session_id :: string
  at_terminal_encoding :: terminal_encoding
  at_generation :: u64

type_synonym attach_table = "(u16 \<times> bridge_attachment) list"

record 'b session_backend =
  sb_list_sessions :: "'b \<Rightarrow> string list"
  sb_session_metadata :: "'b \<Rightarrow> session_metadata list"
  sb_workspace_metadata :: "'b \<Rightarrow> workspace_metadata option"
  sb_attach :: "string \<Rightarrow> u16 \<Rightarrow> u16 \<Rightarrow> bool \<Rightarrow> u64 \<Rightarrow> deferred_resize_authority option
     \<Rightarrow> 'b \<times> winsize_owner \<Rightarrow> (string + unit) \<times> 'b \<times> winsize_owner"
  sb_input :: "string \<Rightarrow> u8 list \<Rightarrow> 'b \<times> winsize_owner \<Rightarrow> (string + unit) \<times> 'b \<times> winsize_owner"
  sb_resize :: "string \<Rightarrow> u16 \<Rightarrow> u16 \<Rightarrow> 'b \<times> winsize_owner
     \<Rightarrow> (string + resize_admission) \<times> 'b \<times> winsize_owner"
  sb_scrollback :: "string \<Rightarrow> u32 \<Rightarrow> u16 \<Rightarrow> 'b \<times> winsize_owner
     \<Rightarrow> (string + unit) \<times> 'b \<times> winsize_owner"
  sb_detach :: "string \<Rightarrow> 'b \<times> winsize_owner \<Rightarrow> 'b \<times> winsize_owner"

record 'b bridge_env = "'b session_backend" +
  hash_iter :: "attach_table \<Rightarrow> attach_table"

text \<open>
  The defaults of the trait: a backend that cannot defer geometry cancels the token and fails, and a
  plain resize counts as queued.
\<close>

definition default_attach_with_output_generation ::
    "(string \<Rightarrow> u16 \<Rightarrow> u16 \<Rightarrow> bool \<Rightarrow> 'b \<Rightarrow> (string + unit) \<times> 'b)
     \<Rightarrow> string \<Rightarrow> u16 \<Rightarrow> u16 \<Rightarrow> bool \<Rightarrow> u64 \<Rightarrow> deferred_resize_authority option
     \<Rightarrow> 'b \<times> winsize_owner \<Rightarrow> (string + unit) \<times> 'b \<times> winsize_owner" where
  "default_attach_with_output_generation attach session_id cols rows raw generation authority = (\<lambda>(w, o1).
     case authority of
       Some token \<Rightarrow>
         (Inl ''backend cannot defer viewed attach geometry'', w, cancel_viewed_attach_authority token o1)
     | None \<Rightarrow> (case attach session_id cols rows raw w of (res, w1) \<Rightarrow> (res, w1, o1)))"

definition default_resize_with_admission ::
    "(string \<Rightarrow> u16 \<Rightarrow> u16 \<Rightarrow> 'b \<Rightarrow> (string + unit) \<times> 'b) \<Rightarrow> string \<Rightarrow> u16 \<Rightarrow> u16
     \<Rightarrow> 'b \<times> winsize_owner \<Rightarrow> (string + resize_admission) \<times> 'b \<times> winsize_owner" where
  "default_resize_with_admission resize session_id cols rows = (\<lambda>(w, o1).
     case resize session_id cols rows w of (res, w1) \<Rightarrow> (map_sum id (\<lambda>_. Queued) res, w1, o1))"

record 'b terminal_bridge =
  br_backend :: 'b
  br_policy :: session_policy
  br_claims :: token_claims
  br_attaches :: attach_table
  br_next_channel :: u16
  br_next_attachment_generation :: "u64 option"
  br_revoked :: bool
  br_input_rate :: input_rate_limiter
  br_winsize_owner :: winsize_owner
  br_winsize_connection_id :: string
  br_viewed_session :: "string option"
  br_browser_terminal_gzip :: bool

definition new_bridge :: "'b \<Rightarrow> session_policy \<Rightarrow> token_claims \<Rightarrow> 'b terminal_bridge" where
  "new_bridge backend policy claims =
     \<lparr>br_backend = backend, br_policy = policy, br_claims = claims, br_attaches = [], br_next_channel = 1,
      br_next_attachment_generation = Some 1, br_revoked = False, br_input_rate = default_rate_limiter,
      br_winsize_owner = new_owner,
      br_winsize_connection_id =
        (case tk_signal_session_id claims of Some i \<Rightarrow> i | None \<Rightarrow> tk_device_id claims),
      br_viewed_session = None, br_browser_terminal_gzip = False\<rparr>"

definition with_winsize_owner :: "winsize_owner \<Rightarrow> string \<Rightarrow> 'b terminal_bridge \<Rightarrow> 'b terminal_bridge" where
  "with_winsize_owner owner connection_id b =
     b\<lparr>br_winsize_owner := owner, br_winsize_connection_id := connection_id\<rparr>"

definition with_terminal_gzip :: "bool \<Rightarrow> 'b terminal_bridge \<Rightarrow> 'b terminal_bridge" where
  "with_terminal_gzip supported b = b\<lparr>br_browser_terminal_gzip := supported\<rparr>"

definition bridge_note_remote_viewing :: "string \<Rightarrow> u16 \<Rightarrow> u16 \<Rightarrow> 'b terminal_bridge \<Rightarrow> 'b terminal_bridge" where
  "bridge_note_remote_viewing session_id cols rows b =
     (let b1 = (if br_viewed_session b \<noteq> Some session_id then b\<lparr>br_viewed_session := Some session_id\<rparr> else b) in
      b1\<lparr>br_winsize_owner :=
           snd (note_remote_viewing_with_geometry (br_winsize_connection_id b1) session_id cols rows
                  (br_winsize_owner b1))\<rparr>)"

definition bridge_remote_resize_allowed :: "'b terminal_bridge \<Rightarrow> string \<Rightarrow> bool \<Rightarrow> bool" where
  "bridge_remote_resize_allowed b session_id viewed =
     remote_resize_allowed (br_winsize_owner b) (br_winsize_connection_id b) session_id viewed"

definition bridge_err :: "string \<Rightarrow> string \<Rightarrow> outbound" where
  "bridge_err code msg = Json (ErrorReply code msg None None)"

definition attach_err :: "string \<Rightarrow> string \<Rightarrow> string \<Rightarrow> string \<Rightarrow> outbound" where
  "attach_err code msg request_id session_id = Json (ErrorReply code msg (Some request_id) (Some session_id))"

definition channel_for :: "'b bridge_env \<Rightarrow> 'b terminal_bridge \<Rightarrow> string \<Rightarrow> u16 option" where
  "channel_for env b session_id =
     map_option fst (List.find (\<lambda>(c, a). at_session_id a = session_id) (hash_iter env (br_attaches b)))"

section \<open>What the connection may see\<close>

definition redact_pane :: "string list \<Rightarrow> workspace_pane \<Rightarrow> workspace_pane" where
  "redact_pane visible pane =
     (if wp_session_id pane \<in> set visible then pane else pane\<lparr>wp_session_id := []\<rparr>)"

definition redact_window :: "string list \<Rightarrow> workspace_window \<Rightarrow> workspace_window" where
  "redact_window visible window = window\<lparr>ww_panes := map (redact_pane visible) (ww_panes window)\<rparr>"

definition redact_project :: "string list \<Rightarrow> workspace_project \<Rightarrow> workspace_project option" where
  "redact_project visible project =
     (let windows = map (redact_window visible) (wj_windows project) in
      if windows = [] then None else Some (project\<lparr>wj_windows := windows\<rparr>))"

definition filter_workspace_metadata ::
    "workspace_metadata option \<Rightarrow> string list \<Rightarrow> workspace_metadata option" where
  "filter_workspace_metadata metadata visible =
     (case metadata of
        None \<Rightarrow> None
      | Some projects0 \<Rightarrow>
          let projects = List.map_filter (redact_project visible) projects0 in
          if projects = [] then None else Some projects)"

definition current_session_list_reply ::
    "'b bridge_env \<Rightarrow> 'b terminal_bridge
     \<Rightarrow> string list \<times> session_metadata list \<times> workspace_metadata option" where
  "current_session_list_reply env b =
     (let sessions = visible_sessions (br_claims b) (br_policy b) (sb_list_sessions env (br_backend b));
          session_metadata = filter (\<lambda>m. sm_id m \<in> set sessions) (sb_session_metadata env (br_backend b))
      in (sessions, session_metadata,
          filter_workspace_metadata (sb_workspace_metadata env (br_backend b)) sessions))"

definition workspace_push_payload ::
    "'b bridge_env \<Rightarrow> 'b terminal_bridge
     \<Rightarrow> (string list \<times> session_metadata list \<times> workspace_metadata option) option" where
  "workspace_push_payload env b =
     (case can_list (br_claims b) (br_policy b) of
        Inl _ \<Rightarrow> None
      | Inr _ \<Rightarrow> Some (current_session_list_reply env b))"

section \<open>Metadata messages\<close>

definition handle_session_list ::
    "'b bridge_env \<Rightarrow> string \<Rightarrow> 'b terminal_bridge \<Rightarrow> outbound list \<times> 'b terminal_bridge" where
  "handle_session_list env request_id b =
     (case can_list (br_claims b) (br_policy b) of
        Inl _ \<Rightarrow> ([bridge_err ''forbidden'' ''not allowed to list sessions''], b)
      | Inr _ \<Rightarrow>
          (case current_session_list_reply env b of
             (sessions, session_metadata, workspace_metadata) \<Rightarrow>
               ([Json (SessionListResult request_id sessions session_metadata workspace_metadata)], b)))"

text \<open>The encoding of the attach; \<open>None\<close> when it was not negotiated.\<close>

definition selected_encoding :: "'b terminal_bridge \<Rightarrow> string option \<Rightarrow> terminal_encoding option" where
  "selected_encoding b terminal_encoding =
     (case terminal_encoding of
        None \<Rightarrow> Some EncLegacy
      | Some name \<Rightarrow>
          if name = TERMINAL_GZIP_JSON_V1 \<and> br_browser_terminal_gzip b then Some EncGzipJsonV1 else None)"

primrec denied_reason :: "access_denied \<Rightarrow> string" where
  "denied_reason SessionScopeMismatch = ''session_scope''"
| "denied_reason PolicyDenied = ''forbidden''"

definition cancel_authority :: "deferred_resize_authority option \<Rightarrow> winsize_owner \<Rightarrow> winsize_owner" where
  "cancel_authority authority o1 =
     (case authority of None \<Rightarrow> o1 | Some token \<Rightarrow> cancel_viewed_attach_authority token o1)"

text \<open>The second half of an attach: the channel and the generation are chosen, the backend is called.\<close>

definition attach_on_channel ::
    "'b bridge_env \<Rightarrow> terminal_encoding \<Rightarrow> string \<Rightarrow> string \<Rightarrow> u16 \<Rightarrow> u16 \<Rightarrow> bool \<Rightarrow> bool \<Rightarrow> u64 \<Rightarrow> u16
     \<Rightarrow> deferred_resize_authority option \<Rightarrow> 'b terminal_bridge \<Rightarrow> outbound list \<times> 'b terminal_bridge" where
  "attach_on_channel env encoding request_id session_id cols rows raw viewed generation channel authority b1 =
     (case sb_attach env session_id cols rows raw generation authority (br_backend b1, br_winsize_owner b1) of
        (Inl e, w, o2) \<Rightarrow>
          ([attach_err ''attach_failed'' e request_id session_id],
           b1\<lparr>br_backend := w, br_winsize_owner := cancel_authority authority o2\<rparr>)
      | (Inr _, w, o2) \<Rightarrow>
          let b2 = b1\<lparr>br_backend := w, br_winsize_owner := o2,
                      br_viewed_session := (if viewed then Some session_id else br_viewed_session b1),
                      br_next_attachment_generation := checked_add_u64 generation 1\<rparr>
          in case map_of (br_attaches b2) channel of
               None \<Rightarrow>
                 ([Json (AttachOk request_id session_id channel
                     (if encoding = EncGzipJsonV1 then Some TERMINAL_GZIP_JSON_V1 else None))],
                  b2\<lparr>br_attaches := br_attaches b2 @
                       [(channel, \<lparr>at_session_id = session_id, at_terminal_encoding = encoding,
                                   at_generation = generation\<rparr>)]\<rparr>)
             | Some _ \<Rightarrow>
                 (case sb_detach env session_id (br_backend b2, br_winsize_owner b2) of (w3, o3) \<Rightarrow>
                    ([attach_err ''channel_exhausted'' ''no terminal channel is available'' request_id session_id],
                     b2\<lparr>br_backend := w3, br_winsize_owner := o3\<rparr>)))"

definition handle_attach_session ::
    "'b bridge_env \<Rightarrow> string option \<Rightarrow> string \<Rightarrow> string \<Rightarrow> u16 \<Rightarrow> u16 \<Rightarrow> bool \<Rightarrow> bool
     \<Rightarrow> 'b terminal_bridge \<Rightarrow> outbound list \<times> 'b terminal_bridge" where
  "handle_attach_session env terminal_encoding request_id session_id cols rows raw viewed b =
     (if \<not> valid_terminal_dimensions cols rows
      then ([attach_err ''invalid_dimensions'' ''terminal dimensions are invalid'' request_id session_id], b)
      else case selected_encoding b terminal_encoding of
        None \<Rightarrow>
          ([attach_err ''unsupported_encoding'' ''terminal encoding was not negotiated'' request_id session_id], b)
      | Some encoding \<Rightarrow>
     (case can_attach (br_claims b) (br_policy b) session_id of
        Inl e \<Rightarrow> ([attach_err (denied_reason e) ''attach not allowed'' request_id session_id], b)
      | Inr _ \<Rightarrow>
      if channel_for env b session_id \<noteq> None
      then ([attach_err ''already_attached'' ''session already attached'' request_id session_id], b)
      else if MAX_ATTACHES \<le> length (br_attaches b)
      then ([attach_err ''too_many_attaches'' ''attach limit reached'' request_id session_id], b)
      else case br_next_attachment_generation b of
        None \<Rightarrow>
          ([attach_err ''attachment_generation_exhausted'' ''terminal attachment identity space exhausted''
              request_id session_id], b)
      | Some generation \<Rightarrow>
     (case take_available_channel (br_next_channel b) (\<lambda>c. map_of (br_attaches b) c \<noteq> None) of
        None \<Rightarrow>
          ([attach_err ''channel_exhausted'' ''no terminal channel is available'' request_id session_id], b)
      | Some (channel, cursor) \<Rightarrow>
          let b0 = b\<lparr>br_next_channel := cursor\<rparr> in
     (case (if viewed \<and> \<not> raw
            then deferred_reserve (br_winsize_connection_id b0) session_id cols rows (br_winsize_owner b0)
            else (Inr None, br_winsize_owner b0)) of
        (Inl _, o1) \<Rightarrow>
          ([attach_err ''winsize_authority_exhausted'' ''terminal winsize authority identity space exhausted''
              request_id session_id], b0\<lparr>br_winsize_owner := o1\<rparr>)
      | (Inr authority, o1) \<Rightarrow>
          attach_on_channel env encoding request_id session_id cols rows raw viewed generation channel authority
            (b0\<lparr>br_winsize_owner := o1\<rparr>)))))"

definition handle_resize ::
    "'b bridge_env \<Rightarrow> string \<Rightarrow> u16 \<Rightarrow> u16 \<Rightarrow> bool \<Rightarrow> 'b terminal_bridge \<Rightarrow> outbound list \<times> 'b terminal_bridge" where
  "handle_resize env session_id cols rows viewed b =
     (if \<not> valid_terminal_dimensions cols rows
      then ([bridge_err ''invalid_dimensions'' ''terminal dimensions are invalid''], b)
      else if channel_for env b session_id = None
      then ([bridge_err ''not_attached'' ''resize before attach''], b)
      else if bridge_remote_resize_allowed b session_id viewed
      then (case sb_resize env session_id cols rows (br_backend b, br_winsize_owner b) of
              (Inl e, w, o1) \<Rightarrow>
                ([bridge_err ''resize_failed'' e], b\<lparr>br_backend := w, br_winsize_owner := o1\<rparr>)
            | (Inr admission, w, o1) \<Rightarrow>
                let b1 = b\<lparr>br_backend := w, br_winsize_owner := o1\<rparr> in
                ([], if viewed \<and> admission = Queued then bridge_note_remote_viewing session_id cols rows b1
                     else b1))
      else ([], b))"

definition handle_scrollback ::
    "'b bridge_env \<Rightarrow> string \<Rightarrow> u32 \<Rightarrow> u16 \<Rightarrow> 'b terminal_bridge \<Rightarrow> outbound list \<times> 'b terminal_bridge" where
  "handle_scrollback env session_id offset_from_top count b =
     (if channel_for env b session_id = None
      then ([bridge_err ''not_attached'' ''scrollback before attach''], b)
      else case sb_scrollback env session_id offset_from_top count (br_backend b, br_winsize_owner b) of
             (Inl e, w, o1) \<Rightarrow>
               ([bridge_err ''scrollback_failed'' e], b\<lparr>br_backend := w, br_winsize_owner := o1\<rparr>)
           | (Inr _, w, o1) \<Rightarrow> ([], b\<lparr>br_backend := w, br_winsize_owner := o1\<rparr>))"

definition handle_detach ::
    "'b bridge_env \<Rightarrow> string \<Rightarrow> 'b terminal_bridge \<Rightarrow> outbound list \<times> 'b terminal_bridge" where
  "handle_detach env session_id b =
     (case channel_for env b session_id of
        None \<Rightarrow> ([bridge_err ''not_attached'' ''detach without attach''], b)
      | Some channel \<Rightarrow>
          (case sb_detach env session_id (br_backend b, br_winsize_owner b) of (w, o1) \<Rightarrow>
             ([], b\<lparr>br_attaches := filter (\<lambda>(c, _). c \<noteq> channel) (br_attaches b),
                    br_backend := w, br_winsize_owner := o1,
                    br_viewed_session :=
                      (if br_viewed_session b = Some session_id then None else br_viewed_session b)\<rparr>)))"

definition handle_with_terminal_encoding ::
    "'b bridge_env \<Rightarrow> terminal_msg \<Rightarrow> string option \<Rightarrow> 'b terminal_bridge
     \<Rightarrow> outbound list \<times> 'b terminal_bridge" where
  "handle_with_terminal_encoding env msg terminal_encoding b =
     (if br_revoked b then ([bridge_err ''revoked'' ''device revoked''], b)
      else case msg of
        MsgSessionList request_id \<Rightarrow> handle_session_list env request_id b
      | MsgAttachSession request_id session_id cols rows raw viewed \<Rightarrow>
          handle_attach_session env terminal_encoding request_id session_id cols rows raw viewed b
      | MsgResize session_id cols rows viewed \<Rightarrow> handle_resize env session_id cols rows viewed b
      | MsgScrollback session_id offset_from_top count \<Rightarrow>
          handle_scrollback env session_id offset_from_top count b
      | MsgDetach session_id \<Rightarrow> handle_detach env session_id b)"

section \<open>Input, output and revocation\<close>

definition handle_input_at ::
    "'b bridge_env \<Rightarrow> u16 \<Rightarrow> u8 list \<Rightarrow> u64 \<Rightarrow> 'b terminal_bridge \<Rightarrow> outbound list \<times> 'b terminal_bridge" where
  "handle_input_at env channel bytes now b =
     (if br_revoked b then ([bridge_err ''revoked'' ''device revoked''], b)
      else if MAX_INPUT_PAYLOAD < length bytes
      then ([bridge_err ''input_too_large'' ''terminal input frame exceeds the size cap''], b)
      else case allow (of_nat (length bytes)) now (br_input_rate b) of (allowed, rate) \<Rightarrow>
        let b1 = b\<lparr>br_input_rate := rate\<rparr> in
        if \<not> allowed
        then ([bridge_err ''input_rate_limited'' ''terminal input rate limit exceeded''], b1)
        else case map_of (br_attaches b1) channel of
          None \<Rightarrow> ([bridge_err ''not_attached'' ''input for unknown channel''], b1)
        | Some a \<Rightarrow>
            (case sb_input env (at_session_id a) bytes (br_backend b1, br_winsize_owner b1) of
               (Inl e, w, o1) \<Rightarrow>
                 ([bridge_err ''input_failed'' e], b1\<lparr>br_backend := w, br_winsize_owner := o1\<rparr>)
             | (Inr _, w, o1) \<Rightarrow> ([], b1\<lparr>br_backend := w, br_winsize_owner := o1\<rparr>)))"

definition bridge_output_frame :: "'b bridge_env \<Rightarrow> 'b terminal_bridge \<Rightarrow> string \<Rightarrow> u8 list \<Rightarrow> outbound option" where
  "bridge_output_frame env b session_id daemon_frame =
     (case channel_for env b session_id of
        None \<Rightarrow> None
      | Some channel \<Rightarrow>
          (case frame_encode TerminalOutput channel daemon_frame of
             Inl _ \<Rightarrow> None
           | Inr bytes \<Rightarrow> Some (Binary bytes)))"

definition exact_output_target :: "'b bridge_env \<Rightarrow> 'b terminal_bridge \<Rightarrow> string \<Rightarrow> output_target option" where
  "exact_output_target env b session_id =
     map_option (\<lambda>(channel, a). \<lparr>tgt_channel = channel, tgt_encoding = at_terminal_encoding a,
                                 tgt_generation = at_generation a\<rparr>)
       (List.find (\<lambda>(_, a). at_session_id a = session_id) (hash_iter env (br_attaches b)))"

text \<open>The loop \<^verbatim>\<open>for (_, a) in self.attaches.drain()\<close> of \<^verbatim>\<open>revoke\<close> and of \<^verbatim>\<open>drop\<close>.\<close>

fun detach_all :: "'b bridge_env \<Rightarrow> attach_table \<Rightarrow> 'b \<times> winsize_owner \<Rightarrow> 'b \<times> winsize_owner" where
  "detach_all env [] s = s"
| "detach_all env ((_, a) # table) s = detach_all env table (sb_detach env (at_session_id a) s)"

definition drop_bridge :: "'b bridge_env \<Rightarrow> 'b terminal_bridge \<Rightarrow> 'b terminal_bridge" where
  "drop_bridge env b =
     (case detach_all env (hash_iter env (br_attaches b)) (br_backend b, br_winsize_owner b) of (w, o1) \<Rightarrow>
        b\<lparr>br_attaches := [], br_backend := w, br_winsize_owner := o1\<rparr>)"

definition revoke :: "'b bridge_env \<Rightarrow> 'b terminal_bridge \<Rightarrow> 'b terminal_bridge" where
  "revoke env b =
     (case detach_all env (hash_iter env (br_attaches b)) (br_backend b, br_winsize_owner b) of (w, o1) \<Rightarrow>
        b\<lparr>br_attaches := [], br_backend := w, br_winsize_owner := o1, br_viewed_session := None,
          br_revoked := True\<rparr>)"

section \<open>The channel allocator\<close>

text \<open>The cursor walks round the 65535 nonzero channels.\<close>

lemma channel_range:
  assumes "(0 :: u16) < c"
  shows "0 < unat c" "unat c \<le> 65535" "unat c - 1 < 65535" "unat c = unat c - 1 + 1"
proof -
  show range: "0 < unat c" "unat c \<le> 65535"
    using assms unat_u16_less [of c] by (simp add: word_less_nat_alt, linarith)
  show "unat c - 1 < 65535" "unat c = unat c - 1 + 1"
    using range by linarith+
qed

lemma unat_following_channel:
  assumes "0 < c"
  shows "unat (following_channel c) = unat c mod 65535 + 1"
proof (cases "unat c = 65535")
  case False
  then have "unat c < 65535"
    using channel_range(2) [OF assms] by linarith
  then show ?thesis by (simp add: following_channel_def unat_word_ariths)
qed (simp add: following_channel_def)

lemma unat_following_channels:
  assumes "0 < c"
  shows "unat ((following_channel ^^ k) c) = (unat c - 1 + k) mod 65535 + 1"
proof (induction k)
  case 0
  show ?case using channel_range [OF assms] by simp
next
  case (Suc k)
  then have "0 < (following_channel ^^ k) c"
    by (metis One_nat_def add_is_0 gr_zeroI n_not_Suc_n plus_nat.add_0 unsigned_0 word_gt_0)
  then show ?case
    using Suc by (simp add: unat_following_channel mod_Suc_eq)
qed

lemma every_channel_follows:
  assumes "0 < c" "0 < d"
  obtains k where "k < 65535" "(following_channel ^^ k) c = d"
proof
  let ?m = "unat c - 1" and ?n = "unat d - 1"
  have bounds: "?m < 65535" "?n < 65535" "unat d = ?n + 1"
    using channel_range [OF assms(1)] channel_range [OF assms(2)] by blast+
  show "(?n + 65535 - ?m) mod 65535 < 65535"
    by simp
  have "(?m + (?n + 65535 - ?m) mod 65535) mod 65535 = ?n"
  proof -
    have "?m + (?n + 65535 - ?m) = ?n + 65535"
      using bounds(1) by linarith
    then have "(?m + (?n + 65535 - ?m) mod 65535) mod 65535 = (?n + 65535) mod 65535"
      by (metis mod_add_right_eq)
    also have "\<dots> = ?n mod 65535"
      by (rule mod_add_self2)
    finally show ?thesis
      using bounds(2) mod_less by metis
  qed
  then show "(following_channel ^^ ((?n + 65535 - ?m) mod 65535)) c = d"
    using bounds by (simp add: word_unat_eq_iff unat_following_channels [OF assms(1)])
qed

lemma scan_channels_None:
  "scan_channels n c is_live = None \<longleftrightarrow> (\<forall>k < n. is_live ((following_channel ^^ k) c))"
  by (induction n arbitrary: c) (auto simp: less_Suc_eq_0_disj funpow_swap1)

lemma scan_channels_Some:
  "scan_channels n c is_live = Some (d, cursor) \<Longrightarrow>
     \<not> is_live d \<and> cursor = following_channel d \<and> (0 < c \<longrightarrow> 0 < d)"
proof (induction n arbitrary: c)
  case (Suc n)
  have "0 < following_channel c"
  proof (cases "c = 0")
    case False
    then have "0 < unat (following_channel c)"
      using unat_following_channel [of c] by (simp add: word_neq_0_conv)
    then show ?thesis by (simp add: word_less_nat_alt)
  qed (simp add: following_channel_def)
  then show ?case
    using Suc by (auto split: if_splits)
qed simp

lemma take_available_channel_Some:
  assumes "take_available_channel cursor is_live = Some (d, cursor')"
  shows "0 < d" "\<not> is_live d"
proof -
  have "(0 :: u16) < max cursor 1"
    by (simp add: less_max_iff_disj)
  then show "0 < d" "\<not> is_live d"
    using scan_channels_Some [OF assms [unfolded take_available_channel_def]] by simp_all
qed

text \<open>The allocator fails only when every nonzero channel is taken.\<close>

lemma take_available_channel_None:
  "take_available_channel cursor is_live = None \<longleftrightarrow> (\<forall>d > 0. is_live d)"
proof -
  have pos: "(0 :: u16) < max cursor 1"
    by (simp add: less_max_iff_disj)
  have "0 < (following_channel ^^ k) (max cursor 1)" for k
    using unat_following_channels [OF pos, of k] by (simp add: word_less_nat_alt)
  then show ?thesis
    unfolding take_available_channel_def scan_channels_None
    by (metis every_channel_follows [OF pos])
qed

end
