(* ===== verification/Bridge_Ledger.thy ===== *)
theory Bridge_Ledger
  imports Terminal_Bridge "HOL-Library.Multiset"
begin

text \<open>
  What the terminal bridge promises along every sequence of messages, input frames, revocation and
  changes of the shared winsize owner by other connections. A recording wrapper around an arbitrary
  backend keeps the list of the calls the bridge makes; \<open>erase\<close> shows that recording changes nothing.
  The handlers refine an abstract move relation on the routing table and the call list
  (\<open>bridge_move\<close>), and the invariants are proved on the moves.
\<close>

section \<open>Events\<close>

datatype bridge_event =
    EvMessage terminal_msg "string option"
  | EvInput u16 "u8 list" u64
  | EvRevoke
  | EvOwner winsize_owner

fun bridge_step :: "'b bridge_env \<Rightarrow> 'b terminal_bridge \<Rightarrow> bridge_event \<Rightarrow> 'b terminal_bridge" where
  "bridge_step env b (EvMessage msg terminal_encoding) =
     snd (handle_with_terminal_encoding env msg terminal_encoding b)"
| "bridge_step env b (EvInput channel bytes now) = snd (handle_input_at env channel bytes now b)"
| "bridge_step env b EvRevoke = revoke env b"
| "bridge_step env b (EvOwner owner) = b\<lparr>br_winsize_owner := owner\<rparr>"

definition bridge_run :: "'b bridge_env \<Rightarrow> bridge_event list \<Rightarrow> 'b terminal_bridge \<Rightarrow> 'b terminal_bridge" where
  "bridge_run env evs b = fold (\<lambda>e b. bridge_step env b e) evs b"

lemma bridge_run_simps [simp]:
  "bridge_run env [] b = b"
  "bridge_run env (e # evs) b = bridge_run env evs (bridge_step env b e)"
  "bridge_run env (evs @ evs') b = bridge_run env evs' (bridge_run env evs b)"
  by (simp_all add: bridge_run_def)

text \<open>A bridge as the peer sets it up.\<close>

definition connect ::
    "'b \<Rightarrow> session_policy \<Rightarrow> token_claims \<Rightarrow> winsize_owner \<Rightarrow> string \<Rightarrow> bool \<Rightarrow> 'b terminal_bridge" where
  "connect w policy claims owner connection_id gzip =
     with_terminal_gzip gzip (with_winsize_owner owner connection_id (new_bridge w policy claims))"

lemmas connect_defs = connect_def with_terminal_gzip_def with_winsize_owner_def new_bridge_def

text \<open>\<^verbatim>\<open>HashMap\<close> iteration visits every entry once.\<close>

definition iterates :: "'b bridge_env \<Rightarrow> bool" where
  "iterates env \<longleftrightarrow> (\<forall>t. mset (hash_iter env t) = mset t)"

section \<open>Recording the calls to the backend\<close>

datatype backend_call =
    CallAttach string u16 u16 bool u64 bool
  | CallInput string "u8 list"
  | CallResize string u16 u16
  | CallScrollback string u32 u16
  | CallDetach string

fun called_session :: "backend_call \<Rightarrow> string" where
  "called_session (CallAttach s _ _ _ _ _) = s"
| "called_session (CallInput s _) = s"
| "called_session (CallResize s _ _) = s"
| "called_session (CallScrollback s _ _) = s"
| "called_session (CallDetach s) = s"

definition ok :: "'e + 'a \<Rightarrow> bool" where
  "ok r = (case r of Inl _ \<Rightarrow> False | Inr _ \<Rightarrow> True)"

lemma ok_simps [simp]: "ok (Inl e) = False" "ok (Inr a) = True"
  by (simp_all add: ok_def)

text \<open>\<open>logged call m\<close> runs the method \<open>m\<close> on the real state and appends the call to the record.\<close>

definition logged ::
    "('r \<Rightarrow> backend_call) \<Rightarrow> ('b \<times> winsize_owner \<Rightarrow> 'r \<times> 'b \<times> winsize_owner)
     \<Rightarrow> ('b \<times> backend_call list) \<times> winsize_owner \<Rightarrow> 'r \<times> ('b \<times> backend_call list) \<times> winsize_owner" where
  "logged call m = (\<lambda>((w, calls), o1). case m (w, o1) of (res, w', o2) \<Rightarrow> (res, (w', calls @ [call res]), o2))"

definition recording :: "'b bridge_env \<Rightarrow> ('b \<times> backend_call list) bridge_env" where
  "recording env =
     \<lparr>sb_list_sessions = sb_list_sessions env \<circ> fst,
      sb_session_metadata = sb_session_metadata env \<circ> fst,
      sb_workspace_metadata = sb_workspace_metadata env \<circ> fst,
      sb_attach = (\<lambda>s cols rows raw g authority.
        logged (\<lambda>res. CallAttach s cols rows raw g (ok res)) (sb_attach env s cols rows raw g authority)),
      sb_input = (\<lambda>s bytes. logged (\<lambda>_. CallInput s bytes) (sb_input env s bytes)),
      sb_resize = (\<lambda>s cols rows. logged (\<lambda>_. CallResize s cols rows) (sb_resize env s cols rows)),
      sb_scrollback = (\<lambda>s from_top n. logged (\<lambda>_. CallScrollback s from_top n) (sb_scrollback env s from_top n)),
      sb_detach = (\<lambda>s st. snd (logged (\<lambda>_. CallDetach s) (\<lambda>st. ((), sb_detach env s st)) st)),
      hash_iter = hash_iter env\<rparr>"

lemma recording_simps [simp]:
  "sb_list_sessions (recording env) = sb_list_sessions env \<circ> fst"
  "sb_session_metadata (recording env) = sb_session_metadata env \<circ> fst"
  "sb_workspace_metadata (recording env) = sb_workspace_metadata env \<circ> fst"
  "sb_attach (recording env) s cols rows raw g authority =
     logged (\<lambda>res. CallAttach s cols rows raw g (ok res)) (sb_attach env s cols rows raw g authority)"
  "sb_input (recording env) s bytes = logged (\<lambda>_. CallInput s bytes) (sb_input env s bytes)"
  "sb_resize (recording env) s cols rows = logged (\<lambda>_. CallResize s cols rows) (sb_resize env s cols rows)"
  "sb_scrollback (recording env) s from_top n =
     logged (\<lambda>_. CallScrollback s from_top n) (sb_scrollback env s from_top n)"
  "sb_detach (recording env) s st = snd (logged (\<lambda>_. CallDetach s) (\<lambda>st. ((), sb_detach env s st)) st)"
  "hash_iter (recording env) = hash_iter env"
  by (simp_all add: recording_def)

lemma iterates_recording [simp]: "iterates (recording env) = iterates env"
  by (simp add: iterates_def)

text \<open>Forgetting the record.\<close>

definition erase :: "('b \<times> 'c) terminal_bridge \<Rightarrow> 'b terminal_bridge" where
  "erase b =
     \<lparr>br_backend = fst (br_backend b), br_policy = br_policy b, br_claims = br_claims b,
      br_attaches = br_attaches b, br_next_channel = br_next_channel b,
      br_next_attachment_generation = br_next_attachment_generation b, br_revoked = br_revoked b,
      br_input_rate = br_input_rate b, br_winsize_owner = br_winsize_owner b,
      br_winsize_connection_id = br_winsize_connection_id b, br_viewed_session = br_viewed_session b,
      br_browser_terminal_gzip = br_browser_terminal_gzip b\<rparr>"

lemma erase_simps [simp]:
  "br_backend (erase b) = fst (br_backend b)" "br_policy (erase b) = br_policy b"
  "br_claims (erase b) = br_claims b" "br_attaches (erase b) = br_attaches b"
  "br_next_channel (erase b) = br_next_channel b"
  "br_next_attachment_generation (erase b) = br_next_attachment_generation b"
  "br_revoked (erase b) = br_revoked b" "br_input_rate (erase b) = br_input_rate b"
  "br_winsize_owner (erase b) = br_winsize_owner b"
  "br_winsize_connection_id (erase b) = br_winsize_connection_id b"
  "br_viewed_session (erase b) = br_viewed_session b"
  "br_browser_terminal_gzip (erase b) = br_browser_terminal_gzip b"
  by (simp_all add: erase_def)

lemma erase_connect [simp]:
  "erase (connect (w, calls) policy claims owner connection_id gzip) =
     connect w policy claims owner connection_id gzip"
  by (simp add: erase_def connect_defs)

lemma erase_channel_for [simp]: "channel_for env (erase b) s = channel_for (recording env) b s"
  by (simp add: channel_for_def)

lemma erase_attach_on_channel:
  "attach_on_channel env encoding rid s cols rows raw viewed g channel authority (erase b) =
     map_prod id erase
       (attach_on_channel (recording env) encoding rid s cols rows raw viewed g channel authority b)"
  by (cases "br_backend b")
    (simp add: attach_on_channel_def logged_def erase_def Let_def split: prod.splits sum.splits option.splits)

lemma erase_handle_attach:
  "handle_attach_session env enc rid s cols rows raw viewed (erase b) =
     map_prod id erase (handle_attach_session (recording env) enc rid s cols rows raw viewed b)"
proof -
  have cursor: "erase b\<lparr>br_next_channel := c, br_winsize_owner := o1\<rparr> =
      erase (b\<lparr>br_next_channel := c, br_winsize_owner := o1\<rparr>)" for c o1
    by (simp add: erase_def)
  show ?thesis
    by (simp add: handle_attach_session_def selected_encoding_def Let_def cursor erase_attach_on_channel
        split: prod.splits sum.splits option.splits)
qed

lemma erase_handle:
  "handle_with_terminal_encoding env msg enc (erase b) =
     map_prod id erase (handle_with_terminal_encoding (recording env) msg enc b)"
proof (cases msg)
  case (MsgSessionList rid)
  have "current_session_list_reply env (erase b) = current_session_list_reply (recording env) b"
    by (simp add: current_session_list_reply_def)
  then show ?thesis
    by (simp add: MsgSessionList handle_with_terminal_encoding_def handle_session_list_def
        split: sum.splits prod.splits)
next
  case (MsgAttachSession rid s cols rows raw viewed)
  then show ?thesis by (simp add: handle_with_terminal_encoding_def erase_handle_attach)
next
  case (MsgResize s cols rows viewed)
  show ?thesis
    by (cases "br_backend b")
      (simp add: MsgResize handle_with_terminal_encoding_def handle_resize_def bridge_note_remote_viewing_def
        bridge_remote_resize_allowed_def logged_def Let_def erase_def channel_for_def split: prod.splits sum.splits)
next
  case (MsgScrollback s from_top n)
  show ?thesis
    by (cases "br_backend b")
      (simp add: MsgScrollback handle_with_terminal_encoding_def handle_scrollback_def logged_def erase_def
        channel_for_def split: prod.splits sum.splits)
next
  case (MsgDetach s)
  show ?thesis
    by (cases "br_backend b")
      (simp add: MsgDetach handle_with_terminal_encoding_def handle_detach_def logged_def erase_def channel_for_def
        split: prod.splits option.splits)
qed

lemma erase_handle_input:
  "handle_input_at env channel bytes now (erase b) =
     map_prod id erase (handle_input_at (recording env) channel bytes now b)"
  by (cases "br_backend b")
    (simp add: handle_input_at_def logged_def Let_def erase_def split: prod.splits sum.splits option.splits)

lemma detach_all_recording:
  "detach_all (recording env) t ((w, calls), o1) =
     (case detach_all env t (w, o1) of (w', o2) \<Rightarrow>
        ((w', calls @ map (\<lambda>(_, a). CallDetach (at_session_id a)) t), o2))"
  by (induction env t "(w, o1)" arbitrary: w calls o1 rule: detach_all.induct)
    (auto simp: logged_def split: prod.splits)

lemma erase_revoke: "revoke env (erase b) = erase (revoke (recording env) b)"
  by (cases "br_backend b") (simp add: revoke_def detach_all_recording erase_def split: prod.splits)

text \<open>Recording changes nothing: the bridge answers and evolves as it does with the plain backend.\<close>

lemma erase_step: "bridge_step env (erase b) e = erase (bridge_step (recording env) b e)"
proof (cases e)
  case (EvOwner owner)
  then show ?thesis by (simp add: erase_def)
qed (simp_all add: erase_handle erase_handle_input erase_revoke)

lemma erase_run: "bridge_run env evs (erase b) = erase (bridge_run (recording env) evs b)"
  by (induction evs arbitrary: b) (simp_all add: erase_step)

section \<open>The abstract moves\<close>

text \<open>
  The part of a recorded bridge the contract speaks about. \<open>next_generation\<close> is the generation cursor
  as a number, \<open>2 ^ 64\<close> once it is exhausted.
\<close>

record bridge_view =
  bv_table :: attach_table
  bv_generation :: "u64 option"
  bv_viewed :: "string option"
  bv_revoked :: bool
  bv_rate :: input_rate_limiter
  bv_calls :: "backend_call list"

definition view :: "('b \<times> backend_call list) terminal_bridge \<Rightarrow> bridge_view" where
  "view b = \<lparr>bv_table = br_attaches b, bv_generation = br_next_attachment_generation b,
     bv_viewed = br_viewed_session b, bv_revoked = br_revoked b, bv_rate = br_input_rate b,
     bv_calls = snd (br_backend b)\<rparr>"

definition table_sessions :: "attach_table \<Rightarrow> string set" where
  "table_sessions t = (at_session_id \<circ> snd) ` set t"

definition table_ok :: "attach_table \<Rightarrow> bool" where
  "table_ok t \<longleftrightarrow> distinct (map fst t) \<and> distinct (map (at_session_id \<circ> snd) t)"

inductive bridge_move :: "(string \<Rightarrow> bool) \<Rightarrow> bridge_event \<Rightarrow> bridge_view \<Rightarrow> bridge_view \<Rightarrow> bool"
  for allowed :: "string \<Rightarrow> bool" and e :: bridge_event where
  idle: "bridge_move allowed e v v"
| attach_failed:
    "\<not> bv_revoked v \<Longrightarrow> allowed s \<Longrightarrow> s \<notin> table_sessions (bv_table v) \<Longrightarrow>
     bridge_move allowed e v (v\<lparr>bv_calls := bv_calls v @ [CallAttach s cols rows raw g False]\<rparr>)"
| attached:
    "\<not> bv_revoked v \<Longrightarrow> allowed s \<Longrightarrow> s \<notin> table_sessions (bv_table v) \<Longrightarrow>
     length (bv_table v) < MAX_ATTACHES \<Longrightarrow> bv_generation v = Some g \<Longrightarrow>
     0 < channel \<Longrightarrow> channel \<notin> fst ` set (bv_table v) \<Longrightarrow> viewed \<in> {bv_viewed v, Some s} \<Longrightarrow>
     bridge_move allowed e v
       (v\<lparr>bv_table := bv_table v @
             [(channel, \<lparr>at_session_id = s, at_terminal_encoding = encoding, at_generation = g\<rparr>)],
          bv_generation := checked_add_u64 g 1, bv_viewed := viewed,
          bv_calls := bv_calls v @ [CallAttach s cols rows raw g True]\<rparr>)"
| resized:
    "\<not> bv_revoked v \<Longrightarrow> s \<in> table_sessions (bv_table v) \<Longrightarrow> viewed \<in> {bv_viewed v, Some s} \<Longrightarrow>
     bridge_move allowed e v
       (v\<lparr>bv_viewed := viewed, bv_calls := bv_calls v @ [CallResize s cols rows]\<rparr>)"
| scrolled_back:
    "\<not> bv_revoked v \<Longrightarrow> s \<in> table_sessions (bv_table v) \<Longrightarrow>
     bridge_move allowed e v (v\<lparr>bv_calls := bv_calls v @ [CallScrollback s from_top n]\<rparr>)"
| detached:
    "\<not> bv_revoked v \<Longrightarrow> (channel, a) \<in> set (bv_table v) \<Longrightarrow> at_session_id a = s \<Longrightarrow>
     bridge_move allowed e v
       (v\<lparr>bv_table := filter (\<lambda>(c, _). c \<noteq> channel) (bv_table v),
          bv_viewed := (if bv_viewed v = Some s then None else bv_viewed v),
          bv_calls := bv_calls v @ [CallDetach s]\<rparr>)"
| input_dropped:
    "e = EvInput channel bytes now \<Longrightarrow> length bytes \<le> MAX_INPUT_PAYLOAD \<Longrightarrow>
     allow (of_nat (length bytes)) now (bv_rate v) = (allowed_now, rate) \<Longrightarrow>
     bridge_move allowed e v (v\<lparr>bv_rate := rate\<rparr>)"
| input_sent:
    "\<not> bv_revoked v \<Longrightarrow> e = EvInput channel bytes now \<Longrightarrow> length bytes \<le> MAX_INPUT_PAYLOAD \<Longrightarrow>
     allow (of_nat (length bytes)) now (bv_rate v) = (True, rate) \<Longrightarrow> (channel, a) \<in> set (bv_table v) \<Longrightarrow>
     bridge_move allowed e v
       (v\<lparr>bv_rate := rate, bv_calls := bv_calls v @ [CallInput (at_session_id a) bytes]\<rparr>)"
| closed:
    "mset order = mset (bv_table v) \<Longrightarrow>
     bridge_move allowed e v
       (v\<lparr>bv_table := [], bv_viewed := None, bv_revoked := True,
          bv_calls := bv_calls v @ map (\<lambda>(_, a). CallDetach (at_session_id a)) order\<rparr>)"

lemma find_entry:
  assumes "iterates env" "table_ok t"
  shows "List.find (\<lambda>(c, a). at_session_id a = s) (hash_iter env t) = Some (c, a) \<longleftrightarrow>
      (c, a) \<in> set t \<and> at_session_id a = s"
proof -
  have set: "set (hash_iter env t) = set t"
    using assms(1) by (metis iterates_def set_mset_mset)
  have "inj_on (at_session_id \<circ> snd) (set t)"
    using assms(2) by (simp add: table_ok_def distinct_map)
  then have unique: "x = y" if "x \<in> set t" "y \<in> set t" "at_session_id (snd x) = at_session_id (snd y)" for x y
    using that by (metis comp_apply inj_onD)
  show ?thesis
  proof
    assume "List.find (\<lambda>(c, a). at_session_id a = s) (hash_iter env t) = Some (c, a)"
    then show "(c, a) \<in> set t \<and> at_session_id a = s"
      using set by (auto simp: find_Some_iff dest: nth_mem)
  next
    assume entry: "(c, a) \<in> set t \<and> at_session_id a = s"
    then have "List.find (\<lambda>(c, a). at_session_id a = s) (hash_iter env t) \<noteq> None"
      using set by (auto simp: find_None_iff)
    then obtain x where x: "List.find (\<lambda>(c, a). at_session_id a = s) (hash_iter env t) = Some x"
      by blast
    then have "x \<in> set t" "at_session_id (snd x) = s"
      using set by (auto simp: find_Some_iff dest: nth_mem)
    then show "List.find (\<lambda>(c, a). at_session_id a = s) (hash_iter env t) = Some (c, a)"
      using unique [of x "(c, a)"] entry x by simp
  qed
qed

lemma channel_for_Some:
  assumes "iterates env" "table_ok (br_attaches b)"
  shows "channel_for env b s = Some c \<longleftrightarrow> (\<exists>a. (c, a) \<in> set (br_attaches b) \<and> at_session_id a = s)"
  using find_entry [OF assms, of s] by (auto simp: channel_for_def)

lemma channel_for_None:
  assumes "iterates env"
  shows "channel_for env b s = None \<longleftrightarrow> s \<notin> table_sessions (br_attaches b)"
proof -
  have "set (hash_iter env (br_attaches b)) = set (br_attaches b)"
    using assms by (metis iterates_def set_mset_mset)
  then show ?thesis
    by (force simp: channel_for_def find_None_iff table_sessions_def)
qed

section \<open>The handlers refine the moves\<close>

definition may_attach_session :: "'b terminal_bridge \<Rightarrow> string \<Rightarrow> bool" where
  "may_attach_session b s \<longleftrightarrow> can_attach (br_claims b) (br_policy b) s = Inr ()"

lemma attach_on_channel_moves:
  assumes "\<not> br_revoked b" "may_attach_session b s" "s \<notin> table_sessions (br_attaches b)"
    "length (br_attaches b) < MAX_ATTACHES" "br_next_attachment_generation b = Some g"
    "0 < channel" "map_of (br_attaches b) channel = None"
  shows "bridge_move (may_attach_session b) e (view b)
    (view (snd (attach_on_channel (recording env) encoding rid s cols rows raw viewed g channel authority b)))"
proof -
  obtain w calls where w: "br_backend b = (w, calls)"
    by fastforce
  obtain res w' o2 where call: "sb_attach env s cols rows raw g authority (w, br_winsize_owner b) = (res, w', o2)"
    using prod_cases3 by blast
  show ?thesis
  proof (cases res)
    case (Inl err)
    have "view (snd (attach_on_channel (recording env) encoding rid s cols rows raw viewed g channel authority b)) =
        view b\<lparr>bv_calls := bv_calls (view b) @ [CallAttach s cols rows raw g False]\<rparr>"
      by (simp add: attach_on_channel_def w logged_def call Inl view_def)
    then show ?thesis
      using bridge_move.attach_failed [of "view b" "may_attach_session b" s] assms by (simp add: view_def)
  next
    case (Inr u)
    have "view (snd (attach_on_channel (recording env) encoding rid s cols rows raw viewed g channel authority b)) =
        view b\<lparr>bv_table := bv_table (view b) @
             [(channel, \<lparr>at_session_id = s, at_terminal_encoding = encoding, at_generation = g\<rparr>)],
          bv_generation := checked_add_u64 g 1,
          bv_viewed := (if viewed then Some s else bv_viewed (view b)),
          bv_calls := bv_calls (view b) @ [CallAttach s cols rows raw g True]\<rparr>"
      by (simp add: attach_on_channel_def w logged_def call Inr Let_def assms(7) view_def)
    moreover have "channel \<notin> fst ` set (br_attaches b)"
      using assms(7) by (simp add: map_of_eq_None_iff)
    ultimately show ?thesis
      using bridge_move.attached [of "view b" "may_attach_session b" s g channel
          "if viewed then Some s else bv_viewed (view b)"] assms by (simp add: view_def)
  qed
qed

lemma handle_attach_moves:
  assumes "iterates env" "\<not> br_revoked b"
  shows "bridge_move (may_attach_session b) e (view b)
    (view (snd (handle_attach_session (recording env) enc rid s cols rows raw viewed b)))"
proof -
  define P where "P r \<longleftrightarrow> bridge_move (may_attach_session b) e (view b) (view (snd r))"
    for r :: "outbound list \<times> ('a \<times> backend_call list) terminal_bridge"
  have unmoved: "P ([out], b)" "P ([out], b\<lparr>br_next_channel := c, br_winsize_owner := o1\<rparr>)" for out c o1
    using bridge_move.idle [of "may_attach_session b" e "view b"] by (simp_all add: view_def P_def)
  have reached: "P (attach_on_channel (recording env) encoding rid s cols rows raw' viewed' g channel authority
      (b\<lparr>br_next_channel := cursor, br_winsize_owner := o1\<rparr>))"
    if "may_attach_session b s" "channel_for (recording env) b s = None" "\<not> MAX_ATTACHES \<le> length (br_attaches b)"
      "br_next_attachment_generation b = Some g"
      "take_available_channel (br_next_channel b) (\<lambda>c. map_of (br_attaches b) c \<noteq> None) = Some (channel, cursor)"
    for encoding g channel authority cursor o1 raw' viewed'
  proof -
    let ?b = "b\<lparr>br_next_channel := cursor, br_winsize_owner := o1\<rparr>"
    have "view ?b = view b" "may_attach_session ?b = may_attach_session b"
      by (simp_all add: view_def may_attach_session_def fun_eq_iff)
    then show ?thesis
      using attach_on_channel_moves [of ?b s g channel] that take_available_channel_Some [OF that(5)] assms
      by (simp add: channel_for_None P_def)
  qed
  note unreserved = reached [where ?o1.0 = "br_winsize_owner b", simplified]
  have "P (handle_attach_session (recording env) enc rid s cols rows raw viewed b)"
    unfolding handle_attach_session_def Let_def
    by (auto simp: may_attach_session_def split: option.split sum.split prod.split
        intro!: unmoved reached unreserved)
  then show ?thesis by (simp add: P_def)
qed

lemma handle_moves:
  assumes "iterates env" "table_ok (br_attaches b)"
  shows "bridge_move (may_attach_session b) e (view b)
    (view (snd (handle_with_terminal_encoding (recording env) msg enc b)))"
proof (cases "br_revoked b")
  case True
  then show ?thesis by (simp add: handle_with_terminal_encoding_def bridge_move.idle)
next
  case False
  note idle = bridge_move.idle [of "may_attach_session b" e "view b"]
  have live: "\<not> bv_revoked (view b)"
    using False by (simp add: view_def)
  obtain w calls where w: "br_backend b = (w, calls)"
    by fastforce
  have attached: "s \<in> table_sessions (bv_table (view b))" if "channel_for (recording env) b s \<noteq> None" for s
    using that channel_for_None [of "recording env" b s] assms(1) by (simp add: view_def)
  show ?thesis
  proof (cases msg)
    case (MsgSessionList rid)
    then show ?thesis
      using False idle by (simp add: handle_with_terminal_encoding_def handle_session_list_def split: sum.split prod.split)
  next
    case (MsgAttachSession rid s cols rows raw viewed)
    then show ?thesis
      using False handle_attach_moves [OF assms(1) False] by (simp add: handle_with_terminal_encoding_def)
  next
    case (MsgResize s cols rows viewed)
    note resized = bridge_move.resized [OF live attached, where e = e and cols = cols and rows = rows and s = s]
    show ?thesis
      using False idle resized [of "bv_viewed (view b)"] resized [of "Some s"]
      by (auto simp: MsgResize handle_with_terminal_encoding_def handle_resize_def bridge_note_remote_viewing_def
          logged_def Let_def w view_def split: prod.split sum.split)
  next
    case (MsgScrollback s from_top n)
    then show ?thesis
      using False idle bridge_move.scrolled_back [OF live attached, of s "may_attach_session b" e from_top n]
      by (auto simp: handle_with_terminal_encoding_def handle_scrollback_def logged_def w view_def
          split: prod.split sum.split)
  next
    case (MsgDetach s)
    show ?thesis
    proof (cases "channel_for (recording env) b s")
      case None
      then show ?thesis
        using False idle by (simp add: MsgDetach handle_with_terminal_encoding_def handle_detach_def)
    next
      case (Some channel)
      then obtain a where "(channel, a) \<in> set (br_attaches b)" "at_session_id a = s"
        using channel_for_Some [of "recording env" b s] assms by auto
      then show ?thesis
        using False Some bridge_move.detached [OF live, of channel a s "may_attach_session b" e]
        by (cases "br_viewed_session b = Some s")
          (simp_all add: MsgDetach handle_with_terminal_encoding_def handle_detach_def logged_def w view_def
            split: prod.split)
    qed
  qed
qed

lemma handle_input_moves:
  "bridge_move (may_attach_session b) (EvInput channel bytes now) (view b)
    (view (snd (handle_input_at (recording env) channel bytes now b)))"
proof (cases "br_revoked b \<or> MAX_INPUT_PAYLOAD < length bytes")
  case True
  then show ?thesis by (auto simp: handle_input_at_def bridge_move.idle)
next
  case False
  obtain allowed_now rate where rate: "allow (of_nat (length bytes)) now (br_input_rate b) = (allowed_now, rate)"
    by fastforce
  obtain w calls where w: "br_backend b = (w, calls)"
    by fastforce
  show ?thesis
  proof (cases "allowed_now \<and> map_of (br_attaches b) channel \<noteq> None")
    case True
    then obtain a where a: "map_of (br_attaches b) channel = Some a"
      by blast
    show ?thesis
      using False True rate a map_of_SomeD [OF a]
        bridge_move.input_sent [of "view b" "EvInput channel bytes now" channel bytes now rate a "may_attach_session b"]
      by (simp add: handle_input_at_def logged_def Let_def w view_def split: prod.split sum.split)
  next
    case dropped: False
    then show ?thesis
      using False rate
        bridge_move.input_dropped [of "EvInput channel bytes now" channel bytes now "view b" allowed_now rate
          "may_attach_session b"]
      by (auto simp: handle_input_at_def Let_def w view_def)
  qed
qed

lemma revoke_moves:
  assumes "iterates env"
  shows "bridge_move (may_attach_session b) e (view b) (view (revoke (recording env) b))"
  using bridge_move.closed [of "hash_iter env (br_attaches b)" "view b" "may_attach_session b" e] assms
  by (cases "br_backend b") (simp add: revoke_def detach_all_recording iterates_def view_def split: prod.split)

text \<open>Every step of the recorded bridge is an abstract move.\<close>

lemma step_moves:
  assumes "iterates env" "table_ok (br_attaches b)"
  shows "bridge_move (may_attach_session b) e (view b) (view (bridge_step (recording env) b e))"
proof (cases e)
  case (EvOwner owner)
  then show ?thesis
    using bridge_move.idle [of "may_attach_session b" e "view b"] by (simp add: view_def)
qed (simp_all add: handle_moves handle_input_moves revoke_moves assms)

section \<open>The ledger\<close>

text \<open>
  The contract of the call list, read from the left: a session is attached only while it is not
  live, and used or detached only while it is. \<open>None\<close> is a violation, \<open>Some live\<close> the sessions the backend
  holds for this connection.
\<close>

fun ledger_call :: "string set \<Rightarrow> backend_call \<Rightarrow> string set option" where
  "ledger_call live (CallAttach s _ _ _ _ okay) =
     (if s \<in> live then None else Some (if okay then insert s live else live))"
| "ledger_call live (CallDetach s) = (if s \<in> live then Some (live - {s}) else None)"
| "ledger_call live call = (if called_session call \<in> live then Some live else None)"

definition ledger :: "backend_call list \<Rightarrow> string set option" where
  "ledger calls = foldl (\<lambda>st call. Option.bind st (\<lambda>live. ledger_call live call)) (Some {}) calls"

lemma ledger_append:
  "ledger (calls @ calls') = foldl (\<lambda>st call. Option.bind st (\<lambda>live. ledger_call live call)) (ledger calls) calls'"
  by (simp add: ledger_def)

lemma ledger_Nil [simp]: "ledger [] = Some {}"
  by (simp add: ledger_def)

lemma ledger_detaches:
  assumes "ledger calls = Some (set ss)" "distinct ss"
  shows "ledger (calls @ map CallDetach ss) = Some {}"
proof -
  have "foldl (\<lambda>st call. Option.bind st (\<lambda>live. ledger_call live call)) (Some (set ss)) (map CallDetach ss) = Some {}"
    using assms(2) by (induction ss) simp_all
  then show ?thesis
    using assms(1) by (simp add: ledger_append)
qed

definition next_generation :: "bridge_view \<Rightarrow> nat" where
  "next_generation v = (case bv_generation v of None \<Rightarrow> 2 ^ 64 | Some g \<Rightarrow> unat g)"

lemma next_generation_advance:
  assumes "bv_generation v = checked_add_u64 g 1"
  shows "next_generation v = Suc (unat g)"
proof (cases "unat g < 18446744073709551615")
  case True
  then show ?thesis by (simp add: assms next_generation_def checked_add_u64_def unat_word_ariths)
next
  case False
  then have "unat g = 18446744073709551615"
    using unat_u64_less [of g] by linarith
  then show ?thesis by (simp add: assms next_generation_def checked_add_u64_def)
qed

definition view_inv :: "(string \<Rightarrow> bool) \<Rightarrow> bridge_view \<Rightarrow> bool" where
  "view_inv allowed v \<longleftrightarrow>
     table_ok (bv_table v) \<and> length (bv_table v) \<le> MAX_ATTACHES \<and> 0 \<notin> fst ` set (bv_table v) \<and>
     ledger (bv_calls v) = Some (table_sessions (bv_table v)) \<and>
     (\<forall>call \<in> set (bv_calls v). allowed (called_session call)) \<and>
     (\<forall>s \<in> table_sessions (bv_table v). allowed s) \<and>
     (\<forall>s. bv_viewed v = Some s \<longrightarrow> s \<in> table_sessions (bv_table v)) \<and>
     (\<forall>(c, a) \<in> set (bv_table v). unat (at_generation a) < next_generation v) \<and>
     distinct (map (at_generation \<circ> snd) (bv_table v)) \<and>
     (bv_revoked v \<longrightarrow> bv_table v = []) \<and>
     (\<forall>s bytes. CallInput s bytes \<in> set (bv_calls v) \<longrightarrow> length bytes \<le> MAX_INPUT_PAYLOAD)"

lemma view_inv_calls:
  assumes "view_inv allowed v" "ledger_call (table_sessions (bv_table v)) call = Some (table_sessions (bv_table v))"
    "allowed (called_session call)" "\<And>s bytes. call = CallInput s bytes \<Longrightarrow> length bytes \<le> MAX_INPUT_PAYLOAD"
  shows "view_inv allowed (v\<lparr>bv_calls := bv_calls v @ [call]\<rparr>)"
  using assms unfolding view_inv_def by (auto simp: ledger_append next_generation_def)

lemma view_inv_viewed:
  assumes "view_inv allowed v" "viewed \<in> {bv_viewed v, Some s}" "s \<in> table_sessions (bv_table v)"
  shows "view_inv allowed (v\<lparr>bv_viewed := viewed\<rparr>)"
  using assms unfolding view_inv_def by (auto simp: next_generation_def)

lemma view_inv_rate: "view_inv allowed v \<Longrightarrow> view_inv allowed (v\<lparr>bv_rate := rate\<rparr>)"
  by (simp add: view_inv_def next_generation_def)

lemma view_inv_attached:
  assumes "view_inv allowed v" "\<not> bv_revoked v" "allowed s" "s \<notin> table_sessions (bv_table v)"
    "length (bv_table v) < MAX_ATTACHES" "bv_generation v = Some g" "0 < channel"
    "channel \<notin> fst ` set (bv_table v)" "viewed \<in> {bv_viewed v, Some s}"
  shows "view_inv allowed
    (v\<lparr>bv_table := bv_table v @
          [(channel, \<lparr>at_session_id = s, at_terminal_encoding = encoding, at_generation = g\<rparr>)],
       bv_generation := checked_add_u64 g 1, bv_viewed := viewed,
       bv_calls := bv_calls v @ [CallAttach s cols rows raw g True]\<rparr>)"
proof -
  let ?e = "(channel, \<lparr>at_session_id = s, at_terminal_encoding = encoding, at_generation = g\<rparr>)"
  let ?v = "v\<lparr>bv_table := bv_table v @ [?e], bv_generation := checked_add_u64 g 1, bv_viewed := viewed,
       bv_calls := bv_calls v @ [CallAttach s cols rows raw g True]\<rparr>"
  have sessions: "table_sessions (bv_table v @ [?e]) = insert s (table_sessions (bv_table v))"
    by (simp add: table_sessions_def)
  have below: "unat (at_generation a) < unat g" if "(c, a) \<in> set (bv_table v)" for c a
    using assms(1,6) that by (auto simp: view_inv_def next_generation_def)
  have "table_ok (bv_table v @ [?e])"
    using assms(1,4,8) by (auto simp: view_inv_def table_ok_def table_sessions_def)
  moreover have "ledger (bv_calls ?v) = Some (table_sessions (bv_table ?v))"
    using assms(1,4) by (simp add: view_inv_def ledger_append sessions)
  moreover have "\<forall>(c, a) \<in> set (bv_table ?v). unat (at_generation a) < next_generation ?v"
    using below by (auto simp: next_generation_advance [of ?v g] intro: less_SucI)
  moreover have "distinct (map (at_generation \<circ> snd) (bv_table ?v))"
  proof -
    have "g \<notin> at_generation ` snd ` set (bv_table v)"
      using below by fastforce
    then show ?thesis
      using assms(1) by (auto simp: view_inv_def)
  qed
  moreover have "bv_viewed ?v = Some x \<Longrightarrow> x \<in> table_sessions (bv_table ?v)" for x
    using assms(1,9) sessions by (auto simp: view_inv_def)
  moreover have "\<forall>call \<in> set (bv_calls ?v). allowed (called_session call)"
    "\<forall>x \<in> table_sessions (bv_table ?v). allowed x" "0 \<notin> fst ` set (bv_table ?v)"
    using assms(1,3,7) sessions by (auto simp: view_inv_def)
  moreover have "length (bv_table ?v) \<le> MAX_ATTACHES" "\<not> bv_revoked ?v"
    "\<forall>s bytes. CallInput s bytes \<in> set (bv_calls ?v) \<longrightarrow> length bytes \<le> MAX_INPUT_PAYLOAD"
    using assms(1,2,5) by (auto simp: view_inv_def)
  ultimately show ?thesis
    unfolding view_inv_def by simp
qed

lemma table_without:
  assumes "table_ok t" "(channel, a) \<in> set t"
  shows "table_sessions (filter (\<lambda>(c, _). c \<noteq> channel) t) = table_sessions t - {at_session_id a}"
    "table_ok (filter (\<lambda>(c, _). c \<noteq> channel) t)"
proof -
  have inj: "inj_on fst (set t)" "inj_on (at_session_id \<circ> snd) (set t)"
    using assms(1) by (simp_all add: table_ok_def distinct_map)
  have same: "c = channel \<longleftrightarrow> at_session_id b = at_session_id a" if "(c, b) \<in> set t" for c b
    using inj_onD [OF inj(1), of "(c, b)" "(channel, a)"] inj_onD [OF inj(2), of "(c, b)" "(channel, a)"] that assms(2)
    by auto
  show "table_sessions (filter (\<lambda>(c, _). c \<noteq> channel) t) = table_sessions t - {at_session_id a}"
    using same by (force simp: table_sessions_def)
  show "table_ok (filter (\<lambda>(c, _). c \<noteq> channel) t)"
    using assms(1) by (simp add: table_ok_def distinct_map_filter)
qed

lemma view_inv_detached:
  assumes "view_inv allowed v" "\<not> bv_revoked v" "(channel, a) \<in> set (bv_table v)" "at_session_id a = s"
  shows "view_inv allowed
    (v\<lparr>bv_table := filter (\<lambda>(c, _). c \<noteq> channel) (bv_table v),
       bv_viewed := (if bv_viewed v = Some s then None else bv_viewed v),
       bv_calls := bv_calls v @ [CallDetach s]\<rparr>)"
proof -
  let ?t = "filter (\<lambda>(c, _). c \<noteq> channel) (bv_table v)"
  have ok: "table_ok (bv_table v)"
    using assms(1) by (simp add: view_inv_def)
  have s: "s \<in> table_sessions (bv_table v)"
    using assms(3,4) by (force simp: table_sessions_def)
  have "ledger (bv_calls v @ [CallDetach s]) = Some (table_sessions ?t)"
    using assms(1,4) s table_without(1) [OF ok assms(3)] by (simp add: view_inv_def ledger_append)
  moreover have "distinct (map (at_generation \<circ> snd) ?t)"
    using assms(1) by (simp add: view_inv_def distinct_map_filter)
  moreover have "length ?t \<le> MAX_ATTACHES"
    using assms(1) by (auto simp: view_inv_def intro: le_trans [OF length_filter_le])
  moreover have "0 \<notin> fst ` set ?t"
    using assms(1) by (auto simp: view_inv_def)
  ultimately show ?thesis
    using assms s table_without [OF ok assms(3)] unfolding view_inv_def
    by (auto simp: next_generation_def split: if_splits)
qed

lemma view_inv_closed:
  assumes "view_inv allowed v" "mset order = mset (bv_table v)"
  shows "view_inv allowed
    (v\<lparr>bv_table := [], bv_viewed := None, bv_revoked := True,
       bv_calls := bv_calls v @ map (\<lambda>(_, a). CallDetach (at_session_id a)) order\<rparr>)"
proof -
  let ?ss = "map (at_session_id \<circ> snd) order"
  have calls: "map (\<lambda>(_, a). CallDetach (at_session_id a)) order = map CallDetach ?ss"
    by (simp add: split_def comp_def)
  have order: "set order = set (bv_table v)"
    using assms(2) by (metis set_mset_mset)
  have "mset ?ss = mset (map (at_session_id \<circ> snd) (bv_table v))"
    using assms(2) by (metis mset_map)
  then have "distinct ?ss \<longleftrightarrow> distinct (map (at_session_id \<circ> snd) (bv_table v))"
    by (rule mset_eq_imp_distinct_iff)
  then have "distinct ?ss"
    using assms(1) by (simp add: view_inv_def table_ok_def)
  moreover have "ledger (bv_calls v) = Some (set ?ss)"
    using assms(1) order by (simp add: view_inv_def table_sessions_def)
  ultimately have "ledger (bv_calls v @ map CallDetach ?ss) = Some {}"
    by (rule ledger_detaches [rotated])
  moreover have "allowed (called_session call)" if "call \<in> set (map CallDetach ?ss)" for call
    using that assms(1) order by (auto simp: view_inv_def table_sessions_def)
  ultimately show ?thesis
    using assms(1) unfolding view_inv_def calls
    by (auto simp: table_sessions_def table_ok_def next_generation_def)
qed

lemma bridge_move_inv:
  assumes "bridge_move allowed e v v'" "view_inv allowed v"
  shows "view_inv allowed v'"
  using assms
proof cases
  case (attach_failed s cols rows raw g)
  then show ?thesis
    using view_inv_calls [OF assms(2), of "CallAttach s cols rows raw g False"] by simp
next
  case attached
  then show ?thesis using view_inv_attached assms(2) by metis
next
  case (resized s viewed cols rows)
  have "view_inv allowed (v\<lparr>bv_viewed := viewed\<rparr>)"
    using view_inv_viewed [OF assms(2) resized(4,3)] .
  moreover have "allowed s"
    using assms(2) resized(3) by (simp add: view_inv_def)
  ultimately show ?thesis
    using view_inv_calls [of allowed "v\<lparr>bv_viewed := viewed\<rparr>" "CallResize s cols rows"] resized by simp
next
  case (scrolled_back s from_top n)
  moreover have "allowed s"
    using assms(2) scrolled_back(3) by (simp add: view_inv_def)
  ultimately show ?thesis
    using view_inv_calls [OF assms(2), of "CallScrollback s from_top n"] by simp
next
  case detached
  then show ?thesis using view_inv_detached assms(2) by metis
next
  case input_dropped
  then show ?thesis using view_inv_rate assms(2) by metis
next
  case (input_sent channel bytes now rate a)
  then have s: "at_session_id a \<in> table_sessions (bv_table v)"
    by (force simp: table_sessions_def)
  moreover have "allowed (at_session_id a)"
    using assms(2) s by (simp add: view_inv_def)
  ultimately show ?thesis
    using view_inv_calls [OF view_inv_rate [OF assms(2), of rate], of "CallInput (at_session_id a) bytes"] input_sent
    by simp
next
  case closed
  then show ?thesis using view_inv_closed assms(2) by metis
qed simp

section \<open>Runs\<close>

text \<open>
  The order of a run: generations only grow, an entry of an old generation was already there, and a
  revoked bridge makes no further call.
\<close>

definition view_before :: "bridge_view \<Rightarrow> bridge_view \<Rightarrow> bool" where
  "view_before v v' \<longleftrightarrow>
     next_generation v \<le> next_generation v' \<and>
     (\<forall>(c, a) \<in> set (bv_table v'). unat (at_generation a) < next_generation v \<longrightarrow> (c, a) \<in> set (bv_table v)) \<and>
     (bv_revoked v \<longrightarrow> bv_revoked v' \<and> bv_calls v' = bv_calls v)"

lemma view_before_refl: "view_before v v"
  by (auto simp: view_before_def)

lemma view_before_trans:
  assumes "view_before u v" "view_before v w"
  shows "view_before u w"
proof -
  have "(c, a) \<in> set (bv_table u)" if "(c, a) \<in> set (bv_table w)" "unat (at_generation a) < next_generation u" for c a
    using that assms less_le_trans unfolding view_before_def by fastforce
  then show ?thesis
    using assms by (auto simp: view_before_def)
qed

lemma bridge_move_before:
  assumes "bridge_move allowed e v v'" "view_inv allowed v"
  shows "view_before v v'"
  using assms
proof cases
  case (attached s g channel viewed encoding cols rows raw)
  have "next_generation v = unat g"
    using attached by (simp add: next_generation_def)
  moreover have "next_generation v' = Suc (unat g)"
    using attached next_generation_advance by simp
  ultimately show ?thesis
    using attached by (auto simp: view_before_def)
next
  case (closed order)
  have "order = []" if "bv_revoked v"
    using that closed assms(2) by (simp add: view_inv_def)
  with closed show ?thesis
    by (auto simp: view_before_def next_generation_def)
qed (auto simp: view_before_def next_generation_def)

lemma attach_on_channel_identity:
  "br_claims (snd (attach_on_channel env encoding rid s cols rows raw viewed g channel authority b)) = br_claims b"
  "br_policy (snd (attach_on_channel env encoding rid s cols rows raw viewed g channel authority b)) = br_policy b"
  by (simp_all add: attach_on_channel_def Let_def split: prod.split sum.split option.split)

lemma handle_identity:
  "br_claims (snd (handle_with_terminal_encoding env msg enc b)) = br_claims b"
  "br_policy (snd (handle_with_terminal_encoding env msg enc b)) = br_policy b"
  by (simp_all add: handle_with_terminal_encoding_def handle_session_list_def handle_attach_session_def
      handle_resize_def handle_scrollback_def handle_detach_def bridge_note_remote_viewing_def
      attach_on_channel_identity Let_def split: terminal_msg.split prod.split sum.split option.split)

lemma step_identity:
  "br_claims (bridge_step env b e) = br_claims b" "br_policy (bridge_step env b e) = br_policy b"
  by (cases e; simp add: handle_identity handle_input_at_def revoke_def Let_def split: prod.split sum.split option.split)+

lemma run_identity [simp]:
  "br_claims (bridge_run env evs b) = br_claims b" "br_policy (bridge_run env evs b) = br_policy b"
  by (induction evs arbitrary: b) (simp_all add: step_identity)

definition bridge_inv :: "'b bridge_env \<Rightarrow> ('b \<times> backend_call list) terminal_bridge \<Rightarrow> bool" where
  "bridge_inv env b \<longleftrightarrow> iterates env \<and> view_inv (may_attach_session b) (view b)"

lemma bridge_inv_step:
  assumes "bridge_inv env b"
  shows "bridge_inv env (bridge_step (recording env) b e)" "view_before (view b) (view (bridge_step (recording env) b e))"
proof -
  have "table_ok (br_attaches b)"
    using assms by (simp add: bridge_inv_def view_inv_def view_def)
  then have move: "bridge_move (may_attach_session b) e (view b) (view (bridge_step (recording env) b e))"
    using assms by (auto simp: bridge_inv_def intro: step_moves)
  have "may_attach_session (bridge_step (recording env) b e) = may_attach_session b"
    by (simp add: may_attach_session_def step_identity fun_eq_iff)
  then show "bridge_inv env (bridge_step (recording env) b e)"
    using assms bridge_move_inv [OF move] by (simp add: bridge_inv_def)
  show "view_before (view b) (view (bridge_step (recording env) b e))"
    using assms bridge_move_before [OF move] by (simp add: bridge_inv_def)
qed

interpretation bridge: monotone_stepping "bridge_step (recording env)" "bridge_inv env"
  "\<lambda>b b'. view_before (view b) (view b')" for env :: "'b bridge_env"
  by unfold_locales (auto simp: bridge_inv_step view_before_refl intro: view_before_trans)

lemma bridge_run_eq: "bridge_run (recording env) evs b = bridge.run env evs b"
  by (simp add: bridge_run_def bridge.run_def)

lemma connect_inv:
  assumes "iterates env"
  shows "bridge_inv env (connect (w, []) policy claims owner connection_id gzip)"
  using assms
  by (simp add: bridge_inv_def view_inv_def connect_defs view_def table_ok_def table_sessions_def next_generation_def)

lemma connected_run_inv:
  assumes "iterates env" "b = bridge_run (recording env) evs (connect (w, []) policy claims owner connection_id gzip)"
  shows "bridge_inv env b"
  unfolding assms(2) bridge_run_eq by (rule bridge.run_inv [OF connect_inv [OF assms(1)]])

section \<open>Input reaching a terminal\<close>

fun call_bytes :: "backend_call \<Rightarrow> nat" where
  "call_bytes (CallInput _ bytes) = length bytes"
| "call_bytes _ = 0"

definition input_bytes :: "backend_call list \<Rightarrow> nat" where
  "input_bytes calls = sum_list (map call_bytes calls)"

lemma input_bytes_simps [simp]:
  "input_bytes [] = 0" "input_bytes (calls @ calls') = input_bytes calls + input_bytes calls'"
  "input_bytes [call] = call_bytes call" "input_bytes (map (\<lambda>(_, a). CallDetach (at_session_id a)) t) = 0"
  by (simp_all add: input_bytes_def, induction t, auto)

text \<open>The time an event brings: only input frames read the clock.\<close>

fun event_in :: "nat \<Rightarrow> nat \<Rightarrow> bridge_event \<Rightarrow> bool" where
  "event_in since until (EvInput _ _ now) = (since \<le> unat now \<and> unat now \<le> until)"
| "event_in since until _ = True"

definition spent_within :: "nat \<Rightarrow> nat \<Rightarrow> bridge_view \<Rightarrow> bool" where
  "spent_within since until v \<longleftrightarrow>
     (let clock = (case ir_last_ms (bv_rate v) of None \<Rightarrow> since | Some t \<Rightarrow> unat t) in
      since \<le> clock \<and> clock \<le> until \<and> ir_refill_per_sec (bv_rate v) = DEFAULT_REFILL_PER_SEC \<and>
      input_bytes (bv_calls v) * 1000 + unat (ir_tokens (bv_rate v)) * 1000 \<le>
        unat DEFAULT_CAPACITY * 1000 + unat DEFAULT_REFILL_PER_SEC * (clock - since))"

lemma spent_within_allow:
  assumes "spent_within since until v" "allow (of_nat n) now (bv_rate v) = (granted, rate)"
    "since \<le> unat now" "unat now \<le> until" "n \<le> MAX_INPUT_PAYLOAD" "extra \<le> (if granted then n else 0)"
    "input_bytes calls = input_bytes (bv_calls v) + extra"
  shows "spent_within since until (v\<lparr>bv_rate := rate, bv_calls := calls\<rparr>)"
proof -
  note credit = allow_credit [OF assms(2)]
  let ?from = "bucket_clock (bv_rate v) now" and ?to = "bucket_clock rate now"
  obtain t where t: "ir_last_ms rate = Some t"
    using credit(4) by blast
  then have to: "?to = unat t"
    by (simp add: bucket_clock_def)
  define clock where "clock = (case ir_last_ms (bv_rate v) of None \<Rightarrow> since | Some t \<Rightarrow> unat t)"
  have clock: "since \<le> clock" "clock \<le> until" "clock \<le> ?from" "?from \<le> until"
    using assms(1,3,4) by (auto simp: spent_within_def Let_def clock_def bucket_clock_def split: option.splits)
  have n: "unat (of_nat n :: u64) = n"
    using assms(5) by (simp add: MAX_INPUT_PAYLOAD_def unat_of_nat take_bit_eq_mod)
  have refill: "ir_refill_per_sec (bv_rate v) = DEFAULT_REFILL_PER_SEC"
    using assms(1) by (simp add: spent_within_def Let_def)
  have old: "input_bytes (bv_calls v) * 1000 + unat (ir_tokens (bv_rate v)) * 1000 \<le>
      unat DEFAULT_CAPACITY * 1000 + unat DEFAULT_REFILL_PER_SEC * (clock - since)"
    using assms(1) by (simp add: spent_within_def Let_def clock_def)
  have new: "(if granted then n else 0) * 1000 + unat (ir_tokens rate) * 1000 \<le>
      unat (ir_tokens (bv_rate v)) * 1000 + unat DEFAULT_REFILL_PER_SEC * (?to - ?from)"
    using credit(1) unfolding n refill .
  have extra: "input_bytes calls * 1000 \<le> input_bytes (bv_calls v) * 1000 + (if granted then n else 0) * 1000"
    using assms(6,7) by simp
  have "unat DEFAULT_REFILL_PER_SEC * (clock - since) + unat DEFAULT_REFILL_PER_SEC * (?to - ?from) \<le>
      unat DEFAULT_REFILL_PER_SEC * (?to - since)"
  proof -
    have "(clock - since) + (?to - ?from) \<le> ?to - since"
      using clock credit(2) by linarith
    then show ?thesis
      by (metis add_mult_distrib2 mult_le_mono2)
  qed
  then have "input_bytes calls * 1000 + unat (ir_tokens rate) * 1000 \<le>
      unat DEFAULT_CAPACITY * 1000 + unat DEFAULT_REFILL_PER_SEC * (?to - since)"
    using old new extra by linarith
  moreover have "since \<le> ?to" "?to \<le> until"
    using clock credit(2,3) assms(4) by linarith+
  ultimately show ?thesis
    using credit(6) refill by (simp add: spent_within_def t to)
qed

lemma bridge_move_spent:
  assumes "bridge_move allowed e v v'" "spent_within since until v" "event_in since until e"
  shows "spent_within since until v'"
  using assms
proof cases
  case (input_dropped channel bytes now granted rate)
  then show ?thesis
    using spent_within_allow [of since until v "length bytes" now granted rate 0 "bv_calls v"] assms(2,3) by simp
next
  case (input_sent channel bytes now rate a)
  then show ?thesis
    using spent_within_allow [of since until v "length bytes" now True rate "length bytes"
        "bv_calls v @ [CallInput (at_session_id a) bytes]"] assms(2,3) by simp
qed (use assms(2) in \<open>auto simp: spent_within_def\<close>)

lemma run_spent:
  assumes "bridge_inv env b" "spent_within since until (view b)" "list_all (event_in since until) evs"
  shows "spent_within since until (view (bridge_run (recording env) evs b))"
  using assms
proof (induction evs arbitrary: b)
  case (Cons e evs)
  have "bridge_move (may_attach_session b) e (view b) (view (bridge_step (recording env) b e))"
    using Cons.prems(1) by (intro step_moves) (auto simp: bridge_inv_def view_inv_def view_def)
  then have "spent_within since until (view (bridge_step (recording env) b e))"
    using bridge_move_spent Cons.prems(2,3) by simp
  then show ?case
    using Cons.IH [OF bridge_inv_step(1) [OF Cons.prems(1)]] Cons.prems(3) by simp
qed simp

section \<open>Properties of the bridge\<close>

text \<open>A target is the entry of its channel.\<close>

lemma exact_output_target_Some:
  assumes "iterates env" "table_ok (br_attaches b)"
  shows "exact_output_target env b s = Some t \<longleftrightarrow>
    (\<exists>c a. (c, a) \<in> set (br_attaches b) \<and> at_session_id a = s \<and>
         t = \<lparr>tgt_channel = c, tgt_encoding = at_terminal_encoding a, tgt_generation = at_generation a\<rparr>)"
  using find_entry [OF assms, of s] by (auto simp: exact_output_target_def)

lemma erase_target [simp]: "exact_output_target env (erase b) s = exact_output_target (recording env) b s"
  by (simp add: exact_output_target_def)

text \<open>
  C15: The bridge and the backend agree on what is attached, after every sequence of messages, input
  frames, revocations and owner changes and for every backend, failing ones included. Read as a
  ledger, the calls the bridge makes attach a session only when it is not live and use or detach it
  only when it is, and the sessions left live are exactly those of the routing table; so no
  daemon attachment leaks or is released twice. Every call names a session the token may attach.
  The table has at most eight entries, with distinct nonzero channels, distinct sessions and distinct
  generations, and the viewed session is one of them. Recording the calls does not change the run.
\<close>

theorem backend_ledger_exact:
  assumes "iterates env"
    "b = bridge_run (recording env) evs (connect (w, []) policy claims owner connection_id gzip)"
  shows "ledger (snd (br_backend b)) = Some (table_sessions (br_attaches b)) \<and>
    (\<forall>call \<in> set (snd (br_backend b)). can_attach claims policy (called_session call) = Inr ()) \<and>
    length (br_attaches b) \<le> MAX_ATTACHES \<and> 0 \<notin> fst ` set (br_attaches b) \<and>
    distinct (map fst (br_attaches b)) \<and> distinct (map (at_session_id \<circ> snd) (br_attaches b)) \<and>
    distinct (map (at_generation \<circ> snd) (br_attaches b)) \<and>
    (\<forall>s. br_viewed_session b = Some s \<longrightarrow> s \<in> table_sessions (br_attaches b)) \<and>
    erase b = bridge_run env evs (connect w policy claims owner connection_id gzip)"
proof -
  have "br_claims b = claims" "br_policy b = policy"
    using assms(2) by (simp_all add: connect_defs)
  moreover have "view_inv (may_attach_session b) (view b)"
    using connected_run_inv [OF assms] by (simp add: bridge_inv_def)
  moreover have "erase b = bridge_run env evs (connect w policy claims owner connection_id gzip)"
    unfolding assms(2) by (simp flip: erase_run)
  ultimately show ?thesis
    by (simp add: view_inv_def view_def may_attach_session_def table_ok_def)
qed

text \<open>
  C16: Revocation closes the connection's terminals for good. Whatever was attached, \<^verbatim>\<open>revoke\<close> detaches each
  session exactly once and nothing stays live; after it, no further event makes the bridge call the
  backend, no output has a target, and every message and input frame is answered with \<^verbatim>\<open>revoked\<close>.
  Dropping the bridge instead also releases everything.
\<close>

theorem revocation_closes_bridge:
  assumes "iterates env"
    "b = bridge_run (recording env) evs (connect (w, []) policy claims owner connection_id gzip)"
    "b' = bridge_run (recording env) later (revoke (recording env) b)"
  shows "ledger (snd (br_backend b')) = Some {} \<and>
    snd (br_backend b') = snd (br_backend (revoke (recording env) b)) \<and>
    exact_output_target (recording env) b' s = None \<and>
    handle_with_terminal_encoding (recording env) msg enc b' = ([bridge_err ''revoked'' ''device revoked''], b') \<and>
    handle_input_at (recording env) channel bytes now b' = ([bridge_err ''revoked'' ''device revoked''], b') \<and>
    ledger (snd (br_backend (drop_bridge (recording env) b))) = Some {}"
proof -
  let ?r = "revoke (recording env) b"
  have b: "bridge_inv env b"
    using connected_run_inv [OF assms(1,2)] .
  then have r: "bridge_inv env ?r"
    using bridge_inv_step(1) [of env b EvRevoke] by simp
  have "b' = bridge.run env later ?r"
    using assms(3) by (simp add: bridge_run_eq)
  then have b': "bridge_inv env b'" "view_before (view ?r) (view b')"
    using bridge.run_inv [OF r] bridge.run_before [OF r] by simp_all
  have "br_revoked ?r"
    by (simp add: revoke_def split: prod.split)
  then have revoked: "br_revoked b'" "snd (br_backend b') = snd (br_backend ?r)"
    using b'(2) by (simp_all add: view_before_def view_def)
  then have empty: "br_attaches b' = []" "ledger (snd (br_backend b')) = Some {}"
    using b'(1) by (simp_all add: bridge_inv_def view_inv_def view_def table_sessions_def)
  have "hash_iter env [] = []"
    using assms(1) by (metis iterates_def mset_zero_iff_right)
  then have "exact_output_target (recording env) b' s = None"
    using empty by (simp add: exact_output_target_def)
  moreover have "snd (br_backend (drop_bridge (recording env) b)) = snd (br_backend ?r)"
    by (simp add: drop_bridge_def revoke_def split: prod.split)
  ultimately show ?thesis
    using revoked empty by (simp add: handle_with_terminal_encoding_def handle_input_at_def)
qed

text \<open>
  C17: Input to the terminals is bounded, whatever the browser sends. Over any run whose input frames
  carry clock readings in an interval, the bytes handed to the backend are at most one MiB plus 256 KiB
  for every second of the interval, summed over all sessions, and no single frame exceeds 64 KiB.
\<close>

theorem terminal_input_bounded:
  assumes "iterates env"
    "b = bridge_run (recording env) evs (connect (w, []) policy claims owner connection_id gzip)"
    "list_all (event_in since until) evs" "since \<le> until"
  shows "input_bytes (snd (br_backend b)) * 1000 \<le> 1048576 * 1000 + 262144 * (until - since) \<and>
    (\<forall>s bytes. CallInput s bytes \<in> set (snd (br_backend b)) \<longrightarrow> length bytes \<le> 65536)"
proof -
  let ?b = "connect (w, []) policy claims owner connection_id gzip"
  have "spent_within since until (view ?b)"
    using assms(4)
    by (simp add: spent_within_def view_def connect_defs default_rate_limiter_def new_rate_limiter_def)
  then have "spent_within since until (view b)"
    unfolding assms(2) using run_spent [OF connect_inv [OF assms(1)]] assms(3) by blast
  then obtain clock where clock: "clock \<le> until"
      "input_bytes (snd (br_backend b)) * 1000 + unat (ir_tokens (br_input_rate b)) * 1000 \<le>
        1048576 * 1000 + 262144 * (clock - since)"
    by (auto simp: spent_within_def view_def Let_def DEFAULT_CAPACITY_def DEFAULT_REFILL_PER_SEC_def)
  then have "input_bytes (snd (br_backend b)) * 1000 \<le> 1048576 * 1000 + 262144 * (until - since)"
    by linarith
  moreover have "length bytes \<le> 65536" if "CallInput s bytes \<in> set (snd (br_backend b))" for s bytes
    using connected_run_inv [OF assms(1,2)] that by (simp add: bridge_inv_def view_inv_def view_def MAX_INPUT_PAYLOAD_def)
  ultimately show ?thesis by blast
qed

text \<open>
  C18: A retired output target never comes back. Once a session's exact target has been replaced or
  removed (detach, reattach, revocation), no later run gives any session a target of that generation, so
  output the daemon tagged for the old attachment is accepted by no target, even when the session
  is attached again or the channel number is reused.
\<close>

theorem retired_target_never_returns:
  assumes "iterates env" "b = bridge_run env evs (connect w policy claims owner connection_id gzip)"
    "exact_output_target env b s = Some t"
    "b1 = bridge_run env later b" "exact_output_target env b1 s \<noteq> Some t"
    "b2 = bridge_run env afterwards b1" "exact_output_target env b2 s' = Some t'"
  shows "tgt_generation t' \<noteq> tgt_generation t \<and>
    \<not> attachment_accepts (AttExact (tgt_generation t)) (tgt_generation t')"
proof -
  let ?start = "connect (w, []) policy claims owner connection_id gzip"
  define r where "r = bridge_run (recording env) evs ?start"
  define r1 where "r1 = bridge.run env later r"
  define r2 where "r2 = bridge.run env afterwards r1"
  have inv: "bridge_inv env r" "bridge_inv env r1" "bridge_inv env r2"
    using connected_run_inv [OF assms(1) r_def] by (auto simp: r1_def r2_def bridge.run_inv)
  have eq: "b = erase r" "b1 = erase r1" "b2 = erase r2"
    by (simp_all add: assms(2,4,6) r_def r1_def r2_def flip: erase_run bridge_run_eq)
  have before: "view_before (view r) (view r2)" "view_before (view r1) (view r2)" "view_before (view r) (view r1)"
    using view_before_trans bridge.run_before inv(1,2) unfolding r1_def r2_def by blast+
  have ok: "table_ok (br_attaches r)" "table_ok (br_attaches r1)" "table_ok (br_attaches r2)"
    using inv by (simp_all add: bridge_inv_def view_inv_def view_def)
  have tables: "bv_table (view x) = br_attaches x" for x :: "('a \<times> backend_call list) terminal_bridge"
    by (simp add: view_def)
  obtain c a where a: "(c, a) \<in> set (br_attaches r)" "at_session_id a = s"
    "t = \<lparr>tgt_channel = c, tgt_encoding = at_terminal_encoding a, tgt_generation = at_generation a\<rparr>"
    using assms(1,3) exact_output_target_Some [of "recording env" r s t] ok by (auto simp: eq)
  obtain c' a' where a': "(c', a') \<in> set (br_attaches r2)"
    "t' = \<lparr>tgt_channel = c', tgt_encoding = at_terminal_encoding a', tgt_generation = at_generation a'\<rparr>"
    using assms(1,7) exact_output_target_Some [of "recording env" r2 s' t'] ok by (auto simp: eq)
  have "tgt_generation t' \<noteq> tgt_generation t"
  proof
    assume "tgt_generation t' = tgt_generation t"
    then have same: "at_generation a' = at_generation a"
      using a a' by simp
    have below: "unat (at_generation a) < next_generation (view r)"
      using inv(1) a(1) by (auto simp: bridge_inv_def view_inv_def tables)
    then have "(c', a') \<in> set (br_attaches r)" "(c', a') \<in> set (br_attaches r1)"
      using before a'(1) same unfolding view_before_def tables by fastforce+
    moreover have "distinct (map (at_generation \<circ> snd) (br_attaches r))"
      using inv(1) by (simp add: bridge_inv_def view_inv_def view_def)
    ultimately have "(c, a) \<in> set (br_attaches r1)"
      using a(1) same by (metis comp_apply distinct_map inj_onD snd_conv)
    then have "exact_output_target env b1 s = Some t"
      using assms(1) a exact_output_target_Some [of "recording env" r1 s t] ok by (auto simp: eq)
    with assms(5) show False ..
  qed
  then show ?thesis by auto
qed

lemma redact_project_eq:
  "redact_project visible p =
     (if wj_windows p = [] then None else Some (p\<lparr>wj_windows := map (redact_window visible) (wj_windows p)\<rparr>))"
  by (simp add: redact_project_def)

lemma redact_pane_simps [simp]:
  "wp_id (redact_pane visible pane) = wp_id pane"
  "wp_session_id (redact_pane visible pane) \<in> insert [] (set visible)"
  by (simp_all add: redact_pane_def)

lemma filter_workspace_hides:
  assumes "filter_workspace_metadata metadata visible = Some projects"
  shows "(\<forall>project \<in> set projects. \<forall>window \<in> set (wj_windows project). \<forall>pane \<in> set (ww_panes window).
      wp_session_id pane \<in> insert [] (set visible)) \<and>
    map (\<lambda>p. (wj_id p, map (map wp_id \<circ> ww_panes) (wj_windows p))) projects =
    map (\<lambda>p. (wj_id p, map (map wp_id \<circ> ww_panes) (wj_windows p))) (filter (\<lambda>p. wj_windows p \<noteq> []) (the metadata))"
proof -
  obtain ps where ps: "metadata = Some ps"
    using assms by (cases metadata) (simp_all add: filter_workspace_metadata_def)
  have kept: "projects = map (\<lambda>p. p\<lparr>wj_windows := map (redact_window visible) (wj_windows p)\<rparr>)
      (filter (\<lambda>p. wj_windows p \<noteq> []) ps)"
    using assms by (auto simp: ps filter_workspace_metadata_def Let_def List.map_filter_def redact_project_eq
        cong: filter_cong map_cong split: if_splits)
  have "\<forall>window \<in> set (map (redact_window visible) (wj_windows p)). \<forall>pane \<in> set (ww_panes window).
      wp_session_id pane \<in> insert [] (set visible)" for p :: workspace_project
    by (auto simp: redact_window_def simp del: insert_iff)
  then show ?thesis
    by (auto simp: kept ps redact_window_def comp_def)
qed

text \<open>
  C19: Listing reveals only what the connection could attach. When pushes are allowed, the pushed payload
  is the very reply a \<^verbatim>\<open>session_list\<close> request gets; its sessions are exactly the live sessions the token
  may attach, its metadata names only those, and every pane of the workspace it carries either
  shows one of them or has its session id blanked, while every project with a window and every pane is
  kept in place. When the connection may not list, nothing is pushed and the request is refused.
\<close>

theorem listing_reveals_only_attachable:
  assumes "\<not> br_revoked b"
  shows "(case workspace_push_payload env b of
      None \<Rightarrow> can_list (br_claims b) (br_policy b) \<noteq> Inr () \<and>
        handle_with_terminal_encoding env (MsgSessionList rid) enc b =
          ([bridge_err ''forbidden'' ''not allowed to list sessions''], b)
    | Some (sessions, metadata, workspace) \<Rightarrow>
        handle_with_terminal_encoding env (MsgSessionList rid) enc b =
          ([Json (SessionListResult rid sessions metadata workspace)], b) \<and>
        set sessions = {s \<in> set (sb_list_sessions env (br_backend b)).
                        can_attach (br_claims b) (br_policy b) s = Inr ()} \<and>
        sm_id ` set metadata \<subseteq> set sessions \<and>
        (\<forall>projects. workspace = Some projects \<longrightarrow>
           (\<forall>project \<in> set projects. \<forall>window \<in> set (wj_windows project). \<forall>pane \<in> set (ww_panes window).
              wp_session_id pane \<in> insert [] (set sessions)) \<and>
           map (\<lambda>p. (wj_id p, map (map wp_id \<circ> ww_panes) (wj_windows p))) projects =
           map (\<lambda>p. (wj_id p, map (map wp_id \<circ> ww_panes) (wj_windows p)))
             (filter (\<lambda>p. wj_windows p \<noteq> []) (the (sb_workspace_metadata env (br_backend b))))))"
proof -
  define sessions where "sessions = visible_sessions (br_claims b) (br_policy b) (sb_list_sessions env (br_backend b))"
  have "set sessions = {s \<in> set (sb_list_sessions env (br_backend b)). can_attach (br_claims b) (br_policy b) s = Inr ()}"
    by (auto simp: sessions_def visible_iff_attachable)
  moreover have "can_list (br_claims b) (br_policy b) = Inr ()" if "can_list (br_claims b) (br_policy b) = Inr u" for u
    using that by simp
  ultimately show ?thesis
    using assms filter_workspace_hides [of "sb_workspace_metadata env (br_backend b)" sessions]
    by (auto simp: workspace_push_payload_def current_session_list_reply_def Let_def handle_with_terminal_encoding_def
        handle_session_list_def simp flip: sessions_def split: sum.split)
qed

section \<open>A concrete connection\<close>

text \<open>A backend that accepts everything, and a token for the whole account.\<close>

definition demo_env :: "unit bridge_env" where
  "demo_env =
     \<lparr>sb_list_sessions = (\<lambda>_. [''s1'', ''s2'']), sb_session_metadata = (\<lambda>_. [\<lparr>sm_id = ''s1'', sm_cwd = None\<rparr>]),
      sb_workspace_metadata = (\<lambda>_. None), sb_attach = (\<lambda>s cols rows raw g authority st. (Inr (), st)),
      sb_input = (\<lambda>s bytes st. (Inr (), st)), sb_resize = (\<lambda>s cols rows st. (Inr Queued, st)),
      sb_scrollback = (\<lambda>s from_top n st. (Inr (), st)), sb_detach = (\<lambda>s st. st), hash_iter = rev\<rparr>"

definition demo_claims :: token_claims where
  "demo_claims = the (tc_claims demo_crypto [])"

definition demo_start :: "'b \<Rightarrow> 'b terminal_bridge" where
  "demo_start w = connect w SameAsLocalPolicy demo_claims new_owner ''conn'' False"

definition demo_attach :: "string \<Rightarrow> bridge_event" where
  "demo_attach s = EvMessage (MsgAttachSession ''r'' s 80 24 True False) None"

lemma demo_iterates: "iterates demo_env"
  by (simp add: iterates_def demo_env_def)

lemma take_first_channel:
  "\<not> is_live (max c 1) \<Longrightarrow> take_available_channel c is_live = Some (max c 1, following_channel (max c 1))"
  using scan_channels.simps(2) [of 65534 "max c 1" is_live] by (simp add: take_available_channel_def del: scan_channels.simps)

lemmas demo_eval = demo_env_def demo_start_def demo_attach_def demo_claims_def demo_crypto_def connect_defs
  SameAsLocalPolicy_def handle_with_terminal_encoding_def handle_attach_session_def attach_on_channel_def
  handle_detach_def handle_input_at_def valid_terminal_dimensions_def selected_encoding_def can_attach_def
  channel_for_def take_first_channel following_channel_def MAX_ATTACHES_def MAX_TERMINAL_DIMENSION_def
  MAX_INPUT_PAYLOAD_def checked_add_u64_def default_rate_limiter_def new_rate_limiter_def DEFAULT_CAPACITY_def
  DEFAULT_REFILL_PER_SEC_def allow_def refill_def logged_def exact_output_target_def

definition demo_events :: "bridge_event list" where
  "demo_events = [demo_attach ''s1'', EvInput 1 [65, 66] 1000, EvMessage (MsgDetach ''s1'') None, demo_attach ''s1'']"

definition demo_recorded :: "(unit \<times> backend_call list) terminal_bridge" where
  "demo_recorded = bridge_run (recording demo_env) demo_events (demo_start ((), []))"

lemma demo_recorded_run:
  "br_attaches demo_recorded =
     [(2, \<lparr>at_session_id = ''s1'', at_terminal_encoding = EncLegacy, at_generation = 2\<rparr>)]"
  "snd (br_backend demo_recorded) =
     [CallAttach ''s1'' 80 24 True 1 True, CallInput ''s1'' [65, 66], CallDetach ''s1'', CallAttach ''s1'' 80 24 True 2 True]"
  by (simp_all add: demo_recorded_def demo_events_def demo_eval)

lemma demo_recorded_eq:
  "demo_recorded = bridge_run (recording demo_env) demo_events
     (connect ((), []) SameAsLocalPolicy demo_claims new_owner ''conn'' False)"
  by (simp add: demo_recorded_def demo_start_def)

theorem backend_ledger_exact_witness:
  "ledger (snd (br_backend demo_recorded)) = Some (table_sessions (br_attaches demo_recorded)) \<and>
   table_sessions (br_attaches demo_recorded) = {''s1''} \<and> CallDetach ''s1'' \<in> set (snd (br_backend demo_recorded))"
  using backend_ledger_exact [OF demo_iterates demo_recorded_eq] by (simp add: demo_recorded_run table_sessions_def)

theorem revocation_closes_bridge_witness:
  "ledger (snd (br_backend (bridge_run (recording demo_env) [demo_attach ''s2''] (revoke (recording demo_env) demo_recorded)))) =
     Some {} \<and> br_attaches demo_recorded \<noteq> []"
  using revocation_closes_bridge [OF demo_iterates demo_recorded_eq refl, of "[demo_attach ''s2'']",
      THEN conjunct1] demo_recorded_run(1) by simp

theorem terminal_input_bounded_witness:
  "input_bytes (snd (br_backend demo_recorded)) * 1000 \<le> 1048576 * 1000 + 262144 * (2000 - 1000) \<and>
   input_bytes (snd (br_backend demo_recorded)) = 2"
proof -
  have "list_all (event_in 1000 2000) demo_events"
    by (simp add: demo_events_def demo_attach_def)
  then show ?thesis
    using terminal_input_bounded [OF demo_iterates demo_recorded_eq, of 1000 2000]
    by (simp add: demo_recorded_run input_bytes_def)
qed

lemma demo_targets:
  "exact_output_target demo_env (bridge_run demo_env [demo_attach ''s1''] (demo_start ())) ''s1'' =
     Some \<lparr>tgt_channel = 1, tgt_encoding = EncLegacy, tgt_generation = 1\<rparr>"
  "exact_output_target demo_env (bridge_run demo_env [demo_attach ''s1'', EvMessage (MsgDetach ''s1'') None] (demo_start ()))
     ''s1'' = None"
  "exact_output_target demo_env (bridge_run demo_env [demo_attach ''s1'', EvMessage (MsgDetach ''s1'') None,
     demo_attach ''s1''] (demo_start ())) ''s1'' = Some \<lparr>tgt_channel = 2, tgt_encoding = EncLegacy, tgt_generation = 2\<rparr>"
  by (simp_all add: demo_eval)

theorem retired_target_never_returns_witness:
  "\<not> attachment_accepts (AttExact 1) (tgt_generation (the (exact_output_target demo_env
      (bridge_run demo_env [demo_attach ''s1'', EvMessage (MsgDetach ''s1'') None, demo_attach ''s1''] (demo_start ()))
      ''s1'')))"
proof -
  let ?b = "bridge_run demo_env [demo_attach ''s1''] (demo_start ())"
  let ?b1 = "bridge_run demo_env [EvMessage (MsgDetach ''s1'') None] ?b"
  have start: "?b = bridge_run demo_env [demo_attach ''s1''] (connect () SameAsLocalPolicy demo_claims new_owner ''conn'' False)"
    by (simp add: demo_start_def)
  have gone: "exact_output_target demo_env ?b1 ''s1'' \<noteq> Some \<lparr>tgt_channel = 1, tgt_encoding = EncLegacy, tgt_generation = 1\<rparr>"
    using demo_targets(2) by simp
  have again: "exact_output_target demo_env (bridge_run demo_env [demo_attach ''s1''] ?b1) ''s1'' =
      Some \<lparr>tgt_channel = 2, tgt_encoding = EncLegacy, tgt_generation = 2\<rparr>"
    using demo_targets(3) by simp
  show ?thesis
    using retired_target_never_returns [OF demo_iterates start demo_targets(1) refl gone refl again] again by simp
qed

theorem listing_reveals_only_attachable_witness:
  "\<not> br_revoked (demo_start ()) \<and>
   handle_with_terminal_encoding demo_env (MsgSessionList ''r'') None (demo_start ()) =
     ([Json (SessionListResult ''r'' [''s1'', ''s2''] [\<lparr>sm_id = ''s1'', sm_cwd = None\<rparr>] None)], demo_start ())"
proof -
  have live: "\<not> br_revoked (demo_start ())"
    by (simp add: demo_start_def connect_defs)
  have "workspace_push_payload demo_env (demo_start ()) =
      Some ([''s1'', ''s2''], [\<lparr>sm_id = ''s1'', sm_cwd = None\<rparr>], None)"
    by (simp add: workspace_push_payload_def current_session_list_reply_def can_list_def visible_sessions_def
        filter_workspace_metadata_def demo_eval)
  then show ?thesis
    using listing_reveals_only_attachable [OF live, of demo_env "''r''" None] live by simp
qed

end
