(* ===== verification/Channel_Log.thy ===== *)
theory Channel_Log
  imports Prelude
begin

text \<open>
  One channel of the daemon's bus (\<^verbatim>\<open>pty-daemon/src/channel.rs\<close>, payloads of
  \<^verbatim>\<open>maestro-protocol/src/channel.rs\<close>): membership, the bounded replay log and the fan-out of an event.
  \<open>to_vec\<close> stands for \<^verbatim>\<open>serde_json::to_vec\<close>: the encoded bytes, or \<open>None\<close> when encoding fails.
\<close>

section \<open>Events and the channel\<close>

definition LOG_EVENT_CAP :: nat where "LOG_EVENT_CAP = 512"

definition LOG_BYTE_CAP :: nat where "LOG_BYTE_CAP = 1024 * 1024"

definition MAX_CHANNEL_EVENT_BYTES :: nat where "MAX_CHANNEL_EVENT_BYTES = 64 * 1024"

datatype channel_event_kind =
    KindOutput string
  | KindPrompt string
  | KindControl string "string option"
  | KindChatMsg string

record channel_event =
  ce_channel :: string
  ce_from :: "string option"
  ce_kind :: channel_event_kind
  ce_ts :: u64

record retained_channel_event =
  re_encoded_bytes :: nat
  re_event :: channel_event

record channel =
  ch_members :: "string list"
  ch_log :: "retained_channel_event list"
  ch_log_bytes :: nat

definition new_channel :: channel where
  "new_channel = \<lparr>ch_members = [], ch_log = [], ch_log_bytes = 0\<rparr>"

definition channel_join :: "string \<Rightarrow> channel \<Rightarrow> channel" where
  "channel_join session ch =
     (if session \<in> set (ch_members ch) then ch else ch\<lparr>ch_members := ch_members ch @ [session]\<rparr>)"

datatype publish_error = EncodeError | EventTooLarge

text \<open>
  The \<^verbatim>\<open>while\<close> loop of \<^verbatim>\<open>publish\<close>. On an empty log the body does nothing, so with a byte count above the cap
  it would spin: the loop is a partial function and \<open>None\<close> is that case.
\<close>

partial_function (option) trim_log :: "channel \<Rightarrow> channel option" where
  "trim_log ch =
     (if LOG_EVENT_CAP < length (ch_log ch) \<or> LOG_BYTE_CAP < ch_log_bytes ch
      then trim_log
             (case ch_log ch of
                [] \<Rightarrow> ch
              | discarded # rest \<Rightarrow>
                  ch\<lparr>ch_log := rest, ch_log_bytes := ch_log_bytes ch - re_encoded_bytes discarded\<rparr>)
      else Some ch)"

text \<open>\<open>None\<close> when the loop does not end; otherwise the result, the channel and the events broadcast.\<close>

definition channel_publish ::
    "(channel_event \<Rightarrow> u8 list option) \<Rightarrow> channel_event \<Rightarrow> channel
     \<Rightarrow> ((publish_error + unit) \<times> channel \<times> channel_event list) option" where
  "channel_publish to_vec event ch =
     (case to_vec event of
        None \<Rightarrow> Some (Inl EncodeError, ch, [])
      | Some bytes \<Rightarrow>
          if MAX_CHANNEL_EVENT_BYTES < length bytes then Some (Inl EventTooLarge, ch, [])
          else map_option (\<lambda>ch1. (Inr (), ch1, [event]))
                 (trim_log (ch\<lparr>ch_log := ch_log ch @ [\<lparr>re_encoded_bytes = length bytes, re_event = event\<rparr>],
                              ch_log_bytes := ch_log_bytes ch + length bytes\<rparr>)))"

definition channel_replay :: "channel \<Rightarrow> channel_event list" where
  "channel_replay ch = map re_event (ch_log ch)"

section \<open>The log\<close>

definition retained_bytes :: "retained_channel_event list \<Rightarrow> nat" where
  "retained_bytes log = sum_list (map re_encoded_bytes log)"

lemma retained_bytes_simps [simp]:
  "retained_bytes [] = 0" "retained_bytes (e # log) = re_encoded_bytes e + retained_bytes log"
  "retained_bytes (log @ log') = retained_bytes log + retained_bytes log'"
  by (simp_all add: retained_bytes_def)

definition within_caps :: "retained_channel_event list \<Rightarrow> bool" where
  "within_caps log \<longleftrightarrow> length log \<le> LOG_EVENT_CAP \<and> retained_bytes log \<le> LOG_BYTE_CAP"

text \<open>The reference for the loop: drop from the front until the rest fits.\<close>

fun fitting_suffix :: "retained_channel_event list \<Rightarrow> retained_channel_event list" where
  "fitting_suffix [] = []"
| "fitting_suffix (e # log) = (if within_caps (e # log) then e # log else fitting_suffix log)"

lemma fitting_suffix_suffix: "\<exists>dropped. log = dropped @ fitting_suffix log"
proof (induction log)
  case (Cons e log)
  then obtain dropped where "log = dropped @ fitting_suffix log" ..
  then have "e # log = (e # dropped) @ fitting_suffix log"
    by simp
  then show ?case by (metis append_Nil fitting_suffix.simps(2))
qed simp

lemma fitting_suffix_within: "within_caps (fitting_suffix log)"
  by (induction log) (auto simp: within_caps_def)

text \<open>It is the longest suffix that fits.\<close>

lemma fitting_suffix_longest:
  "within_caps suf \<Longrightarrow> log = pre @ suf \<Longrightarrow> length suf \<le> length (fitting_suffix log)"
proof (induction log arbitrary: pre)
  case (Cons e log)
  then show ?case by (cases pre) (auto simp: within_caps_def)
qed simp

definition channel_inv :: "channel \<Rightarrow> bool" where
  "channel_inv ch \<longleftrightarrow>
     ch_log_bytes ch = retained_bytes (ch_log ch) \<and> within_caps (ch_log ch) \<and> distinct (ch_members ch) \<and>
     (\<forall>e \<in> set (ch_log ch). re_encoded_bytes e \<le> MAX_CHANNEL_EVENT_BYTES)"

text \<open>With an exact byte count the loop always ends, at the fitting suffix.\<close>

lemma trim_log_eq:
  assumes "ch_log_bytes ch = retained_bytes (ch_log ch)"
  shows "trim_log ch = Some (ch\<lparr>ch_log := fitting_suffix (ch_log ch),
    ch_log_bytes := retained_bytes (fitting_suffix (ch_log ch))\<rparr>)"
  using assms
proof (induction "ch_log ch" arbitrary: ch)
  case Nil
  then show ?case by (subst trim_log.simps) (simp add: flip: Nil(1))
next
  case (Cons e log)
  show ?case
  proof (cases "within_caps (e # log)")
    case True
    then show ?thesis
      using Cons.prems by (subst trim_log.simps) (auto simp: within_caps_def simp flip: Cons.hyps(2))
  next
    case False
    let ?ch = "ch\<lparr>ch_log := log, ch_log_bytes := ch_log_bytes ch - re_encoded_bytes e\<rparr>"
    have "trim_log ch = trim_log ?ch"
      using False Cons.prems by (subst trim_log.simps) (auto simp: within_caps_def simp flip: Cons.hyps(2))
    also have "\<dots> = Some (?ch\<lparr>ch_log := fitting_suffix log, ch_log_bytes := retained_bytes (fitting_suffix log)\<rparr>)"
      using Cons.hyps(1) [of ?ch] Cons.prems by (simp flip: Cons.hyps(2))
    finally show ?thesis
      using False by (simp flip: Cons.hyps(2))
  qed
qed

lemma newest_kept:
  assumes "re_encoded_bytes e \<le> MAX_CHANNEL_EVENT_BYTES"
  shows "\<exists>kept. fitting_suffix (log @ [e]) = kept @ [e]"
proof -
  have "within_caps [e]"
    using assms by (simp add: within_caps_def LOG_EVENT_CAP_def LOG_BYTE_CAP_def MAX_CHANNEL_EVENT_BYTES_def)
  then have "1 \<le> length (fitting_suffix (log @ [e]))"
    using fitting_suffix_longest [of "[e]"] by fastforce
  moreover obtain dropped where "log @ [e] = dropped @ fitting_suffix (log @ [e])"
    using fitting_suffix_suffix by blast
  ultimately show ?thesis
    by (metis One_nat_def Suc_n_not_le_n append_butlast_last_id last_appendR last_snoc list.size(3) nat_le_linear
        zero_le)
qed

lemma channel_publish_inv:
  assumes "channel_inv ch"
  shows "channel_publish to_vec event ch \<noteq> None"
    "channel_publish to_vec event ch = Some (res, ch', sent) \<Longrightarrow> channel_inv ch'"
proof -
  have trimmed: "channel_inv (ch\<lparr>ch_log := fitting_suffix log, ch_log_bytes := retained_bytes (fitting_suffix log)\<rparr>)"
    if "\<forall>e \<in> set log. re_encoded_bytes e \<le> MAX_CHANNEL_EVENT_BYTES" for log
  proof -
    have "set (fitting_suffix log) \<subseteq> set log"
      using fitting_suffix_suffix [of log] by (metis Un_upper2 set_append)
    then show ?thesis
      using assms that fitting_suffix_within [of log] by (auto simp: channel_inv_def)
  qed
  show "channel_publish to_vec event ch \<noteq> None"
    using assms by (auto simp: channel_publish_def channel_inv_def trim_log_eq split: option.split)
  show "channel_inv ch'" if published: "channel_publish to_vec event ch = Some (res, ch', sent)"
  proof (cases "ch' = ch")
    case False
    then obtain bytes :: "u8 list" where bytes: "length bytes \<le> MAX_CHANNEL_EVENT_BYTES"
      "trim_log (ch\<lparr>ch_log := ch_log ch @ [\<lparr>re_encoded_bytes = length bytes, re_event = event\<rparr>],
         ch_log_bytes := ch_log_bytes ch + length bytes\<rparr>) = Some ch'"
      using published by (auto simp: channel_publish_def not_less split: option.splits if_splits)
    have exact: "ch_log_bytes ch = retained_bytes (ch_log ch)"
      "\<forall>e \<in> set (ch_log ch @ [\<lparr>re_encoded_bytes = length bytes, re_event = event\<rparr>]).
        re_encoded_bytes e \<le> MAX_CHANNEL_EVENT_BYTES"
      using assms bytes(1) by (auto simp: channel_inv_def)
    have "ch' = ch\<lparr>ch_log := fitting_suffix (ch_log ch @ [\<lparr>re_encoded_bytes = length bytes, re_event = event\<rparr>]),
        ch_log_bytes := retained_bytes (fitting_suffix (ch_log ch @ [\<lparr>re_encoded_bytes = length bytes, re_event = event\<rparr>]))\<rparr>"
      using bytes(2) exact(1) by (simp add: trim_log_eq)
    then show ?thesis
      using trimmed [OF exact(2)] by simp
  qed (use assms in simp)
qed

section \<open>Properties of the log\<close>

text \<open>
  C38: Publishing to a channel always terminates, and keeps the replay log bounded without losing what
  fits. On a channel whose invariant holds, the retention loop ends; an event that encodes to at most
  64 KiB is broadcast once and becomes the newest entry of the log, the log keeps the longest suffix of
  the history that fits in 512 events and one MiB, the byte counter stays exact and membership is
  untouched; an event that cannot be encoded or is too large changes nothing and is not sent.
\<close>

theorem channel_publish_terminates:
  assumes "channel_inv ch"
  shows "\<exists>res ch' sent. channel_publish to_vec event ch = Some (res, ch', sent) \<and> channel_inv ch' \<and>
    ch_members ch' = ch_members ch \<and>
    (res = Inr () \<longleftrightarrow> (\<exists>bytes. to_vec event = Some bytes \<and> length bytes \<le> MAX_CHANNEL_EVENT_BYTES)) \<and>
    (res \<noteq> Inr () \<longrightarrow> ch' = ch \<and> sent = []) \<and>
    (res = Inr () \<longrightarrow> sent = [event] \<and> (\<exists>dropped kept. channel_replay ch' = kept @ [event] \<and>
       channel_replay ch @ [event] = dropped @ channel_replay ch' \<and>
       (dropped \<noteq> [] \<longrightarrow> \<not> within_caps (drop (length dropped - 1)
          (ch_log ch @ [\<lparr>re_encoded_bytes = length (the (to_vec event)), re_event = event\<rparr>])))))"
proof (cases "\<exists>bytes. to_vec event = Some bytes \<and> length bytes \<le> MAX_CHANNEL_EVENT_BYTES")
  case False
  then show ?thesis
    using assms by (auto simp: channel_publish_def not_le split: option.split)
next
  case True
  then obtain bytes where bytes: "to_vec event = Some bytes" "length bytes \<le> MAX_CHANNEL_EVENT_BYTES"
    by blast
  define e where "e = \<lparr>re_encoded_bytes = length bytes, re_event = event\<rparr>"
  define log where "log = ch_log ch @ [e]"
  define ch' where "ch' = ch\<lparr>ch_log := fitting_suffix log, ch_log_bytes := retained_bytes (fitting_suffix log)\<rparr>"
  have published: "channel_publish to_vec event ch = Some (Inr (), ch', [event])"
    using assms bytes
    by (simp add: channel_publish_def channel_inv_def trim_log_eq ch'_def log_def e_def)
  obtain dropped where dropped: "log = dropped @ fitting_suffix log"
    using fitting_suffix_suffix by blast
  obtain kept where kept: "fitting_suffix log = kept @ [e]"
    using newest_kept bytes(2) unfolding log_def by (fastforce simp: e_def)
  have "set (fitting_suffix log) \<subseteq> set log"
    using dropped by (metis Un_upper2 set_append)
  then have inv: "channel_inv ch'"
    using assms bytes(2) fitting_suffix_within [of log] by (auto simp: channel_inv_def ch'_def log_def e_def)
  have maximal: "\<not> within_caps (drop (length dropped - 1) log)" if "dropped \<noteq> []"
  proof
    assume "within_caps (drop (length dropped - 1) log)"
    then have "length (drop (length dropped - 1) log) \<le> length (fitting_suffix log)"
      using fitting_suffix_longest append_take_drop_id by metis
    moreover have "length log = length dropped + length (fitting_suffix log)"
      using dropped by (metis length_append)
    ultimately show False
      using that by (cases dropped) auto
  qed
  have replay: "channel_replay ch' = map re_event kept @ [event]"
    "channel_replay ch @ [event] = map re_event dropped @ channel_replay ch'"
    using kept arg_cong [OF dropped, of "map re_event"]
    by (simp_all add: channel_replay_def ch'_def log_def e_def)
  have "ch_members ch' = ch_members ch"
    by (simp add: ch'_def)
  moreover have "map re_event dropped \<noteq> [] \<longrightarrow> \<not> within_caps (drop (length (map re_event dropped) - 1)
      (ch_log ch @ [\<lparr>re_encoded_bytes = length (the (to_vec event)), re_event = event\<rparr>]))"
    using maximal bytes(1) by (simp add: log_def e_def)
  ultimately show ?thesis
    using published inv replay True by blast
qed

definition demo_chat :: channel_event where
  "demo_chat = \<lparr>ce_channel = ''c'', ce_from = Some ''s1'', ce_kind = KindChatMsg ''hi'', ce_ts = 1\<rparr>"

theorem channel_publish_terminates_witness:
  "channel_inv new_channel \<and>
   (\<exists>ch'. channel_publish (\<lambda>_. Some [1, 2, 3]) demo_chat new_channel = Some (Inr (), ch', [demo_chat]) \<and>
     channel_replay ch' \<noteq> [])"
proof -
  have inv: "channel_inv new_channel"
    by (simp add: channel_inv_def new_channel_def within_caps_def)
  have small: "\<exists>bytes. Some [1 :: u8, 2, 3] = Some bytes \<and> length bytes \<le> MAX_CHANNEL_EVENT_BYTES"
    by (simp add: MAX_CHANNEL_EVENT_BYTES_def)
  show ?thesis
    using channel_publish_terminates [OF inv, of "\<lambda>_. Some [1, 2, 3]" demo_chat] inv small
    by (metis append_is_Nil_conv list.discI)
qed

end
