(* ===== verification/Attachment_Fence.thy ===== *)
theory Attachment_Fence
  imports Prelude "HOL-Library.Multiset"
begin

text \<open>
  The ownership fence of one daemon session (\<^verbatim>\<open>pty-daemon/src/session.rs\<close>): active attachment guards,
  pending one-shot handoff tokens and the bounded memory of retired tokens. A guard holds its fence
  through an \<^verbatim>\<open>Arc\<close>; here it names the fence by an address, so that guards of a session that is no longer
  mapped do not alias the fence of its replacement.
\<close>

section \<open>The fence\<close>

definition MAX_ATTACHMENT_HANDOFF_TOKENS :: nat where "MAX_ATTACHMENT_HANDOFF_TOKENS = 64"

definition MAX_RETIRED_ATTACHMENT_HANDOFF_TOKENS :: nat where "MAX_RETIRED_ATTACHMENT_HANDOFF_TOKENS = 256"

record attachment_fence =
  af_active_guards :: nat
  af_pending_handoffs :: "(string \<times> u64) list"
  af_retired_handoffs :: "string list"

definition new_fence :: attachment_fence where
  "new_fence = \<lparr>af_active_guards = 0, af_pending_handoffs = [], af_retired_handoffs = []\<rparr>"

definition is_retired :: "attachment_fence \<Rightarrow> string \<Rightarrow> bool" where
  "is_retired f token \<longleftrightarrow> token \<in> set (af_retired_handoffs f)"

definition retire :: "string \<Rightarrow> attachment_fence \<Rightarrow> attachment_fence" where
  "retire token f =
     (if is_retired f token then f
      else f\<lparr>af_retired_handoffs :=
               (if length (af_retired_handoffs f) = MAX_RETIRED_ATTACHMENT_HANDOFF_TOKENS
                then tl (af_retired_handoffs f) else af_retired_handoffs f) @ [token]\<rparr>)"

text \<open>\<^verbatim>\<open>HashMap::remove\<close> on the pending tokens.\<close>

definition remove_pending :: "string \<Rightarrow> attachment_fence \<Rightarrow> attachment_fence" where
  "remove_pending token f =
     f\<lparr>af_pending_handoffs := filter (\<lambda>(t, _). t \<noteq> token) (af_pending_handoffs f)\<rparr>"

record attachment_guard =
  ag_fence :: nat
  ag_offered_token :: "string option"
  ag_owner_nonce :: u64
  ag_active :: bool

text \<open>The effect of \<^verbatim>\<open>release\<close> on the fence the guard points to, and on the guard.\<close>

definition release_fence :: "bool \<Rightarrow> attachment_guard \<Rightarrow> attachment_fence \<Rightarrow> attachment_fence" where
  "release_fence explicit g f =
     (if \<not> ag_active g then f
      else let f1 = f\<lparr>af_active_guards := af_active_guards f - 1\<rparr> in
           if explicit
           then (case ag_offered_token g of
                   None \<Rightarrow> f1
                 | Some token \<Rightarrow>
                     if map_of (af_pending_handoffs f1) token = Some (ag_owner_nonce g)
                     then retire token (remove_pending token f1)
                     else f1)
           else f1)"

definition release_guard :: "attachment_guard \<Rightarrow> attachment_guard" where
  "release_guard g = g\<lparr>ag_active := False\<rparr>"

section \<open>Acquiring\<close>

datatype attachment_handoff = Offer string | Claim string

datatype acquire_error =
    OwnerCountOverflow
  | TokenRetired
  | TokenPendingElsewhere
  | TokenLimit
  | TokenNotClaimable

text \<open>The handoff part of \<^verbatim>\<open>acquire_attachment\<close>: the new fence and the token the guard offers.\<close>

definition admit_handoff ::
    "attachment_handoff option \<Rightarrow> u64 \<Rightarrow> attachment_fence
     \<Rightarrow> acquire_error + (string option \<times> attachment_fence)" where
  "admit_handoff handoff owner_nonce f =
     (case handoff of
        None \<Rightarrow> Inr (None, f)
      | Some (Offer token) \<Rightarrow>
          if is_retired f token then Inl TokenRetired
          else (case map_of (af_pending_handoffs f) token of
                  Some existing_owner \<Rightarrow>
                    if existing_owner = owner_nonce then Inr (Some token, f) else Inl TokenPendingElsewhere
                | None \<Rightarrow>
                    if MAX_ATTACHMENT_HANDOFF_TOKENS \<le> length (af_pending_handoffs f) then Inl TokenLimit
                    else Inr (Some token,
                              f\<lparr>af_pending_handoffs := af_pending_handoffs f @ [(token, owner_nonce)]\<rparr>))
      | Some (Claim token) \<Rightarrow>
          if map_of (af_pending_handoffs f) token = None then Inl TokenNotClaimable
          else Inr (None, retire token (remove_pending token f)))"

definition acquire_attachment ::
    "nat \<Rightarrow> attachment_handoff option \<Rightarrow> u64 \<Rightarrow> attachment_fence
     \<Rightarrow> acquire_error + (attachment_guard \<times> attachment_fence)" where
  "acquire_attachment address handoff owner_nonce f =
     (case checked_add_usize (af_active_guards f) 1 of
        None \<Rightarrow> Inl OwnerCountOverflow
      | Some next_active_guards \<Rightarrow>
          res_bind (admit_handoff handoff owner_nonce f) (\<lambda>(offered_token, f1).
            Inr (\<lparr>ag_fence = address, ag_offered_token = offered_token, ag_owner_nonce = owner_nonce,
                  ag_active = True\<rparr>,
                 f1\<lparr>af_active_guards := next_active_guards\<rparr>)))"

definition cancel_attachment_handoff :: "string \<Rightarrow> attachment_fence \<Rightarrow> attachment_fence" where
  "cancel_attachment_handoff token f =
     (if map_of (af_pending_handoffs f) token \<noteq> None then retire token (remove_pending token f) else f)"

definition attachment_in_use :: "attachment_fence \<Rightarrow> bool" where
  "attachment_in_use f \<longleftrightarrow> 0 < af_active_guards f \<or> af_pending_handoffs f \<noteq> []"

section \<open>The fence invariant\<close>

text \<open>Tokens are pending once and never both pending and retired; both memories are bounded.\<close>

definition fence_inv :: "attachment_fence \<Rightarrow> bool" where
  "fence_inv f \<longleftrightarrow>
     distinct (map fst (af_pending_handoffs f)) \<and>
     length (af_pending_handoffs f) \<le> MAX_ATTACHMENT_HANDOFF_TOKENS \<and>
     distinct (af_retired_handoffs f) \<and>
     length (af_retired_handoffs f) \<le> MAX_RETIRED_ATTACHMENT_HANDOFF_TOKENS \<and>
     (\<forall>(token, _) \<in> set (af_pending_handoffs f). token \<notin> set (af_retired_handoffs f))"

lemma retire_simps [simp]:
  "af_active_guards (retire token f) = af_active_guards f"
  "af_pending_handoffs (retire token f) = af_pending_handoffs f"
  by (simp_all add: retire_def)

lemma remove_pending_simps [simp]:
  "af_active_guards (remove_pending token f) = af_active_guards f"
  "af_retired_handoffs (remove_pending token f) = af_retired_handoffs f"
  "af_pending_handoffs (remove_pending token f) = filter (\<lambda>(t, _). t \<noteq> token) (af_pending_handoffs f)"
  by (simp_all add: remove_pending_def)

lemma fence_inv_guards [simp]: "fence_inv (f\<lparr>af_active_guards := n\<rparr>) = fence_inv f"
  by (simp add: fence_inv_def)

lemma fence_inv_new [simp]: "fence_inv new_fence"
  by (simp add: fence_inv_def new_fence_def)

lemma set_tlD: "x \<in> set (tl xs) \<Longrightarrow> x \<in> set xs"
  by (cases xs) simp_all

lemma fence_inv_retire_pending:
  assumes "fence_inv f"
  shows "fence_inv (retire token (remove_pending token f))"
proof -
  have len: "length (filter (\<lambda>(t, _). t \<noteq> token) (af_pending_handoffs f)) \<le> MAX_ATTACHMENT_HANDOFF_TOKENS"
    using assms by (auto simp: fence_inv_def intro: le_trans [OF length_filter_le])
  have "MAX_RETIRED_ATTACHMENT_HANDOFF_TOKENS \<noteq> 0"
    by (simp add: MAX_RETIRED_ATTACHMENT_HANDOFF_TOKENS_def)
  then show ?thesis
    using assms len unfolding fence_inv_def retire_def is_retired_def
    by (auto simp: distinct_map_filter distinct_tl dest: set_tlD)
qed

lemma fence_inv_release: "fence_inv f \<Longrightarrow> fence_inv (release_fence explicit g f)"
  by (simp add: release_fence_def Let_def fence_inv_retire_pending split: option.split)

lemma fence_inv_cancel: "fence_inv f \<Longrightarrow> fence_inv (cancel_attachment_handoff token f)"
  by (simp add: cancel_attachment_handoff_def fence_inv_retire_pending)

lemma fence_inv_admit:
  assumes "fence_inv f" "admit_handoff handoff nonce f = Inr (offered, f')"
  shows "fence_inv f'"
proof (cases handoff)
  case None
  with assms show ?thesis by (simp add: admit_handoff_def)
next
  case (Some h)
  show ?thesis
  proof (cases h)
    case (Offer token)
    have "token \<notin> fst ` set (af_pending_handoffs f)" if "map_of (af_pending_handoffs f) token = None"
      using that by (simp add: map_of_eq_None_iff)
    then show ?thesis
      using assms Some Offer
      by (auto simp: admit_handoff_def fence_inv_def is_retired_def split: if_splits option.splits)
  next
    case (Claim token)
    with assms Some show ?thesis
      by (auto simp: admit_handoff_def fence_inv_retire_pending split: if_splits)
  qed
qed

lemma fence_inv_acquire:
  assumes "fence_inv f" "acquire_attachment address handoff nonce f = Inr (g, f')"
  shows "fence_inv f'"
  using assms fence_inv_admit
  by (fastforce simp: acquire_attachment_def res_bind_eq_Inr split: option.splits)

section \<open>One-shot tokens\<close>

text \<open>What can happen to a fence; a refused acquisition leaves it alone.\<close>

datatype fence_op =
    FenceAcquire nat "attachment_handoff option" u64
  | FenceRelease bool attachment_guard
  | FenceCancel string

fun fence_step :: "attachment_fence \<Rightarrow> fence_op \<Rightarrow> attachment_fence" where
  "fence_step f (FenceAcquire address handoff nonce) =
     (case acquire_attachment address handoff nonce f of Inl _ \<Rightarrow> f | Inr (_, f1) \<Rightarrow> f1)"
| "fence_step f (FenceRelease explicit g) = release_fence explicit g f"
| "fence_step f (FenceCancel token) = cancel_attachment_handoff token f"

interpretation fence: stepping fence_step fence_inv
proof unfold_locales
  show "fence_inv (fence_step f op)" if "fence_inv f" for f op
    using that
    by (cases op) (auto simp: fence_inv_release fence_inv_cancel dest: fence_inv_acquire split: sum.split)
qed

text \<open>A retired token with at most \<open>n\<close> younger ones.\<close>

definition retired_within :: "nat \<Rightarrow> string \<Rightarrow> attachment_fence \<Rightarrow> bool" where
  "retired_within n token f \<longleftrightarrow>
     (\<exists>older younger. af_retired_handoffs f = older @ token # younger \<and> length younger \<le> n)"

lemma retired_within_mono: "retired_within n token f \<Longrightarrow> n \<le> m \<Longrightarrow> retired_within m token f"
  unfolding retired_within_def by (meson le_trans)

lemma retired_within_same:
  "retired_within n token f \<Longrightarrow> af_retired_handoffs f' = af_retired_handoffs f \<Longrightarrow> retired_within n token f'"
  by (simp add: retired_within_def)

lemma retired_within_retire:
  assumes "retired_within n token f" "Suc n < MAX_RETIRED_ATTACHMENT_HANDOFF_TOKENS"
  shows "retired_within (Suc n) token (retire other f)"
proof -
  obtain older younger where split: "af_retired_handoffs f = older @ token # younger" "length younger \<le> n"
    using assms(1) by (auto simp: retired_within_def)
  show ?thesis
  proof (cases "\<not> is_retired f other \<and> length (af_retired_handoffs f) = MAX_RETIRED_ATTACHMENT_HANDOFF_TOKENS")
    case True
    then have "older \<noteq> []"
      using split assms(2) by auto
    then have "af_retired_handoffs (retire other f) = tl older @ token # (younger @ [other])"
      using True split by (simp add: retire_def)
    moreover have "length (younger @ [other]) \<le> Suc n"
      using split by simp
    ultimately show ?thesis
      unfolding retired_within_def by blast
  next
    case False
    then have "af_retired_handoffs (retire other f) = older @ token # younger \<or>
        af_retired_handoffs (retire other f) = older @ token # (younger @ [other])"
      using split by (auto simp: retire_def)
    then show ?thesis
      using split(2) unfolding retired_within_def by fastforce
  qed
qed

lemma retired_within_step:
  assumes "retired_within n token f" "Suc n < MAX_RETIRED_ATTACHMENT_HANDOFF_TOKENS"
  shows "retired_within (Suc n) token (fence_step f op)"
proof -
  have kept: "retired_within (Suc n) token f'" if "af_retired_handoffs f' = af_retired_handoffs f" for f'
    using retired_within_same [OF retired_within_mono [OF assms(1) le_SucI [OF le_refl]] that] .
  have retired: "retired_within (Suc n) token f'"
    if "af_retired_handoffs f' = af_retired_handoffs (retire other (remove_pending other f1))"
      "af_retired_handoffs f1 = af_retired_handoffs f" for f' f1 other
    using retired_within_retire [OF _ assms(2), of token "remove_pending other f1" other]
      retired_within_same [OF assms(1), of "remove_pending other f1"] that retired_within_same by auto
  show ?thesis
  proof (cases op)
    case (FenceAcquire address handoff nonce)
    show ?thesis
    proof (cases "acquire_attachment address handoff nonce f")
      case (Inl e)
      then show ?thesis using kept FenceAcquire by simp
    next
      case (Inr r)
      obtain g f2 where r: "r = (g, f2)"
        by fastforce
      have "af_retired_handoffs f2 = af_retired_handoffs f \<or>
          (\<exists>other. af_retired_handoffs f2 = af_retired_handoffs (retire other (remove_pending other f)))"
        using Inr r
        by (auto simp: acquire_attachment_def admit_handoff_def res_bind_eq_Inr split: option.splits
            attachment_handoff.splits if_splits)
      then show ?thesis
        using kept retired [OF _ refl] Inr r FenceAcquire by auto
    qed
  next
    case (FenceRelease explicit g)
    show ?thesis
      using kept retired [of _ _ "f\<lparr>af_active_guards := af_active_guards f - 1\<rparr>"] FenceRelease
      by (simp add: release_fence_def Let_def split: option.split)
  next
    case (FenceCancel other)
    then show ?thesis
      using kept retired [OF refl refl] by (simp add: cancel_attachment_handoff_def)
  qed
qed

lemma retired_within_run:
  assumes "retired_within n token f" "n + length ops < MAX_RETIRED_ATTACHMENT_HANDOFF_TOKENS"
  shows "retired_within (n + length ops) token (fold (\<lambda>op f. fence_step f op) ops f)"
  using assms
proof (induction ops arbitrary: n f)
  case (Cons op ops)
  then show ?case
    using Cons.IH [of "Suc n"] retired_within_step [of n token f op] by simp
qed simp

section \<open>Properties of the fence\<close>

text \<open>
  C37: A handoff token transfers an attachment once. After a claim succeeds, the token can neither be
  claimed again nor offered again on that session, whatever acquisitions, releases and cancellations
  follow, for as long as fewer than 255 of them have happened (the memory of retired tokens holds 256).
  The claim itself leaves the session in use without a gap: the guard is counted in the same
  step that consumes the token.
\<close>

theorem handoff_token_is_one_shot:
  assumes "fence_inv f" "acquire_attachment address (Some (Claim token)) nonce f = Inr (g, f1)"
    "f2 = fold (\<lambda>op f. fence_step f op) ops f1" "length ops < 255"
  shows "attachment_in_use f \<and> 0 < af_active_guards f1 \<and>
    (\<exists>e. acquire_attachment address' (Some (Claim token)) nonce' f2 = Inl e) \<and>
    (\<exists>e. acquire_attachment address' (Some (Offer token)) nonce' f2 = Inl e)"
proof -
  obtain n where claimed: "map_of (af_pending_handoffs f) token \<noteq> None"
    "f1 = (retire token (remove_pending token f))\<lparr>af_active_guards := Suc (af_active_guards f)\<rparr>"
    using assms(2)
    by (auto simp: acquire_attachment_def admit_handoff_def res_bind_eq_Inr checked_add_usize_def
        split: option.splits if_splits)
  have "token \<notin> set (af_retired_handoffs f)"
    using claimed(1) assms(1) by (auto simp: fence_inv_def dest!: map_of_SomeD)
  then have "retired_within 0 token f1"
    by (auto simp: claimed(2) retired_within_def retire_def is_retired_def)
  then have "retired_within (0 + length ops) token f2"
    unfolding assms(3)
    using assms(4) by (intro retired_within_run) (simp_all add: MAX_RETIRED_ATTACHMENT_HANDOFF_TOKENS_def)
  then have retired: "token \<in> set (af_retired_handoffs f2)"
    by (auto simp: retired_within_def)
  moreover have "fence_inv f2"
    using fence.run_inv [OF fence_inv_acquire [OF assms(1,2)], of ops] by (simp add: assms(3) fence.run_def)
  ultimately have "map_of (af_pending_handoffs f2) token = None"
    by (auto simp: fence_inv_def map_of_eq_None_iff)
  then have "\<exists>e. acquire_attachment address' (Some (Claim token)) nonce' f2 = Inl e"
    "\<exists>e. acquire_attachment address' (Some (Offer token)) nonce' f2 = Inl e"
    using retired by (auto simp: acquire_attachment_def admit_handoff_def is_retired_def split: option.split)
  moreover have "attachment_in_use f"
    using claimed(1) by (auto simp: attachment_in_use_def)
  ultimately show ?thesis
    by (simp add: claimed(2))
qed

definition demo_fence :: attachment_fence where
  "demo_fence = \<lparr>af_active_guards = 1, af_pending_handoffs = [(''t'', 7)], af_retired_handoffs = []\<rparr>"

theorem handoff_token_is_one_shot_witness:
  "\<exists>e. acquire_attachment 0 (Some (Offer ''t'')) 7
     (fold (\<lambda>op f. fence_step f op) [FenceCancel ''u'']
        (snd (projr (acquire_attachment 0 (Some (Claim ''t'')) 8 demo_fence)))) = Inl e"
proof -
  have "fence_inv demo_fence"
    by (simp add: fence_inv_def demo_fence_def MAX_ATTACHMENT_HANDOFF_TOKENS_def)
  moreover have "acquire_attachment 0 (Some (Claim ''t'')) 8 demo_fence =
      Inr (\<lparr>ag_fence = 0, ag_offered_token = None, ag_owner_nonce = 8, ag_active = True\<rparr>,
        \<lparr>af_active_guards = 2, af_pending_handoffs = [], af_retired_handoffs = [''t'']\<rparr>)"
    by (simp add: acquire_attachment_def admit_handoff_def demo_fence_def checked_add_usize_def usize_max_def
        retire_def remove_pending_def is_retired_def MAX_RETIRED_ATTACHMENT_HANDOFF_TOKENS_def)
  ultimately show ?thesis
    using handoff_token_is_one_shot [of demo_fence 0 "''t''" 8 _ _ _ "[FenceCancel ''u'']" 0 7] by simp
qed

end
