(* ===== verification/Daemon_Registry.thy ===== *)
theory Daemon_Registry
  imports Term_Grid Channel_Log Attachment_Fence
begin

text \<open>
  The daemon's registry on Unix (\<^verbatim>\<open>pty-daemon/src/daemon.rs\<close>): sessions, channels and the ledger of
  start operations. A session is what the registry reads of it: its metadata, generation, exit latch
  and the address of its ownership fence; the fences live in a store, because the guards of
  connected clients share them. Spawning a PTY, the file system and random UUIDs are inputs of the
  operations; \<open>order\<close> is the iteration order of the session map.
\<close>

section \<open>Identifiers\<close>

definition MAX_SESSIONS :: nat where "MAX_SESSIONS = 64"
definition MAX_CHANNELS :: nat where "MAX_CHANNELS = 64"
definition MAX_CHANNEL_ID_BYTES :: nat where "MAX_CHANNEL_ID_BYTES = 512"
definition MAX_START_OPERATION_LEDGER_ENTRIES :: nat where "MAX_START_OPERATION_LEDGER_ENTRIES = 4096"
definition MAX_START_OPERATION_SESSION_ID_BYTES :: nat where "MAX_START_OPERATION_SESSION_ID_BYTES = 512"

text \<open>\<^verbatim>\<open>chars().any(char::is_control)\<close> on the UTF-8 bytes of a string: U+0000 to U+001F and U+007F to U+009F.\<close>

fun any_control :: "string \<Rightarrow> bool" where
  "any_control [] = False"
| "any_control (c # cs) =
     ((of_char c :: nat) < 32 \<or> (of_char c :: nat) = 127 \<or>
      ((of_char c :: nat) = 194 \<and> cs \<noteq> [] \<and> 128 \<le> (of_char (hd cs) :: nat) \<and> (of_char (hd cs) :: nat) \<le> 159) \<or>
      any_control cs)"

definition valid_start_operation_id :: "string \<Rightarrow> bool" where
  "valid_start_operation_id i \<longleftrightarrow>
     i \<noteq> [] \<and> length i \<le> MAX_START_OPERATION_SESSION_ID_BYTES \<and> \<not> any_control i"

section \<open>The registry\<close>

datatype conditional_start_refusal = AttachmentInUse | PreconditionFailed | SpawnFailed

datatype start_operation_entry =
    EntryReserved string
  | EntryApplied string string
  | EntryRefused string conditional_start_refusal

record daemon_session =
  ds_id :: string
  ds_cwd :: string
  ds_generation :: string
  ds_exited :: "int option option"
  ds_fence :: nat
  ds_subscriptions :: "string list"

record daemon =
  dm_sessions :: "(string \<times> daemon_session) list"
  dm_channels :: "(string \<times> channel) list"
  dm_start_operations :: "(string \<times> start_operation_entry) list"
  dm_instance_id :: string
  dm_fences :: "nat \<Rightarrow> attachment_fence"
  dm_next_fence :: nat

definition new_daemon :: "string \<Rightarrow> daemon" where
  "new_daemon instance_id =
     \<lparr>dm_sessions = [], dm_channels = [], dm_start_operations = [], dm_instance_id = instance_id,
      dm_fences = (\<lambda>_. new_fence), dm_next_fence = 0\<rparr>"

text \<open>\<^verbatim>\<open>HashMap::insert\<close> and \<^verbatim>\<open>HashMap::remove\<close> on an association list.\<close>

definition map_insert :: "'k \<Rightarrow> 'v \<Rightarrow> ('k \<times> 'v) list \<Rightarrow> ('k \<times> 'v) list" where
  "map_insert k v m =
     (if map_of m k = None then m @ [(k, v)] else map (\<lambda>(j, w). if j = k then (k, v) else (j, w)) m)"

definition map_remove :: "'k \<Rightarrow> ('k \<times> 'v) list \<Rightarrow> ('k \<times> 'v) list" where
  "map_remove k m = filter (\<lambda>(j, _). j \<noteq> k) m"

definition session_in_use :: "daemon \<Rightarrow> daemon_session \<Rightarrow> bool" where
  "session_in_use d s = attachment_in_use (dm_fences d (ds_fence s))"

definition can_reclaim :: "daemon \<Rightarrow> daemon_session \<Rightarrow> bool" where
  "can_reclaim d s \<longleftrightarrow> ds_exited s \<noteq> None \<and> \<not> session_in_use d s"

definition live_generation :: "daemon_session \<Rightarrow> string option" where
  "live_generation s = (if ds_exited s = None then Some (ds_generation s) else None)"

text \<open>
  What a successful spawn installs: a running session with a fresh fence and no subscriptions. \<open>spawned\<close>
  tells whether the operating system starts the child, \<open>uuids\<close> are the random generations drawn.
\<close>

definition new_session :: "string \<Rightarrow> string \<Rightarrow> string \<Rightarrow> nat \<Rightarrow> daemon_session" where
  "new_session i cwd generation address =
     \<lparr>ds_id = i, ds_cwd = cwd, ds_generation = generation, ds_exited = None, ds_fence = address,
      ds_subscriptions = []\<rparr>"

definition install_session :: "string \<Rightarrow> string \<Rightarrow> string \<Rightarrow> daemon \<Rightarrow> daemon" where
  "install_session i cwd generation d =
     d\<lparr>dm_sessions := map_insert i (new_session i cwd generation (dm_next_fence d)) (dm_sessions d),
       dm_fences := (dm_fences d)(dm_next_fence d := new_fence),
       dm_next_fence := Suc (dm_next_fence d)\<rparr>"

definition new_excluding :: "string \<Rightarrow> string list \<Rightarrow> string option" where
  "new_excluding excluded uuids = List.find (\<lambda>g. g \<noteq> excluded) uuids"

section \<open>Spawn inputs\<close>

record child_environment =
  ce_home :: string
  ce_shell :: string

text \<open>The file system as the daemon asks it: \<^verbatim>\<open>is_dir\<close>, and \<^verbatim>\<open>is_file\<close> with the mode of an existing path.\<close>

record file_system =
  fs_is_dir :: "string \<Rightarrow> bool"
  fs_metadata :: "string \<Rightarrow> (bool \<times> u32) option"

text \<open>
  \<^verbatim>\<open>Path\<close> on Unix: the components between slashes, empty ones and single dots left out; absolute
  when it starts with a slash.
\<close>

fun split_on :: "char \<Rightarrow> string \<Rightarrow> string list" where
  "split_on sep [] = [[]]"
| "split_on sep (c # cs) =
     (if c = sep then [] # split_on sep cs
      else case split_on sep cs of [] \<Rightarrow> [[c]] | w # ws \<Rightarrow> (c # w) # ws)"

definition path_components :: "string \<Rightarrow> string list" where
  "path_components p = filter (\<lambda>w. w \<noteq> [] \<and> w \<noteq> ''.'') (split_on CHR ''/'' p)"

definition path_is_absolute :: "string \<Rightarrow> bool" where
  "path_is_absolute p \<longleftrightarrow> p \<noteq> [] \<and> hd p = CHR ''/''"

definition normalized_absolute :: "string \<Rightarrow> bool" where
  "normalized_absolute p \<longleftrightarrow> path_is_absolute p \<and> ''..'' \<notin> set (path_components p)"

definition validate_child_environment :: "file_system \<Rightarrow> child_environment option \<Rightarrow> bool" where
  "validate_child_environment fs environment =
     (case environment of
        None \<Rightarrow> True
      | Some e \<Rightarrow>
          \<not> (ce_home e = [] \<or> ce_shell e = [] \<or> 4096 < length (ce_home e) \<or> 4096 < length (ce_shell e) \<or>
             set (ce_home e) \<inter> {CHR 0x00, CHR 0x0A, CHR 0x0D} \<noteq> {} \<or>
             set (ce_shell e) \<inter> {CHR 0x00, CHR 0x0A, CHR 0x0D} \<noteq> {} \<or>
             \<not> normalized_absolute (ce_home e) \<or> \<not> normalized_absolute (ce_shell e) \<or>
             path_components (ce_home e) = [] \<or> \<not> fs_is_dir fs (ce_home e)) \<and>
          (case fs_metadata fs (ce_shell e) of
             None \<Rightarrow> False
           | Some (is_file, mode) \<Rightarrow> is_file \<and> and mode 0x49 \<noteq> 0 \<and> and mode 0x12 = 0))"

record start_request =
  rq_id :: string
  rq_cwd :: string
  rq_command :: string
  rq_args :: "string list"
  rq_child_environment :: "child_environment option"
  rq_cols :: u16
  rq_rows :: u16

datatype start_error =
    ExitedRetained
  | SessionAttached
  | EmptyCommand
  | NulByte
  | InvalidEnvironment
  | CwdNotDirectory
  | GridTooLarge
  | SessionLimit
  | SpawnError

definition has_nul :: "start_request \<Rightarrow> bool" where
  "has_nul rq \<longleftrightarrow> CHR 0x00 \<in> set (rq_command rq) \<or> (\<exists>a \<in> set (rq_args rq). CHR 0x00 \<in> set a)"

text \<open>The input checks both start paths make, with the error of the unconditional one.\<close>

definition check_spawn_inputs :: "file_system \<Rightarrow> start_request \<Rightarrow> start_error + unit" where
  "check_spawn_inputs fs rq =
     (if rq_command rq = [] then Inl EmptyCommand
      else if has_nul rq then Inl NulByte
      else if \<not> validate_child_environment fs (rq_child_environment rq) then Inl InvalidEnvironment
      else if rq_cwd rq \<noteq> [] \<and> \<not> fs_is_dir fs (rq_cwd rq) then Inl CwdNotDirectory
      else case normalize_dims (rq_cols rq) (rq_rows rq) of (n_cols, n_rows) \<Rightarrow>
        if \<not> fits_snapshot_budget n_cols n_rows then Inl GridTooLarge else Inr ())"

record spawn_world =
  sw_fs :: file_system
  sw_spawned :: bool
  sw_uuids :: "string list"
  sw_order :: "(string \<times> daemon_session) list \<Rightarrow> (string \<times> daemon_session) list"

section \<open>Unconditional start\<close>

text \<open>The slot of one retained exited session, the first the map's iteration meets, is given up.\<close>

definition evict_one :: "spawn_world \<Rightarrow> daemon \<Rightarrow> daemon" where
  "evict_one sw d =
     (case List.find (\<lambda>(_, s). can_reclaim d s) (sw_order sw (dm_sessions d)) of
        None \<Rightarrow> d
      | Some (exited_id, _) \<Rightarrow> d\<lparr>dm_sessions := map_remove exited_id (dm_sessions d)\<rparr>)"

text \<open>The second half of a start, from the input checks on; \<open>None\<close> when no generation has been drawn.\<close>

definition spawn_session ::
    "spawn_world \<Rightarrow> start_request \<Rightarrow> bool \<Rightarrow> daemon \<Rightarrow> ((start_error + unit) \<times> daemon) option" where
  "spawn_session sw rq replacing_exited_same_id d =
     (case check_spawn_inputs (sw_fs sw) rq of
        Inl e \<Rightarrow> Some (Inl e, d)
      | Inr _ \<Rightarrow>
          let needs_capacity_eviction = (\<not> replacing_exited_same_id \<and> MAX_SESSIONS \<le> length (dm_sessions d)) in
          if needs_capacity_eviction \<and> \<not> (\<exists>(_, s) \<in> set (dm_sessions d). can_reclaim d s)
          then Some (Inl SessionLimit, d)
          else case sw_uuids sw of
            [] \<Rightarrow> None
          | generation # _ \<Rightarrow>
              if \<not> sw_spawned sw then Some (Inl SpawnError, d)
              else Some (Inr (), install_session (rq_id rq) (rq_cwd rq) generation
                                   (if needs_capacity_eviction then evict_one sw d else d)))"

text \<open>\<^verbatim>\<open>start_session_with_restart_and_environment\<close>, which the three shorter entry points call.\<close>

definition start_session ::
    "spawn_world \<Rightarrow> start_request \<Rightarrow> bool \<Rightarrow> daemon \<Rightarrow> ((start_error + unit) \<times> daemon) option" where
  "start_session sw rq restart_exited d =
     (case map_of (dm_sessions d) (rq_id rq) of
        Some existing \<Rightarrow>
          if ds_exited existing = None then Some (Inr (), d)
          else if \<not> restart_exited then Some (Inl ExitedRetained, d)
          else if session_in_use d existing then Some (Inl SessionAttached, d)
          else spawn_session sw rq True d
      | None \<Rightarrow> spawn_session sw rq False d)"

section \<open>The ledger of start operations\<close>

datatype start_precondition = PreAbsent "string option" | PreExitedGeneration string

datatype conditional_start_outcome =
    StartApplied string
  | StartAlreadyApplied string
  | StartRefused conditional_start_refusal

definition refuse_reserved_start ::
    "string \<Rightarrow> string \<Rightarrow> conditional_start_refusal \<Rightarrow> daemon \<Rightarrow> conditional_start_outcome \<times> daemon" where
  "refuse_reserved_start i operation_token reason d =
     (StartRefused reason,
      d\<lparr>dm_start_operations := map_insert operation_token (EntryRefused i reason) (dm_start_operations d)\<rparr>)"

text \<open>The precondition of a conditional start: the refusal, or whether it replaces an exited session.\<close>

definition check_precondition :: "daemon \<Rightarrow> string \<Rightarrow> start_precondition \<Rightarrow> conditional_start_refusal + bool" where
  "check_precondition d i precondition =
     (case precondition of
        PreAbsent excluded_generation \<Rightarrow>
          if (case excluded_generation of None \<Rightarrow> False | Some g \<Rightarrow> g = [] \<or> 128 < length g)
          then Inl PreconditionFailed
          else if map_of (dm_sessions d) i \<noteq> None then Inl PreconditionFailed
          else Inr False
      | PreExitedGeneration expected_generation \<Rightarrow>
          if expected_generation = [] \<or> 128 < length expected_generation then Inl PreconditionFailed
          else case map_of (dm_sessions d) i of
            None \<Rightarrow> Inl PreconditionFailed
          | Some existing \<Rightarrow>
              if ds_generation existing \<noteq> expected_generation \<or> ds_exited existing = None
              then Inl PreconditionFailed
              else if session_in_use d existing then Inl AttachmentInUse
              else Inr True)"

definition candidate_generation :: "start_precondition \<Rightarrow> string list \<Rightarrow> string option" where
  "candidate_generation precondition uuids =
     (case precondition of
        PreAbsent None \<Rightarrow> (case uuids of [] \<Rightarrow> None | g # _ \<Rightarrow> Some g)
      | PreAbsent (Some excluded) \<Rightarrow> new_excluding excluded uuids
      | PreExitedGeneration expected \<Rightarrow> new_excluding expected uuids)"

definition start_session_conditionally ::
    "spawn_world \<Rightarrow> start_request \<Rightarrow> string \<Rightarrow> start_precondition \<Rightarrow> daemon
     \<Rightarrow> (conditional_start_outcome \<times> daemon) option" where
  "start_session_conditionally sw rq operation_token precondition d =
     (let i = rq_id rq;
          attempt =
            (case check_precondition d i precondition of
               Inl reason \<Rightarrow> Some (refuse_reserved_start i operation_token reason d)
             | Inr restart_exited \<Rightarrow>
                 if \<not> restart_exited \<and> MAX_SESSIONS \<le> length (dm_sessions d)
                 then Some (refuse_reserved_start i operation_token SpawnFailed d)
                 else case check_spawn_inputs (sw_fs sw) rq of
                   Inl _ \<Rightarrow> Some (refuse_reserved_start i operation_token SpawnFailed d)
                 | Inr _ \<Rightarrow>
                     (case candidate_generation precondition (sw_uuids sw) of
                        None \<Rightarrow> None
                      | Some generation \<Rightarrow>
                          if \<not> sw_spawned sw
                          then Some (refuse_reserved_start i operation_token SpawnFailed d)
                          else let d1 = install_session i (rq_cwd rq) generation d in
                               Some (StartApplied generation,
                                     d1\<lparr>dm_start_operations := map_insert operation_token
                                           (EntryApplied i generation) (dm_start_operations d1)\<rparr>)))
      in case map_of (dm_start_operations d) operation_token of
           Some (EntryReserved reserved_id) \<Rightarrow>
             if reserved_id = i then attempt else Some (StartRefused PreconditionFailed, d)
         | Some (EntryApplied applied_id generation) \<Rightarrow>
             if applied_id = i then Some (StartAlreadyApplied generation, d)
             else Some (StartRefused PreconditionFailed, d)
         | Some (EntryRefused refused_id reason) \<Rightarrow>
             if refused_id = i then Some (StartRefused reason, d) else Some (StartRefused PreconditionFailed, d)
         | None \<Rightarrow> Some (StartRefused PreconditionFailed, d))"

datatype reserve_refusal = InvalidSessionId | LedgerFull | TokenInUse | AlreadyTerminal

datatype reserve_outcome = Reserved | AlreadyReserved | ReserveRefused reserve_refusal

definition reserve_start_operation :: "string \<Rightarrow> string \<Rightarrow> daemon \<Rightarrow> reserve_outcome \<times> daemon" where
  "reserve_start_operation i operation_token d =
     (if \<not> valid_start_operation_id i then (ReserveRefused InvalidSessionId, d)
      else case map_of (dm_start_operations d) operation_token of
        Some (EntryReserved reserved_id) \<Rightarrow>
          (if reserved_id = i then AlreadyReserved else ReserveRefused TokenInUse, d)
      | Some (EntryApplied applied_id _) \<Rightarrow>
          (ReserveRefused (if applied_id = i then AlreadyTerminal else TokenInUse), d)
      | Some (EntryRefused refused_id _) \<Rightarrow>
          (ReserveRefused (if refused_id = i then AlreadyTerminal else TokenInUse), d)
      | None \<Rightarrow>
          if MAX_START_OPERATION_LEDGER_ENTRIES \<le> length (dm_start_operations d)
          then (ReserveRefused LedgerFull, d)
          else (Reserved,
                d\<lparr>dm_start_operations := map_insert operation_token (EntryReserved i) (dm_start_operations d)\<rparr>))"

datatype operation_lifecycle = LifecycleLive | LifecycleExited | LifecycleRemoved

datatype operation_status =
    StatusUnknown
  | StatusReserved
  | StatusRefused
  | StatusApplied string operation_lifecycle

definition lookup_start_operation :: "daemon \<Rightarrow> string \<Rightarrow> string \<Rightarrow> operation_status" where
  "lookup_start_operation d i operation_token =
     (case map_of (dm_start_operations d) operation_token of
        Some (EntryReserved reserved_id) \<Rightarrow> if reserved_id = i then StatusReserved else StatusUnknown
      | Some (EntryRefused refused_id _) \<Rightarrow> if refused_id = i then StatusRefused else StatusUnknown
      | Some (EntryApplied applied_id generation) \<Rightarrow>
          if applied_id = i
          then StatusApplied generation
                 (case map_of (dm_sessions d) i of
                    Some session \<Rightarrow>
                      if ds_generation session = generation
                      then (if ds_exited session \<noteq> None then LifecycleExited else LifecycleLive)
                      else LifecycleRemoved
                  | None \<Rightarrow> LifecycleRemoved)
          else StatusUnknown
      | None \<Rightarrow> StatusUnknown)"

datatype retire_expectation = ExpectUnapplied | ExpectApplied string

datatype retire_outcome = OperationRetired | AlreadyRetired | RetireConflict operation_status

fun may_retire :: "retire_expectation \<Rightarrow> operation_status \<Rightarrow> bool" where
  "may_retire ExpectUnapplied StatusReserved = True"
| "may_retire ExpectUnapplied StatusRefused = True"
| "may_retire (ExpectApplied expected) (StatusApplied generation _) = (expected = generation)"
| "may_retire _ _ = False"

definition retire_start_operation ::
    "string \<Rightarrow> string \<Rightarrow> retire_expectation \<Rightarrow> daemon \<Rightarrow> retire_outcome \<times> daemon" where
  "retire_start_operation i operation_token expected d =
     (let current = lookup_start_operation d i operation_token in
      if may_retire expected current
      then (OperationRetired, d\<lparr>dm_start_operations := map_remove operation_token (dm_start_operations d)\<rparr>)
      else if current = StatusUnknown then (AlreadyRetired, d)
      else (RetireConflict current, d))"

section \<open>Attachments, kill and listing\<close>

datatype session_attach_refusal = Missing | GenerationMismatch

datatype session_attach_error =
    AttachRefused session_attach_refusal
  | AttachNoSession
  | AttachInvalid acquire_error

definition acquire_on_session ::
    "daemon_session \<Rightarrow> attachment_handoff option \<Rightarrow> u64 \<Rightarrow> daemon
     \<Rightarrow> acquire_error + (attachment_guard \<times> daemon)" where
  "acquire_on_session s handoff owner_nonce d =
     res_bind (acquire_attachment (ds_fence s) handoff owner_nonce (dm_fences d (ds_fence s))) (\<lambda>(g, f).
       Inr (g, d\<lparr>dm_fences := (dm_fences d)(ds_fence s := f)\<rparr>))"

definition acquire_session_attachment ::
    "string \<Rightarrow> attachment_handoff option \<Rightarrow> u64 \<Rightarrow> daemon
     \<Rightarrow> session_attach_error + (attachment_guard \<times> daemon)" where
  "acquire_session_attachment i handoff owner_nonce d =
     (case map_of (dm_sessions d) i of
        None \<Rightarrow> Inl AttachNoSession
      | Some s \<Rightarrow> map_sum AttachInvalid id (acquire_on_session s handoff owner_nonce d))"

definition acquire_session_attachment_if_generation ::
    "string \<Rightarrow> string \<Rightarrow> attachment_handoff option \<Rightarrow> u64 \<Rightarrow> daemon
     \<Rightarrow> session_attach_error + (attachment_guard \<times> daemon)" where
  "acquire_session_attachment_if_generation i expected_generation handoff owner_nonce d =
     (case map_of (dm_sessions d) i of
        None \<Rightarrow> Inl (AttachRefused Missing)
      | Some s \<Rightarrow>
          if ds_generation s \<noteq> expected_generation then Inl (AttachRefused GenerationMismatch)
          else map_sum AttachInvalid id (acquire_on_session s handoff owner_nonce d))"

definition cancel_session_attachment_handoff :: "string \<Rightarrow> string \<Rightarrow> daemon \<Rightarrow> daemon" where
  "cancel_session_attachment_handoff i token d =
     (case map_of (dm_sessions d) i of
        None \<Rightarrow> d
      | Some s \<Rightarrow>
          d\<lparr>dm_fences := (dm_fences d)(ds_fence s := cancel_attachment_handoff token (dm_fences d (ds_fence s)))\<rparr>)"

datatype conditional_session_take = TakeAbsent | TakeGenerationMismatch | TakeAttachmentInUse | Taken daemon_session

definition take_session_if_generation ::
    "string \<Rightarrow> string \<Rightarrow> daemon \<Rightarrow> conditional_session_take \<times> daemon" where
  "take_session_if_generation i expected_generation d =
     (case map_of (dm_sessions d) i of
        None \<Rightarrow> (TakeAbsent, d)
      | Some s \<Rightarrow>
          if ds_generation s \<noteq> expected_generation then (TakeGenerationMismatch, d)
          else if session_in_use d s then (TakeAttachmentInUse, d)
          else (Taken s, d\<lparr>dm_sessions := map_remove i (dm_sessions d)\<rparr>))"

record session_info =
  si_id :: string
  si_cwd :: "string option"
  si_generation :: "string option"

definition session_infos :: "spawn_world \<Rightarrow> daemon \<Rightarrow> session_info list" where
  "session_infos sw d =
     List.map_filter (\<lambda>(_, s). map_option (\<lambda>generation.
         \<lparr>si_id = ds_id s, si_cwd = (if ds_cwd s = [] then None else Some (ds_cwd s)),
          si_generation = Some generation\<rparr>) (live_generation s))
       (sw_order sw (dm_sessions d))"

record shutdown_report =
  sr_total :: nat
  sr_reaped :: nat
  sr_unconfirmed :: "string list"

text \<open>\<open>reaps\<close> is whether \<^verbatim>\<open>kill_and_wait\<close> confirmed a child within its budget.\<close>

definition shutdown :: "(daemon_session \<Rightarrow> bool) \<Rightarrow> spawn_world \<Rightarrow> daemon \<Rightarrow> shutdown_report \<times> daemon" where
  "shutdown reaps sw d =
     (let entries = sw_order sw (dm_sessions d) in
      (\<lparr>sr_total = length (dm_sessions d), sr_reaped = length (filter (\<lambda>(_, s). reaps s) entries),
        sr_unconfirmed = map fst (filter (\<lambda>(_, s). \<not> reaps s) entries)\<rparr>,
       d\<lparr>dm_sessions := [], dm_channels := []\<rparr>))"

text \<open>The reader thread latches the exit of the child it waits for, once.\<close>

definition latch_exit :: "nat \<Rightarrow> int option \<Rightarrow> daemon \<Rightarrow> daemon" where
  "latch_exit address code d =
     d\<lparr>dm_sessions := map (\<lambda>(i, s). (i, if ds_fence s = address \<and> ds_exited s = None
                                        then s\<lparr>ds_exited := Some code\<rparr> else s)) (dm_sessions d)\<rparr>"

section \<open>Channels\<close>

datatype channel_error =
    InvalidChannelId
  | ChannelLimit
  | NoSuchSession
  | NoSuchChannel
  | SenderRequired
  | NotAMember
  | PublishFailed publish_error

definition open_channel :: "string \<Rightarrow> daemon \<Rightarrow> (channel_error + unit) \<times> daemon" where
  "open_channel i d =
     (if i = [] \<or> MAX_CHANNEL_ID_BYTES < length i \<or> any_control i then (Inl InvalidChannelId, d)
      else if map_of (dm_channels d) i \<noteq> None then (Inr (), d)
      else if MAX_CHANNELS \<le> length (dm_channels d) then (Inl ChannelLimit, d)
      else (Inr (), d\<lparr>dm_channels := map_insert i new_channel (dm_channels d)\<rparr>))"

definition join_channel :: "string \<Rightarrow> string \<Rightarrow> daemon \<Rightarrow> (channel_error + unit) \<times> daemon" where
  "join_channel channel session d =
     (case map_of (dm_sessions d) session of
        None \<Rightarrow> (Inl NoSuchSession, d)
      | Some s \<Rightarrow>
          (case map_of (dm_channels d) channel of
             None \<Rightarrow> (Inl NoSuchChannel, d)
           | Some ch \<Rightarrow>
               (Inr (),
                d\<lparr>dm_channels := map_insert channel (channel_join session ch) (dm_channels d),
                  dm_sessions := map_insert session
                    (if channel \<in> set (ds_subscriptions s) then s
                     else s\<lparr>ds_subscriptions := ds_subscriptions s @ [channel]\<rparr>) (dm_sessions d)\<rparr>)))"

text \<open>\<open>None\<close> when the channel's retention loop does not end.\<close>

definition publish ::
    "(channel_event \<Rightarrow> u8 list option) \<Rightarrow> channel_event \<Rightarrow> daemon
     \<Rightarrow> ((channel_error + unit) \<times> daemon \<times> channel_event list) option" where
  "publish to_vec event d =
     (case map_of (dm_channels d) (ce_channel event) of
        None \<Rightarrow> Some (Inl NoSuchChannel, d, [])
      | Some ch \<Rightarrow>
          (case ce_from event of
             None \<Rightarrow> Some (Inl SenderRequired, d, [])
           | Some sender \<Rightarrow>
               if map_of (dm_sessions d) sender = None then Some (Inl NoSuchSession, d, [])
               else if sender \<notin> set (ch_members ch) then Some (Inl NotAMember, d, [])
               else case channel_publish to_vec event ch of
                 None \<Rightarrow> None
               | Some (res, ch1, sent) \<Rightarrow>
                   Some (map_sum PublishFailed id res,
                         d\<lparr>dm_channels := map_insert (ce_channel event) ch1 (dm_channels d)\<rparr>, sent)))"

end
