(* ===== verification/Daemon_Clients.thy ===== *)
theory Daemon_Clients
  imports Daemon_Registry
begin

text \<open>
  The connections of the daemon (\<^verbatim>\<open>pty-daemon/src/main.rs\<close>): the attachments a client holds, the request
  handler and the whole system of clients around one registry. Requests of different clients
  interleave; each holds the daemon lock for its registry operation, so a request is one step,
  except that a kill gives up the client's own guard before it takes the lock: this half is a step
  of its own, which may run ahead of its request. The forwarder of an attachment is the subject of \<^verbatim>\<open>Live_Stream\<close>; here an attach only takes its guard.
\<close>

section \<open>Client state\<close>

record client_attachment =
  ca_guard :: "attachment_guard option"
  ca_offered_token :: "string option"

record client_state =
  cs_owner_nonce :: u64
  cs_attachments :: "(string \<times> client_attachment) list"
  cs_conditional_start_refused :: "(string \<times> string) option"
  cs_conditional_attach_refused :: bool

definition allocate_attachment_owner_nonce :: "u64 \<Rightarrow> (u64 \<times> u64) option" where
  "allocate_attachment_owner_nonce counter =
     map_option (\<lambda>next. (next, next)) (checked_add_u64 counter 1)"

definition new_client :: "u64 \<Rightarrow> client_state" where
  "new_client nonce =
     \<lparr>cs_owner_nonce = nonce, cs_attachments = [], cs_conditional_start_refused = None,
      cs_conditional_attach_refused = False\<rparr>"

text \<open>Releasing a guard acts on the fence it points to.\<close>

definition release_in :: "bool \<Rightarrow> attachment_guard option \<Rightarrow> daemon \<Rightarrow> daemon" where
  "release_in explicit guard d =
     (case guard of
        None \<Rightarrow> d
      | Some g \<Rightarrow>
          d\<lparr>dm_fences := (dm_fences d)(ag_fence g := release_fence explicit g (dm_fences d (ag_fence g)))\<rparr>)"

definition attachment_detach :: "client_attachment \<Rightarrow> daemon \<Rightarrow> daemon" where
  "attachment_detach a d = release_in True (ca_guard a) d"

definition attachment_drop :: "client_attachment \<Rightarrow> daemon \<Rightarrow> daemon" where
  "attachment_drop a d = release_in False (ca_guard a) d"

definition client_install ::
    "string \<Rightarrow> client_attachment \<Rightarrow> client_state \<Rightarrow> daemon \<Rightarrow> client_state \<times> daemon" where
  "client_install i a st d =
     (let old = map_of (cs_attachments st) i;
          preserves_same_offer =
            (ca_offered_token a \<noteq> None \<and>
             (case old of None \<Rightarrow> False | Some o1 \<Rightarrow> ca_offered_token o1 = ca_offered_token a))
      in (st\<lparr>cs_attachments := map_insert i a (cs_attachments st)\<rparr>,
          case old of
            None \<Rightarrow> d
          | Some o1 \<Rightarrow> if preserves_same_offer then attachment_drop o1 d else attachment_detach o1 d))"

definition client_detach :: "string \<Rightarrow> client_state \<Rightarrow> daemon \<Rightarrow> client_state \<times> daemon" where
  "client_detach i st d =
     (case map_of (cs_attachments st) i of
        None \<Rightarrow> (st, d)
      | Some a \<Rightarrow> (st\<lparr>cs_attachments := map_remove i (cs_attachments st)\<rparr>, attachment_detach a d))"

definition release_guard_for_own_kill :: "string \<Rightarrow> client_state \<Rightarrow> daemon \<Rightarrow> client_state \<times> daemon" where
  "release_guard_for_own_kill i st d =
     (case map_of (cs_attachments st) i of
        None \<Rightarrow> (st, d)
      | Some a \<Rightarrow>
          (st\<lparr>cs_attachments := map_insert i (a\<lparr>ca_guard := None, ca_offered_token := None\<rparr>) (cs_attachments st)\<rparr>,
           release_in True (ca_guard a) d))"

text \<open>\<^verbatim>\<open>Drop for ClientState\<close>; the attachments are on different sessions, so their order does not matter.\<close>

definition client_drop :: "client_state \<Rightarrow> daemon \<Rightarrow> daemon" where
  "client_drop st d = fold (\<lambda>(_, a) d. attachment_detach a d) (cs_attachments st) d"

section \<open>Requests\<close>

datatype request_disposition = Continue | CloseClient

datatype client_request =
    RqDaemonInfo
  | RqReserveStartOperation string string
  | RqStartSession start_request bool "(string \<times> start_precondition) option"
  | RqLookupStartOperation string string
  | RqRetireStartOperation string string retire_expectation
  | RqAttach string "string option" "attachment_handoff option"
  | RqDetach string
  | RqCancelAttachmentHandoff string string string
  | RqWrite string string string
  | RqResize string string u16 u16
  | RqSnapshot string
  | RqScrollback string u32 u16
  | RqKill string string
  | RqListSessions
  | RqOpenChannel string
  | RqJoinChannel string string
  | RqPublish channel_event

text \<open>
  What a request makes the daemon do outside the registry: replies on the connection, and writes,
  resizes and signals on the PTY of a session, named by the address of its fence. Writes, resizes and
  signals happen after the daemon lock has been released, on the handle resolved under it; a request
  only orders them, and \<open>io_step\<close> of \<open>Daemon_System\<close> says when they run.
\<close>

datatype daemon_effect =
    ReplyDaemonInfo string
  | ReplyReserved reserve_outcome
  | ReplyConditionalStart conditional_start_outcome
  | ReplyStatus operation_status
  | ReplyRetired retire_outcome
  | ReplyAttachRefused session_attach_refusal
  | ReplyGrid string nat
  | ReplySessionExited string "int option"
  | ReplyHandoffCancelled string
  | ReplyScrollback string nat
  | ReplySessions "session_info list"
  | ReplyChannel channel_event
  | ReplyError
  | EffectWrite nat string
  | EffectResize nat u16 u16
  | EffectKill nat

text \<open>The latch a typed refusal sets: only content-blind requests and the exact replay pass it.\<close>

definition exact_refused_start_replay :: "client_state \<Rightarrow> client_request \<Rightarrow> bool" where
  "exact_refused_start_replay st req \<longleftrightarrow>
     \<not> cs_conditional_attach_refused st \<and>
     (case (cs_conditional_start_refused st, req) of
        (Some (refused_id, refused_token), RqStartSession rq _ (Some (token, _))) \<Rightarrow>
          rq_id rq = refused_id \<and> token = refused_token
      | _ \<Rightarrow> False)"

definition request_latched :: "client_state \<Rightarrow> client_request \<Rightarrow> bool" where
  "request_latched st req \<longleftrightarrow>
     (cs_conditional_attach_refused st \<or> cs_conditional_start_refused st \<noteq> None) \<and>
     \<not> (case req of
          RqDaemonInfo \<Rightarrow> True
        | RqLookupStartOperation _ _ \<Rightarrow> True
        | RqRetireStartOperation _ _ _ \<Rightarrow> True
        | _ \<Rightarrow> False) \<and>
     \<not> exact_refused_start_replay st req"

text \<open>
  The result of a request: how the connection goes on, the effects, the client and the registry.
  \<open>delivered k\<close> tells whether the awaited send \<open>k\<close> of the request on the outbound queue succeeds. How long
  a send or a PTY operation is waited for is not part of the model.
\<close>

type_synonym request_result = "request_disposition \<times> daemon_effect list \<times> client_state \<times> daemon"

definition replied :: "(nat \<Rightarrow> bool) \<Rightarrow> daemon_effect \<Rightarrow> client_state \<Rightarrow> daemon \<Rightarrow> request_result" where
  "replied delivered reply st d = (if delivered 0 then Continue else CloseClient, [reply], st, d)"

definition request_start ::
    "spawn_world \<Rightarrow> (nat \<Rightarrow> bool) \<Rightarrow> start_request \<Rightarrow> bool \<Rightarrow> (string \<times> start_precondition) option \<Rightarrow> client_state \<Rightarrow> daemon
     \<Rightarrow> request_result option" where
  "request_start sw delivered rq restart_exited conditional st d =
     (case conditional of
        Some (token, precondition) \<Rightarrow>
          map_option (\<lambda>(outcome, d1).
            replied delivered (ReplyConditionalStart outcome)
              (st\<lparr>cs_conditional_start_refused :=
                   (case outcome of StartRefused _ \<Rightarrow> Some (rq_id rq, token) | _ \<Rightarrow> None)\<rparr>) d1)
            (start_session_conditionally sw rq token precondition d)
      | None \<Rightarrow>
          map_option (\<lambda>(res, d1). (Continue, case res of Inl _ \<Rightarrow> [ReplyError] | Inr _ \<Rightarrow> [], st, d1))
            (start_session sw rq restart_exited d))"

definition acquire_for_attach ::
    "string \<Rightarrow> string option \<Rightarrow> attachment_handoff option \<Rightarrow> u64 \<Rightarrow> daemon
     \<Rightarrow> session_attach_error + (attachment_guard \<times> daemon)" where
  "acquire_for_attach i expected_generation handoff nonce d =
     (case expected_generation of
        Some expected \<Rightarrow>
          if expected \<noteq> [] \<and> length expected \<le> 128
          then acquire_session_attachment_if_generation i expected handoff nonce d
          else Inl (AttachRefused GenerationMismatch)
      | None \<Rightarrow> acquire_session_attachment i handoff nonce d)"

definition request_attach ::
    "(nat \<Rightarrow> bool) \<Rightarrow> string \<Rightarrow> string option \<Rightarrow> attachment_handoff option \<Rightarrow> client_state \<Rightarrow> daemon \<Rightarrow> request_result" where
  "request_attach delivered i expected_generation handoff st d =
     (if cs_conditional_start_refused st \<noteq> None then (CloseClient, [], st, d)
      else case acquire_for_attach i expected_generation handoff (cs_owner_nonce st) d of
        Inl (AttachRefused reason) \<Rightarrow>
          if delivered 0
          then (Continue, [ReplyAttachRefused reason],
                st\<lparr>cs_conditional_attach_refused := (cs_conditional_attach_refused st \<or> handoff \<noteq> None)\<rparr>, d)
          else (CloseClient, [ReplyAttachRefused reason], st, d)
      | Inl _ \<Rightarrow>
          if handoff \<noteq> None then (CloseClient, [], st, d) else (Continue, [ReplyError], st, d)
      | Inr (g, d1) \<Rightarrow>
          let offered_token = (case handoff of Some (Offer token) \<Rightarrow> Some token | _ \<Rightarrow> None);
              (st1, d2) = client_install i \<lparr>ca_guard = Some g, ca_offered_token = offered_token\<rparr> st d1;
              exited = (case map_of (dm_sessions d) i of None \<Rightarrow> None | Some s \<Rightarrow> ds_exited s);
              replies = ReplyGrid i (ag_fence g) #
                (case exited of Some code \<Rightarrow> if delivered 0 then [ReplySessionExited i code] else [] | None \<Rightarrow> [])
          in if delivered 0 \<and> (exited \<noteq> None \<longrightarrow> delivered 1) then (Continue, replies, st1, d2)
             else (let (st2, d3) = client_detach i st1 d2 in (Continue, replies, st2, d3)))"

definition request_kill :: "string \<Rightarrow> string \<Rightarrow> client_state \<Rightarrow> daemon \<Rightarrow> request_result" where
  "request_kill i expected_generation st d =
     (let (st1, d1) = release_guard_for_own_kill i st d in
      case take_session_if_generation i expected_generation d1 of
        (TakeAbsent, d2) \<Rightarrow> (Continue, [], st1, d2)
      | (TakeGenerationMismatch, d2) \<Rightarrow> (CloseClient, [], st1, d2)
      | (TakeAttachmentInUse, d2) \<Rightarrow> (CloseClient, [], st1, d2)
      | (Taken s, d2) \<Rightarrow> (Continue, [EffectKill (ds_fence s)], st1, d2))"

text \<open>The session a write or a resize reaches: only the live generation the client names.\<close>

definition live_target :: "daemon \<Rightarrow> string \<Rightarrow> string \<Rightarrow> daemon_session option" where
  "live_target d i expected_generation =
     (case map_of (dm_sessions d) i of
        None \<Rightarrow> None
      | Some s \<Rightarrow> if live_generation s = Some expected_generation then Some s else None)"

definition handle_request ::
    "(channel_event \<Rightarrow> u8 list option) \<Rightarrow> spawn_world \<Rightarrow> (nat \<Rightarrow> bool) \<Rightarrow> client_request \<Rightarrow> client_state \<Rightarrow> daemon
     \<Rightarrow> request_result option" where
  "handle_request to_vec sw delivered req st d =
     (if request_latched st req then Some (Continue, [], st, d)
      else case req of
        RqDaemonInfo \<Rightarrow> Some (Continue, [ReplyDaemonInfo (dm_instance_id d)], st, d)
      | RqReserveStartOperation i token \<Rightarrow>
          (case reserve_start_operation i token d of (outcome, d1) \<Rightarrow>
             Some (replied delivered (ReplyReserved outcome) st d1))
      | RqStartSession rq restart_exited conditional \<Rightarrow> request_start sw delivered rq restart_exited conditional st d
      | RqLookupStartOperation i token \<Rightarrow>
          Some (replied delivered (ReplyStatus (lookup_start_operation d i token)) st d)
      | RqRetireStartOperation i token expected \<Rightarrow>
          (case retire_start_operation i token expected d of (outcome, d1) \<Rightarrow>
             Some (replied delivered (ReplyRetired outcome) st d1))
      | RqAttach i expected_generation handoff \<Rightarrow>
          Some (request_attach delivered i expected_generation handoff st d)
      | RqDetach i \<Rightarrow> (case client_detach i st d of (st1, d1) \<Rightarrow> Some (Continue, [], st1, d1))
      | RqCancelAttachmentHandoff i token expected_instance \<Rightarrow>
          if dm_instance_id d \<noteq> expected_instance then Some (CloseClient, [], st, d)
          else Some (replied delivered (ReplyHandoffCancelled token) st (cancel_session_attachment_handoff i token d))
      | RqWrite i expected_generation data \<Rightarrow>
          (case live_target d i expected_generation of
             None \<Rightarrow> Some (CloseClient, [], st, d)
           | Some s \<Rightarrow> Some (Continue, [EffectWrite (ds_fence s) data], st, d))
      | RqResize i expected_generation cols rows \<Rightarrow>
          (case live_target d i expected_generation of
             None \<Rightarrow> Some (CloseClient, [], st, d)
           | Some s \<Rightarrow> Some (Continue, [EffectResize (ds_fence s) cols rows], st, d))
      | RqSnapshot i \<Rightarrow>
          (case map_of (dm_sessions d) i of
             None \<Rightarrow> Some (Continue, [ReplyError], st, d)
           | Some s \<Rightarrow> Some (Continue, [ReplyGrid i (ds_fence s)], st, d))
      | RqScrollback i from_top n \<Rightarrow>
          (case map_of (dm_sessions d) i of
             None \<Rightarrow> Some (Continue, [ReplyError], st, d)
           | Some s \<Rightarrow> Some (Continue, [ReplyScrollback i (ds_fence s)], st, d))
      | RqKill i expected_generation \<Rightarrow> Some (request_kill i expected_generation st d)
      | RqListSessions \<Rightarrow> Some (Continue, [ReplySessions (session_infos sw d)], st, d)
      | RqOpenChannel i \<Rightarrow>
          (case open_channel i d of (res, d1) \<Rightarrow>
             Some (Continue, case res of Inl _ \<Rightarrow> [ReplyError] | Inr _ \<Rightarrow> [], st, d1))
      | RqJoinChannel channel session \<Rightarrow>
          (case join_channel channel session d of (res, d1) \<Rightarrow>
             Some (Continue, case res of Inl _ \<Rightarrow> [ReplyError] | Inr _ \<Rightarrow> [], st, d1))
      | RqPublish event \<Rightarrow>
          map_option (\<lambda>(res, d1, sent).
              (Continue, case res of Inl _ \<Rightarrow> [ReplyError] | Inr _ \<Rightarrow> [ReplyChannel event], st, d1))
            (publish to_vec event d))"

section \<open>The system\<close>

record daemon_system =
  sy_daemon :: daemon
  sy_clients :: "(u64 \<times> client_state) list"
  sy_nonce_counter :: u64

datatype system_event =
    EvConnect
  | EvRequest u64 client_request spawn_world "nat \<Rightarrow> bool"
  | EvBeginKill u64 string
  | EvDisconnect u64
  | EvExit nat "int option"

definition disconnect :: "u64 \<Rightarrow> daemon_system \<Rightarrow> daemon_system" where
  "disconnect n sys =
     (case map_of (sy_clients sys) n of
        None \<Rightarrow> sys
      | Some st \<Rightarrow> sys\<lparr>sy_clients := map_remove n (sy_clients sys), sy_daemon := client_drop st (sy_daemon sys)\<rparr>)"

text \<open>
  A request that does not return leaves the system where it is. Releasing the guard again when the
  kill itself runs does nothing, so \<open>EvBeginKill\<close>, other events and the request together are a kill
  interleaved with them.
\<close>

fun system_step :: "(channel_event \<Rightarrow> u8 list option) \<Rightarrow> daemon_system \<Rightarrow> system_event \<Rightarrow> daemon_system" where
  "system_step to_vec sys EvConnect =
     (case allocate_attachment_owner_nonce (sy_nonce_counter sys) of
        None \<Rightarrow> sys
      | Some (nonce, counter) \<Rightarrow>
          sys\<lparr>sy_nonce_counter := counter, sy_clients := sy_clients sys @ [(nonce, new_client nonce)]\<rparr>)"
| "system_step to_vec sys (EvRequest n req sw delivered) =
     (case map_of (sy_clients sys) n of
        None \<Rightarrow> sys
      | Some st \<Rightarrow>
          (case handle_request to_vec sw delivered req st (sy_daemon sys) of
             None \<Rightarrow> sys
           | Some (disposition, effects, st1, d1) \<Rightarrow>
               let sys1 = sys\<lparr>sy_daemon := d1, sy_clients := map_insert n st1 (sy_clients sys)\<rparr> in
               if disposition = CloseClient then disconnect n sys1 else sys1))"
| "system_step to_vec sys (EvBeginKill n i) =
     (case map_of (sy_clients sys) n of
        None \<Rightarrow> sys
      | Some st \<Rightarrow>
          if request_latched st (RqKill i []) then sys
          else case release_guard_for_own_kill i st (sy_daemon sys) of (st1, d1) \<Rightarrow>
            sys\<lparr>sy_daemon := d1, sy_clients := map_insert n st1 (sy_clients sys)\<rparr>)"
| "system_step to_vec sys (EvDisconnect n) = disconnect n sys"
| "system_step to_vec sys (EvExit address code) = sys\<lparr>sy_daemon := latch_exit address code (sy_daemon sys)\<rparr>"

definition system_run ::
    "(channel_event \<Rightarrow> u8 list option) \<Rightarrow> system_event list \<Rightarrow> daemon_system \<Rightarrow> daemon_system" where
  "system_run to_vec evs sys = fold (\<lambda>e s. system_step to_vec s e) evs sys"

definition new_system :: "string \<Rightarrow> daemon_system" where
  "new_system instance_id = \<lparr>sy_daemon = new_daemon instance_id, sy_clients = [], sy_nonce_counter = 0\<rparr>"

end
