(* ===== verification/Daemon_Ownership.thy ===== *)
theory Daemon_Ownership
  imports Daemon_Clients
begin

text \<open>
  The ownership discipline of the daemon: which session is in use by whom, along every interleaving
  of connections, requests, disconnections and child exits. The guards held by all clients form a
  multiset of links; the fences count exactly these links, and every link is anchored at the session
  its client attached.
\<close>

section \<open>Association lists\<close>

lemma map_of_map_insert [simp]: "map_of (map_insert k v m) = (map_of m)(k \<mapsto> v)"
proof -
  have "map_of (map (\<lambda>(j, w). if j = k then (k, v) else (j, w)) m) x =
      (if x = k then map_option (\<lambda>_. v) (map_of m k) else map_of m x)" for x
    by (induction m) auto
  then show ?thesis
    by (auto simp: map_insert_def map_add_def fun_eq_iff split: option.split)
qed

lemma map_of_map_remove [simp]: "map_of (map_remove k m) = (map_of m)(k := None)"
  by (induction m) (auto simp: map_remove_def fun_eq_iff)

lemma keys_map_insert:
  "map fst (map_insert k v m) = (if map_of m k = None then map fst m @ [k] else map fst m)"
proof -
  have "map fst (map (\<lambda>(j, w). if j = k then (k, v) else (j, w)) m) = map fst m"
    by (induction m) auto
  then show ?thesis by (simp add: map_insert_def)
qed

lemma distinct_map_insert [simp]: "distinct (map fst m) \<Longrightarrow> distinct (map fst (map_insert k v m))"
  by (simp add: keys_map_insert map_of_eq_None_iff)

lemma distinct_map_remove [simp]: "distinct (map fst m) \<Longrightarrow> distinct (map fst (map_remove k m))"
  by (simp add: map_remove_def distinct_map_filter)

lemma length_map_insert: "length (map_insert k v m) = (if map_of m k = None then Suc (length m) else length m)"
  by (simp add: map_insert_def)

lemma length_map_remove: "length (map_remove k m) \<le> length m"
  by (simp add: map_remove_def)

lemma length_map_remove_less: "map_of m k \<noteq> None \<Longrightarrow> length (map_remove k m) < length m"
  unfolding map_remove_def by (auto dest!: map_of_SomeD intro: length_filter_less)

lemma map_of_mem:
  "distinct (map fst m) \<Longrightarrow> (k, v) \<in> set m \<longleftrightarrow> map_of m k = Some v"
  by (auto dest: map_of_SomeD)

text \<open>Summing a multiset over the entries.\<close>

definition entry_sum :: "('k \<Rightarrow> 'v \<Rightarrow> 'a multiset) \<Rightarrow> ('k \<times> 'v) list \<Rightarrow> 'a multiset" where
  "entry_sum f m = sum_list (map (\<lambda>(k, v). f k v) m)"

lemma entry_sum_simps [simp]:
  "entry_sum f [] = {#}" "entry_sum f ((k, v) # m) = f k v + entry_sum f m"
  "entry_sum f (m @ m') = entry_sum f m + entry_sum f m'"
  by (simp_all add: entry_sum_def)

lemma entry_sum_absent: "map_of m k = None \<Longrightarrow> entry_sum f (map_remove k m) = entry_sum f m"
  by (induction m) (auto simp: map_remove_def split: if_splits)

lemma entry_sum_remove:
  assumes "distinct (map fst m)" "map_of m k = Some v"
  shows "entry_sum f m = f k v + entry_sum f (map_remove k m)"
  using assms
proof (induction m)
  case (Cons e m)
  obtain j w where e: "e = (j, w)"
    by fastforce
  show ?case
  proof (cases "j = k")
    case True
    then have "map_of m k = None" "w = v"
      using Cons.prems e by (auto simp: map_of_eq_None_iff)
    then show ?thesis
      using True entry_sum_absent [of m k f] by (simp add: e map_remove_def)
  next
    case False
    then show ?thesis
      using Cons e by (simp add: map_remove_def ac_simps)
  qed
qed simp

lemma entry_sum_insert:
  assumes "distinct (map fst m)"
  shows "entry_sum f (map_insert k v m) = f k v + entry_sum f (map_remove k m)"
proof -
  have "entry_sum f (map_insert k v m) = f k v + entry_sum f (map_remove k (map_insert k v m))"
    using assms by (intro entry_sum_remove) simp_all
  moreover have "map_remove k (map_insert k v m) = map_remove k m"
  proof -
    have "filter (\<lambda>(j, _). j \<noteq> k) (map (\<lambda>(j, w). if j = k then (k, v) else (j, w)) m) = filter (\<lambda>(j, _). j \<noteq> k) m"
      by (induction m) auto
    then show ?thesis by (simp add: map_insert_def map_remove_def)
  qed
  ultimately show ?thesis by simp
qed

lemma entry_sum_mem: "x \<in># entry_sum f m \<longleftrightarrow> (\<exists>(k, v) \<in> set m. x \<in># f k v)"
  by (induction m) auto

section \<open>Links\<close>

text \<open>The link of one attachment: the session id under which a client holds a guard.\<close>

type_synonym link = "string \<times> attachment_guard"

definition link_of :: "string \<Rightarrow> client_attachment \<Rightarrow> link multiset" where
  "link_of i a = (case ca_guard a of None \<Rightarrow> {#} | Some g \<Rightarrow> {#(i, g)#})"

definition links :: "client_state \<Rightarrow> link multiset" where
  "links st = entry_sum link_of (cs_attachments st)"

definition owners :: "nat \<Rightarrow> link multiset \<Rightarrow> nat" where
  "owners p M = size (filter_mset (\<lambda>(_, g). ag_fence g = p) M)"

lemma owners_simps [simp]:
  "owners p {#} = 0" "owners p (M + N) = owners p M + owners p N"
  "owners p (add_mset (i, g) M) = (if ag_fence g = p then Suc (owners p M) else owners p M)"
  by (simp_all add: owners_def)

lemma owners_positive: "0 < owners p M \<longleftrightarrow> (\<exists>(i, g) \<in># M. ag_fence g = p)"
  by (induction M) (auto split: if_splits)

text \<open>
  \<open>owned d M\<close>: the registry is well formed, each link is anchored at the mapped session of its id, the
  fences count the links exactly, and a pending token belongs to a link that offers it.
\<close>

definition sessions_ok :: "(string \<rightharpoonup> daemon_session) \<Rightarrow> nat \<Rightarrow> bool" where
  "sessions_ok m n \<longleftrightarrow>
     (\<forall>i s. m i = Some s \<longrightarrow> ds_fence s < n \<and> ds_id s = i) \<and>
     (\<forall>i j s t. m i = Some s \<longrightarrow> m j = Some t \<longrightarrow> ds_fence s = ds_fence t \<longrightarrow> i = j)"

definition registry_ok :: "daemon \<Rightarrow> bool" where
  "registry_ok d \<longleftrightarrow>
     distinct (map fst (dm_sessions d)) \<and> length (dm_sessions d) \<le> MAX_SESSIONS \<and>
     sessions_ok (map_of (dm_sessions d)) (dm_next_fence d) \<and>
     distinct (map fst (dm_channels d)) \<and> length (dm_channels d) \<le> MAX_CHANNELS \<and>
     (\<forall>i ch. map_of (dm_channels d) i = Some ch \<longrightarrow> channel_inv ch) \<and>
     distinct (map fst (dm_start_operations d)) \<and>
     length (dm_start_operations d) \<le> MAX_START_OPERATION_LEDGER_ENTRIES"

definition anchored :: "daemon \<Rightarrow> link multiset \<Rightarrow> bool" where
  "anchored d M \<longleftrightarrow>
     (\<forall>(i, g) \<in># M. ag_active g \<and> (\<exists>s. map_of (dm_sessions d) i = Some s \<and> ds_fence s = ag_fence g))"

definition fence_accounted :: "attachment_fence \<Rightarrow> nat \<Rightarrow> link multiset \<Rightarrow> bool" where
  "fence_accounted f p M \<longleftrightarrow>
     fence_inv f \<and> af_active_guards f = owners p M \<and>
     (\<forall>(t, n) \<in> set (af_pending_handoffs f).
        \<exists>(i, g) \<in># M. ag_fence g = p \<and> ag_offered_token g = Some t \<and> ag_owner_nonce g = n)"

definition accounted :: "daemon \<Rightarrow> link multiset \<Rightarrow> bool" where
  "accounted d M \<longleftrightarrow> (\<forall>p < dm_next_fence d. fence_accounted (dm_fences d p) p M)"

definition owned :: "daemon \<Rightarrow> link multiset \<Rightarrow> bool" where
  "owned d M \<longleftrightarrow> registry_ok d \<and> anchored d M \<and> accounted d M"

lemma link_fence_known:
  assumes "owned d M" "(i, g) \<in># M"
  shows "ag_fence g < dm_next_fence d"
  using assms by (fastforce simp: owned_def anchored_def registry_ok_def sessions_ok_def)

lemma session_fence_known:
  assumes "owned d M" "map_of (dm_sessions d) i = Some s"
  shows "ds_fence s < dm_next_fence d"
  using assms by (auto simp: owned_def registry_ok_def sessions_ok_def)

text \<open>A session is in use exactly when some link is anchored at it.\<close>

lemma in_use_iff_linked:
  assumes "owned d M" "map_of (dm_sessions d) i = Some s"
  shows "session_in_use d s \<longleftrightarrow> (\<exists>g. (i, g) \<in># M)"
proof -
  have p: "ds_fence s < dm_next_fence d"
    using session_fence_known [OF assms] .
  then have acc: "fence_accounted (dm_fences d (ds_fence s)) (ds_fence s) M"
    using assms(1) by (simp add: owned_def accounted_def)
  have "session_in_use d s \<longleftrightarrow> 0 < owners (ds_fence s) M"
  proof -
    have "0 < owners (ds_fence s) M" if "af_pending_handoffs (dm_fences d (ds_fence s)) \<noteq> []"
      using acc that unfolding fence_accounted_def owners_positive
      by (cases "af_pending_handoffs (dm_fences d (ds_fence s))") fastforce+
    then show ?thesis
      using acc by (auto simp: session_in_use_def attachment_in_use_def fence_accounted_def)
  qed
  also have "\<dots> \<longleftrightarrow> (\<exists>(j, g) \<in># M. ag_fence g = ds_fence s)"
    by (rule owners_positive)
  also have "\<dots> \<longleftrightarrow> (\<exists>g. (i, g) \<in># M)"
  proof
    assume "\<exists>(j, g) \<in># M. ag_fence g = ds_fence s"
    then obtain j g where jg: "(j, g) \<in># M" "ag_fence g = ds_fence s"
      by auto
    then obtain t where "map_of (dm_sessions d) j = Some t" "ds_fence t = ds_fence s"
      using assms(1) by (auto simp: owned_def anchored_def)
    then have "j = i"
      using assms unfolding owned_def registry_ok_def sessions_ok_def by metis
    then show "\<exists>g. (i, g) \<in># M"
      using jg by blast
  next
    assume "\<exists>g. (i, g) \<in># M"
    then show "\<exists>(j, g) \<in># M. ag_fence g = ds_fence s"
      using assms by (fastforce simp: owned_def anchored_def)
  qed
  finally show ?thesis .
qed

section \<open>Guards and fences\<close>

lemma fence_accounted_other [simp]:
  "ag_fence g \<noteq> p \<Longrightarrow> fence_accounted f p (add_mset (i, g) M) = fence_accounted f p M"
  by (auto simp: fence_accounted_def)

lemma pending_after_retire:
  "(t, n) \<in> set (af_pending_handoffs (retire token (remove_pending token f))) \<longleftrightarrow>
     (t, n) \<in> set (af_pending_handoffs f) \<and> t \<noteq> token"
  by auto

lemma fence_accounted_release:
  assumes "fence_accounted f p (add_mset (i, g) M)" "ag_fence g = p" "ag_active g"
  shows "fence_accounted (release_fence True g f) p M"
proof -
  let ?f = "release_fence True g f"
  have "fence_inv ?f"
    using assms(1) by (simp add: fence_accounted_def fence_inv_release)
  moreover have "af_active_guards ?f = owners p M"
    using assms by (auto simp: fence_accounted_def release_fence_def Let_def split: option.split)
  moreover have "\<exists>(j, h) \<in># M. ag_fence h = p \<and> ag_offered_token h = Some t \<and> ag_owner_nonce h = n"
    if "(t, n) \<in> set (af_pending_handoffs ?f)" for t n
  proof -
    have pending: "(t, n) \<in> set (af_pending_handoffs f)"
      using that assms(3) by (auto simp: release_fence_def Let_def split: option.splits if_splits)
    then obtain j h where h: "(j, h) \<in># add_mset (i, g) M" "ag_fence h = p" "ag_offered_token h = Some t"
      "ag_owner_nonce h = n"
      using assms(1) by (fastforce simp: fence_accounted_def)
    have "map_of (af_pending_handoffs f) t = Some n"
      using assms(1) pending by (simp add: fence_accounted_def fence_inv_def)
    then have "(j, h) \<noteq> (i, g)"
      using that assms(3) h by (auto simp: release_fence_def Let_def split: if_splits)
    then show ?thesis
      using h by auto
  qed
  ultimately show ?thesis
    unfolding fence_accounted_def by blast
qed

lemma fence_accounted_drop:
  assumes "fence_accounted f p (add_mset (i, g) M)" "ag_fence g = p" "ag_active g"
    "(j, h) \<in># M" "ag_fence h = p" "ag_offered_token h = ag_offered_token g" "ag_owner_nonce h = ag_owner_nonce g"
  shows "fence_accounted (release_fence False g f) p M"
  using assms unfolding fence_accounted_def by (fastforce simp: release_fence_def Let_def)

lemma fence_accounted_cancel:
  "fence_accounted f p M \<Longrightarrow> fence_accounted (cancel_attachment_handoff token f) p M"
  by (auto simp: fence_accounted_def fence_inv_cancel) (auto simp: cancel_attachment_handoff_def split: if_splits)

fun offered_by :: "attachment_handoff option \<Rightarrow> string option" where
  "offered_by (Some (Offer token)) = Some token"
| "offered_by _ = None"

lemma acquire_attachment_guard:
  assumes "acquire_attachment p handoff n f = Inr (g, f')"
  shows "ag_fence g = p" "ag_active g" "ag_owner_nonce g = n" "ag_offered_token g = offered_by handoff"
    "af_active_guards f' = Suc (af_active_guards f)"
    "set (af_pending_handoffs f') \<subseteq> set (af_pending_handoffs f) \<union> (case offered_by handoff of None \<Rightarrow> {} | Some t \<Rightarrow> {(t, n)})"
  using assms
  by (auto simp: acquire_attachment_def admit_handoff_def res_bind_eq_Inr checked_add_usize_def
      split: option.splits attachment_handoff.splits if_splits)

lemma fence_accounted_acquire:
  assumes "fence_accounted f p M" "acquire_attachment p handoff n f = Inr (g, f')"
  shows "fence_accounted f' p (add_mset (i, g) M)"
proof -
  note guard = acquire_attachment_guard [OF assms(2)]
  have "fence_inv f'"
    using fence_inv_acquire assms by (auto simp: fence_accounted_def)
  moreover have "\<exists>(j, h) \<in># add_mset (i, g) M. ag_fence h = p \<and> ag_offered_token h = Some t \<and> ag_owner_nonce h = m"
    if "(t, m) \<in> set (af_pending_handoffs f')" for t m
  proof (cases "(t, m) \<in> set (af_pending_handoffs f)")
    case True
    then show ?thesis
      using assms(1) by (fastforce simp: fence_accounted_def)
  next
    case False
    then have "offered_by handoff = Some t" "m = n"
      using that guard(6) by (auto split: option.splits)
    then show ?thesis
      using guard by auto
  qed
  ultimately show ?thesis
    using assms(1) guard unfolding fence_accounted_def by auto
qed

text \<open>Changing one fence.\<close>

lemma owned_update_fence:
  assumes "owned d M" "p < dm_next_fence d" "fence_accounted f p M'" "anchored d M'"
    "\<And>q. q \<noteq> p \<Longrightarrow> fence_accounted (dm_fences d q) q M \<Longrightarrow> fence_accounted (dm_fences d q) q M'"
  shows "owned (d\<lparr>dm_fences := (dm_fences d)(p := f)\<rparr>) M'"
  using assms by (auto simp: owned_def registry_ok_def anchored_def accounted_def)

lemma owned_release:
  assumes "owned d (add_mset (i, g) M)"
  shows "owned (release_in True (Some g) d) M"
proof -
  have p: "ag_fence g < dm_next_fence d"
    using link_fence_known [OF assms, of i g] by simp
  moreover have "ag_active g" "anchored d M"
    using assms by (auto simp: owned_def anchored_def)
  moreover have "fence_accounted (dm_fences d (ag_fence g)) (ag_fence g) (add_mset (i, g) M)"
    using assms p by (simp add: owned_def accounted_def)
  ultimately show ?thesis
    using owned_update_fence [OF assms p fence_accounted_release] by (simp add: release_in_def)
qed

lemma owned_drop:
  assumes "owned d (add_mset (i, g) M)" "(j, h) \<in># M" "ag_fence h = ag_fence g"
    "ag_offered_token h = ag_offered_token g" "ag_owner_nonce h = ag_owner_nonce g"
  shows "owned (release_in False (Some g) d) M"
proof -
  have p: "ag_fence g < dm_next_fence d"
    using link_fence_known [OF assms(1), of i g] by simp
  moreover have "ag_active g" "anchored d M"
    using assms by (auto simp: owned_def anchored_def)
  moreover have "fence_accounted (dm_fences d (ag_fence g)) (ag_fence g) (add_mset (i, g) M)"
    using assms p by (simp add: owned_def accounted_def)
  ultimately show ?thesis
    using owned_update_fence [OF assms(1) p fence_accounted_drop] assms(2-5) by (simp add: release_in_def)
qed

lemma owned_acquire:
  assumes "owned d M" "map_of (dm_sessions d) i = Some s" "acquire_on_session s handoff n d = Inr (g, d')"
  shows "owned d' (add_mset (i, g) M)" "ag_owner_nonce g = n" "ag_offered_token g = offered_by handoff"
    "ag_fence g = ds_fence s" "dm_sessions d' = dm_sessions d" "dm_next_fence d' = dm_next_fence d"
    "dm_start_operations d' = dm_start_operations d"
proof -
  obtain f where f: "acquire_attachment (ds_fence s) handoff n (dm_fences d (ds_fence s)) = Inr (g, f)"
    "d' = d\<lparr>dm_fences := (dm_fences d)(ds_fence s := f)\<rparr>"
    using assms(3) by (auto simp: acquire_on_session_def res_bind_eq_Inr)
  note guard = acquire_attachment_guard [OF f(1)]
  have p: "ds_fence s < dm_next_fence d"
    using session_fence_known [OF assms(1,2)] .
  then have "fence_accounted f (ds_fence s) (add_mset (i, g) M)"
    using fence_accounted_acquire [OF _ f(1)] assms(1) by (simp add: owned_def accounted_def)
  moreover have "anchored d (add_mset (i, g) M)"
    using assms(1,2) guard by (auto simp: owned_def anchored_def)
  ultimately show "owned d' (add_mset (i, g) M)"
    unfolding f(2) using owned_update_fence [OF assms(1) p] guard(1) by simp
  show "ag_owner_nonce g = n" "ag_offered_token g = offered_by handoff" "ag_fence g = ds_fence s"
    "dm_sessions d' = dm_sessions d" "dm_next_fence d' = dm_next_fence d"
    "dm_start_operations d' = dm_start_operations d"
    using guard by (simp_all add: f(2))
qed

lemma owned_cancel:
  assumes "owned d M"
  shows "owned (cancel_session_attachment_handoff i token d) M"
proof (cases "map_of (dm_sessions d) i")
  case None
  with assms show ?thesis by (simp add: cancel_session_attachment_handoff_def)
next
  case (Some s)
  have p: "ds_fence s < dm_next_fence d"
    using session_fence_known [OF assms Some] .
  then have "fence_accounted (cancel_attachment_handoff token (dm_fences d (ds_fence s))) (ds_fence s) M"
    using assms fence_accounted_cancel by (simp add: owned_def accounted_def)
  then show ?thesis
    using owned_update_fence [OF assms p] assms Some
    by (simp add: cancel_session_attachment_handoff_def owned_def)
qed

section \<open>Registry operations\<close>

text \<open>
  How the registry evolves: a session that is still mapped and is not newer than \<open>d\<close> is the same
  object, with its generation, and an exit latch never clears.
\<close>

definition sessions_before :: "daemon \<Rightarrow> daemon \<Rightarrow> bool" where
  "sessions_before d d' \<longleftrightarrow>
     dm_next_fence d \<le> dm_next_fence d' \<and>
     (\<forall>i s'. map_of (dm_sessions d') i = Some s' \<longrightarrow> ds_fence s' < dm_next_fence d \<longrightarrow>
        (\<exists>s. map_of (dm_sessions d) i = Some s \<and> ds_fence s = ds_fence s' \<and> ds_generation s = ds_generation s' \<and>
             (ds_exited s \<noteq> None \<longrightarrow> ds_exited s' = ds_exited s)))"

lemma sessions_before_refl [simp]: "sessions_before d d"
  by (auto simp: sessions_before_def)

lemma sessions_before_same:
  "dm_sessions d' = dm_sessions d \<Longrightarrow> dm_next_fence d' = dm_next_fence d \<Longrightarrow> sessions_before d d'"
  by (auto simp: sessions_before_def)

lemma sessions_before_trans:
  assumes "sessions_before a b" "sessions_before b c"
  shows "sessions_before a c"
  unfolding sessions_before_def
proof (intro conjI allI impI)
  show "dm_next_fence a \<le> dm_next_fence c"
    using assms by (auto simp: sessions_before_def)
  fix i s'
  assume s': "map_of (dm_sessions c) i = Some s'" "ds_fence s' < dm_next_fence a"
  then have "ds_fence s' < dm_next_fence b"
    using assms(1) by (auto simp: sessions_before_def)
  then obtain t where t: "map_of (dm_sessions b) i = Some t" "ds_fence t = ds_fence s'"
    "ds_generation t = ds_generation s'" "ds_exited t \<noteq> None \<longrightarrow> ds_exited s' = ds_exited t"
    using assms(2) s'(1) unfolding sessions_before_def by blast
  then obtain s where "map_of (dm_sessions a) i = Some s" "ds_fence s = ds_fence t"
    "ds_generation s = ds_generation t" "ds_exited s \<noteq> None \<longrightarrow> ds_exited t = ds_exited s"
    using assms(1) s'(2) unfolding sessions_before_def by metis
  with t show "\<exists>s. map_of (dm_sessions a) i = Some s \<and> ds_fence s = ds_fence s' \<and> ds_generation s = ds_generation s' \<and>
      (ds_exited s \<noteq> None \<longrightarrow> ds_exited s' = ds_exited s)"
    by auto
qed

lemma sessions_ok_remove: "sessions_ok m n \<Longrightarrow> sessions_ok (m(i := None)) n"
  by (simp add: sessions_ok_def)

lemma sessions_ok_insert:
  assumes "sessions_ok m n"
  shows "sessions_ok (m(i \<mapsto> new_session i cwd generation n)) (Suc n)"
proof -
  have below: "ds_fence s < n" "ds_id s = j" if "m j = Some s" for j s
    using assms that by (auto simp: sessions_ok_def)
  have "x = y" if "m x = Some s" "m y = Some t" "ds_fence s = ds_fence t" for x y s t
    using assms that unfolding sessions_ok_def by blast
  moreover have "ds_fence s \<noteq> n" if "m j = Some s" for j s
    using below [OF that] by simp
  ultimately show ?thesis
    unfolding sessions_ok_def using below by (auto simp: new_session_def less_Suc_eq) blast
qed

lemma no_link_unmapped: "owned d M \<Longrightarrow> map_of (dm_sessions d) i = None \<Longrightarrow> (i, g) \<notin># M"
  by (fastforce simp: owned_def anchored_def)

lemma no_link_idle:
  "owned d M \<Longrightarrow> map_of (dm_sessions d) i = Some s \<Longrightarrow> \<not> session_in_use d s \<Longrightarrow> (i, g) \<notin># M"
  using in_use_iff_linked by blast

lemma owned_remove_session:
  assumes "owned d M" "\<And>g. (i, g) \<notin># M"
  shows "owned (d\<lparr>dm_sessions := map_remove i (dm_sessions d)\<rparr>) M"
    "sessions_before d (d\<lparr>dm_sessions := map_remove i (dm_sessions d)\<rparr>)"
proof -
  let ?d = "d\<lparr>dm_sessions := map_remove i (dm_sessions d)\<rparr>"
  have "registry_ok ?d"
    using assms(1) length_map_remove [of i "dm_sessions d"]
    unfolding owned_def registry_ok_def by (auto simp: sessions_ok_remove)
  moreover have "anchored ?d M"
    using assms by (fastforce simp: owned_def anchored_def)
  ultimately show "owned ?d M"
    using assms(1) by (simp add: owned_def accounted_def)
  show "sessions_before d ?d"
    by (auto simp: sessions_before_def)
qed

lemma owned_install_session:
  assumes "owned d M" "\<And>g. (i, g) \<notin># M"
    "length (dm_sessions d) < MAX_SESSIONS \<or> map_of (dm_sessions d) i \<noteq> None"
  shows "owned (install_session i cwd generation d) M" "sessions_before d (install_session i cwd generation d)"
proof -
  let ?d = "install_session i cwd generation d"
  have "registry_ok ?d"
    using assms(1,3) unfolding owned_def registry_ok_def install_session_def
    by (auto simp: length_map_insert sessions_ok_insert)
  moreover have "anchored ?d M"
    using assms(1,2) unfolding owned_def anchored_def install_session_def by fastforce
  moreover have "accounted ?d M"
  proof -
    have "(j, g) \<notin># M \<or> ag_fence g \<noteq> dm_next_fence d" for j g
      using link_fence_known [OF assms(1), of j g] by auto
    then have "owners (dm_next_fence d) M = 0"
      using owners_positive [of "dm_next_fence d" M] by fastforce
    then have "fence_accounted new_fence (dm_next_fence d) M"
      using fence_inv_new by (simp add: fence_accounted_def new_fence_def)
    then show ?thesis
      using assms(1) by (simp add: owned_def accounted_def install_session_def less_Suc_eq)
  qed
  ultimately show "owned ?d M"
    by (simp add: owned_def)
  show "sessions_before d ?d"
    by (auto simp: sessions_before_def install_session_def new_session_def)
qed

lemma owned_start_operations:
  assumes "owned d M" "distinct (map fst ops)" "length ops \<le> MAX_START_OPERATION_LEDGER_ENTRIES"
  shows "owned (d\<lparr>dm_start_operations := ops\<rparr>) M" "sessions_before d (d\<lparr>dm_start_operations := ops\<rparr>)"
  using assms
  by (auto simp: owned_def registry_ok_def anchored_def accounted_def intro: sessions_before_same)

lemma owned_channels:
  assumes "owned d M" "distinct (map fst chans)" "length chans \<le> MAX_CHANNELS"
    "\<And>i ch. map_of chans i = Some ch \<Longrightarrow> channel_inv ch"
  shows "owned (d\<lparr>dm_channels := chans\<rparr>) M" "sessions_before d (d\<lparr>dm_channels := chans\<rparr>)"
  using assms
  by (auto simp: owned_def registry_ok_def anchored_def accounted_def intro: sessions_before_same)

lemma owned_evict_one:
  assumes "owned d M" "\<exists>(_, s) \<in> set (dm_sessions d). can_reclaim d s" "\<And>m. mset (sw_order sw m) = mset m"
  shows "owned (evict_one sw d) M" "sessions_before d (evict_one sw d)"
    "length (dm_sessions (evict_one sw d)) < MAX_SESSIONS"
    "dm_start_operations (evict_one sw d) = dm_start_operations d"
proof -
  let ?victim = "List.find (\<lambda>(_, s). can_reclaim d s) (sw_order sw (dm_sessions d))"
  have keys: "distinct (map fst (dm_sessions d))" "length (dm_sessions d) \<le> MAX_SESSIONS"
    using assms(1) by (simp_all add: owned_def registry_ok_def)
  have set: "set (sw_order sw (dm_sessions d)) = set (dm_sessions d)"
    using assms(3) by (metis set_mset_mset)
  then have "?victim \<noteq> None"
    using assms(2) by (auto simp: find_None_iff)
  then obtain j s where victim: "?victim = Some (j, s)"
    by auto
  then have "(j, s) \<in> set (dm_sessions d)" "can_reclaim d s"
    using set by (auto simp: find_Some_iff dest: nth_mem)
  then have s: "map_of (dm_sessions d) j = Some s" "\<not> session_in_use d s"
    using keys by (simp_all add: can_reclaim_def)
  have evict: "evict_one sw d = d\<lparr>dm_sessions := map_remove j (dm_sessions d)\<rparr>"
    by (simp add: evict_one_def victim)
  show "owned (evict_one sw d) M" "sessions_before d (evict_one sw d)"
    unfolding evict using owned_remove_session [OF assms(1) no_link_idle [OF assms(1) s]] by blast+
  show "length (dm_sessions (evict_one sw d)) < MAX_SESSIONS"
    using length_map_remove_less [of "dm_sessions d" j] keys(2) s(1) by (simp add: evict)
  show "dm_start_operations (evict_one sw d) = dm_start_operations d"
    by (simp add: evict)
qed

lemma owned_spawn_session:
  assumes "owned d M" "spawn_session sw rq replacing d = Some (res, d')" "\<And>m. mset (sw_order sw m) = mset m"
    "replacing \<Longrightarrow> map_of (dm_sessions d) (rq_id rq) \<noteq> None" "\<And>g. (rq_id rq, g) \<notin># M"
  shows "owned d' M \<and> sessions_before d d' \<and> dm_start_operations d' = dm_start_operations d"
proof (cases "d' = d")
  case True
  with assms(1) show ?thesis by simp
next
  case False
  let ?full = "\<not> replacing \<and> MAX_SESSIONS \<le> length (dm_sessions d)"
  let ?d1 = "if ?full then evict_one sw d else d"
  obtain generation where d': "d' = install_session (rq_id rq) (rq_cwd rq) generation ?d1"
    and found: "?full \<Longrightarrow> \<exists>(_, s) \<in> set (dm_sessions d). can_reclaim d s"
    using assms(2) False by (auto simp: spawn_session_def Let_def split: if_splits sum.splits list.splits)
  have room: "owned ?d1 M" "sessions_before d ?d1" "dm_start_operations ?d1 = dm_start_operations d"
    "length (dm_sessions ?d1) < MAX_SESSIONS \<or> map_of (dm_sessions ?d1) (rq_id rq) \<noteq> None"
    using owned_evict_one [OF assms(1) found assms(3)] assms(1,4) by (cases ?full; auto)+
  show ?thesis
    using owned_install_session [OF room(1) assms(5) room(4), of "rq_cwd rq" generation]
      sessions_before_trans [OF room(2)] room(3) unfolding d' by (simp add: install_session_def)
qed

lemma owned_start_session:
  assumes "owned d M" "start_session sw rq restart_exited d = Some (res, d')" "\<And>m. mset (sw_order sw m) = mset m"
  shows "owned d' M \<and> sessions_before d d' \<and> dm_start_operations d' = dm_start_operations d"
proof (cases "map_of (dm_sessions d) (rq_id rq)")
  case None
  then show ?thesis
    using assms owned_spawn_session [of d M sw rq False] no_link_unmapped [OF assms(1)]
    by (simp add: start_session_def)
next
  case (Some s)
  then show ?thesis
    using assms owned_spawn_session [of d M sw rq True] no_link_idle [OF assms(1) Some]
    by (auto simp: start_session_def split: if_splits)
qed

lemma owned_ledger_entry:
  assumes "owned d M" "map_of (dm_start_operations d) token \<noteq> None \<or>
      length (dm_start_operations d) < MAX_START_OPERATION_LEDGER_ENTRIES"
  shows "owned (d\<lparr>dm_start_operations := map_insert token entry (dm_start_operations d)\<rparr>) M"
    "sessions_before d (d\<lparr>dm_start_operations := map_insert token entry (dm_start_operations d)\<rparr>)"
proof -
  let ?ops = "map_insert token entry (dm_start_operations d)"
  have "distinct (map fst ?ops)" "length ?ops \<le> MAX_START_OPERATION_LEDGER_ENTRIES"
    using assms by (auto simp: owned_def registry_ok_def length_map_insert)
  then show "owned (d\<lparr>dm_start_operations := ?ops\<rparr>) M" "sessions_before d (d\<lparr>dm_start_operations := ?ops\<rparr>)"
    using owned_start_operations [OF assms(1)] by blast+
qed

text \<open>What a conditional start can do: nothing, refuse its reserved token, or install one session for it.\<close>

lemma conditional_start_cases:
  assumes "start_session_conditionally sw rq token pre d = Some (outcome, d')"
  obtains (unchanged) "d' = d" "\<And>g. outcome \<noteq> StartApplied g"
  | (refused) reason where "map_of (dm_start_operations d) token = Some (EntryReserved (rq_id rq))"
      "outcome = StartRefused reason"
      "d' = d\<lparr>dm_start_operations := map_insert token (EntryRefused (rq_id rq) reason) (dm_start_operations d)\<rparr>"
  | (applied) generation restart where "map_of (dm_start_operations d) token = Some (EntryReserved (rq_id rq))"
      "outcome = StartApplied generation" "check_precondition d (rq_id rq) pre = Inr restart"
      "restart \<or> length (dm_sessions d) < MAX_SESSIONS" "candidate_generation pre (sw_uuids sw) = Some generation"
      "d' = (install_session (rq_id rq) (rq_cwd rq) generation d)\<lparr>dm_start_operations :=
         map_insert token (EntryApplied (rq_id rq) generation) (dm_start_operations d)\<rparr>"
proof (cases "map_of (dm_start_operations d) token = Some (EntryReserved (rq_id rq))")
  case False
  then have "d' = d \<and> (\<forall>g. outcome \<noteq> StartApplied g)"
    using assms
    by (auto simp: start_session_conditionally_def Let_def split: option.splits start_operation_entry.splits if_splits)
  then show ?thesis using unchanged by blast
next
  case True
  show ?thesis
  proof (cases "check_precondition d (rq_id rq) pre")
    case (Inl reason)
    then show ?thesis
      using refused [OF True] assms True by (auto simp: start_session_conditionally_def refuse_reserved_start_def)
  next
    case (Inr restart)
    show ?thesis
    proof (cases "(restart \<or> length (dm_sessions d) < MAX_SESSIONS) \<and> check_spawn_inputs (sw_fs sw) rq = Inr () \<and>
        sw_spawned sw")
      case True1: True
      then show ?thesis
        using applied [OF True _ Inr] assms True Inr
        by (auto simp: start_session_conditionally_def Let_def install_session_def split: option.splits)
    next
      case False1: False
      then have "outcome = StartRefused SpawnFailed \<and>
          d' = d\<lparr>dm_start_operations := map_insert token (EntryRefused (rq_id rq) SpawnFailed) (dm_start_operations d)\<rparr>"
        using assms True Inr
        by (auto simp: start_session_conditionally_def Let_def refuse_reserved_start_def not_le
            split: option.splits sum.splits if_splits)
      then show ?thesis using refused [OF True] by blast
    qed
  qed
qed

lemma check_precondition_unlinked:
  assumes "owned d M" "check_precondition d i pre = Inr restart"
  shows "(i, g) \<notin># M" "restart \<longleftrightarrow> map_of (dm_sessions d) i \<noteq> None"
  using assms no_link_unmapped [OF assms(1)] no_link_idle [OF assms(1)]
  by (auto simp: check_precondition_def split: start_precondition.splits option.splits if_splits)

lemma owned_conditional_start:
  assumes "owned d M" "start_session_conditionally sw rq token pre d = Some (outcome, d')"
  shows "owned d' M \<and> sessions_before d d'"
  using assms(2)
proof (cases rule: conditional_start_cases)
  case unchanged
  with assms(1) show ?thesis by simp
next
  case (refused reason)
  then show ?thesis
    using owned_ledger_entry [OF assms(1), of token] by simp
next
  case (applied generation restart)
  note unlinked = check_precondition_unlinked [OF assms(1) applied(3)]
  let ?d1 = "install_session (rq_id rq) (rq_cwd rq) generation d"
  have d1: "owned ?d1 M" "sessions_before d ?d1"
    using owned_install_session [OF assms(1) unlinked(1)] unlinked(2) applied(4) by auto
  have "dm_start_operations ?d1 = dm_start_operations d"
    by (simp add: install_session_def)
  then show ?thesis
    using owned_ledger_entry [OF d1(1), of token] sessions_before_trans [OF d1(2)] applied(1,6) by simp
qed

lemma owned_reserve:
  assumes "owned d M"
  shows "owned (snd (reserve_start_operation i token d)) M \<and> sessions_before d (snd (reserve_start_operation i token d))"
  using assms owned_ledger_entry [OF assms, of token]
  by (auto simp: reserve_start_operation_def not_le split: option.splits start_operation_entry.splits)

lemma owned_retire:
  assumes "owned d M"
  shows "owned (snd (retire_start_operation i token expected d)) M \<and>
    sessions_before d (snd (retire_start_operation i token expected d))"
proof -
  have "owned (d\<lparr>dm_start_operations := map_remove token (dm_start_operations d)\<rparr>) M"
    "sessions_before d (d\<lparr>dm_start_operations := map_remove token (dm_start_operations d)\<rparr>)"
    using owned_start_operations [OF assms] assms length_map_remove [of token "dm_start_operations d"]
    by (auto simp: owned_def registry_ok_def)
  then show ?thesis
    using assms by (simp add: retire_start_operation_def Let_def)
qed

lemma owned_take:
  assumes "owned d M" "take_session_if_generation i generation d = (taken, d')"
  shows "owned d' M \<and> sessions_before d d'"
    "taken = Taken s \<Longrightarrow> map_of (dm_sessions d) i = Some s \<and> ds_generation s = generation \<and> (\<forall>g. (i, g) \<notin># M)"
  using assms(2) assms(1) owned_remove_session [OF assms(1), of i] no_link_idle [OF assms(1), of i]
  by (auto simp: take_session_if_generation_def split: option.splits if_splits)

lemma owned_latch_exit:
  assumes "owned d M"
  shows "owned (latch_exit p code d) M \<and> sessions_before d (latch_exit p code d)"
proof -
  let ?h = "\<lambda>s. if ds_fence s = p \<and> ds_exited s = None then s\<lparr>ds_exited := Some code\<rparr> else s"
  have sessions: "map_of (dm_sessions (latch_exit p code d)) i = map_option ?h (map_of (dm_sessions d) i)" for i
    by (simp add: latch_exit_def map_of_map)
  have keys: "map fst (dm_sessions (latch_exit p code d)) = map fst (dm_sessions d)"
    by (simp add: latch_exit_def split_def)
  have rest: "dm_next_fence (latch_exit p code d) = dm_next_fence d" "dm_fences (latch_exit p code d) = dm_fences d"
    "dm_channels (latch_exit p code d) = dm_channels d" "dm_start_operations (latch_exit p code d) = dm_start_operations d"
    "length (dm_sessions (latch_exit p code d)) = length (dm_sessions d)"
    by (simp_all add: latch_exit_def)
  have ok: "sessions_ok (map_of (dm_sessions (latch_exit p code d))) (dm_next_fence d)"
    using assms unfolding owned_def registry_ok_def sessions_ok_def sessions by (auto split: if_splits)
  have "anchored (latch_exit p code d) M"
    using assms unfolding owned_def anchored_def sessions by fastforce
  then have "owned (latch_exit p code d) M"
    using assms ok keys rest by (simp add: owned_def registry_ok_def accounted_def)
  moreover have "sessions_before d (latch_exit p code d)"
    unfolding sessions_before_def sessions rest by (auto split: if_splits)
  ultimately show ?thesis ..
qed

lemma owned_channel_update:
  assumes "owned d M" "map_of (dm_channels d) i \<noteq> None \<or> length (dm_channels d) < MAX_CHANNELS" "channel_inv ch"
  shows "owned (d\<lparr>dm_channels := map_insert i ch (dm_channels d)\<rparr>) M"
    "sessions_before d (d\<lparr>dm_channels := map_insert i ch (dm_channels d)\<rparr>)"
proof -
  let ?chans = "map_insert i ch (dm_channels d)"
  have "distinct (map fst ?chans)" "length ?chans \<le> MAX_CHANNELS"
    "\<And>j c. map_of ?chans j = Some c \<Longrightarrow> channel_inv c"
    using assms by (auto simp: owned_def registry_ok_def length_map_insert split: if_splits)
  then show "owned (d\<lparr>dm_channels := ?chans\<rparr>) M" "sessions_before d (d\<lparr>dm_channels := ?chans\<rparr>)"
    using owned_channels [OF assms(1)] by blast+
qed

lemma owned_open_channel:
  assumes "owned d M"
  shows "owned (snd (open_channel i d)) M \<and> sessions_before d (snd (open_channel i d))"
proof -
  have "channel_inv new_channel"
    by (simp add: channel_inv_def new_channel_def within_caps_def)
  then show ?thesis
    using assms owned_channel_update [OF assms, of i new_channel] by (simp add: open_channel_def not_le)
qed

lemma owned_session_metadata:
  assumes "owned d M" "map_of (dm_sessions d) i = Some s" "ds_fence s' = ds_fence s" "ds_id s' = ds_id s"
    "ds_generation s' = ds_generation s" "ds_exited s' = ds_exited s"
  shows "owned (d\<lparr>dm_sessions := map_insert i s' (dm_sessions d)\<rparr>) M"
    "sessions_before d (d\<lparr>dm_sessions := map_insert i s' (dm_sessions d)\<rparr>)"
proof -
  let ?d = "d\<lparr>dm_sessions := map_insert i s' (dm_sessions d)\<rparr>"
  have "sessions_ok ((map_of (dm_sessions d))(i \<mapsto> s')) (dm_next_fence d)"
    using assms unfolding owned_def registry_ok_def sessions_ok_def by (auto split: if_splits)
  then have "registry_ok ?d"
    using assms by (simp add: owned_def registry_ok_def length_map_insert)
  moreover have "anchored ?d M"
    using assms unfolding owned_def anchored_def by fastforce
  ultimately show "owned ?d M"
    using assms(1) by (simp add: owned_def accounted_def)
  show "sessions_before d ?d"
    using assms by (auto simp: sessions_before_def)
qed

lemma channel_join_inv: "channel_inv ch \<Longrightarrow> channel_inv (channel_join s ch)"
  by (simp add: channel_inv_def channel_join_def)

lemma owned_join_channel:
  assumes "owned d M"
  shows "owned (snd (join_channel channel session d)) M \<and> sessions_before d (snd (join_channel channel session d))"
proof (cases "map_of (dm_sessions d) session \<noteq> None \<and> map_of (dm_channels d) channel \<noteq> None")
  case False
  then show ?thesis
    using assms by (auto simp: join_channel_def split: option.split)
next
  case True
  then obtain s ch where s: "map_of (dm_sessions d) session = Some s" and ch: "map_of (dm_channels d) channel = Some ch"
    by blast
  let ?s = "if channel \<in> set (ds_subscriptions s) then s else s\<lparr>ds_subscriptions := ds_subscriptions s @ [channel]\<rparr>"
  let ?d = "d\<lparr>dm_channels := map_insert channel (channel_join session ch) (dm_channels d)\<rparr>"
  have "channel_inv (channel_join session ch)"
    using assms ch by (simp add: owned_def registry_ok_def channel_join_inv)
  then have d: "owned ?d M" "sessions_before d ?d"
    using owned_channel_update [OF assms, of channel] ch by simp_all
  have "snd (join_channel channel session d) = ?d\<lparr>dm_sessions := map_insert session ?s (dm_sessions ?d)\<rparr>"
    by (simp add: join_channel_def s ch)
  then show ?thesis
    using owned_session_metadata [OF d(1), of session s ?s] sessions_before_trans [OF d(2)] s by simp
qed

lemma owned_publish:
  assumes "owned d M" "publish to_vec event d = Some (res, d', sent)"
  shows "owned d' M \<and> sessions_before d d' \<and> dm_start_operations d' = dm_start_operations d"
proof (cases "d' = d")
  case True
  with assms(1) show ?thesis by simp
next
  case False
  then obtain ch r ch' where ch: "map_of (dm_channels d) (ce_channel event) = Some ch"
    "channel_publish to_vec event ch = Some (r, ch', sent)"
    "d' = d\<lparr>dm_channels := map_insert (ce_channel event) ch' (dm_channels d)\<rparr>"
    using assms(2) by (auto simp: publish_def split: option.splits if_splits)
  have "channel_inv ch"
    using assms(1) ch(1) by (simp add: owned_def registry_ok_def)
  then have "channel_inv ch'"
    using channel_publish_inv ch(2) by blast
  then show ?thesis
    using owned_channel_update [OF assms(1), of "ce_channel event" ch'] ch by simp
qed

lemma publish_returns:
  assumes "owned d M"
  shows "publish to_vec event d \<noteq> None"
proof -
  have "channel_publish to_vec event ch \<noteq> None" if "map_of (dm_channels d) (ce_channel event) = Some ch" for ch
    using channel_publish_inv assms that by (auto simp: owned_def registry_ok_def)
  then show ?thesis
    by (auto simp: publish_def split: option.splits)
qed

section \<open>Clients\<close>

definition client_ok :: "u64 \<Rightarrow> client_state \<Rightarrow> bool" where
  "client_ok n st \<longleftrightarrow>
     cs_owner_nonce st = n \<and> distinct (map fst (cs_attachments st)) \<and>
     (\<forall>i a. map_of (cs_attachments st) i = Some a \<longrightarrow>
        (case ca_guard a of
           None \<Rightarrow> ca_offered_token a = None
         | Some g \<Rightarrow> ag_owner_nonce g = n \<and> ag_offered_token g = ca_offered_token a))"

lemma release_in_simps [simp]:
  "dm_sessions (release_in explicit g d) = dm_sessions d" "dm_next_fence (release_in explicit g d) = dm_next_fence d"
  "dm_start_operations (release_in explicit g d) = dm_start_operations d"
  "dm_channels (release_in explicit g d) = dm_channels d"
  by (simp_all add: release_in_def split: option.split)

lemma links_insert:
  assumes "client_ok n st"
  shows "links (st\<lparr>cs_attachments := map_insert i a (cs_attachments st)\<rparr>) =
    link_of i a + links (st\<lparr>cs_attachments := map_remove i (cs_attachments st)\<rparr>)"
  using assms by (simp add: links_def client_ok_def entry_sum_insert)

lemma links_split:
  assumes "client_ok n st"
  shows "links st = (case map_of (cs_attachments st) i of None \<Rightarrow> {#} | Some a \<Rightarrow> link_of i a) +
    links (st\<lparr>cs_attachments := map_remove i (cs_attachments st)\<rparr>)"
  using assms
  by (auto simp: links_def client_ok_def entry_sum_absent split: option.split intro: entry_sum_remove)

lemma client_ok_remove: "client_ok n st \<Longrightarrow> client_ok n (st\<lparr>cs_attachments := map_remove i (cs_attachments st)\<rparr>)"
  by (simp add: client_ok_def)

lemma owned_detach:
  assumes "owned d (link_of i a + M)"
  shows "owned (attachment_detach a d) M"
  using assms owned_release by (auto simp: link_of_def attachment_detach_def release_in_def split: option.splits)

lemma owned_client_detach:
  assumes "client_ok n st" "owned d (links st + M)" "client_detach i st d = (st', d')"
  shows "client_ok n st' \<and> owned d' (links st' + M) \<and> dm_sessions d' = dm_sessions d \<and>
    dm_next_fence d' = dm_next_fence d \<and> dm_start_operations d' = dm_start_operations d"
proof (cases "map_of (cs_attachments st) i")
  case None
  with assms show ?thesis by (simp add: client_detach_def)
next
  case (Some a)
  let ?st = "st\<lparr>cs_attachments := map_remove i (cs_attachments st)\<rparr>"
  have "owned d (link_of i a + (links ?st + M))"
    using assms(2) links_split [OF assms(1), of i] Some by (simp add: ac_simps)
  then show ?thesis
    using assms(1,3) Some owned_detach client_ok_remove by (auto simp: client_detach_def attachment_detach_def)
qed

lemma owned_own_kill:
  assumes "client_ok n st" "owned d (links st + M)" "release_guard_for_own_kill i st d = (st', d')"
  shows "client_ok n st' \<and> owned d' (links st' + M) \<and> dm_sessions d' = dm_sessions d \<and>
    dm_next_fence d' = dm_next_fence d \<and> dm_start_operations d' = dm_start_operations d \<and> (\<forall>g. (i, g) \<notin># links st')"
proof -
  let ?st = "st\<lparr>cs_attachments := map_remove i (cs_attachments st)\<rparr>"
  have gone: "(i, g) \<notin># links ?st" for g
    by (auto simp: links_def entry_sum_mem link_of_def map_remove_def split: option.splits)
  show ?thesis
  proof (cases "map_of (cs_attachments st) i")
    case None
    then have "links st = links ?st"
      using links_split [OF assms(1), of i] by simp
    with None assms gone show ?thesis
      by (simp add: release_guard_for_own_kill_def)
  next
    case (Some a)
    have "owned d (link_of i a + (links ?st + M))"
      using assms(2) links_split [OF assms(1), of i] Some by (simp add: ac_simps)
    then have "owned (release_in True (ca_guard a) d) (links ?st + M)"
      using owned_detach by (simp add: attachment_detach_def)
    moreover have "links st' = links ?st"
      using assms(3) Some links_insert [OF assms(1)] by (auto simp: release_guard_for_own_kill_def link_of_def)
    moreover have "client_ok n st'"
      using assms(1,3) Some by (auto simp: release_guard_for_own_kill_def client_ok_def split: if_splits)
    ultimately show ?thesis
      using assms(3) Some gone by (auto simp: release_guard_for_own_kill_def)
  qed
qed

lemma owned_install:
  assumes "client_ok n st" "owned d (add_mset (i, g) (links st + M))" "ag_owner_nonce g = n"
    "client_install i \<lparr>ca_guard = Some g, ca_offered_token = ag_offered_token g\<rparr> st d = (st', d')"
  shows "client_ok n st' \<and> owned d' (links st' + M) \<and> dm_sessions d' = dm_sessions d \<and>
    dm_next_fence d' = dm_next_fence d \<and> dm_start_operations d' = dm_start_operations d"
proof -
  let ?st = "st\<lparr>cs_attachments := map_remove i (cs_attachments st)\<rparr>"
  let ?a = "\<lparr>ca_guard = Some g, ca_offered_token = ag_offered_token g\<rparr>"
  have st': "st' = st\<lparr>cs_attachments := map_insert i ?a (cs_attachments st)\<rparr>"
    using assms(4) by (simp add: client_install_def Let_def)
  have links': "links st' + M = add_mset (i, g) (links ?st + M)"
    unfolding st' links_insert [OF assms(1)] by (simp add: link_of_def)
  have ok: "client_ok n st'"
    using assms(1,3) by (auto simp: st' client_ok_def)
  have rest: "dm_sessions d' = dm_sessions d \<and> dm_next_fence d' = dm_next_fence d \<and>
      dm_start_operations d' = dm_start_operations d"
    using assms(4) by (auto simp: client_install_def Let_def attachment_drop_def attachment_detach_def split: option.splits)
  have "owned d' (links st' + M)"
  proof (cases "map_of (cs_attachments st) i")
    case None
    then show ?thesis
      using assms(2,4) links' links_split [OF assms(1), of i] by (simp add: client_install_def Let_def)
  next
    case (Some old)
    have linked: "owned d (link_of i old + (add_mset (i, g) (links ?st + M)))"
      using assms(2) links_split [OF assms(1), of i] Some by (simp add: ac_simps)
    show ?thesis
    proof (cases "ag_offered_token g \<noteq> None \<and> ca_offered_token old = ag_offered_token g")
      case False
      then show ?thesis
        using assms(4) Some owned_detach [OF linked] links' by (auto simp: client_install_def Let_def)
    next
      case True
      then obtain h where h: "ca_guard old = Some h" "ag_owner_nonce h = n" "ag_offered_token h = ag_offered_token g"
        using assms(1) Some unfolding client_ok_def by (cases "ca_guard old") fastforce+
      obtain s t where "map_of (dm_sessions d) i = Some s" "ds_fence s = ag_fence h"
          "map_of (dm_sessions d) i = Some t" "ds_fence t = ag_fence g"
        using linked h(1) by (fastforce simp: owned_def anchored_def link_of_def)
      then have "ag_fence g = ag_fence h"
        by simp
      then have "owned (release_in False (Some h) d) (add_mset (i, g) (links ?st + M))"
        using owned_drop [of d i h "add_mset (i, g) (links ?st + M)" i g] linked h assms(3)
        by (simp add: link_of_def add_mset_commute)
      then show ?thesis
        using assms(4) Some True h(1) links' by (auto simp: client_install_def Let_def attachment_drop_def)
    qed
  qed
  with ok rest show ?thesis by blast
qed

lemma owned_client_drop:
  assumes "owned d (links st + M)"
  shows "owned (client_drop st d) M \<and> dm_sessions (client_drop st d) = dm_sessions d \<and>
    dm_next_fence (client_drop st d) = dm_next_fence d \<and>
    dm_start_operations (client_drop st d) = dm_start_operations d"
proof -
  have drop: "owned (fold (\<lambda>(_, a) d. attachment_detach a d) as d) M \<and>
      dm_sessions (fold (\<lambda>(_, a) d. attachment_detach a d) as d) = dm_sessions d \<and>
      dm_next_fence (fold (\<lambda>(_, a) d. attachment_detach a d) as d) = dm_next_fence d \<and>
      dm_start_operations (fold (\<lambda>(_, a) d. attachment_detach a d) as d) = dm_start_operations d"
    if "owned d (entry_sum link_of as + M)" for as
    using that
  proof (induction as arbitrary: d)
    case (Cons e as)
    obtain i a where e: "e = (i, a)"
      by fastforce
    have "owned (attachment_detach a d) (entry_sum link_of as + M)"
      using Cons.prems owned_detach by (simp add: e ac_simps)
    then show ?case
      using Cons.IH by (simp add: e attachment_detach_def)
  qed simp
  show ?thesis
    using drop [OF assms [unfolded links_def]] by (simp add: client_drop_def)
qed

end
