(* ===== verification/Daemon_System.thy ===== *)
theory Daemon_System
  imports Daemon_Ownership
begin

text \<open>
  The whole daemon: a request of one client keeps the ownership of every other client, so the
  ownership holds along every interleaving of connections, requests, disconnections and child exits.
  What the clients may rely on follows: a session is in use exactly when a connected client holds a
  guard for it, an attached session outlives everything other clients do, what the blocking pool
  writes after the lock is released never reaches a successor, and the token of an applied start
  never starts anything again.
\<close>

section \<open>One request\<close>

text \<open>What a request keeps, seen from the client \<open>n\<close> beside the links \<open>M\<close> of the others.\<close>

definition request_keeps :: "u64 \<Rightarrow> link multiset \<Rightarrow> daemon \<Rightarrow> client_state \<Rightarrow> daemon \<Rightarrow> bool" where
  "request_keeps n M d st' d' \<longleftrightarrow> client_ok n st' \<and> owned d' (links st' + M) \<and> sessions_before d d'"

lemma client_latches [simp]:
  "links (st\<lparr>cs_conditional_start_refused := x\<rparr>) = links st" "links (st\<lparr>cs_conditional_attach_refused := y\<rparr>) = links st"
  "client_ok n (st\<lparr>cs_conditional_start_refused := x\<rparr>) = client_ok n st"
  "client_ok n (st\<lparr>cs_conditional_attach_refused := y\<rparr>) = client_ok n st"
  by (simp_all add: links_def client_ok_def)

lemma request_keeps_latches [simp]:
  "request_keeps n M d (st\<lparr>cs_conditional_start_refused := x\<rparr>) d' = request_keeps n M d st d'"
  "request_keeps n M d (st\<lparr>cs_conditional_attach_refused := y\<rparr>) d' = request_keeps n M d st d'"
  by (simp_all add: request_keeps_def)

lemma request_keeps_refl: "client_ok n st \<Longrightarrow> owned d (links st + M) \<Longrightarrow> request_keeps n M d st d"
  by (simp add: request_keeps_def)

lemma request_keeps_registry:
  "client_ok n st \<Longrightarrow> owned d' (links st + M) \<and> sessions_before d d' \<Longrightarrow> request_keeps n M d st d'"
  by (simp add: request_keeps_def)

lemma request_keeps_detach:
  assumes "client_ok n st" "owned d (links st + M)" "client_detach i st d = (st', d')"
  shows "request_keeps n M d st' d'"
  using owned_client_detach [OF assms] by (simp add: request_keeps_def sessions_before_same)

lemma request_keeps_start:
  assumes "client_ok n st" "owned d (links st + M)" "\<And>m. mset (sw_order sw m) = mset m"
    "request_start sw delivered rq restart_exited conditional st d = Some (disposition, effects, st', d')"
  shows "request_keeps n M d st' d'"
proof (cases conditional)
  case None
  then show ?thesis
    using assms owned_start_session [OF assms(2)] by (auto simp: request_start_def intro: request_keeps_registry)
next
  case (Some c)
  obtain token pre where c: "c = (token, pre)"
    by fastforce
  then show ?thesis
    using assms Some owned_conditional_start [OF assms(2)]
    by (auto simp: request_start_def replied_def intro: request_keeps_registry)
qed

lemma acquire_for_attach_session:
  assumes "acquire_for_attach i expected handoff n d = Inr (g, d')"
  obtains s where "map_of (dm_sessions d) i = Some s" "acquire_on_session s handoff n d = Inr (g, d')"
  using assms
  by (auto simp: acquire_for_attach_def acquire_session_attachment_def acquire_session_attachment_if_generation_def
      map_sum_def split: option.splits if_splits sum.splits)

lemma offered_by_case: "(case handoff of Some (Offer token) \<Rightarrow> Some token | _ \<Rightarrow> None) = offered_by handoff"
  by (cases handoff rule: offered_by.cases) auto

lemma request_keeps_attach:
  assumes "client_ok n st" "owned d (links st + M)"
    "request_attach delivered i expected handoff st d = (disposition, effects, st', d')"
  shows "request_keeps n M d st' d'"
proof (cases "cs_conditional_start_refused st = None \<and> (\<exists>g d1. acquire_for_attach i expected handoff (cs_owner_nonce st) d = Inr (g, d1))")
  case False
  then have "d' = d \<and> (st' = st \<or> (\<exists>b. st' = st\<lparr>cs_conditional_attach_refused := b\<rparr>))"
    using assms(3) by (auto simp: request_attach_def split: if_splits sum.splits session_attach_error.splits)
  then show ?thesis
    using request_keeps_refl [OF assms(1,2)] by auto
next
  case True
  then obtain g d1 where g: "acquire_for_attach i expected handoff (cs_owner_nonce st) d = Inr (g, d1)"
    by blast
  obtain s where s: "map_of (dm_sessions d) i = Some s" "acquire_on_session s handoff (cs_owner_nonce st) d = Inr (g, d1)"
    using acquire_for_attach_session [OF g] .
  note acquired = owned_acquire [OF assms(2) s]
  have nonce: "ag_owner_nonce g = n"
    using acquired(2) assms(1) by (simp add: client_ok_def)
  let ?a = "\<lparr>ca_guard = Some g, ca_offered_token = ag_offered_token g\<rparr>"
  obtain st1 d2 where install: "client_install i ?a st d1 = (st1, d2)"
    by fastforce
  have keeps: "request_keeps n M d st1 d2"
    using owned_install [OF assms(1) acquired(1) nonce install] acquired(5,6)
    by (simp add: request_keeps_def sessions_before_same)
  obtain st2 d3 where detach: "client_detach i st1 d2 = (st2, d3)"
    by fastforce
  have "request_keeps n M d st2 d3"
    using keeps request_keeps_detach [OF _ _ detach] sessions_before_trans unfolding request_keeps_def by blast
  moreover have "(st', d') = (st1, d2) \<or> (st', d') = (st2, d3)"
    using assms(3) True g install detach acquired(3)
    by (auto simp: request_attach_def offered_by_case Let_def split: if_splits)
  ultimately show ?thesis
    using keeps by auto
qed

text \<open>A kill removes a session only when nobody but the killer is attached to it.\<close>

lemma request_keeps_kill:
  assumes "client_ok n st" "owned d (links st + M)"
    "request_kill i generation st d = (disposition, effects, st', d')"
  shows "request_keeps n M d st' d'"
proof -
  obtain st1 d1 where own: "release_guard_for_own_kill i st d = (st1, d1)"
    by fastforce
  obtain taken d2 where taken: "take_session_if_generation i generation d1 = (taken, d2)"
    by fastforce
  note released = owned_own_kill [OF assms(1,2) own]
  have "owned d2 (links st1 + M) \<and> sessions_before d1 d2"
    using owned_take(1) [OF _ taken] released by blast
  moreover have "sessions_before d d1"
    using released by (simp add: sessions_before_same)
  moreover have "(st', d') = (st1, d2)"
    using assms(3) own taken by (auto simp: request_kill_def split: conditional_session_take.splits)
  ultimately show ?thesis
    using released sessions_before_trans unfolding request_keeps_def by blast
qed

lemma request_keeps_own_kill:
  assumes "client_ok n st" "owned d (links st + M)" "release_guard_for_own_kill i st d = (st', d')"
  shows "request_keeps n M d st' d'"
  using owned_own_kill [OF assms] by (simp add: request_keeps_def sessions_before_same)

lemma handle_request_keeps:
  assumes "client_ok n st" "owned d (links st + M)" "\<And>m. mset (sw_order sw m) = mset m"
    "handle_request to_vec sw delivered req st d = Some (disposition, effects, st', d')"
  shows "request_keeps n M d st' d'"
proof (cases "request_latched st req")
  case True
  then show ?thesis
    using assms request_keeps_refl by (simp add: handle_request_def)
next
  case False
  note same = request_keeps_refl [OF assms(1,2)] and registry = request_keeps_registry [OF assms(1)]
  note step = assms(4) [unfolded handle_request_def if_not_P [OF False]]
  show ?thesis
  proof (cases req)
    case (RqReserveStartOperation i token)
    then show ?thesis
      using step registry [OF owned_reserve [OF assms(2), of i token]] by (auto simp: replied_def split: prod.splits)
  next
    case (RqRetireStartOperation i token expected)
    then show ?thesis
      using step registry [OF owned_retire [OF assms(2), of i token expected]] by (auto simp: replied_def split: prod.splits)
  next
    case (RqOpenChannel i)
    then show ?thesis
      using step registry [OF owned_open_channel [OF assms(2), of i]] by (auto split: prod.splits)
  next
    case (RqJoinChannel i session)
    then show ?thesis
      using step registry [OF owned_join_channel [OF assms(2), of i session]] by (auto split: prod.splits)
  next
    case (RqPublish event)
    then show ?thesis
      using step registry owned_publish [OF assms(2)] by auto
  next
    case (RqCancelAttachmentHandoff i token instance_id)
    have "dm_sessions (cancel_session_attachment_handoff i token d) = dm_sessions d"
      "dm_next_fence (cancel_session_attachment_handoff i token d) = dm_next_fence d"
      by (simp_all add: cancel_session_attachment_handoff_def split: option.split)
    then have "request_keeps n M d st (cancel_session_attachment_handoff i token d)"
      using registry owned_cancel [OF assms(2)] sessions_before_same by blast
    then show ?thesis
      using step same RqCancelAttachmentHandoff by (auto simp: replied_def split: if_splits)
  next
    case (RqStartSession rq restart_exited conditional)
    then show ?thesis
      using step request_keeps_start [OF assms(1-3)] by simp
  next
    case (RqAttach i expected handoff)
    then show ?thesis
      using step request_keeps_attach [OF assms(1,2)] by simp
  next
    case (RqDetach i)
    then show ?thesis
      using step request_keeps_detach [OF assms(1,2)] by (auto split: prod.splits)
  next
    case (RqKill i generation)
    then show ?thesis
      using step request_keeps_kill [OF assms(1,2)] by simp
  qed (use step same in \<open>auto simp: replied_def split: option.splits\<close>)
qed

section \<open>Runs of the system\<close>

text \<open>Iterating the session map visits every entry once, in some order.\<close>

fun iterates_entries :: "system_event \<Rightarrow> bool" where
  "iterates_entries (EvRequest _ _ sw _) \<longleftrightarrow> (\<forall>m. mset (sw_order sw m) = mset m)"
| "iterates_entries _ \<longleftrightarrow> True"

definition all_links :: "daemon_system \<Rightarrow> link multiset" where
  "all_links sys = entry_sum (\<lambda>_ st. links st) (sy_clients sys)"

definition system_inv :: "daemon_system \<Rightarrow> bool" where
  "system_inv sys \<longleftrightarrow>
     distinct (map fst (sy_clients sys)) \<and>
     (\<forall>n st. map_of (sy_clients sys) n = Some st \<longrightarrow> client_ok n st \<and> n \<le> sy_nonce_counter sys) \<and>
     owned (sy_daemon sys) (all_links sys)"

lemma system_inv_new: "system_inv (new_system instance_id)"
  by (simp add: system_inv_def new_system_def all_links_def new_daemon_def owned_def registry_ok_def
      sessions_ok_def anchored_def accounted_def)

lemma all_links_split:
  assumes "system_inv sys" "map_of (sy_clients sys) n = Some st"
  shows "all_links sys = links st + entry_sum (\<lambda>_ st. links st) (map_remove n (sy_clients sys))"
  using assms entry_sum_remove [of "sy_clients sys" n st] by (simp add: system_inv_def all_links_def)

lemma system_inv_connect:
  assumes "system_inv sys" "allocate_attachment_owner_nonce (sy_nonce_counter sys) = Some (nonce, counter)"
  shows "system_inv (sys\<lparr>sy_nonce_counter := counter, sy_clients := sy_clients sys @ [(nonce, new_client nonce)]\<rparr>)"
proof -
  have fresh: "counter = nonce" "sy_nonce_counter sys < nonce"
    using assms(2) by (auto simp: allocate_attachment_owner_nonce_def checked_add_u64_one word_less_nat_alt)
  have "nonce \<notin> fst ` set (sy_clients sys)"
  proof
    assume "nonce \<in> fst ` set (sy_clients sys)"
    then obtain st where "map_of (sy_clients sys) nonce = Some st"
      by (metis map_of_eq_None_iff not_None_eq)
    with assms(1) have "nonce \<le> sy_nonce_counter sys"
      by (simp add: system_inv_def)
    with fresh(2) show False by simp
  qed
  moreover have "client_ok nonce (new_client nonce)" "links (new_client nonce) = {#}"
    by (simp_all add: client_ok_def new_client_def links_def)
  moreover have "n \<le> nonce" if "map_of (sy_clients sys) n = Some st" for n st
    using assms(1) fresh(2) that unfolding system_inv_def by (meson le_less_trans less_imp_le)
  ultimately show ?thesis
    using assms(1) fresh unfolding system_inv_def all_links_def
    by (auto simp: map_add_def split: option.splits if_splits)
qed

lemma system_inv_client:
  assumes "system_inv sys" "map_of (sy_clients sys) n = Some st"
    "request_keeps n (entry_sum (\<lambda>_ st. links st) (map_remove n (sy_clients sys))) (sy_daemon sys) st' d'"
  shows "system_inv (sys\<lparr>sy_daemon := d', sy_clients := map_insert n st' (sy_clients sys)\<rparr>)"
  using assms entry_sum_insert [of "sy_clients sys" "\<lambda>_ st. links st" n st']
  by (auto simp: system_inv_def all_links_def request_keeps_def)

lemma system_inv_disconnect:
  assumes "system_inv sys"
  shows "system_inv (disconnect n sys) \<and> sessions_before (sy_daemon sys) (sy_daemon (disconnect n sys))"
proof (cases "map_of (sy_clients sys) n")
  case None
  with assms show ?thesis by (simp add: disconnect_def)
next
  case (Some st)
  then have "owned (sy_daemon sys) (links st + entry_sum (\<lambda>_ st. links st) (map_remove n (sy_clients sys)))"
    using assms all_links_split [OF assms Some] by (simp add: system_inv_def)
  from owned_client_drop [OF this] show ?thesis
    using assms Some by (auto simp: disconnect_def system_inv_def all_links_def intro: sessions_before_same)
qed

lemma system_inv_split:
  assumes "system_inv sys" "map_of (sy_clients sys) n = Some st"
  shows "client_ok n st"
    "owned (sy_daemon sys) (links st + entry_sum (\<lambda>_ st. links st) (map_remove n (sy_clients sys)))"
  using assms all_links_split [OF assms] by (simp_all add: system_inv_def)

lemma system_step_keeps:
  assumes "system_inv sys" "iterates_entries e"
  shows "system_inv (system_step to_vec sys e) \<and>
    sessions_before (sy_daemon sys) (sy_daemon (system_step to_vec sys e))"
proof (cases e)
  case EvConnect
  then show ?thesis
    using assms(1) system_inv_connect [OF assms(1)] by (auto split: option.split)
next
  case (EvBeginKill n i)
  show ?thesis
  proof (cases "map_of (sy_clients sys) n")
    case None
    with assms(1) EvBeginKill show ?thesis by simp
  next
    case (Some st)
    obtain st' d' where own: "release_guard_for_own_kill i st (sy_daemon sys) = (st', d')"
      by fastforce
    have keeps: "request_keeps n (entry_sum (\<lambda>_ st. links st) (map_remove n (sy_clients sys))) (sy_daemon sys) st' d'"
      using request_keeps_own_kill [OF system_inv_split [OF assms(1) Some] own] .
    then show ?thesis
      using assms(1) system_inv_client [OF assms(1) Some keeps] EvBeginKill Some own by (auto simp: request_keeps_def)
  qed
next
  case (EvDisconnect n)
  then show ?thesis
    using system_inv_disconnect [OF assms(1)] by simp
next
  case (EvExit p code)
  then show ?thesis
    using assms(1) owned_latch_exit [of "sy_daemon sys" "all_links sys" p code] by (simp add: system_inv_def all_links_def)
next
  case (EvRequest n req sw delivered)
  show ?thesis
  proof (cases "\<exists>st disposition effects st' d'. map_of (sy_clients sys) n = Some st \<and>
      handle_request to_vec sw delivered req st (sy_daemon sys) = Some (disposition, effects, st', d')")
    case False
    then show ?thesis
      using assms(1) EvRequest by (auto split: option.split)
  next
    case True
    then obtain st disposition effects st' d' where st: "map_of (sy_clients sys) n = Some st"
      and req: "handle_request to_vec sw delivered req st (sy_daemon sys) = Some (disposition, effects, st', d')"
      by blast
    let ?sys = "sys\<lparr>sy_daemon := d', sy_clients := map_insert n st' (sy_clients sys)\<rparr>"
    have keeps: "request_keeps n (entry_sum (\<lambda>_ st. links st) (map_remove n (sy_clients sys))) (sy_daemon sys) st' d'"
      using handle_request_keeps [OF system_inv_split [OF assms(1) st] _ req] assms(2) EvRequest by simp
    have inv: "system_inv ?sys" "sessions_before (sy_daemon sys) d'"
      using system_inv_client [OF assms(1) st keeps] keeps by (simp_all add: request_keeps_def)
    moreover have "system_step to_vec sys e = (if disposition = CloseClient then disconnect n ?sys else ?sys)"
      using st req EvRequest by simp
    ultimately show ?thesis
      using system_inv_disconnect [OF inv(1), of n] sessions_before_trans by auto
  qed
qed

interpretation pty_daemon: monotone_stepping
  "\<lambda>sys e. if iterates_entries e then system_step to_vec sys e else sys" system_inv
  "\<lambda>sys sys'. sessions_before (sy_daemon sys) (sy_daemon sys')" for to_vec
  by unfold_locales (use system_step_keeps sessions_before_trans in auto)

lemma system_run_simps [simp]:
  "system_run to_vec [] sys = sys" "system_run to_vec (e # evs) sys = system_run to_vec evs (system_step to_vec sys e)"
  "system_run to_vec (evs @ evs') sys = system_run to_vec evs' (system_run to_vec evs sys)"
  by (simp_all add: system_run_def)

lemma system_run_pty_daemon:
  "list_all iterates_entries evs \<Longrightarrow> system_run to_vec evs sys = pty_daemon.run to_vec evs sys"
  by (induction evs arbitrary: sys) simp_all

lemma system_run_keeps:
  assumes "system_inv sys" "list_all iterates_entries evs"
  shows "system_inv (system_run to_vec evs sys)"
    "sessions_before (sy_daemon sys) (sy_daemon (system_run to_vec evs sys))"
  using assms pty_daemon.run_inv pty_daemon.run_before by (simp_all add: system_run_pty_daemon)

section \<open>Who is attached\<close>

text \<open>The guard client \<open>n\<close> holds for session \<open>i\<close>.\<close>

definition held_guard :: "daemon_system \<Rightarrow> u64 \<Rightarrow> string \<Rightarrow> attachment_guard option" where
  "held_guard sys n i =
     Option.bind (map_of (sy_clients sys) n) (\<lambda>st. Option.bind (map_of (cs_attachments st) i) ca_guard)"

lemma links_mem:
  assumes "client_ok n st"
  shows "(i, g) \<in># links st \<longleftrightarrow> (\<exists>a. map_of (cs_attachments st) i = Some a \<and> ca_guard a = Some g)"
proof -
  have "(i, g) \<in># link_of k a \<longleftrightarrow> k = i \<and> ca_guard a = Some g" for k a
    by (auto simp: link_of_def split: option.split)
  then have "(i, g) \<in># links st \<longleftrightarrow> (\<exists>a. (i, a) \<in> set (cs_attachments st) \<and> ca_guard a = Some g)"
    by (auto simp: links_def entry_sum_mem)
  with assms show ?thesis
    by (simp add: client_ok_def)
qed

lemma all_links_mem:
  assumes "system_inv sys"
  shows "(i, g) \<in># all_links sys \<longleftrightarrow> (\<exists>n. held_guard sys n i = Some g)"
proof -
  have "(i, g) \<in># all_links sys \<longleftrightarrow> (\<exists>n st. map_of (sy_clients sys) n = Some st \<and> (i, g) \<in># links st)"
    using assms unfolding all_links_def entry_sum_mem by (auto simp: system_inv_def)
  also have "\<dots> \<longleftrightarrow> (\<exists>n. held_guard sys n i = Some g)"
  proof -
    have "(i, g) \<in># links st \<longleftrightarrow> held_guard sys n i = Some g" if "map_of (sy_clients sys) n = Some st" for n st
      using links_mem [of n st i g] assms that by (auto simp: system_inv_def held_guard_def bind_eq_Some_conv)
    moreover have "\<exists>st. map_of (sy_clients sys) n = Some st" if "held_guard sys n i = Some g" for n
      using that by (auto simp: held_guard_def bind_eq_Some_conv)
    ultimately show ?thesis by blast
  qed
  finally show ?thesis .
qed

lemma held_guard_anchored:
  assumes "system_inv sys" "held_guard sys n i = Some g"
  shows "\<exists>s. map_of (dm_sessions (sy_daemon sys)) i = Some s \<and> ds_fence s = ag_fence g" "ag_owner_nonce g = n"
proof -
  have "(i, g) \<in># all_links sys"
    using assms all_links_mem by blast
  then show "\<exists>s. map_of (dm_sessions (sy_daemon sys)) i = Some s \<and> ds_fence s = ag_fence g"
    using assms(1) by (auto simp: system_inv_def owned_def anchored_def)
  show "ag_owner_nonce g = n"
    using assms by (fastforce simp: held_guard_def bind_eq_Some_conv system_inv_def client_ok_def)
qed

lemma in_use_iff_held:
  assumes "system_inv sys" "map_of (dm_sessions (sy_daemon sys)) i = Some s"
  shows "session_in_use (sy_daemon sys) s \<longleftrightarrow> (\<exists>n. held_guard sys n i \<noteq> None)"
  using in_use_iff_linked [of "sy_daemon sys" "all_links sys" i s] assms all_links_mem [OF assms(1)]
  by (auto simp: system_inv_def)

text \<open>
  C20: After any interleaving of connections, requests, disconnections and child exits, a registered
  session is in use exactly when a connected client holds a guard for it: a lost connection, a
  replaced attachment, a failed reply, an aborted handoff never leaves a session pinned, and no
  session a client is attached to looks free. Every held guard belongs to its client and to the
  session registered under its id, and the registry stays within 64 sessions, 64 channels and 4096
  ledger entries.
\<close>

theorem attachments_exact:
  assumes "list_all iterates_entries evs" "sys = system_run to_vec evs (new_system instance_id)"
  shows "(\<forall>i s. map_of (dm_sessions (sy_daemon sys)) i = Some s \<longrightarrow>
            (session_in_use (sy_daemon sys) s \<longleftrightarrow> (\<exists>n. held_guard sys n i \<noteq> None))) \<and>
         (\<forall>n i g. held_guard sys n i = Some g \<longrightarrow> ag_owner_nonce g = n \<and>
            (\<exists>s. map_of (dm_sessions (sy_daemon sys)) i = Some s \<and> ds_fence s = ag_fence g)) \<and>
         length (dm_sessions (sy_daemon sys)) \<le> 64 \<and> length (dm_channels (sy_daemon sys)) \<le> 64 \<and>
         length (dm_start_operations (sy_daemon sys)) \<le> 4096"
proof -
  have inv: "system_inv sys"
    using system_run_keeps(1) [OF system_inv_new assms(1)] assms(2) by simp
  then have "registry_ok (sy_daemon sys)"
    by (simp add: system_inv_def owned_def)
  then have "length (dm_sessions (sy_daemon sys)) \<le> 64 \<and> length (dm_channels (sy_daemon sys)) \<le> 64 \<and>
      length (dm_start_operations (sy_daemon sys)) \<le> 4096"
    by (simp add: registry_ok_def MAX_SESSIONS_def MAX_CHANNELS_def MAX_START_OPERATION_LEDGER_ENTRIES_def)
  then show ?thesis
    using in_use_iff_held [OF inv] held_guard_anchored [OF inv] by blast
qed

section \<open>Interleaving\<close>

text \<open>The events client \<open>n\<close> itself causes.\<close>

fun caused_by :: "u64 \<Rightarrow> system_event \<Rightarrow> bool" where
  "caused_by n (EvRequest m _ _ _) \<longleftrightarrow> m = n"
| "caused_by n (EvBeginKill m _) \<longleftrightarrow> m = n"
| "caused_by n (EvDisconnect m) \<longleftrightarrow> m = n"
| "caused_by n _ \<longleftrightarrow> False"

lemma others_keep_client_step:
  assumes "\<not> caused_by n e" "map_of (sy_clients sys) n = Some st"
  shows "map_of (sy_clients (system_step to_vec sys e)) n = Some st"
  using assms
  by (cases e) (auto simp: disconnect_def map_add_def Let_def split: option.split prod.split)

lemma others_keep_client:
  assumes "list_all (\<lambda>e. \<not> caused_by n e) evs" "map_of (sy_clients sys) n = Some st"
  shows "map_of (sy_clients (system_run to_vec evs sys)) n = Some st"
  using assms
  by (induction evs arbitrary: sys) (simp_all add: others_keep_client_step)

lemma held_session_survives:
  assumes "system_inv sys" "list_all iterates_entries evs" "sys' = system_run to_vec evs sys"
    "held_guard sys n i = Some g" "map_of (dm_sessions (sy_daemon sys)) i = Some s" "held_guard sys' n i = Some g"
  shows "\<exists>s'. map_of (dm_sessions (sy_daemon sys')) i = Some s' \<and> ds_fence s' = ds_fence s \<and>
    ds_generation s' = ds_generation s \<and> (ds_exited s \<noteq> None \<longrightarrow> ds_exited s' = ds_exited s) \<and>
    session_in_use (sy_daemon sys') s'"
proof -
  have keeps: "system_inv sys'" "sessions_before (sy_daemon sys) (sy_daemon sys')"
    using system_run_keeps [OF assms(1,2)] assms(3) by simp_all
  obtain s' where s': "map_of (dm_sessions (sy_daemon sys')) i = Some s'" "ds_fence s' = ag_fence g"
    using held_guard_anchored(1) [OF keeps(1) assms(6)] by blast
  have fence: "ds_fence s = ag_fence g"
    using held_guard_anchored(1) [OF assms(1,4)] assms(5) by auto
  then have "ds_fence s' < dm_next_fence (sy_daemon sys)"
    using session_fence_known [of "sy_daemon sys" "all_links sys" i s] assms(1,5) s'(2) by (simp add: system_inv_def)
  then have "ds_generation s' = ds_generation s \<and> (ds_exited s \<noteq> None \<longrightarrow> ds_exited s' = ds_exited s)"
    using keeps(2) s'(1) assms(5) unfolding sessions_before_def by force
  moreover have "session_in_use (sy_daemon sys') s'"
    using in_use_iff_held [OF keeps(1) s'(1)] assms(6) by auto
  ultimately show ?thesis
    using s' fence by auto
qed

text \<open>
  C21: A session a client is attached to survives everything other clients do. While the client is
  silent, kills, restarts, conditional starts, capacity evictions, handoffs and disconnections of any
  number of other clients, in any order, leave its session registered under the same id, as the same
  object with the same generation, still in use, and with any exit it had latched.
\<close>

theorem attached_session_survives:
  assumes "list_all iterates_entries (evs @ evs')" "sys = system_run to_vec evs (new_system instance_id)"
    "held_guard sys n i = Some g" "map_of (dm_sessions (sy_daemon sys)) i = Some s"
    "list_all (\<lambda>e. \<not> caused_by n e) evs'" "sys' = system_run to_vec evs' sys"
  shows "held_guard sys' n i = Some g \<and>
    (\<exists>s'. map_of (dm_sessions (sy_daemon sys')) i = Some s' \<and> ds_fence s' = ds_fence s \<and>
       ds_generation s' = ds_generation s \<and> (ds_exited s \<noteq> None \<longrightarrow> ds_exited s' = ds_exited s) \<and>
       session_in_use (sy_daemon sys') s')"
proof -
  have inv: "system_inv sys" and evs': "list_all iterates_entries evs'"
    using system_run_keeps(1) [OF system_inv_new, of evs] assms(1,2) by simp_all
  obtain st where st: "map_of (sy_clients sys) n = Some st"
    using assms(3) by (auto simp: held_guard_def bind_eq_Some_conv)
  then have "map_of (sy_clients sys') n = Some st"
    using others_keep_client [OF assms(5) st] assms(6) by simp
  then have held: "held_guard sys' n i = Some g"
    using assms(3) st by (simp add: held_guard_def)
  then show ?thesis
    using held_session_survives [OF inv evs' assms(6,3,4)] by blast
qed

section \<open>What a request reaches\<close>

text \<open>The sessions a request acts on outside the registry, by the address of their fence.\<close>

fun touches :: "nat \<Rightarrow> daemon_effect \<Rightarrow> bool" where
  "touches p (EffectWrite q _) \<longleftrightarrow> q = p"
| "touches p (EffectResize q _ _) \<longleftrightarrow> q = p"
| "touches p (EffectKill q) \<longleftrightarrow> q = p"
| "touches p _ \<longleftrightarrow> False"

text \<open>The session id and the generation a writing, resizing or killing request names.\<close>

fun named_generation :: "client_request \<Rightarrow> (string \<times> string) option" where
  "named_generation (RqWrite i generation _) = Some (i, generation)"
| "named_generation (RqResize i generation _ _) = Some (i, generation)"
| "named_generation (RqKill i generation) = Some (i, generation)"
| "named_generation _ = None"

lemma request_kill_taken:
  assumes "client_ok n st" "owned d (links st + M)"
    "request_kill i generation st d = (disposition, effects, st', d')" "e \<in> set effects"
  shows "\<exists>s. map_of (dm_sessions d) i = Some s \<and> ds_generation s = generation \<and> e = EffectKill (ds_fence s) \<and>
    (\<forall>g. (i, g) \<notin># M)"
proof -
  obtain st1 d1 where own: "release_guard_for_own_kill i st d = (st1, d1)"
    by fastforce
  obtain taken d2 where taken: "take_session_if_generation i generation d1 = (taken, d2)"
    by fastforce
  note released = owned_own_kill [OF assms(1,2) own]
  obtain s where "taken = Taken s" "e = EffectKill (ds_fence s)"
    using assms(3,4) own taken by (auto simp: request_kill_def split: conditional_session_take.splits)
  then show ?thesis
    using owned_take(2) [OF _ taken, of "links st1 + M" s] released by auto
qed

lemma reply_cases: "e \<in> set (case r of Inl _ \<Rightarrow> errors | Inr _ \<Rightarrow> replies) \<Longrightarrow> e \<in> set errors \<union> set replies"
  by (cases r) simp_all

lemma request_start_effects:
  "request_start sw delivered rq restart_exited conditional st d = Some (disposition, effects, st', d') \<Longrightarrow>
     e \<in> set effects \<Longrightarrow> \<not> touches p e"
  by (auto simp: request_start_def replied_def split: option.splits dest!: reply_cases)

lemma request_attach_effects:
  "request_attach delivered i expected handoff st d = (disposition, effects, st', d') \<Longrightarrow>
     e \<in> set effects \<Longrightarrow> \<not> touches p e"
  by (auto simp: request_attach_def Let_def split: if_splits sum.splits session_attach_error.splits option.splits prod.splits)

lemma handle_request_reaches:
  assumes "client_ok n st" "owned d (links st + M)"
    "handle_request to_vec sw delivered req st d = Some (disposition, effects, st', d')"
    "e \<in> set effects" "touches p e"
  shows "\<exists>i s. named_generation req = Some (i, ds_generation s) \<and> map_of (dm_sessions d) i = Some s \<and> ds_fence s = p \<and>
    (if e = EffectKill p then \<forall>g. (i, g) \<notin># M else ds_exited s = None)"
proof -
  have latch: "\<not> request_latched st req"
    using assms(3,4) by (auto simp: handle_request_def)
  note step = assms(3) [unfolded handle_request_def if_not_P [OF latch]]
  have live: "map_of (dm_sessions d) i = Some s \<and> ds_generation s = generation \<and> ds_exited s = None"
    if "live_target d i generation = Some s" for i generation s
    using that by (auto simp: live_target_def live_generation_def split: option.splits if_splits)
  show ?thesis
  proof (cases req)
    case (RqKill i generation)
    then obtain s where "map_of (dm_sessions d) i = Some s" "ds_generation s = generation" "e = EffectKill (ds_fence s)"
        "\<forall>g. (i, g) \<notin># M"
      using step request_kill_taken [OF assms(1,2), of i generation disposition effects st' d' e] assms(4)
      by (auto simp: RqKill)
    then show ?thesis
      using RqKill assms(5) by auto
  next
    case (RqWrite i generation bytes)
    then show ?thesis
      using step assms(4,5) live by (fastforce split: option.splits)
  next
    case (RqResize i generation cols rows)
    then show ?thesis
      using step assms(4,5) live by (fastforce split: option.splits)
  next
    case (RqStartSession rq restart_exited conditional)
    then show ?thesis
      using step request_start_effects [OF _ assms(4)] assms(5) by auto
  next
    case (RqAttach i expected handoff)
    then show ?thesis
      using step request_attach_effects [OF _ assms(4)] assms(5) by auto
  qed (use step assms(4,5) in \<open>auto simp: replied_def split: option.splits if_splits prod.splits dest!: reply_cases\<close>)
qed

text \<open>What a request may do to a PTY, seen from the state it was checked in.\<close>

definition admits :: "u64 \<Rightarrow> client_request \<Rightarrow> daemon_effect \<Rightarrow> nat \<Rightarrow> string \<Rightarrow> daemon_session \<Rightarrow> daemon_system \<Rightarrow> bool" where
  "admits n req e p i s sys \<longleftrightarrow>
     named_generation req = Some (i, ds_generation s) \<and>
     map_of (dm_sessions (sy_daemon sys)) i = Some s \<and> ds_fence s = p \<and>
     (if e = EffectKill p then \<forall>m. m \<noteq> n \<longrightarrow> held_guard sys m i = None else ds_exited s = None)"

lemma request_admits:
  assumes inv: "system_inv sys" and st: "map_of (sy_clients sys) n = Some st"
    and req: "handle_request to_vec sw delivered req st (sy_daemon sys) = Some (disposition, effects, st', d')"
    and e: "e \<in> set effects" "touches p e"
  shows "\<exists>i s. admits n req e p i s sys"
proof -
  let ?M = "entry_sum (\<lambda>_ st. links st) (map_remove n (sy_clients sys))"
  from handle_request_reaches [OF system_inv_split [OF inv st] req e] obtain i s where
    s: "named_generation req = Some (i, ds_generation s)" "map_of (dm_sessions (sy_daemon sys)) i = Some s" "ds_fence s = p"
    "if e = EffectKill p then \<forall>g. (i, g) \<notin># ?M else ds_exited s = None"
    by blast
  have "held_guard sys m i = None" if none: "\<forall>g. (i, g) \<notin># ?M" and "m \<noteq> n" for m
  proof (rule ccontr)
    assume "held_guard sys m i \<noteq> None"
    then obtain g where g: "held_guard sys m i = Some g"
      by blast
    let ?rest = "sys\<lparr>sy_clients := map_remove n (sy_clients sys)\<rparr>"
    have other: "held_guard ?rest m i = Some g"
      using g \<open>m \<noteq> n\<close> by (simp add: held_guard_def)
    then obtain st2 a where "map_of (map_remove n (sy_clients sys)) m = Some st2" "client_ok m st2"
      "map_of (cs_attachments st2) i = Some a" "ca_guard a = Some g"
      using inv by (auto simp: held_guard_def bind_eq_Some_conv system_inv_def split: if_splits)
    then have "(m, st2) \<in> set (map_remove n (sy_clients sys))" "(i, g) \<in># links st2"
      using links_mem by (blast dest: map_of_SomeD)+
    with none show False
      by (fastforce simp: entry_sum_mem)
  qed
  then show ?thesis
    using s by (auto simp: admits_def)
qed

text \<open>
  Writes and resizes are not done under the daemon lock. The request resolves the session to its PTY
  handle under the lock and releases it; the write or the ioctl is a job of the blocking pool that may
  run, or block, long after. A kill removes the session under the lock and signals the detached one
  afterwards. A job carries the handle it was given, here the address that identifies the session, and
  \<open>job_admitted\<close> records the state in which the request was checked. Jobs run in any order between any
  other events; \<open>io_ran\<close> keeps each with the state it ran in.
\<close>

record io_job =
  job_client :: u64
  job_request :: client_request
  job_effect :: daemon_effect
  job_admitted :: daemon_system

record io_system =
  io_daemon :: daemon_system
  io_jobs :: "io_job list"
  io_ran :: "(io_job \<times> daemon_system) list"

datatype io_event = IoDaemon system_event | IoRun nat

fun on_pty :: "daemon_effect \<Rightarrow> bool" where
  "on_pty (EffectWrite _ _) = True"
| "on_pty (EffectResize _ _ _) = True"
| "on_pty (EffectKill _) = True"
| "on_pty _ = False"

fun spawned_jobs :: "(channel_event \<Rightarrow> u8 list option) \<Rightarrow> daemon_system \<Rightarrow> system_event \<Rightarrow> io_job list" where
  "spawned_jobs to_vec sys (EvRequest n req sw delivered) =
     (case map_of (sy_clients sys) n of
        None \<Rightarrow> []
      | Some st \<Rightarrow>
          (case handle_request to_vec sw delivered req st (sy_daemon sys) of
             None \<Rightarrow> []
           | Some (_, effects, _, _) \<Rightarrow>
               map (\<lambda>e. \<lparr>job_client = n, job_request = req, job_effect = e, job_admitted = sys\<rparr>)
                 (filter on_pty effects)))"
| "spawned_jobs to_vec sys _ = []"

fun io_step :: "(channel_event \<Rightarrow> u8 list option) \<Rightarrow> io_system \<Rightarrow> io_event \<Rightarrow> io_system" where
  "io_step to_vec io (IoDaemon e) =
     io\<lparr>io_jobs := io_jobs io @ spawned_jobs to_vec (io_daemon io) e,
        io_daemon := system_step to_vec (io_daemon io) e\<rparr>"
| "io_step to_vec io (IoRun k) =
     (if k < length (io_jobs io)
      then io\<lparr>io_jobs := remove_at k (io_jobs io), io_ran := io_ran io @ [(io_jobs io ! k, io_daemon io)]\<rparr>
      else io)"

definition io_run :: "(channel_event \<Rightarrow> u8 list option) \<Rightarrow> io_event list \<Rightarrow> io_system \<Rightarrow> io_system" where
  "io_run to_vec evs io = fold (\<lambda>e s. io_step to_vec s e) evs io"

definition new_io :: "string \<Rightarrow> io_system" where
  "new_io instance_id = \<lparr>io_daemon = new_system instance_id, io_jobs = [], io_ran = []\<rparr>"

fun io_iterates :: "io_event \<Rightarrow> bool" where
  "io_iterates (IoDaemon e) \<longleftrightarrow> iterates_entries e"
| "io_iterates (IoRun _) \<longleftrightarrow> True"

definition job_ok :: "io_job \<Rightarrow> daemon_system \<Rightarrow> bool" where
  "job_ok job sys \<longleftrightarrow>
     system_inv (job_admitted job) \<and> sessions_before (sy_daemon (job_admitted job)) (sy_daemon sys) \<and>
     (\<forall>p. touches p (job_effect job) \<longrightarrow>
        (\<exists>i s. admits (job_client job) (job_request job) (job_effect job) p i s (job_admitted job)))"

definition io_inv :: "io_system \<Rightarrow> bool" where
  "io_inv io \<longleftrightarrow> system_inv (io_daemon io) \<and> (\<forall>job \<in> set (io_jobs io). job_ok job (io_daemon io)) \<and>
     (\<forall>(job, sys) \<in> set (io_ran io). job_ok job sys)"

lemma spawned_ok:
  assumes "system_inv sys" "job \<in> set (spawned_jobs to_vec sys e)"
  shows "job_ok job sys"
proof (cases e)
  case (EvRequest n req sw delivered)
  then obtain st disposition effects st' d' pty where "map_of (sy_clients sys) n = Some st"
      "handle_request to_vec sw delivered req st (sy_daemon sys) = Some (disposition, effects, st', d')"
      "pty \<in> set effects" "job = \<lparr>job_client = n, job_request = req, job_effect = pty, job_admitted = sys\<rparr>"
    using assms(2)
    by (cases "map_of (sy_clients sys) n"; cases "handle_request to_vec sw delivered req (the (map_of (sy_clients sys) n)) (sy_daemon sys)")
      auto
  with assms(1) request_admits [OF assms(1)] show ?thesis by (fastforce simp: job_ok_def)
qed (use assms in simp_all)

lemma job_ok_later:
  assumes "job_ok job sys" "sessions_before (sy_daemon sys) (sy_daemon sys')"
  shows "job_ok job sys'"
  using assms sessions_before_trans unfolding job_ok_def by blast

lemma io_step_inv:
  assumes inv: "io_inv io" and e: "io_iterates e"
  shows "io_inv (io_step to_vec io e)"
proof (cases e)
  case (IoDaemon ev)
  have keeps: "system_inv (system_step to_vec (io_daemon io) ev)"
    "sessions_before (sy_daemon (io_daemon io)) (sy_daemon (system_step to_vec (io_daemon io) ev))"
    using system_step_keeps [of "io_daemon io" ev to_vec] inv e IoDaemon by (simp_all add: io_inv_def)
  have "job_ok job (io_daemon io)" if "job \<in> set (io_jobs io) \<union> set (spawned_jobs to_vec (io_daemon io) ev)" for job
    using that inv spawned_ok by (auto simp: io_inv_def)
  then show ?thesis
    using inv keeps job_ok_later [OF _ keeps(2)] IoDaemon by (auto simp: io_inv_def)
next
  case (IoRun k)
  have "set (remove_at k (io_jobs io)) \<subseteq> set (io_jobs io)"
    by (auto simp: remove_at_def dest: in_set_takeD in_set_dropD)
  then show ?thesis
    using inv IoRun by (auto simp: io_inv_def)
qed

interpretation blocking_pool: stepping "\<lambda>io e. if io_iterates e then io_step to_vec io e else io" io_inv for to_vec
  by unfold_locales (simp add: io_step_inv)

lemma io_run_inv:
  assumes "list_all io_iterates evs" "io_inv io"
  shows "io_inv (io_run to_vec evs io)"
proof -
  have "io_run to_vec evs io = blocking_pool.run to_vec evs io"
    using assms(1) by (induction evs arbitrary: io) (simp_all add: io_run_def blocking_pool.run_def)
  then show ?thesis using blocking_pool.run_inv [OF assms(2)] by simp
qed

text \<open>An address given out once never identifies another session.\<close>

lemma address_not_reused:
  assumes "system_inv sys" "map_of (dm_sessions (sy_daemon sys)) i = Some s"
    and "sessions_before (sy_daemon sys) d'" "map_of (dm_sessions d') j = Some s'" "ds_fence s' = ds_fence s"
  shows "j = i \<and> ds_generation s' = ds_generation s"
proof -
  have own: "owned (sy_daemon sys) (all_links sys)" using assms(1) by (simp add: system_inv_def)
  have "ds_fence s' < dm_next_fence (sy_daemon sys)"
    using session_fence_known [OF own assms(2)] assms(5) by simp
  then obtain t where t: "map_of (dm_sessions (sy_daemon sys)) j = Some t" "ds_fence t = ds_fence s"
      "ds_generation t = ds_generation s'"
    using assms(3-5) unfolding sessions_before_def by metis
  with assms(2) own have "j = i" by (auto simp: owned_def registry_ok_def sessions_ok_def)
  with t assms(2) show ?thesis by simp
qed

text \<open>
  C22: A write, a resize or a kill signal goes to the session generation the request names and never to
  a successor, although it is carried out after the daemon lock has been released. Take any
  interleaving of the daemon's events with the jobs of the blocking pool, and any job that ran. When its
  request was checked, the job's handle was that of the session registered under the id the request
  names, with the generation it names; for a write or a resize that session had not exited at that
  time, and for a kill no other client was attached to it. When the job runs, the child may have exited
  and the session may be gone or replaced, but no other session registered then, the successor under
  the same id included, has the job's handle.
\<close>

theorem effects_reach_named_generation:
  assumes "list_all io_iterates evs" "io = io_run to_vec evs (new_io instance_id)"
    "(job, sys') \<in> set (io_ran io)" "touches p (job_effect job)" "sys = job_admitted job"
  shows "\<exists>i s. named_generation (job_request job) = Some (i, ds_generation s) \<and>
    map_of (dm_sessions (sy_daemon sys)) i = Some s \<and> ds_fence s = p \<and>
    (if job_effect job = EffectKill p then \<forall>m. m \<noteq> job_client job \<longrightarrow> held_guard sys m i = None
     else ds_exited s = None) \<and>
    (\<forall>j s'. map_of (dm_sessions (sy_daemon sys')) j = Some s' \<and> ds_fence s' = p \<longrightarrow>
       j = i \<and> ds_generation s' = ds_generation s)"
proof -
  have "io_inv (new_io instance_id)" by (simp add: io_inv_def new_io_def system_inv_new)
  then have "io_inv io" using io_run_inv [OF assms(1)] assms(2) by simp
  then have "job_ok job sys'" using assms(3) by (auto simp: io_inv_def)
  then obtain i s where inv: "system_inv sys" "sessions_before (sy_daemon sys) (sy_daemon sys')"
      and s: "admits (job_client job) (job_request job) (job_effect job) p i s sys"
    using assms(4,5) by (auto simp: job_ok_def)
  then have "j = i \<and> ds_generation s' = ds_generation s"
    if "map_of (dm_sessions (sy_daemon sys')) j = Some s'" "ds_fence s' = p" for j s'
    using address_not_reused [OF inv(1) _ inv(2) that(1), of i s] that(2) by (simp add: admits_def)
  with s show ?thesis unfolding admits_def by blast
qed

section \<open>Start operations\<close>

text \<open>The events that ask to forget the start operation \<open>token\<close>.\<close>

fun retires :: "string \<Rightarrow> system_event \<Rightarrow> bool" where
  "retires token (EvRequest _ (RqRetireStartOperation _ t _) _ _) \<longleftrightarrow> t = token"
| "retires token _ \<longleftrightarrow> False"

named_theorems ledger_simps \<open>operations that leave the ledger of start operations alone\<close>

lemma ledger_install [ledger_simps]: "dm_start_operations (install_session i cwd generation d) = dm_start_operations d"
  by (simp add: install_session_def)

lemma ledger_evict [ledger_simps]: "dm_start_operations (evict_one sw d) = dm_start_operations d"
  by (simp add: evict_one_def split: option.split)

lemma ledger_cancel [ledger_simps]: "dm_start_operations (cancel_session_attachment_handoff i t d) = dm_start_operations d"
  by (simp add: cancel_session_attachment_handoff_def split: option.split)

lemma ledger_open [ledger_simps]: "dm_start_operations (snd (open_channel i d)) = dm_start_operations d"
  by (simp add: open_channel_def)

lemma ledger_join [ledger_simps]: "dm_start_operations (snd (join_channel i session d)) = dm_start_operations d"
  by (simp add: join_channel_def split: option.split)

lemma ledger_take [ledger_simps]: "dm_start_operations (snd (take_session_if_generation i generation d)) = dm_start_operations d"
  by (simp add: take_session_if_generation_def split: option.split)

lemma ledger_detach [ledger_simps]: "dm_start_operations (snd (client_detach i st d)) = dm_start_operations d"
  by (simp add: client_detach_def attachment_detach_def split: option.split)

lemma ledger_own_kill [ledger_simps]: "dm_start_operations (snd (release_guard_for_own_kill i st d)) = dm_start_operations d"
  by (simp add: release_guard_for_own_kill_def split: option.split)

lemma ledger_client_install [ledger_simps]: "dm_start_operations (snd (client_install i a st d)) = dm_start_operations d"
  by (simp add: client_install_def Let_def attachment_drop_def attachment_detach_def split: option.split)

lemma ledger_client_drop [ledger_simps]: "dm_start_operations (client_drop st d) = dm_start_operations d"
proof -
  have "dm_start_operations (fold (\<lambda>(_, a) d. attachment_detach a d) as d) = dm_start_operations d" for as
    by (induction as arbitrary: d) (auto simp: attachment_detach_def)
  then show ?thesis by (simp add: client_drop_def)
qed

lemma ledger_disconnect [ledger_simps]:
  "dm_start_operations (sy_daemon (disconnect n sys)) = dm_start_operations (sy_daemon sys)"
  by (simp add: disconnect_def ledger_client_drop split: option.split)

lemma ledger_acquire:
  "acquire_on_session s handoff n d = Inr (g, d') \<Longrightarrow> dm_start_operations d' = dm_start_operations d"
  by (auto simp: acquire_on_session_def res_bind_eq_Inr)

lemma ledger_attach:
  assumes "request_attach delivered i expected handoff st d = (disposition, effects, st', d')"
  shows "dm_start_operations d' = dm_start_operations d"
proof (cases "cs_conditional_start_refused st = None \<and> (\<exists>g d1. acquire_for_attach i expected handoff (cs_owner_nonce st) d = Inr (g, d1))")
  case False
  then show ?thesis
    using assms by (auto simp: request_attach_def split: if_splits sum.splits session_attach_error.splits)
next
  case True
  then obtain g d1 where g: "acquire_for_attach i expected handoff (cs_owner_nonce st) d = Inr (g, d1)"
    by blast
  obtain s where "acquire_on_session s handoff (cs_owner_nonce st) d = Inr (g, d1)"
    using acquire_for_attach_session [OF g] .
  then have d1: "dm_start_operations d1 = dm_start_operations d"
    by (rule ledger_acquire)
  let ?a = "\<lparr>ca_guard = Some g, ca_offered_token = offered_by handoff\<rparr>"
  obtain st1 d2 where install: "client_install i ?a st d1 = (st1, d2)"
    by fastforce
  obtain st2 d3 where detach: "client_detach i st1 d2 = (st2, d3)"
    by fastforce
  have "d' = d2 \<or> d' = d3"
    using assms True g install detach by (auto simp: request_attach_def offered_by_case Let_def split: if_splits)
  then show ?thesis
    using d1 install detach ledger_client_install [of i ?a st d1] ledger_detach [of i st1 d2] by auto
qed

lemma ledger_kill:
  assumes "request_kill i generation st d = (disposition, effects, st', d')"
  shows "dm_start_operations d' = dm_start_operations d"
proof -
  obtain st1 d1 where own: "release_guard_for_own_kill i st d = (st1, d1)"
    by fastforce
  have "d' = snd (take_session_if_generation i generation d1)"
    using assms own by (auto simp: request_kill_def split: prod.splits conditional_session_take.splits)
  then show ?thesis
    using ledger_own_kill [of i st d] own by (simp add: ledger_take)
qed

lemma ledger_start:
  assumes "start_session sw rq restart_exited d = Some (res, d')"
  shows "dm_start_operations d' = dm_start_operations d"
  using assms
  by (auto simp: start_session_def spawn_session_def Let_def ledger_simps
      split: option.splits if_splits sum.splits list.splits)

lemma ledger_publish:
  assumes "publish to_vec event d = Some (res, d', sent)"
  shows "dm_start_operations d' = dm_start_operations d"
  using assms by (auto simp: publish_def split: option.splits if_splits)

text \<open>An applied entry stays until its token is retired.\<close>

lemma applied_entry_stays_request:
  assumes "map_of (dm_start_operations d) token = Some (EntryApplied i generation)"
    "handle_request to_vec sw delivered req st d = Some (disposition, effects, st', d')"
    "\<And>j expected. req \<noteq> RqRetireStartOperation j token expected"
  shows "map_of (dm_start_operations d') token = Some (EntryApplied i generation)"
proof (cases "request_latched st req")
  case True
  then show ?thesis
    using assms(1,2) by (simp add: handle_request_def)
next
  case False
  note step = assms(2) [unfolded handle_request_def if_not_P [OF False]]
  show ?thesis
  proof (cases req)
    case (RqStartSession rq restart_exited conditional)
    show ?thesis
    proof (cases conditional)
      case None
      then show ?thesis
        using step assms(1) RqStartSession ledger_start by (auto simp: request_start_def)
    next
      case (Some c)
      obtain t pre where c: "c = (t, pre)"
        by fastforce
      obtain outcome where start: "start_session_conditionally sw rq t pre d = Some (outcome, d')"
        using step RqStartSession Some c by (auto simp: request_start_def replied_def)
      from start show ?thesis
        by (cases rule: conditional_start_cases) (use assms(1) in auto)
    qed
  next
    case (RqReserveStartOperation j t)
    then show ?thesis
      using step assms(1)
      by (auto simp: replied_def reserve_start_operation_def split: prod.splits option.splits start_operation_entry.splits if_splits)
  next
    case (RqRetireStartOperation j t expected)
    then have "t \<noteq> token"
      using assms(3) by blast
    then show ?thesis
      using step assms(1) RqRetireStartOperation
      by (auto simp: replied_def retire_start_operation_def Let_def split: prod.splits if_splits)
  next
    case (RqAttach j expected handoff)
    then show ?thesis
      using step assms(1) ledger_attach by auto
  next
    case (RqKill j g)
    then show ?thesis
      using step assms(1) ledger_kill by auto
  next
    case (RqDetach j)
    then show ?thesis
      using step assms(1) ledger_detach [of j st d] by (auto split: prod.splits)
  next
    case (RqOpenChannel j)
    then show ?thesis
      using step assms(1) ledger_open [of j d] by (auto split: prod.splits)
  next
    case (RqJoinChannel j session)
    then show ?thesis
      using step assms(1) ledger_join [of j session d] by (auto split: prod.splits)
  next
    case (RqPublish event)
    then show ?thesis
      using step assms(1) ledger_publish by auto
  qed (use step assms(1) in \<open>auto simp: replied_def ledger_simps split: option.splits if_splits\<close>)
qed

lemma applied_entry_stays_step:
  assumes "map_of (dm_start_operations (sy_daemon sys)) token = Some (EntryApplied i generation)" "\<not> retires token e"
  shows "map_of (dm_start_operations (sy_daemon (system_step to_vec sys e))) token = Some (EntryApplied i generation)"
proof (cases e)
  case (EvRequest n req sw delivered)
  then have "req \<noteq> RqRetireStartOperation j token expected" for j expected
    using assms(2) by auto
  then show ?thesis
    using assms(1) applied_entry_stays_request [OF assms(1)] EvRequest
    by (auto simp: ledger_simps Let_def split: option.split)
next
  case (EvBeginKill n i)
  then show ?thesis
    using assms(1) ledger_own_kill [of i _ "sy_daemon sys"] by (auto split: option.split prod.split) (metis snd_conv)
qed (use assms(1) in \<open>auto simp: ledger_simps latch_exit_def split: option.split\<close>)

lemma applied_entry_stays:
  assumes "map_of (dm_start_operations (sy_daemon sys)) token = Some (EntryApplied i generation)"
    "list_all (\<lambda>e. \<not> retires token e) evs"
  shows "map_of (dm_start_operations (sy_daemon (system_run to_vec evs sys))) token = Some (EntryApplied i generation)"
  using assms
  by (induction evs arbitrary: sys) (simp_all add: applied_entry_stays_step)

lemma applied_entry_of_reply:
  assumes "map_of (sy_clients sys) n = Some st"
    "handle_request to_vec sw delivered (RqStartSession rq restart_exited (Some (token, pre))) st (sy_daemon sys) =
       Some (disposition, effects, st', d')"
    "ReplyConditionalStart (StartApplied generation) \<in> set effects"
  shows "map_of (dm_start_operations d') token = Some (EntryApplied (rq_id rq) generation)"
proof -
  have "start_session_conditionally sw rq token pre (sy_daemon sys) = Some (StartApplied generation, d')"
    using assms by (auto simp: handle_request_def request_start_def replied_def split: if_splits)
  then show ?thesis
    by (cases rule: conditional_start_cases) auto
qed

text \<open>
  C23: A start operation is applied at most once. Once a client has been told that its token started
  the generation, then until someone retires the token, whatever connects, crashes, kills or starts
  in between, a start with this token changes nothing in the daemon: it returns, no session is
  created or replaced, and for the same session id the answer is the generation that was started
  before, even when that session has exited or was removed since. A lookup reports it as applied.
\<close>

theorem start_applied_at_most_once:
  assumes "map_of (sy_clients sys) n = Some st"
    "handle_request to_vec sw delivered (RqStartSession rq restart_exited (Some (token, pre))) st (sy_daemon sys) =
       Some (disposition, effects, st', d')"
    "ReplyConditionalStart (StartApplied generation) \<in> set effects"
    "list_all (\<lambda>e. \<not> retires token e) evs"
    "sys' = system_run to_vec evs
       (system_step to_vec sys (EvRequest n (RqStartSession rq restart_exited (Some (token, pre))) sw delivered))"
  shows "(\<exists>lifecycle. lookup_start_operation (sy_daemon sys') (rq_id rq) token = StatusApplied generation lifecycle) \<and>
    start_session_conditionally sw2 rq2 token pre2 (sy_daemon sys') =
      Some (if rq_id rq2 = rq_id rq then StartAlreadyApplied generation else StartRefused PreconditionFailed, sy_daemon sys')"
proof -
  have "map_of (dm_start_operations d') token = Some (EntryApplied (rq_id rq) generation)"
    using applied_entry_of_reply [OF assms(1-3)] .
  then have "map_of (dm_start_operations (sy_daemon (system_step to_vec sys
      (EvRequest n (RqStartSession rq restart_exited (Some (token, pre))) sw delivered)))) token =
      Some (EntryApplied (rq_id rq) generation)"
    using assms(1,2) by (simp add: Let_def ledger_simps)
  then have "map_of (dm_start_operations (sy_daemon sys')) token = Some (EntryApplied (rq_id rq) generation)"
    using applied_entry_stays [OF _ assms(4)] assms(5) by simp
  then show ?thesis
    by (simp add: lookup_start_operation_def start_session_conditionally_def Let_def)
qed

section \<open>A concrete run\<close>

text \<open>
  Two clients connect; the first starts a session through a reserved token and attaches it, offering
  a handoff.
\<close>

definition demo_world :: spawn_world where
  "demo_world =
     \<lparr>sw_fs = \<lparr>fs_is_dir = (\<lambda>_. True), fs_metadata = (\<lambda>_. None)\<rparr>, sw_spawned = True, sw_uuids = [''a'', ''b''],
      sw_order = (\<lambda>m. m)\<rparr>"

definition run_start_request :: start_request where
  "run_start_request =
     \<lparr>rq_id = ''s'', rq_cwd = [], rq_command = ''sh'', rq_args = [], rq_child_environment = None, rq_cols = 80, rq_rows = 24\<rparr>"

definition run_begin :: "system_event list" where
  "run_begin = [EvConnect, EvConnect, EvRequest 1 (RqReserveStartOperation ''s'' ''k'') demo_world (\<lambda>_. True)]"

definition run_attach :: "system_event list" where
  "run_attach =
     [EvRequest 1 (RqStartSession run_start_request False (Some (''k'', PreAbsent None))) demo_world (\<lambda>_. True),
      EvRequest 1 (RqAttach ''s'' None (Some (Offer ''t''))) demo_world (\<lambda>_. True)]"

definition demo_guard :: attachment_guard where
  "demo_guard = \<lparr>ag_fence = 0, ag_offered_token = Some ''t'', ag_owner_nonce = 1, ag_active = True\<rparr>"

definition demo_started :: daemon where
  "demo_started =
     \<lparr>dm_sessions = [(''s'', new_session ''s'' [] ''a'' 0)], dm_channels = [],
      dm_start_operations = [(''k'', EntryApplied ''s'' ''a'')], dm_instance_id = ''d'',
      dm_fences = (\<lambda>_. new_fence), dm_next_fence = 1\<rparr>"

lemma demo_inputs: "check_spawn_inputs (sw_fs demo_world) run_start_request = Inr ()"
  by (simp add: check_spawn_inputs_def demo_world_def run_start_request_def has_nul_def validate_child_environment_def
      normalize_dims_def fits_snapshot_budget_def clamp_dim_def usize_max_def MAX_SNAPSHOT_CELLS_def
      GRID_MAX_DIMENSION_def MAX_LINE_BYTES_def SNAPSHOT_HEADER_BYTES_def WORST_CASE_FRAME_HYPERLINK_BYTES_def
      WORST_CASE_CELL_BYTES_def MAX_TERMINAL_LINK_CELLS_PER_FRAME_def MAX_TERMINAL_URL_BYTES_def)

lemma run_iterates: "list_all iterates_entries (run_begin @ run_attach)"
  by (simp add: run_begin_def run_attach_def demo_world_def)

lemma run_begin_state:
  "system_run to_vec run_begin (new_system ''d'') =
     \<lparr>sy_daemon = (new_daemon ''d'')\<lparr>dm_start_operations := [(''k'', EntryReserved ''s'')]\<rparr>,
      sy_clients = [(1, new_client 1), (2, new_client 2)], sy_nonce_counter = 2\<rparr>"
  by (simp add: run_begin_def new_system_def new_daemon_def new_client_def
      allocate_attachment_owner_nonce_def checked_add_u64_def handle_request_def request_latched_def
      reserve_start_operation_def valid_start_operation_id_def MAX_START_OPERATION_SESSION_ID_BYTES_def
      MAX_START_OPERATION_LEDGER_ENTRIES_def replied_def map_insert_def)

lemma run_start_result:
  "handle_request to_vec demo_world (\<lambda>_. True) (RqStartSession run_start_request False (Some (''k'', PreAbsent None)))
     (new_client 1) ((new_daemon ''d'')\<lparr>dm_start_operations := [(''k'', EntryReserved ''s'')]\<rparr>) =
   Some (Continue, [ReplyConditionalStart (StartApplied ''a'')], new_client 1, demo_started)"
  using demo_inputs
  by (simp add: handle_request_def request_latched_def new_client_def request_start_def start_session_conditionally_def
      check_precondition_def run_start_request_def demo_world_def candidate_generation_def install_session_def new_daemon_def
      MAX_SESSIONS_def map_insert_def replied_def demo_started_def Let_def fun_upd_idem)

definition demo_attached :: client_state where
  "demo_attached =
     (new_client 1)\<lparr>cs_attachments := [(''s'', \<lparr>ca_guard = Some demo_guard, ca_offered_token = Some ''t''\<rparr>)]\<rparr>"

definition demo_system :: daemon_system where
  "demo_system =
     \<lparr>sy_daemon = demo_started\<lparr>dm_fences := (\<lambda>_. new_fence)(0 :=
        \<lparr>af_active_guards = 1, af_pending_handoffs = [(''t'', 1)], af_retired_handoffs = []\<rparr>)\<rparr>,
      sy_clients = [(1, demo_attached), (2, new_client 2)], sy_nonce_counter = 2\<rparr>"

lemma run_attach_result:
  "handle_request to_vec demo_world (\<lambda>_. True) (RqAttach ''s'' None (Some (Offer ''t''))) (new_client 1) demo_started =
   Some (Continue, [ReplyGrid ''s'' 0], demo_attached, sy_daemon demo_system)"
  by (simp add: handle_request_def request_latched_def new_client_def request_attach_def acquire_for_attach_def
      acquire_session_attachment_def acquire_on_session_def acquire_attachment_def admit_handoff_def
      checked_add_usize_def usize_max_def demo_started_def demo_system_def demo_attached_def demo_guard_def
      new_session_def new_fence_def is_retired_def MAX_ATTACHMENT_HANDOFF_TOKENS_def client_install_def Let_def map_insert_def)

lemma demo_system_state: "system_run to_vec (run_begin @ run_attach) (new_system ''d'') = demo_system"
  by (simp add: run_begin_state run_attach_def run_start_result run_attach_result map_insert_def)
    (simp add: demo_system_def)

lemma demo_held: "held_guard demo_system 1 ''s'' = Some demo_guard"
  by (simp add: held_guard_def demo_system_def demo_attached_def)

lemma demo_session: "map_of (dm_sessions (sy_daemon demo_system)) ''s'' = Some (new_session ''s'' [] ''a'' 0)"
  by (simp add: demo_system_def demo_started_def)

theorem attachments_exact_witness:
  "session_in_use (sy_daemon demo_system) (new_session ''s'' [] ''a'' 0)"
  using attachments_exact [OF run_iterates refl, of "\<lambda>_. None" "''d''"] demo_held demo_session
  unfolding demo_system_state by blast

theorem attached_session_survives_witness:
  "\<exists>s. map_of (dm_sessions (sy_daemon (system_run (\<lambda>_. None)
      [EvRequest 2 (RqKill ''s'' ''a'') demo_world (\<lambda>_. True), EvExit 0 None] demo_system))) ''s'' = Some s \<and>
    ds_generation s = ''a''"
proof -
  let ?evs = "[EvRequest 2 (RqKill ''s'' ''a'') demo_world (\<lambda>_. True), EvExit 0 None]"
  have "list_all iterates_entries ((run_begin @ run_attach) @ ?evs)"
    using run_iterates by (simp add: demo_world_def)
  moreover have "list_all (\<lambda>e. \<not> caused_by 1 e) ?evs"
    by simp
  ultimately show ?thesis
    using attached_session_survives [OF _ demo_system_state [symmetric] demo_held demo_session _ refl, of ?evs "\<lambda>_. None"]
    by (auto simp: new_session_def)
qed

text \<open>A client asks to write, and the child exits before the write runs.\<close>

definition demo_race :: "io_event list" where
  "demo_race = map IoDaemon (run_begin @ run_attach) @
     [IoDaemon (EvRequest 2 (RqWrite ''s'' ''a'' ''x'') demo_world (\<lambda>_. True)), IoDaemon (EvExit 0 None), IoRun 0]"

definition demo_job :: io_job where
  "demo_job = \<lparr>job_client = 2, job_request = RqWrite ''s'' ''a'' ''x'', job_effect = EffectWrite 0 ''x'',
     job_admitted = demo_system\<rparr>"

lemma io_run_simps [simp]:
  "io_run to_vec [] io = io" "io_run to_vec (e # evs) io = io_run to_vec evs (io_step to_vec io e)"
  "io_run to_vec (evs @ evs') io = io_run to_vec evs' (io_run to_vec evs io)"
  by (simp_all add: io_run_def)

lemma io_run_quiet:
  assumes "system_inv sys" "list_all iterates_entries evs"
    and "list_all (\<lambda>e. case e of EvRequest _ req _ _ \<Rightarrow> named_generation req = None | _ \<Rightarrow> True) evs"
  shows "io_run to_vec (map IoDaemon evs) \<lparr>io_daemon = sys, io_jobs = [], io_ran = []\<rparr> =
     \<lparr>io_daemon = system_run to_vec evs sys, io_jobs = [], io_ran = []\<rparr>"
  using assms
proof (induction evs arbitrary: sys)
  case (Cons e evs)
  have "job \<notin> set (spawned_jobs to_vec sys e)" for job
  proof
    assume job: "job \<in> set (spawned_jobs to_vec sys e)"
    then obtain p where "touches p (job_effect job)" "named_generation (job_request job) = None"
      using Cons.prems(3) by (cases e) (auto split: option.splits elim!: on_pty.elims)
    then show False
      using spawned_ok [OF Cons.prems(1) job] by (auto simp: job_ok_def admits_def)
  qed
  then have "spawned_jobs to_vec sys e = []" by (cases "spawned_jobs to_vec sys e") auto
  then show ?case
    using Cons.IH [of "system_step to_vec sys e"] Cons.prems system_step_keeps [of sys e to_vec] by simp
qed simp

lemma demo_race_ran:
  "io_ran (io_run (\<lambda>_. None) demo_race (new_io ''d'')) =
     [(demo_job, system_step (\<lambda>_. None) demo_system (EvExit 0 None))]"
proof -
  have request: "handle_request (\<lambda>_. None) demo_world (\<lambda>_. True) (RqWrite ''s'' ''a'' ''x'') (new_client 2) (sy_daemon demo_system) =
      Some (Continue, [EffectWrite 0 ''x''], new_client 2, sy_daemon demo_system)"
    by (simp add: handle_request_def request_latched_def new_client_def live_target_def demo_session live_generation_def
        new_session_def)
  have client: "map_of (sy_clients demo_system) 2 = Some (new_client 2)"
    "map_insert 2 (new_client 2) (sy_clients demo_system) = sy_clients demo_system"
    by (simp_all add: demo_system_def map_insert_def)
  have "list_all (\<lambda>e. case e of EvRequest _ req _ _ \<Rightarrow> named_generation req = None | _ \<Rightarrow> True) (run_begin @ run_attach)"
    by (simp add: run_begin_def run_attach_def)
  from io_run_quiet [OF system_inv_new run_iterates this, of "\<lambda>_. None" "''d''"]
  have "io_run (\<lambda>_. None) (map IoDaemon (run_begin @ run_attach)) (new_io ''d'') =
      \<lparr>io_daemon = demo_system, io_jobs = [], io_ran = []\<rparr>"
    unfolding new_io_def demo_system_state .
  then show ?thesis
    unfolding demo_race_def io_run_simps(3) by (simp add: request client demo_job_def remove_at_def)
qed

theorem effects_reach_named_generation_witness:
  "\<exists>s. map_of (dm_sessions (sy_daemon demo_system)) ''s'' = Some s \<and> ds_generation s = ''a'' \<and> ds_exited s = None \<and>
     (\<forall>j s'. map_of (dm_sessions (sy_daemon (system_step (\<lambda>_. None) demo_system (EvExit 0 None)))) j = Some s' \<and>
        ds_fence s' = 0 \<longrightarrow> j = ''s'' \<and> ds_generation s' = ''a'')"
proof -
  have "list_all io_iterates demo_race"
    using run_iterates by (auto simp: demo_race_def list_all_iff demo_world_def)
  from effects_reach_named_generation [OF this refl, of demo_job _ "\<lambda>_. None" "''d''" 0 demo_system]
  show ?thesis
    unfolding demo_race_ran by (auto simp: demo_job_def)
qed

definition demo_later :: daemon_system where
  "demo_later =
     system_run (\<lambda>_. None) [EvDisconnect 1, EvExit 0 None]
       (system_step (\<lambda>_. None) (system_run (\<lambda>_. None) run_begin (new_system ''d''))
          (EvRequest 1 (RqStartSession run_start_request False (Some (''k'', PreAbsent None))) demo_world (\<lambda>_. True)))"

theorem start_applied_at_most_once_witness:
  "start_session_conditionally demo_world run_start_request ''k'' (PreExitedGeneration ''a'') (sy_daemon demo_later) =
     Some (StartAlreadyApplied ''a'', sy_daemon demo_later)"
proof -
  let ?sys = "system_run (\<lambda>_. None) run_begin (new_system ''d'')"
  have client: "map_of (sy_clients ?sys) 1 = Some (new_client 1)"
    by (simp add: run_begin_state)
  have reply: "handle_request (\<lambda>_. None) demo_world (\<lambda>_. True) (RqStartSession run_start_request False (Some (''k'', PreAbsent None)))
      (new_client 1) (sy_daemon ?sys) = Some (Continue, [ReplyConditionalStart (StartApplied ''a'')], new_client 1, demo_started)"
    by (simp add: run_begin_state run_start_result)
  show ?thesis
    using start_applied_at_most_once [OF client reply _ _ demo_later_def, of "''a''" demo_world run_start_request] by simp
qed

end
