(* ===== verification/Text_Selection.thy ===== *)
theory Text_Selection
  imports Renderer_Sync
begin

text \<open>
  Selecting text in the renderer (\<^verbatim>\<open>maestro-renderer/src/terminal_selection.rs\<close>): the frozen source of a
  selection, its projection on a scrolled viewport, and the word and logical-line units. Row and
  column numbers are naturals; where the code converts to \<^verbatim>\<open>i64\<close> the range is checked by \<open>try_i64\<close>.
\<close>

section \<open>The source of a selection\<close>

record cell_pos =
  cp_col :: nat
  cp_row :: nat

record scrolled_selection =
  ss_grid :: grid_snapshot
  ss_served_offset :: u32
  ss_origin :: cell_pos
  ss_live_alt_screen :: bool

definition try_i64 :: "int \<Rightarrow> int option" where
  "try_i64 x = (if - (2 ^ 63) \<le> x \<and> x < 2 ^ 63 then Some x else None)"

text \<open>\<^verbatim>\<open>rows_cells.get(row)?.get(col)\<close>.\<close>

definition cell_at :: "cells \<Rightarrow> nat \<Rightarrow> nat \<Rightarrow> cell option" where
  "cell_at rows row col =
     (if row < length rows \<and> col < length (rows ! row) then Some (rows ! row ! col) else None)"

definition selection_matches :: "scrolled_selection \<Rightarrow> grid_snapshot \<Rightarrow> bool" where
  "selection_matches sel grid \<longleftrightarrow>
     gs_generation (ss_grid sel) = gs_generation grid \<and> gs_revision (ss_grid sel) = gs_revision grid \<and>
     gs_cols (ss_grid sel) = gs_cols grid"

definition local_pos :: "scrolled_selection \<Rightarrow> cell_pos \<Rightarrow> cell_pos option" where
  "local_pos sel pos =
     (if cp_col (ss_origin sel) \<le> cp_col pos \<and> cp_row (ss_origin sel) \<le> cp_row pos
      then Some \<lparr>cp_col = cp_col pos - cp_col (ss_origin sel), cp_row = cp_row pos - cp_row (ss_origin sel)\<rparr>
      else None)"

text \<open>\<^verbatim>\<open>(a.row, a.col) <= (b.row, b.col)\<close>.\<close>

definition pos_le :: "cell_pos \<Rightarrow> cell_pos \<Rightarrow> bool" where
  "pos_le a b \<longleftrightarrow> cp_row a < cp_row b \<or> cp_row a = cp_row b \<and> cp_col a \<le> cp_col b"

definition shifted_row :: "scrolled_selection \<Rightarrow> u32 \<Rightarrow> cell_pos \<Rightarrow> int option" where
  "shifted_row sel offset p =
     Option.bind (try_i64 (int (cp_row p))) (\<lambda>row. try_i64 (row + (uint offset - uint (ss_served_offset sel))))"

definition project ::
    "scrolled_selection \<Rightarrow> cell_pos \<Rightarrow> cell_pos \<Rightarrow> grid_snapshot \<Rightarrow> u32 \<Rightarrow> (cell_pos \<times> cell_pos) option" where
  "project sel a b grid offset =
     (if \<not> selection_matches sel grid \<or> gs_rows grid = 0 \<or> gs_cols grid = 0 then None
      else Option.bind (local_pos sel a) (\<lambda>la. Option.bind (local_pos sel b) (\<lambda>lb.
        let (start, stop) = (if pos_le la lb then (la, lb) else (lb, la)) in
        Option.bind (shifted_row sel offset start) (\<lambda>start_row.
        Option.bind (shifted_row sel offset stop) (\<lambda>end_row.
        Option.bind (try_i64 (int (gs_rows grid - 1))) (\<lambda>last_row.
          if end_row < 0 \<or> last_row < start_row then None
          else Some
            (\<lparr>cp_col = cp_col (ss_origin sel) + (if start_row < 0 then 0 else cp_col start),
              cp_row = cp_row (ss_origin sel) + nat (max start_row 0)\<rparr>,
             \<lparr>cp_col = cp_col (ss_origin sel) + (if last_row < end_row then gs_cols grid - 1 else cp_col stop),
              cp_row = cp_row (ss_origin sel) + nat (min end_row last_row)\<rparr>)))))))"

definition source_position :: "scrolled_selection \<Rightarrow> cell_pos \<Rightarrow> grid_snapshot \<Rightarrow> u32 \<Rightarrow> cell_pos option" where
  "source_position sel pos grid offset =
     (if \<not> selection_matches sel grid then None
      else Option.bind (local_pos sel pos) (\<lambda>p.
        if cell_at (gs_rows_cells grid) (cp_row p) (cp_col p) = None then None
        else Option.bind (try_i64 (int (cp_row p))) (\<lambda>r.
          let row = r + uint (ss_served_offset sel) - uint offset in
          if row < 0 \<or> cell_at (gs_rows_cells (ss_grid sel)) (nat row) (cp_col p) = None then None
          else Some \<lparr>cp_col = cp_col (ss_origin sel) + cp_col p, cp_row = cp_row (ss_origin sel) + nat row\<rparr>)))"

section \<open>Logical lines\<close>

text \<open>The two loops over the wrap metadata; \<open>None\<close> is the early return of the visual row.\<close>

fun line_start :: "row_copy list \<Rightarrow> nat \<Rightarrow> nat option" where
  "line_start md start =
     (case starts_line (md ! start) of
        Some True \<Rightarrow> Some start
      | Some False \<Rightarrow>
          (case start of
             0 \<Rightarrow> None
           | Suc p \<Rightarrow> if soft_wrap (md ! p) then line_start md p else None)
      | None \<Rightarrow> None)"

declare line_start.simps [simp del]

function line_end :: "row_copy list \<Rightarrow> nat \<Rightarrow> nat option" where
  "line_end md e =
     (if soft_wrap (md ! e)
      then if length md \<le> Suc e \<or> starts_line (md ! Suc e) \<noteq> Some False then None else line_end md (Suc e)
      else Some e)"
  by pat_completeness auto

termination
  by (relation "measure (\<lambda>(md, e). length md - e)") auto

declare line_end.simps [simp del]

definition logical_line_range :: "grid_snapshot \<Rightarrow> cell_pos \<Rightarrow> (cell_pos \<times> cell_pos) option" where
  "logical_line_range grid pos =
     (if cell_at (gs_rows_cells grid) (cp_row pos) (cp_col pos) = None then None
      else
        let visual = (\<lparr>cp_col = 0, cp_row = cp_row pos\<rparr>,
                      \<lparr>cp_col = length (gs_rows_cells grid ! cp_row pos) - 1, cp_row = cp_row pos\<rparr>) in
        case gs_row_copy grid of
          None \<Rightarrow> Some visual
        | Some md \<Rightarrow>
            if \<not> (gs_rows grid = length (gs_rows_cells grid) \<and>
                  list_all (\<lambda>row. length row = gs_cols grid) (gs_rows_cells grid) \<and>
                  row_copy_cells_valid (gs_rows_cells grid) (Some md))
            then Some visual
            else case (line_start md (cp_row pos), line_end md (cp_row pos)) of
              (Some start, Some stop) \<Rightarrow>
                Some (\<lparr>cp_col = 0, cp_row = start\<rparr>, \<lparr>cp_col = gs_cols grid - 1, cp_row = stop\<rparr>)
            | _ \<Rightarrow> Some visual)"

section \<open>Words\<close>

datatype word_class = ClassWord | ClassSpace | ClassPunctuation

text \<open>\<^verbatim>\<open>str::chars().next()\<close> on the UTF-8 bytes of a cell.\<close>

definition first_char :: "string \<Rightarrow> nat option" where
  "first_char cell_bytes =
     (case map of_char cell_bytes :: nat list of
        [] \<Rightarrow> None
      | b # bs \<Rightarrow>
          let tail = (\<lambda>i. bs ! i mod 64) in
          if b < 128 then Some b
          else if b < 224 then Some ((b mod 32) * 64 + tail 0)
          else if b < 240 then Some ((b mod 16) * 4096 + tail 0 * 64 + tail 1)
          else Some ((b mod 8) * 262144 + tail 0 * 4096 + tail 1 * 64 + tail 2))"

text \<open>\<^verbatim>\<open>char::is_whitespace\<close>.\<close>

definition is_whitespace :: "nat \<Rightarrow> bool" where
  "is_whitespace c \<longleftrightarrow>
     9 \<le> c \<and> c \<le> 13 \<or> c \<in> {0x20, 0x85, 0xA0, 0x1680, 0x2028, 0x2029, 0x202F, 0x205F, 0x3000} \<or>
     0x2000 \<le> c \<and> c \<le> 0x200A"

text \<open>\<open>alphanumeric\<close> is the Unicode table behind \<^verbatim>\<open>char::is_alphanumeric\<close>.\<close>

definition word_class_of :: "(nat \<Rightarrow> bool) \<Rightarrow> cell \<Rightarrow> word_class" where
  "word_class_of alphanumeric c =
     (case first_char (cell_text c) of
        None \<Rightarrow> ClassSpace
      | Some ch \<Rightarrow>
          if alphanumeric ch \<or> ch \<in> {0x5F, 0x2D, 0x2E, 0x2F, 0x7E} then ClassWord
          else if is_whitespace ch then ClassSpace
          else ClassPunctuation)"

text \<open>The lead cell of the glyph at \<open>col\<close>: a spacer belongs to the wide cell before it.\<close>

definition glyph_lead :: "cell list \<Rightarrow> nat \<Rightarrow> nat" where
  "glyph_lead row col =
     (if cell_width (row ! col) = 0 \<and> 0 < col \<and> cell_width (row ! (col - 1)) = 2 then col - 1 else col)"

function word_left :: "(cell \<Rightarrow> word_class) \<Rightarrow> cell list \<Rightarrow> word_class \<Rightarrow> nat \<Rightarrow> nat" where
  "word_left class_of row cls start =
     (if start = 0 then start
      else let previous = glyph_lead row (start - 1) in
           if class_of (row ! previous) \<noteq> cls then start else word_left class_of row cls previous)"
  by pat_completeness auto

termination
  by (relation "measure (\<lambda>(_, _, _, start). start)") (auto simp: glyph_lead_def)

lemma unat_max_one_pos [simp]: "0 < unat (max w 1 :: u8)"
  by (simp add: max_def word_gt_0 unat_gt_0 split: if_splits) (metis word_gt_0 word_zero_le)

function word_right :: "(cell \<Rightarrow> word_class) \<Rightarrow> cell list \<Rightarrow> word_class \<Rightarrow> nat \<Rightarrow> nat" where
  "word_right class_of row cls stop =
     (if length row \<le> Suc stop then stop
      else let following = stop + unat (max (cell_width (row ! stop)) 1) in
           if length row \<le> following \<or> class_of (row ! following) \<noteq> cls then stop
           else word_right class_of row cls following)"
  by pat_completeness auto

termination
  by (relation "measure (\<lambda>(_, row, _, stop). length row - stop)") (auto intro!: diff_less_mono2)

declare word_left.simps [simp del] word_right.simps [simp del]

definition word_range :: "(nat \<Rightarrow> bool) \<Rightarrow> cells \<Rightarrow> cell_pos \<Rightarrow> (cell_pos \<times> cell_pos) option" where
  "word_range alphanumeric rows pos =
     (if cell_at rows (cp_row pos) (cp_col pos) = None then None
      else
        let row = rows ! cp_row pos; col = glyph_lead row (cp_col pos);
            cls = word_class_of alphanumeric (row ! col);
            start = (if cls = ClassPunctuation then col else word_left (word_class_of alphanumeric) row cls col);
            stop = (if cls = ClassPunctuation then col else word_right (word_class_of alphanumeric) row cls col);
            last_col = (if cell_width (row ! stop) = 2 \<and> Suc stop < length row \<and> cell_width (row ! Suc stop) = 0
                        then Suc stop else stop)
        in Some (\<lparr>cp_col = start, cp_row = cp_row pos\<rparr>, \<lparr>cp_col = last_col, cp_row = cp_row pos\<rparr>))"

section \<open>The projection is exact\<close>

text \<open>Whether the source row \<open>row\<close> and column \<open>col\<close> lie between two positions, in either order.\<close>

definition between :: "cell_pos \<Rightarrow> cell_pos \<Rightarrow> int \<Rightarrow> nat \<Rightarrow> bool" where
  "between start stop row col \<longleftrightarrow>
     (int (cp_row start) < row \<or> int (cp_row start) = row \<and> cp_col start \<le> col) \<and>
     (row < int (cp_row stop) \<or> row = int (cp_row stop) \<and> col \<le> cp_col stop)"

definition in_selection :: "cell_pos \<Rightarrow> cell_pos \<Rightarrow> int \<Rightarrow> nat \<Rightarrow> bool" where
  "in_selection a b row col \<longleftrightarrow> between a b row col \<or> between b a row col"

lemma between_pos_le: "between start stop row col \<Longrightarrow> pos_le start stop"
  by (auto simp: between_def pos_le_def)

lemma in_selection_ordered:
  "in_selection a b = (if pos_le a b then between a b else between b a)"
proof -
  have "between b a row col \<Longrightarrow> pos_le a b \<Longrightarrow> between a b row col" for row col
    by (auto simp: between_def pos_le_def)
  then show ?thesis
    using between_pos_le by (auto simp: in_selection_def fun_eq_iff)
qed

lemma try_i64_small: "\<bar>x\<bar> < 2 ^ 63 \<Longrightarrow> try_i64 x = Some x"
  by (auto simp: try_i64_def)

lemma shifted_row_small:
  assumes "cp_row p < 2 ^ 62"
  shows "shifted_row sel offset p = Some (int (cp_row p) + (uint offset - uint (ss_served_offset sel)))"
proof -
  have "uint offset < 4294967296" "uint (ss_served_offset sel) < 4294967296" "int (cp_row p) < 4611686018427387904"
    using uint_bounded [of offset] uint_bounded [of "ss_served_offset sel"] assms by simp_all
  moreover have "0 \<le> uint offset" "0 \<le> uint (ss_served_offset sel)"
    by simp_all
  ultimately have "\<bar>int (cp_row p) + (uint offset - uint (ss_served_offset sel))\<bar> < 9223372036854775808"
    by linarith
  moreover have "\<bar>int (cp_row p)\<bar> < 9223372036854775808"
    using assms by simp
  ultimately show ?thesis
    by (simp add: shifted_row_def try_i64_small)
qed

text \<open>The range painted for an ordered selection, on a viewport of \<open>rows\<close> by \<open>cols\<close> cells, shifted by \<open>shift\<close>.\<close>

definition clipped :: "cell_pos \<Rightarrow> nat \<Rightarrow> nat \<Rightarrow> int \<Rightarrow> cell_pos \<Rightarrow> cell_pos \<Rightarrow> (cell_pos \<times> cell_pos) option" where
  "clipped origin rows cols shift start stop =
     (let s = int (cp_row start) + shift; e = int (cp_row stop) + shift; l = int (rows - 1) in
      if e < 0 \<or> l < s then None
      else Some
        (\<lparr>cp_col = cp_col origin + (if s < 0 then 0 else cp_col start), cp_row = cp_row origin + nat (max s 0)\<rparr>,
         \<lparr>cp_col = cp_col origin + (if l < e then cols - 1 else cp_col stop), cp_row = cp_row origin + nat (min e l)\<rparr>))"

lemma project_clipped:
  assumes "selection_matches sel grid" "local_pos sel a = Some la" "local_pos sel b = Some lb"
    "cp_row la < 2 ^ 62" "cp_row lb < 2 ^ 62" "gs_rows grid < 2 ^ 62" "0 < gs_rows grid" "0 < gs_cols grid"
  shows "project sel a b grid offset =
    (case if pos_le la lb then (la, lb) else (lb, la) of (start, stop) \<Rightarrow>
       clipped (ss_origin sel) (gs_rows grid) (gs_cols grid) (uint offset - uint (ss_served_offset sel)) start stop)"
proof -
  have "try_i64 (int (gs_rows grid - 1)) = Some (int (gs_rows grid - 1))"
    using assms(6) by (intro try_i64_small) simp
  then show ?thesis
    using assms by (simp add: project_def clipped_def shifted_row_small Let_def del: of_nat_diff)
qed

lemma clip_exact:
  assumes "pos_le start stop" "cp_col start < cols" "cp_col stop < cols" "r < rows" "c < cols"
    "shown = \<lparr>cp_col = cp_col origin + c, cp_row = cp_row origin + r\<rparr>"
  shows "(case clipped origin rows cols shift start stop of None \<Rightarrow> False | Some (p, q) \<Rightarrow> pos_le p shown \<and> pos_le shown q) \<longleftrightarrow>
    between start stop (int r - shift) c"
  using assms
  by (auto simp: clipped_def Let_def pos_le_def between_def max_def min_def nat_less_iff split: if_splits)

text \<open>
  C32: What the renderer highlights is what is selected. On any viewport of the frozen revision,
  scrolled to any offset, a painted cell lies in the projected range exactly when the row of history
  it shows and its column lie in the selection, whichever end was pressed first; when no range is
  projected, no visible cell is selected.
\<close>

theorem projection_exact:
  assumes "selection_matches sel grid" "local_pos sel a = Some la" "local_pos sel b = Some lb"
    "cp_col la < gs_cols grid" "cp_col lb < gs_cols grid" "cp_row la < 2 ^ 62" "cp_row lb < 2 ^ 62" "gs_rows grid < 2 ^ 62"
    "r < gs_rows grid" "c < gs_cols grid"
    "shown = \<lparr>cp_col = cp_col (ss_origin sel) + c, cp_row = cp_row (ss_origin sel) + r\<rparr>"
  shows "(case project sel a b grid offset of None \<Rightarrow> False | Some (p, q) \<Rightarrow> pos_le p shown \<and> pos_le shown q) \<longleftrightarrow>
    in_selection la lb (int r + uint (ss_served_offset sel) - uint offset) c"
proof -
  let ?shift = "uint offset - uint (ss_served_offset sel)"
  let ?clip = "clipped (ss_origin sel) (gs_rows grid) (gs_cols grid) ?shift"
  have row: "int r + uint (ss_served_offset sel) - uint offset = int r - ?shift"
    by simp
  have painted: "project sel a b grid offset = (if pos_le la lb then ?clip la lb else ?clip lb la)"
    using project_clipped [OF assms(1-3,6-8)] assms(9,10) by simp
  show ?thesis
  proof (cases "pos_le la lb")
    case True
    then show ?thesis
      using clip_exact [OF True assms(4,5,9-11)] unfolding painted in_selection_ordered row by simp
  next
    case False
    then have "pos_le lb la"
      by (auto simp: pos_le_def)
    then show ?thesis
      using False clip_exact [OF _ assms(5,4,9-11)] unfolding painted in_selection_ordered row by simp
  qed
qed

section \<open>Words are whole runs of glyphs\<close>

definition glyphs_paired :: "cell list \<Rightarrow> bool" where
  "glyphs_paired row \<longleftrightarrow>
     (\<forall>k < length row. cell_width (row ! k) \<in> {0, 1, 2} \<and>
        (cell_width (row ! k) = 2 \<longrightarrow> Suc k < length row \<and> cell_width (row ! Suc k) = 0) \<and>
        (cell_width (row ! k) = 0 \<longrightarrow> 0 < k \<and> cell_width (row ! (k - 1)) = 2))"

lemma wide_from_paired:
  assumes "wide_from pending row" "list_all cell_is_valid row" "k < length row"
  shows "cell_width (row ! k) \<in> {0, 1, 2} \<and>
    (cell_width (row ! k) = 2 \<longrightarrow> Suc k < length row \<and> cell_width (row ! Suc k) = 0) \<and>
    (cell_width (row ! k) = 0 \<longrightarrow> (k = 0 \<and> pending) \<or> 0 < k \<and> cell_width (row ! (k - 1)) = 2)"
  using assms
proof (induction row arbitrary: pending k)
  case (Cons c row)
  show ?case
  proof (cases k)
    case 0
    then show ?thesis
      using Cons.prems by (cases row) (auto simp: cell_is_valid_def split: if_splits)
  next
    case (Suc j)
    then show ?thesis
      using Cons.prems Cons.IH [of "cell_width c = 2" j] by (cases j) (auto split: if_splits)
  qed
qed simp

lemma wide_pairs_paired:
  assumes "wide_pairs row" "list_all cell_is_valid row"
  shows "glyphs_paired row"
  unfolding glyphs_paired_def
  using wide_from_paired [of False row] assms unfolding wide_pairs_def by blast

lemma glyph_lead_paired:
  assumes "glyphs_paired row" "k < length row"
  shows "glyph_lead row k \<le> k" "cell_width (row ! glyph_lead row k) \<noteq> 0"
    "\<And>j. glyph_lead row k < j \<Longrightarrow> j \<le> k \<Longrightarrow> cell_width (row ! j) = 0"
  using assms unfolding glyphs_paired_def glyph_lead_def
  by (auto split: if_splits) (metis Suc_leI Suc_pred le_antisym)

lemma max_width [simp]: "max (2 :: u8) 1 = 2"
  by (simp add: max_def word_le_nat_alt)

lemma next_lead:
  assumes "glyphs_paired row" "k < length row" "cell_width (row ! k) \<noteq> 0"
    "n = k + unat (max (cell_width (row ! k)) 1)"
  shows "n < length row \<Longrightarrow> cell_width (row ! n) \<noteq> 0"
    "\<And>j. k < j \<Longrightarrow> j < n \<Longrightarrow> j < length row \<Longrightarrow> cell_width (row ! j) = 0"
    "cell_width (row ! k) = 2 \<Longrightarrow> n = k + 2 \<and> Suc k < length row \<and> cell_width (row ! Suc k) = 0"
    "cell_width (row ! k) \<noteq> 2 \<Longrightarrow> n = Suc k"
proof -
  have w: "cell_width (row ! k) = 1 \<or> cell_width (row ! k) = 2"
    using assms(1-3) by (auto simp: glyphs_paired_def)
  show wide: "cell_width (row ! k) = 2 \<Longrightarrow> n = k + 2 \<and> Suc k < length row \<and> cell_width (row ! Suc k) = 0"
    using assms by (simp add: glyphs_paired_def)
  show narrow: "cell_width (row ! k) \<noteq> 2 \<Longrightarrow> n = Suc k"
    using w assms(4) by (auto simp: max_def)
  show "n < length row \<Longrightarrow> cell_width (row ! n) \<noteq> 0"
  proof
    assume n: "n < length row" "cell_width (row ! n) = 0"
    then have "cell_width (row ! (n - 1)) = 2"
      using assms(1) by (auto simp: glyphs_paired_def)
    then show False
      using w wide narrow by (cases "cell_width (row ! k) = 2") auto
  qed
  show "\<And>j. k < j \<Longrightarrow> j < n \<Longrightarrow> j < length row \<Longrightarrow> cell_width (row ! j) = 0"
    using wide narrow by (metis One_nat_def Suc_lessI add_2_eq_Suc' less_Suc_eq not_less_eq)
qed

lemma word_left_run:
  assumes "glyphs_paired row" "start < length row" "cell_width (row ! start) \<noteq> 0" "class_of (row ! start) = cls"
    "s = word_left class_of row cls start"
  shows "s \<le> start \<and> cell_width (row ! s) \<noteq> 0 \<and>
    (\<forall>k. s \<le> k \<longrightarrow> k \<le> start \<longrightarrow> cell_width (row ! k) \<noteq> 0 \<longrightarrow> class_of (row ! k) = cls) \<and>
    (s = 0 \<or> class_of (row ! glyph_lead row (s - 1)) \<noteq> cls)"
  using assms
proof (induction class_of row cls start rule: word_left.induct)
  case (1 class_of row cls start)
  let ?p = "glyph_lead row (start - 1)"
  show ?case
  proof (cases "start = 0 \<or> class_of (row ! ?p) \<noteq> cls")
    case True
    then have "s = start"
      using "1.prems"(5) by (auto simp: word_left.simps [of class_of row cls start] Let_def)
    then show ?thesis
      using True "1.prems"(3,4) by auto
  next
    case False
    note lead = glyph_lead_paired [OF "1.prems"(1), of "start - 1"]
    have bound: "start - 1 < length row" "?p \<le> start - 1"
      using "1.prems"(2) lead(1) by simp_all
    have s: "s = word_left class_of row cls ?p"
      using False "1.prems"(5) by (simp add: word_left.simps [of class_of row cls start] Let_def)
    have rest: "s \<le> ?p \<and> cell_width (row ! s) \<noteq> 0 \<and>
        (\<forall>k. s \<le> k \<longrightarrow> k \<le> ?p \<longrightarrow> cell_width (row ! k) \<noteq> 0 \<longrightarrow> class_of (row ! k) = cls) \<and>
        (s = 0 \<or> class_of (row ! glyph_lead row (s - 1)) \<noteq> cls)"
      using "1.IH" [OF _ refl] False "1.prems"(1) bound lead(2) s by simp
    have "class_of (row ! k) = cls" if "s \<le> k" "k \<le> start" "cell_width (row ! k) \<noteq> 0" for k
      using that rest lead(3) [OF bound(1), of k] "1.prems"(4) by (cases "k \<le> ?p"; cases "k = start") auto
    then show ?thesis
      using rest bound(2) by auto
  qed
qed

lemma word_right_run:
  assumes "glyphs_paired row" "stop < length row" "cell_width (row ! stop) \<noteq> 0" "class_of (row ! stop) = cls"
    "e = word_right class_of row cls stop" "n = e + unat (max (cell_width (row ! e)) 1)"
  shows "stop \<le> e \<and> e < length row \<and> cell_width (row ! e) \<noteq> 0 \<and>
    (\<forall>k. stop \<le> k \<longrightarrow> k \<le> e \<longrightarrow> cell_width (row ! k) \<noteq> 0 \<longrightarrow> class_of (row ! k) = cls) \<and>
    (length row \<le> n \<or> class_of (row ! n) \<noteq> cls)"
  using assms
proof (induction class_of row cls stop rule: word_right.induct)
  case (1 class_of row cls stop)
  let ?f = "stop + unat (max (cell_width (row ! stop)) 1)"
  show ?case
  proof (cases "length row \<le> Suc stop \<or> length row \<le> ?f \<or> class_of (row ! ?f) \<noteq> cls")
    case True
    then have "e = stop"
      using "1.prems"(5) by (auto simp: word_right.simps [of class_of row cls stop] Let_def)
    moreover have "length row \<le> ?f \<or> class_of (row ! ?f) \<noteq> cls"
    proof -
      have "Suc stop \<le> ?f"
        using unat_max_one_pos [of "cell_width (row ! stop)"] by linarith
      then show ?thesis
        using True order_trans by blast
    qed
    ultimately show ?thesis
      using "1.prems" by auto
  next
    case False
    note lead = next_lead [OF "1.prems"(1-3) refl]
    have e: "e = word_right class_of row cls ?f"
      using False "1.prems"(5) by (simp add: word_right.simps [of class_of row cls stop] Let_def)
    have rest: "?f \<le> e \<and> e < length row \<and> cell_width (row ! e) \<noteq> 0 \<and>
        (\<forall>k. ?f \<le> k \<longrightarrow> k \<le> e \<longrightarrow> cell_width (row ! k) \<noteq> 0 \<longrightarrow> class_of (row ! k) = cls) \<and>
        (length row \<le> n \<or> class_of (row ! n) \<noteq> cls)"
      using "1.IH" [OF _ refl] False "1.prems"(1,6) lead(1) e by simp
    have "class_of (row ! k) = cls" if "stop \<le> k" "k \<le> e" "cell_width (row ! k) \<noteq> 0" for k
      using that rest lead(2) [of k] "1.prems"(4) by (cases "?f \<le> k"; cases "k = stop") auto
    then show ?thesis
      using rest by auto
  qed
qed

text \<open>
  C33: A double click selects one whole word. On a grid the gate has accepted, the selected columns
  contain the clicked cell, start and end on glyph boundaries, so no wide glyph is cut, hold only
  glyphs of the clicked one's class, and cannot be extended: the neighbours are of another class or
  the row ends there. A punctuation glyph is selected alone.
\<close>

theorem word_selection_is_maximal_run:
  assumes "validate_wide_layout grid = Inr ()" "list_all (list_all cell_is_valid) (gs_rows_cells grid)"
    "word_range alphanumeric (gs_rows_cells grid) pos = Some (p, q)" "row = gs_rows_cells grid ! cp_row pos"
    "class_of = word_class_of alphanumeric" "cls = class_of (row ! glyph_lead row (cp_col pos))"
  shows "cp_row p = cp_row pos \<and> cp_row q = cp_row pos \<and>
    cp_col p \<le> cp_col pos \<and> cp_col pos \<le> cp_col q \<and> cp_col q < length row \<and>
    cell_width (row ! cp_col p) \<noteq> 0 \<and> cell_width (row ! cp_col q) \<noteq> 2 \<and>
    (\<forall>k. cp_col p \<le> k \<longrightarrow> k \<le> cp_col q \<longrightarrow> cell_width (row ! k) \<noteq> 0 \<longrightarrow> class_of (row ! k) = cls) \<and>
    (if cls = ClassPunctuation then cp_col p = glyph_lead row (cp_col pos) \<and> cp_col q \<le> Suc (cp_col p)
     else (cp_col p = 0 \<or> class_of (row ! glyph_lead row (cp_col p - 1)) \<noteq> cls) \<and>
          (Suc (cp_col q) = length row \<or> class_of (row ! Suc (cp_col q)) \<noteq> cls))"
proof -
  let ?c = "glyph_lead row (cp_col pos)"
  have pos: "cp_row pos < length (gs_rows_cells grid)" "cp_col pos < length row"
    using assms(3,4) by (auto simp: word_range_def cell_at_def split: if_splits)
  then have "wide_pairs row" "list_all cell_is_valid row"
    using assms(1,2,4) by (simp_all add: validate_wide_layout_iff list_all_length)
  then have paired: "glyphs_paired row"
    by (rule wide_pairs_paired)
  note lead = glyph_lead_paired [OF paired pos(2)]
  have c: "?c < length row"
    using lead(1) pos(2) by linarith
  define s where "s = (if cls = ClassPunctuation then ?c else word_left class_of row cls ?c)"
  define e where "e = (if cls = ClassPunctuation then ?c else word_right class_of row cls ?c)"
  define n where "n = e + unat (max (cell_width (row ! e)) 1)"
  have left: "s \<le> ?c \<and> cell_width (row ! s) \<noteq> 0 \<and>
      (\<forall>k. s \<le> k \<longrightarrow> k \<le> ?c \<longrightarrow> cell_width (row ! k) \<noteq> 0 \<longrightarrow> class_of (row ! k) = cls) \<and>
      (cls = ClassPunctuation \<or> s = 0 \<or> class_of (row ! glyph_lead row (s - 1)) \<noteq> cls)"
  proof (cases "cls = ClassPunctuation")
    case True
    then have "s = ?c"
      by (simp add: s_def)
    with True lead(2) assms(6) show ?thesis by (auto dest: le_antisym)
  next
    case False
    then have "s = word_left class_of row cls ?c"
      by (simp add: s_def)
    from word_left_run [OF paired c lead(2) assms(6) [symmetric] this] show ?thesis by blast
  qed
  have right: "?c \<le> e \<and> e < length row \<and> cell_width (row ! e) \<noteq> 0 \<and>
      (\<forall>k. ?c \<le> k \<longrightarrow> k \<le> e \<longrightarrow> cell_width (row ! k) \<noteq> 0 \<longrightarrow> class_of (row ! k) = cls) \<and>
      (cls = ClassPunctuation \<or> length row \<le> n \<or> class_of (row ! n) \<noteq> cls)"
  proof (cases "cls = ClassPunctuation")
    case True
    then have "e = ?c"
      by (simp add: e_def)
    with True lead(2) c assms(6) show ?thesis by (auto dest: le_antisym)
  next
    case False
    then have "e = word_right class_of row cls ?c"
      by (simp add: e_def)
    from word_right_run [OF paired c lead(2) assms(6) [symmetric] this n_def] show ?thesis by blast
  qed
  let ?wide = "cell_width (row ! e) = 2 \<and> Suc e < length row \<and> cell_width (row ! Suc e) = 0"
  have "cell_at (gs_rows_cells grid) (cp_row pos) (cp_col pos) \<noteq> None"
    using pos assms(4) by (simp add: cell_at_def)
  then have "word_range alphanumeric (gs_rows_cells grid) pos =
      Some (\<lparr>cp_col = s, cp_row = cp_row pos\<rparr>, \<lparr>cp_col = if ?wide then Suc e else e, cp_row = cp_row pos\<rparr>)"
    unfolding word_range_def Let_def assms(4) [symmetric] assms(5) [symmetric] assms(6) [symmetric]
      s_def [symmetric] e_def [symmetric] by simp
  then have pq: "p = \<lparr>cp_col = s, cp_row = cp_row pos\<rparr>" "q = \<lparr>cp_col = if ?wide then Suc e else e, cp_row = cp_row pos\<rparr>"
    using assms(3) by simp_all
  have e: "e < length row" "cell_width (row ! e) \<noteq> 0"
    using right by simp_all
  note after = next_lead [OF paired e n_def]
  have q: "Suc (cp_col q) = n" "e \<le> cp_col q" "cp_col q \<le> Suc e" "cp_col q < length row" "cell_width (row ! cp_col q) \<noteq> 2"
    using after(3,4) e unfolding pq by (cases "cell_width (row ! e) = 2"; simp)+
  have inside: "class_of (row ! k) = cls" if "s \<le> k" "k \<le> cp_col q" "cell_width (row ! k) \<noteq> 0" for k
  proof -
    have "k \<le> e"
      using that(2,3) after(2) [of k] q(1,4) by (cases "e < k") auto
    then show ?thesis
      using that left right by (cases "k \<le> ?c") auto
  qed
  have covers: "cp_col pos \<le> cp_col q"
  proof (rule ccontr)
    assume "\<not> cp_col pos \<le> cp_col q"
    moreover have "?c \<le> e"
      using right by blast
    ultimately have "n \<le> cp_col pos" "?c < n"
      using q(1,2) by linarith+
    then show False
      using lead(3) [of n] after(1) pos(2) by (meson le_less_trans)
  qed
  have rows: "cp_row p = cp_row pos" "cp_row q = cp_row pos" "cp_col p = s"
    by (simp_all add: pq)
  have ends: "if cls = ClassPunctuation then s = ?c \<and> cp_col q \<le> Suc s
      else (s = 0 \<or> class_of (row ! glyph_lead row (s - 1)) \<noteq> cls) \<and>
           (Suc (cp_col q) = length row \<or> class_of (row ! Suc (cp_col q)) \<noteq> cls)"
  proof (cases "cls = ClassPunctuation")
    case True
    then have "s = ?c" "e = ?c"
      by (simp_all add: s_def e_def)
    with True q(3) show ?thesis by simp
  next
    case False
    have "s = 0 \<or> class_of (row ! glyph_lead row (s - 1)) \<noteq> cls" "length row \<le> n \<or> class_of (row ! n) \<noteq> cls"
      using left right False by blast+
    with False q(1,4) show ?thesis
      by (metis Suc_leI le_antisym)
  qed
  have sc: "s \<le> ?c" and begins: "cell_width (row ! s) \<noteq> 0"
    using left by blast+
  then have begins_left: "s \<le> cp_col pos"
    using lead(1) by (blast intro: order_trans)
  show ?thesis
    unfolding rows by (intro conjI refl allI impI begins begins_left covers q(4,5) inside ends)
qed

section \<open>Logical lines are complete\<close>

lemma line_start_complete:
  assumes "line_start md r = Some s"
  shows "s \<le> r \<and> starts_line (md ! s) = Some True \<and>
    (\<forall>k. s \<le> k \<longrightarrow> k < r \<longrightarrow> soft_wrap (md ! k) \<and> starts_line (md ! Suc k) = Some False)"
  using assms
proof (induction md r rule: line_start.induct)
  case (1 md r)
  show ?case
  proof (cases "starts_line (md ! r) = Some True")
    case True
    then show ?thesis
      using "1.prems" by (simp add: line_start.simps [of md r])
  next
    case False
    then obtain j where j: "r = Suc j" "starts_line (md ! r) = Some False" "soft_wrap (md ! j)" "line_start md j = Some s"
      using "1.prems" by (auto simp: line_start.simps [of md r] split: option.splits bool.splits nat.splits if_splits)
    then show ?thesis
      using "1.IH" [of False j] by (auto simp: less_Suc_eq)
  qed
qed

lemma line_end_complete:
  assumes "line_end md r = Some e" "r < length md"
  shows "r \<le> e \<and> e < length md \<and> \<not> soft_wrap (md ! e) \<and>
    (\<forall>k. r \<le> k \<longrightarrow> k < e \<longrightarrow> soft_wrap (md ! k) \<and> starts_line (md ! Suc k) = Some False)"
  using assms
proof (induction md r rule: line_end.induct)
  case (1 md r)
  show ?case
  proof (cases "soft_wrap (md ! r)")
    case False
    then show ?thesis
      using "1.prems" by (auto simp: line_end.simps [of md r])
  next
    case True
    then have next_row: "Suc r < length md" "starts_line (md ! Suc r) = Some False" "line_end md (Suc r) = Some e"
      using "1.prems" by (auto simp: line_end.simps [of md r] split: if_splits)
    then have rest: "Suc r \<le> e \<and> e < length md \<and> \<not> soft_wrap (md ! e) \<and>
        (\<forall>k. Suc r \<le> k \<longrightarrow> k < e \<longrightarrow> soft_wrap (md ! k) \<and> starts_line (md ! Suc k) = Some False)"
      using "1.IH" True by simp
    have "soft_wrap (md ! k) \<and> starts_line (md ! Suc k) = Some False" if "r \<le> k" "k < e" for k
      using that rest True next_row(2) by (cases "k = r") simp_all
    then show ?thesis
      using rest by simp
  qed
qed

text \<open>
  A triple click selects the visual row, or the rows of one logical line from its first to its last,
  each wrapped into the next.
\<close>

lemma logical_line_complete:
  assumes "logical_line_range grid pos = Some (p, q)"
  shows "cp_col p = 0 \<and> cp_row p \<le> cp_row pos \<and> cp_row pos \<le> cp_row q \<and> cp_row q < length (gs_rows_cells grid) \<and>
    (cp_row p = cp_row q \<or>
     (\<exists>md. gs_row_copy grid = Some md \<and> starts_line (md ! cp_row p) = Some True \<and> \<not> soft_wrap (md ! cp_row q) \<and>
        (\<forall>k. cp_row p \<le> k \<longrightarrow> k < cp_row q \<longrightarrow> soft_wrap (md ! k) \<and> starts_line (md ! Suc k) = Some False)))"
proof -
  have pos: "cp_row pos < length (gs_rows_cells grid)"
    using assms by (auto simp: logical_line_range_def cell_at_def split: if_splits)
  show ?thesis
  proof (cases "p = \<lparr>cp_col = 0, cp_row = cp_row pos\<rparr> \<and> cp_row q = cp_row pos")
    case True
    with pos show ?thesis by simp
  next
    case False
    then obtain md s e where md: "gs_row_copy grid = Some md" "row_copy_cells_valid (gs_rows_cells grid) (Some md)"
      "line_start md (cp_row pos) = Some s" "line_end md (cp_row pos) = Some e" "cp_col p = 0" "cp_row p = s" "cp_row q = e"
      using assms by (auto simp: logical_line_range_def Let_def split: if_splits option.splits) blast
    have len: "length md = length (gs_rows_cells grid)"
      using md(2) by (simp add: row_copy_cells_valid_def row_copy_valid_def Let_def)
    have up: "soft_wrap (md ! k) \<and> starts_line (md ! Suc k) = Some False" if "s \<le> k" "k < e" for k
      using that line_start_complete [OF md(3)] line_end_complete [OF md(4)] pos len by (cases "k < cp_row pos") auto
    show ?thesis
      using md up line_start_complete [OF md(3)] line_end_complete [OF md(4)] pos len by auto
  qed
qed

section \<open>A concrete grid\<close>

definition text_grid :: "cells \<Rightarrow> row_copy list option \<Rightarrow> grid_snapshot" where
  "text_grid rows md =
     (demo_grid ''g'' 1)\<lparr>gs_cols := (case rows of [] \<Rightarrow> 0 | r # _ \<Rightarrow> length r), gs_rows := length rows,
        gs_rows_cells := rows, gs_row_copy := md\<rparr>"

definition plain_cell :: "string \<Rightarrow> cell" where
  "plain_cell tx = demo_cell\<lparr>cell_text := tx\<rparr>"

definition demo_source :: scrolled_selection where
  "demo_source =
     \<lparr>ss_grid = text_grid [[plain_cell ''a''], [plain_cell ''b''], [plain_cell ''c'']] None, ss_served_offset = 2,
      ss_origin = \<lparr>cp_col = 0, cp_row = 0\<rparr>, ss_live_alt_screen = False\<rparr>"

theorem projection_exact_witness:
  "\<exists>p q. project demo_source \<lparr>cp_col = 0, cp_row = 2\<rparr> \<lparr>cp_col = 0, cp_row = 1\<rparr> (ss_grid demo_source) 1 = Some (p, q) \<and>
     pos_le p \<lparr>cp_col = 0, cp_row = 1\<rparr> \<and> pos_le \<lparr>cp_col = 0, cp_row = 1\<rparr> q"
proof -
  let ?g = "ss_grid demo_source" and ?shown = "\<lparr>cp_col = 0, cp_row = 1\<rparr>"
  have grid: "gs_cols ?g = 1" "gs_rows ?g = 3" "ss_origin demo_source = \<lparr>cp_col = 0, cp_row = 0\<rparr>"
    "ss_served_offset demo_source = 2" "selection_matches demo_source ?g"
    by (simp_all add: demo_source_def text_grid_def selection_matches_def)
  have "local_pos demo_source p = Some p" for p
    by (simp add: local_pos_def grid)
  from projection_exact [OF grid(5) this this, of "\<lparr>cp_col = 0, cp_row = 2\<rparr>" "\<lparr>cp_col = 0, cp_row = 1\<rparr>" 1 0 ?shown 1]
  show ?thesis
    by (auto simp: grid in_selection_def between_def split: option.splits)
qed

theorem word_selection_is_maximal_run_witness:
  "\<exists>p q. word_range (\<lambda>c. 97 \<le> c \<and> c \<le> 122) [[plain_cell '' '', plain_cell ''a'', plain_cell ''b'', plain_cell '' '']] \<lparr>cp_col = 2, cp_row = 0\<rparr> =
     Some (p, q) \<and> cp_col p \<le> 2 \<and> 2 \<le> cp_col q"
proof -
  let ?row = "[plain_cell '' '', plain_cell ''a'', plain_cell ''b'', plain_cell '' '']" and ?al = "\<lambda>c. 97 \<le> c \<and> c \<le> 122"
  let ?g = "text_grid [?row] None" and ?pos = "\<lparr>cp_col = 2, cp_row = 0\<rparr>"
  have rows: "gs_rows_cells ?g = [?row]"
    by (simp add: text_grid_def)
  have ok: "validate_wide_layout ?g = Inr ()" "list_all (list_all cell_is_valid) (gs_rows_cells ?g)"
    unfolding rows validate_wide_layout_def by (simp_all add: plain_cell_def demo_cell_def cell_is_valid_def)
  have "word_range ?al (gs_rows_cells ?g) ?pos \<noteq> None"
    unfolding rows word_range_def Let_def cell_at_def by simp
  then obtain p q where pq: "word_range ?al (gs_rows_cells ?g) ?pos = Some (p, q)"
    by auto
  have "cp_col p \<le> cp_col ?pos \<and> cp_col ?pos \<le> cp_col q"
    using word_selection_is_maximal_run [OF ok pq refl refl refl] by blast
  with pq show ?thesis
    unfolding rows by simp
qed

end
