(* ===== verification/Selection_Span.thy ===== *)
theory Selection_Span
  imports Text_Selection
begin

text \<open>
  Acquiring a selection that reaches beyond the retained rows (\<^verbatim>\<open>maestro-renderer/src/selection_span.rs\<close>):
  pages of history are requested one after the other at one revision and joined into a new frozen
  source. Rows are numbered from the top of the live screen, history being negative. A failed reply
  ends the acquisition: its caller \<^verbatim>\<open>poll_selection_span\<close> drops it.
\<close>

section \<open>Pages\<close>

definition HISTORY_ROWS :: int where "HISTORY_ROWS = 5000"
definition HISTORY_CELLS :: nat where "HISTORY_CELLS = 2000000"

text \<open>\<^verbatim>\<open>MAX_SCROLLBACK_ROWS_PER_REQUEST\<close> of the renderer's \<^verbatim>\<open>wire.rs\<close>.\<close>

definition PAGE_ROWS :: int where "PAGE_ROWS = 256"

record page_request =
  pr_ticket :: u64
  pr_page :: u32
  pr_generation :: session_generation
  pr_revision :: revision
  pr_cols :: nat
  pr_offset :: u32
  pr_count :: u16

datatype failure = Cancelled | StalePage | InvalidPage | OutOfBounds | QueueRefused

record page_result =
  pg_request :: page_request
  pg_history_len :: u32
  pg_result :: "failure + grid_snapshot"

record acquisition =
  aq_ticket :: u64
  aq_page :: u32
  aq_source :: scrolled_selection
  aq_endpoint :: grid_snapshot
  aq_endpoint_offset :: u32
  aq_anchor :: "int \<times> nat"
  aq_focus :: "int \<times> nat"
  aq_start :: int
  aq_next :: int
  aq_end :: int
  aq_rows :: cells
  aq_row_copy :: "row_copy list"
  aq_history_len :: "u32 option"

definition new_acquisition ::
    "u64 \<Rightarrow> scrolled_selection \<Rightarrow> cell_pos \<Rightarrow> grid_snapshot \<Rightarrow> u32 \<Rightarrow> cell_pos \<Rightarrow> failure + acquisition" where
  "new_acquisition ticket source anchor endpoint endpoint_offset focus =
     (if gs_generation (ss_grid source) \<noteq> gs_generation endpoint \<or> gs_revision (ss_grid source) \<noteq> gs_revision endpoint \<or>
         gs_cols (ss_grid source) \<noteq> gs_cols endpoint \<or> gs_cols (ss_grid source) = 0
      then Inl StalePage
      else case (local_pos source anchor, local_pos source focus) of
        (Some a, Some f) \<Rightarrow>
          if cell_at (gs_rows_cells (ss_grid source)) (cp_row a) (cp_col a) = None \<or>
             cell_at (gs_rows_cells endpoint) (cp_row f) (cp_col f) = None
          then Inl OutOfBounds
          else
            let anchor_row = int (cp_row a) - uint (ss_served_offset source);
                focus_row = int (cp_row f) - uint endpoint_offset;
                start = min (min anchor_row focus_row) 0;
                stop = max anchor_row focus_row
            in if HISTORY_ROWS < - start \<or> HISTORY_CELLS < nat (- start) * gs_cols (ss_grid source)
               then Inl OutOfBounds
               else Inr \<lparr>aq_ticket = ticket, aq_page = 0, aq_source = source, aq_endpoint = endpoint,
                         aq_endpoint_offset = endpoint_offset, aq_anchor = (anchor_row, cp_col a),
                         aq_focus = (focus_row, cp_col f), aq_start = start, aq_next = start, aq_end = stop,
                         aq_rows = [], aq_row_copy = [], aq_history_len = None\<rparr>
      | _ \<Rightarrow> Inl OutOfBounds)"

definition request :: "acquisition \<Rightarrow> page_request option" where
  "request a =
     (if aq_end a < aq_next a then None
      else let offset = - min (aq_next a) 0 in
        if 2 ^ 32 \<le> offset then None
        else Some \<lparr>pr_ticket = aq_ticket a, pr_page = aq_page a, pr_generation = gs_generation (ss_grid (aq_source a)),
                   pr_revision = gs_revision (ss_grid (aq_source a)), pr_cols = gs_cols (ss_grid (aq_source a)),
                   pr_offset = of_int offset, pr_count = of_int (min (aq_end a + offset + 1) PAGE_ROWS)\<rparr>)"

definition append_rows :: "grid_snapshot \<Rightarrow> int \<Rightarrow> acquisition \<Rightarrow> failure + acquisition" where
  "append_rows grid start a =
     (case gs_row_copy grid of
        None \<Rightarrow> Inl InvalidPage
      | Some metadata \<Rightarrow>
          if length (gs_rows_cells grid) \<noteq> gs_rows grid \<or>
             \<not> list_all (\<lambda>row. length row = gs_cols (ss_grid (aq_source a))) (gs_rows_cells grid) \<or>
             \<not> row_copy_cells_valid (gs_rows_cells grid) (Some metadata)
          then Inl InvalidPage
          else if aq_next a - start < 0 then Inl InvalidPage
          else let first_row = nat (aq_next a - start) in
            if gs_rows grid \<le> first_row then Inl InvalidPage
            else let n = min (gs_rows grid - first_row) (nat (aq_end a - aq_next a + 1)) in
              if aq_row_copy a \<noteq> [] \<and>
                 starts_line (metadata ! first_row) \<noteq> Some (\<not> soft_wrap (last (aq_row_copy a)))
              then Inl InvalidPage
              else Inr (a\<lparr>aq_rows := aq_rows a @ take n (drop first_row (gs_rows_cells grid)),
                          aq_row_copy := aq_row_copy a @ take n (drop first_row metadata),
                          aq_next := aq_next a + int n\<rparr>))"

lemma append_rows_progress:
  assumes "append_rows grid start a = Inr a'" "aq_next a \<le> aq_end a"
  shows "aq_next a < aq_next a' \<and> aq_end a' = aq_end a"
  using assms by (auto simp: append_rows_def Let_def split: option.splits if_splits)

text \<open>The closing \<^verbatim>\<open>while\<close> of \<^verbatim>\<open>accept\<close>; \<open>live\<close> is \<^verbatim>\<open>reply.request.offset == 0\<close>.\<close>

function fill_live :: "bool \<Rightarrow> acquisition \<Rightarrow> failure + acquisition" where
  "fill_live live a =
     (if aq_next a \<le> aq_end a \<and> (PAGE_ROWS \<le> aq_next a \<or> live \<and> 0 < aq_next a)
      then case append_rows (ss_grid (aq_source a)) (- uint (ss_served_offset (aq_source a))) a of
             Inr a1 \<Rightarrow> fill_live live a1
           | Inl _ \<Rightarrow>
               (case append_rows (aq_endpoint a) (- uint (aq_endpoint_offset a)) a of
                  Inr a1 \<Rightarrow> fill_live live a1
                | Inl e \<Rightarrow> Inl e)
      else Inr a)"
  by pat_completeness auto

termination
  by (relation "measure (\<lambda>(_, a). nat (aq_end a + 1 - aq_next a))") (auto dest!: append_rows_progress)

declare fill_live.simps [simp del]

definition accept :: "acquisition \<Rightarrow> page_result \<Rightarrow> failure + acquisition" where
  "accept a reply =
     (if request a \<noteq> Some (pg_request reply) then Inl StalePage
      else if aq_history_len a \<noteq> None \<and> aq_history_len a \<noteq> Some (pg_history_len reply) then Inl StalePage
      else
        let a1 = a\<lparr>aq_history_len := Some (pg_history_len reply)\<rparr>; rq = pg_request reply in
        res_bind (pg_result reply) (\<lambda>grid.
          if gs_generation grid \<noteq> pr_generation rq \<or> gs_revision grid \<noteq> pr_revision rq then Inl StalePage
          else if gs_cols grid \<noteq> pr_cols rq \<or> gs_rows grid = 0 \<or> unat (pr_count rq) < gs_rows grid then Inl InvalidPage
          else
            res_bind (if pr_offset rq \<noteq> 0 \<or> aq_next a1 < int (gs_rows grid)
                      then append_rows grid (- uint (pr_offset rq)) a1 else Inr a1) (\<lambda>a2.
              if unat (aq_page a2) + 1 < 2 ^ 32
              then fill_live (pr_offset rq = 0) (a2\<lparr>aq_page := aq_page a2 + 1\<rparr>)
              else Inl OutOfBounds)))"

definition finish :: "acquisition \<Rightarrow> (scrolled_selection \<times> cell_pos \<times> cell_pos) option" where
  "finish a =
     (if aq_next a \<le> aq_end a then None
      else
        let source = aq_source a;
            grid = (ss_grid source)\<lparr>gs_rows := length (aq_rows a), gs_rows_cells := aq_rows a,
                                    gs_row_copy := Some (aq_row_copy a), gs_cursor_visible := False\<rparr>;
            position = (\<lambda>(row, col). \<lparr>cp_col = cp_col (ss_origin source) + col,
                                      cp_row = cp_row (ss_origin source) + nat (row - aq_start a)\<rparr>)
        in Some (source\<lparr>ss_grid := grid, ss_served_offset := of_int (- aq_start a)\<rparr>,
                 position (aq_anchor a), position (aq_focus a)))"

text \<open>Replies in the order they are polled.\<close>

fun run_acquisition :: "acquisition \<Rightarrow> page_result list \<Rightarrow> failure + acquisition" where
  "run_acquisition a [] = Inr a"
| "run_acquisition a (reply # replies) = res_bind (accept a reply) (\<lambda>a'. run_acquisition a' replies)"

section \<open>Progress\<close>

text \<open>What an acquisition never changes: its source, its end and its endpoints.\<close>

definition same_target :: "acquisition \<Rightarrow> acquisition \<Rightarrow> bool" where
  "same_target a a' \<longleftrightarrow>
     aq_source a' = aq_source a \<and> aq_endpoint a' = aq_endpoint a \<and> aq_endpoint_offset a' = aq_endpoint_offset a \<and>
     aq_anchor a' = aq_anchor a \<and> aq_focus a' = aq_focus a \<and> aq_start a' = aq_start a \<and> aq_end a' = aq_end a"

lemma same_target_refl [simp]: "same_target a a"
  by (simp add: same_target_def)

lemma same_target_updates [simp]:
  "same_target (a\<lparr>aq_page := p\<rparr>) b = same_target a b" "same_target (a\<lparr>aq_history_len := h\<rparr>) b = same_target a b"
  by (simp_all add: same_target_def)

lemma same_target_trans: "same_target a b \<Longrightarrow> same_target b c \<Longrightarrow> same_target a c"
  by (simp add: same_target_def)

definition span_ok :: "acquisition \<Rightarrow> bool" where
  "span_ok a \<longleftrightarrow> aq_start a \<le> aq_next a \<and> aq_next a \<le> aq_end a + 1 \<and> aq_start a \<le> 0 \<and> - aq_start a \<le> HISTORY_ROWS"

lemma span_ok_updates [simp]:
  "span_ok (a\<lparr>aq_page := p\<rparr>) = span_ok a" "span_ok (a\<lparr>aq_history_len := h\<rparr>) = span_ok a"
  by (simp_all add: span_ok_def)

lemma new_acquisition_ok:
  "new_acquisition ticket source anchor endpoint eoff focus = Inr a \<Longrightarrow> span_ok a \<and> aq_next a = aq_start a \<and> aq_start a \<le> aq_end a"
  by (auto simp: new_acquisition_def span_ok_def Let_def split: if_splits option.splits)

lemma append_rows_ok:
  assumes "append_rows grid start a = Inr a'" "span_ok a" "aq_next a \<le> aq_end a"
  shows "span_ok a' \<and> same_target a a' \<and> aq_next a < aq_next a' \<and> aq_page a' = aq_page a"
  using assms by (auto simp: append_rows_def span_ok_def same_target_def Let_def split: option.splits if_splits)

text \<open>The loop as a sequence of appended windows.\<close>

definition live_step :: "acquisition \<Rightarrow> acquisition \<Rightarrow> bool" where
  "live_step a a' \<longleftrightarrow> aq_next a \<le> aq_end a \<and>
     (append_rows (ss_grid (aq_source a)) (- uint (ss_served_offset (aq_source a))) a = Inr a' \<or>
      append_rows (aq_endpoint a) (- uint (aq_endpoint_offset a)) a = Inr a')"

lemma fill_live_steps:
  assumes "fill_live live a = Inr a'"
  shows "live_step\<^sup>*\<^sup>* a a' \<and>
    (aq_next a \<le> aq_end a \<and> (PAGE_ROWS \<le> aq_next a \<or> live \<and> 0 < aq_next a) \<longrightarrow> (\<exists>b. live_step a b \<and> live_step\<^sup>*\<^sup>* b a'))"
  using assms
proof (induction live a rule: fill_live.induct)
  case (1 live a)
  let ?more = "aq_next a \<le> aq_end a \<and> (PAGE_ROWS \<le> aq_next a \<or> live \<and> 0 < aq_next a)"
  show ?case
  proof (cases ?more)
    case False
    then have "a' = a"
      using "1.prems" by (auto simp: fill_live.simps [of live a])
    with False show ?thesis by auto
  next
    case True
    have "\<exists>b. live_step a b \<and> live_step\<^sup>*\<^sup>* b a'"
    proof (cases "append_rows (ss_grid (aq_source a)) (- uint (ss_served_offset (aq_source a))) a")
      case (Inr b)
      then have "fill_live live b = Inr a'"
        using True "1.prems" by (simp add: fill_live.simps [of live a])
      then have "live_step\<^sup>*\<^sup>* b a'"
        using "1.IH"(2) [OF True Inr] by blast
      then show ?thesis
        using True Inr by (auto simp: live_step_def)
    next
      case (Inl e)
      then obtain b where b: "append_rows (aq_endpoint a) (- uint (aq_endpoint_offset a)) a = Inr b" "fill_live live b = Inr a'"
        using True "1.prems" by (auto simp: fill_live.simps [of live a] split: sum.splits)
      then have "live_step\<^sup>*\<^sup>* b a'"
        using "1.IH"(1) [OF True Inl b(1)] by blast
      then show ?thesis
        using True b(1) by (auto simp: live_step_def)
    qed
    then show ?thesis
      by (meson converse_rtranclp_into_rtranclp)
  qed
qed

lemma live_step_ok:
  "live_step a a' \<Longrightarrow> span_ok a \<Longrightarrow> span_ok a' \<and> same_target a a' \<and> aq_next a < aq_next a'"
  using append_rows_ok by (auto simp: live_step_def)

lemma live_steps_ok:
  assumes "live_step\<^sup>*\<^sup>* a a'" "span_ok a"
  shows "span_ok a' \<and> same_target a a' \<and> aq_next a \<le> aq_next a'"
  using assms(1)
proof (induction rule: rtranclp_induct)
  case base
  with assms(2) show ?case by simp
next
  case (step b c)
  then show ?case
    using live_step_ok [of b c] same_target_trans [of a b c] by auto
qed

text \<open>What one accepted reply did: it appended its rows, unless they were known, then windows at hand.\<close>

lemma accept_steps:
  assumes "accept a reply = Inr a'"
  obtains grid a1 a2 h p where "pg_result reply = Inr grid" "aq_next a \<le> aq_end a" "a1 = a\<lparr>aq_history_len := h\<rparr>"
    "append_rows grid (- uint (pr_offset (pg_request reply))) a1 = Inr a2 \<or>
       a2 = a1 \<and> (\<exists>b. live_step (a2\<lparr>aq_page := p\<rparr>) b \<and> live_step\<^sup>*\<^sup>* b a')"
    "live_step\<^sup>*\<^sup>* (a2\<lparr>aq_page := p\<rparr>) a'"
proof -
  let ?rq = "pg_request reply"
  have pending: "aq_next a \<le> aq_end a"
    using assms by (auto simp: accept_def request_def Let_def split: if_splits)
  let ?a1 = "a\<lparr>aq_history_len := Some (pg_history_len reply)\<rparr>"
  obtain grid a2 where grid: "pg_result reply = Inr grid" "gs_rows grid \<noteq> 0"
    and a2: "(if pr_offset ?rq \<noteq> 0 \<or> aq_next ?a1 < int (gs_rows grid)
        then append_rows grid (- uint (pr_offset ?rq)) ?a1 else Inr ?a1) = Inr a2"
    and fill: "fill_live (pr_offset ?rq = 0) (a2\<lparr>aq_page := aq_page a2 + 1\<rparr>) = Inr a'"
    using assms by (auto simp: accept_def Let_def res_bind_eq_Inr split: if_splits)
  note steps = fill_live_steps [OF fill]
  show ?thesis
  proof (cases "pr_offset ?rq \<noteq> 0 \<or> aq_next ?a1 < int (gs_rows grid)")
    case True
    then have "append_rows grid (- uint (pr_offset ?rq)) ?a1 = Inr a2"
      using a2 by simp
    then show ?thesis
      using that [OF grid(1) pending refl disjI1] steps by blast
  next
    case False
    then have known: "a2 = ?a1" "0 < aq_next a" "pr_offset ?rq = 0"
      using a2 grid(2) by auto
    then have "\<exists>b. live_step (a2\<lparr>aq_page := aq_page a2 + 1\<rparr>) b \<and> live_step\<^sup>*\<^sup>* b a'"
      using steps pending by simp
    then show ?thesis
      using that [OF grid(1) pending refl disjI2] known(1) steps by blast
  qed
qed

lemma accept_ok:
  assumes "accept a reply = Inr a'" "span_ok a"
  shows "span_ok a' \<and> same_target a a' \<and> aq_next a < aq_next a'"
  using assms(1)
proof (cases rule: accept_steps)
  case (1 grid a1 a2 h p)
  have a1: "span_ok a1" "same_target a a1" "aq_next a1 = aq_next a" "aq_next a1 \<le> aq_end a1"
    using assms(2) 1(2,3) by (simp_all add: same_target_def)
  from 1(4) show ?thesis
  proof
    assume "append_rows grid (- uint (pr_offset (pg_request reply))) a1 = Inr a2"
    then have "span_ok a2 \<and> same_target a1 a2 \<and> aq_next a1 < aq_next a2"
      using append_rows_ok a1 by blast
    then show ?thesis
      using live_steps_ok [OF 1(5)] a1 same_target_trans by fastforce
  next
    assume "a2 = a1 \<and> (\<exists>b. live_step (a2\<lparr>aq_page := p\<rparr>) b \<and> live_step\<^sup>*\<^sup>* b a')"
    then obtain b where b: "live_step (a1\<lparr>aq_page := p\<rparr>) b" "live_step\<^sup>*\<^sup>* b a'"
      by blast
    then have "span_ok b \<and> same_target a1 b \<and> aq_next a1 < aq_next b"
      using live_step_ok [OF b(1)] a1(1) by simp
    then show ?thesis
      using live_steps_ok [OF b(2)] a1 same_target_trans by fastforce
  qed
qed

lemma run_acquisition_ok:
  assumes "run_acquisition a replies = Inr a'" "span_ok a"
  shows "span_ok a' \<and> same_target a a' \<and> aq_next a + int (length replies) \<le> aq_next a'"
  using assms
proof (induction replies arbitrary: a)
  case (Cons reply replies)
  obtain b where b: "accept a reply = Inr b" "run_acquisition b replies = Inr a'"
    using Cons.prems(1) by (auto simp: res_bind_eq_Inr)
  have ok: "span_ok b \<and> same_target a b \<and> aq_next a < aq_next b"
    using accept_ok [OF b(1) Cons.prems(2)] .
  then have "span_ok a' \<and> same_target b a' \<and> aq_next b + int (length replies) \<le> aq_next a'"
    using Cons.IH [OF b(2)] by blast
  then show ?case
    using ok same_target_trans by fastforce
qed simp

lemma uint_of_int_small: "0 \<le> x \<Longrightarrow> x < 2 ^ LENGTH('a) \<Longrightarrow> uint (of_int x :: 'a::len word) = x"
  by (simp add: uint_word_of_int_eq take_bit_int_eq_self)

lemma request_bounds:
  assumes "span_ok a" "request a = Some rq"
  shows "uint (pr_offset rq) = - min (aq_next a) 0" "uint (pr_offset rq) \<le> 5000"
    "1 \<le> uint (pr_count rq)" "uint (pr_count rq) \<le> 256"
proof -
  let ?o = "- min (aq_next a) 0" and ?n = "min (aq_end a + - min (aq_next a) 0 + 1) PAGE_ROWS"
  have rq: "pr_offset rq = of_int ?o" "pr_count rq = of_int ?n" "aq_next a \<le> aq_end a"
    using assms(2) by (auto simp: request_def Let_def split: if_splits)
  have o: "0 \<le> ?o" "?o \<le> 5000" and n: "1 \<le> ?n" "?n \<le> 256"
    using assms(1) rq(3) by (auto simp: span_ok_def HISTORY_ROWS_def PAGE_ROWS_def)
  show offset: "uint (pr_offset rq) = ?o"
    unfolding rq(1) using o by (intro uint_of_int_small) auto
  show "uint (pr_offset rq) \<le> 5000"
    unfolding offset by (rule o(2))
  have "uint (pr_count rq) = ?n"
    unfolding rq(2) using n by (intro uint_of_int_small) auto
  then show "1 \<le> uint (pr_count rq)" "uint (pr_count rq) \<le> 256"
    using n by simp_all
qed

lemma request_pending:
  assumes "span_ok a"
  shows "request a = None \<longleftrightarrow> aq_end a < aq_next a"
proof -
  have "\<not> 2 ^ 32 \<le> - min (aq_next a) 0"
    using assms by (auto simp: span_ok_def HISTORY_ROWS_def)
  then show ?thesis
    by (simp add: request_def Let_def)
qed

text \<open>
  C31: Acquiring a long selection always ends. Every accepted page brings at least one new row, so
  after at most as many pages as the selection has rows the acquisition is complete; as long as it
  is not, it asks for a page the daemon can serve, at most 5000 rows up and 256 rows long, and as soon
  as there is nothing left to ask for, the selection is there.
\<close>

theorem acquisition_completes:
  assumes "new_acquisition ticket source anchor endpoint eoff focus = Inr a0" "run_acquisition a0 replies = Inr a"
  shows "int (length replies) \<le> aq_end a0 - aq_start a0 + 1 \<and> (request a = None \<longleftrightarrow> finish a \<noteq> None) \<and>
    (\<forall>rq. request a = Some rq \<longrightarrow> uint (pr_offset rq) \<le> 5000 \<and> 1 \<le> uint (pr_count rq) \<and> uint (pr_count rq) \<le> 256)"
proof -
  have a0: "span_ok a0" "aq_next a0 = aq_start a0"
    using new_acquisition_ok [OF assms(1)] by simp_all
  have a: "span_ok a" "same_target a0 a" "aq_next a0 + int (length replies) \<le> aq_next a"
    using run_acquisition_ok [OF assms(2) a0(1)] by simp_all
  then have "int (length replies) \<le> aq_end a0 - aq_start a0 + 1"
    using a0(2) by (simp add: span_ok_def same_target_def)
  moreover have "request a = None \<longleftrightarrow> finish a \<noteq> None"
    using request_pending [OF a(1)] by (auto simp: finish_def Let_def)
  ultimately show ?thesis
    using request_bounds [OF a(1)] by blast
qed

section \<open>Exactness\<close>

text \<open>
  The document of one revision: for every row, counted from the top of the live screen, its cells
  and its wrap metadata. \<open>window doc meta start grid\<close>: the rows of \<open>grid\<close> are those of the document from
  \<open>start\<close> on.
\<close>

definition window :: "(int \<Rightarrow> cell list) \<Rightarrow> (int \<Rightarrow> row_copy) \<Rightarrow> int \<Rightarrow> grid_snapshot \<Rightarrow> bool" where
  "window doc meta start grid \<longleftrightarrow>
     (\<forall>k < length (gs_rows_cells grid). gs_rows_cells grid ! k = doc (start + int k)) \<and>
     (\<forall>md. gs_row_copy grid = Some md \<longrightarrow> (\<forall>k < length md. md ! k = meta (start + int k)))"

definition collected :: "(int \<Rightarrow> cell list) \<Rightarrow> (int \<Rightarrow> row_copy) \<Rightarrow> acquisition \<Rightarrow> bool" where
  "collected doc meta a \<longleftrightarrow>
     aq_rows a = map doc [aq_start a..aq_next a - 1] \<and> aq_row_copy a = map meta [aq_start a..aq_next a - 1]"

lemma collected_updates [simp]:
  "collected doc meta (a\<lparr>aq_page := p\<rparr>) = collected doc meta a"
  "collected doc meta (a\<lparr>aq_history_len := h\<rparr>) = collected doc meta a"
  by (simp_all add: collected_def)

lemma window_slice:
  assumes "\<forall>k < length xs. xs ! k = f (start + int k)" "i + n \<le> length xs"
  shows "take n (drop i xs) = map f [start + int i..start + int i + int n - 1]"
  using assms by (intro nth_equalityI) (auto simp: add.assoc)

lemma map_upto_append:
  "i \<le> j \<Longrightarrow> j \<le> k + 1 \<Longrightarrow> map f [i..j - 1] @ map f [j..k] = map f [i..k]"
proof (cases "j \<le> k")
  case False
  moreover assume "j \<le> k + 1"
  ultimately have "j - 1 = k"
    by simp
  with False show ?thesis by simp
qed (simp add: upto_split1 [of i j k])

lemma collected_append:
  assumes "append_rows grid start a = Inr a'" "window doc meta start grid" "collected doc meta a" "span_ok a"
    "aq_next a \<le> aq_end a"
  shows "collected doc meta a'"
proof -
  obtain md where md: "gs_row_copy grid = Some md" "row_copy_cells_valid (gs_rows_cells grid) (Some md)"
    and shape: "length (gs_rows_cells grid) = gs_rows grid" "0 \<le> aq_next a - start" "nat (aq_next a - start) < gs_rows grid"
    and a': "a' = a\<lparr>aq_rows := aq_rows a @ take (min (gs_rows grid - nat (aq_next a - start)) (nat (aq_end a - aq_next a + 1)))
          (drop (nat (aq_next a - start)) (gs_rows_cells grid)),
        aq_row_copy := aq_row_copy a @ take (min (gs_rows grid - nat (aq_next a - start)) (nat (aq_end a - aq_next a + 1)))
          (drop (nat (aq_next a - start)) md),
        aq_next := aq_next a + int (min (gs_rows grid - nat (aq_next a - start)) (nat (aq_end a - aq_next a + 1)))\<rparr>"
    using assms(1) by (auto simp: append_rows_def Let_def not_less split: option.splits if_splits)
  define i where "i = nat (aq_next a - start)"
  define n where "n = min (gs_rows grid - i) (nat (aq_end a - aq_next a + 1))"
  have len: "length md = length (gs_rows_cells grid)"
    using md(2) by (simp add: row_copy_cells_valid_def row_copy_valid_def Let_def)
  have i: "start + int i = aq_next a" and n: "i + n \<le> gs_rows grid"
    using shape by (auto simp: i_def n_def)
  have "take n (drop i (gs_rows_cells grid)) = map doc [aq_next a..aq_next a + int n - 1]"
    "take n (drop i md) = map meta [aq_next a..aq_next a + int n - 1]"
    using window_slice [of "gs_rows_cells grid" doc start i n] window_slice [of md meta start i n] assms(2) md(1) n shape(1) len
    by (simp_all add: window_def i)
  moreover have "aq_start a \<le> aq_next a"
    using assms(4) by (simp add: span_ok_def)
  ultimately show ?thesis
    using assms(3) unfolding a' i_def [symmetric] n_def [symmetric] collected_def
    by (simp add: map_upto_append)
qed

text \<open>Both windows at hand show the document.\<close>

definition anchored_windows :: "(int \<Rightarrow> cell list) \<Rightarrow> (int \<Rightarrow> row_copy) \<Rightarrow> acquisition \<Rightarrow> bool" where
  "anchored_windows doc meta a \<longleftrightarrow>
     window doc meta (- uint (ss_served_offset (aq_source a))) (ss_grid (aq_source a)) \<and>
     window doc meta (- uint (aq_endpoint_offset a)) (aq_endpoint a)"

lemma anchored_windows_same: "same_target a a' \<Longrightarrow> anchored_windows doc meta a' = anchored_windows doc meta a"
  by (simp add: anchored_windows_def same_target_def)

lemma collected_live_steps:
  assumes "live_step\<^sup>*\<^sup>* a a'" "anchored_windows doc meta a" "collected doc meta a" "span_ok a"
  shows "collected doc meta a'"
  using assms(1)
proof (induction rule: rtranclp_induct)
  case base
  show ?case by (rule assms(3))
next
  case (step b c)
  have b: "span_ok b" "same_target a b"
    using live_steps_ok [OF step.hyps(1) assms(4)] by simp_all
  then have "anchored_windows doc meta b"
    using assms(2) anchored_windows_same by blast
  then show ?case
    using step.hyps(2) step.IH collected_append b(1) by (auto simp: live_step_def anchored_windows_def)
qed

lemma collected_accept:
  assumes "accept a reply = Inr a'" "anchored_windows doc meta a" "collected doc meta a" "span_ok a"
    "\<And>grid. pg_result reply = Inr grid \<Longrightarrow> window doc meta (- uint (pr_offset (pg_request reply))) grid"
  shows "collected doc meta a'"
  using assms(1)
proof (cases rule: accept_steps)
  case (1 grid a1 a2 h p)
  have a1: "span_ok a1" "same_target a a1" "collected doc meta a1" "aq_next a1 \<le> aq_end a1"
    using assms(3,4) 1(2,3) by (simp_all add: same_target_def)
  from 1(4) have a2: "span_ok a2 \<and> same_target a1 a2 \<and> collected doc meta a2"
    using append_rows_ok [of grid _ a1 a2] collected_append [of grid _ a1 a2] a1 assms(5) [OF 1(1)] by auto
  then have "anchored_windows doc meta (a2\<lparr>aq_page := p\<rparr>)"
    using assms(2) a1(2) anchored_windows_same same_target_trans [of a a1 a2] by (simp add: anchored_windows_def same_target_def)
  then show ?thesis
    using collected_live_steps [OF 1(5)] a2 by simp
qed

lemma collected_run:
  assumes "run_acquisition a replies = Inr a'" "anchored_windows doc meta a" "collected doc meta a" "span_ok a"
    "\<And>reply grid. reply \<in> set replies \<Longrightarrow> pg_result reply = Inr grid \<Longrightarrow>
       window doc meta (- uint (pr_offset (pg_request reply))) grid"
  shows "collected doc meta a'"
  using assms
proof (induction replies arbitrary: a)
  case (Cons reply replies)
  obtain b where b: "accept a reply = Inr b" "run_acquisition b replies = Inr a'"
    using Cons.prems(1) by (auto simp: res_bind_eq_Inr)
  have "span_ok b" "same_target a b"
    using accept_ok [OF b(1) Cons.prems(4)] by simp_all
  moreover have "collected doc meta b"
    using collected_accept [OF b(1) Cons.prems(2-4)] Cons.prems(5) by simp
  ultimately show ?case
    using Cons.IH [OF b(2)] Cons.prems(2,5) anchored_windows_same by (metis list.set_intros(2))
qed simp

text \<open>The cell under a position of a selection, in one of its windows.\<close>

definition cell_under :: "scrolled_selection \<Rightarrow> grid_snapshot \<Rightarrow> cell_pos \<Rightarrow> cell option" where
  "cell_under sel grid pos = Option.bind (local_pos sel pos) (\<lambda>l. cell_at (gs_rows_cells grid) (cp_row l) (cp_col l))"

text \<open>The row of the document a position of a selection points at, in a window served at \<open>offset\<close>.\<close>

definition clicked_row :: "scrolled_selection \<Rightarrow> u32 \<Rightarrow> cell_pos \<Rightarrow> int" where
  "clicked_row sel offset pos = int (cp_row pos) - int (cp_row (ss_origin sel)) - uint offset"

lemma drop_upto: "drop n [i..j] = [i + int n..j]"
proof (induction n arbitrary: i)
  case (Suc n)
  show ?case
  proof (cases "i \<le> j")
    case True
    then show ?thesis using Suc [of "i + 1"] by (simp add: upto.simps [of i] algebra_simps)
  qed simp
qed simp

lemma new_acquisition_rows:
  assumes "new_acquisition ticket source anchor endpoint eoff focus = Inr a"
  shows "fst (aq_anchor a) = clicked_row source (ss_served_offset source) anchor"
    "fst (aq_focus a) = clicked_row source eoff focus"
    "cp_col anchor = cp_col (ss_origin source) + snd (aq_anchor a)"
    "cp_col focus = cp_col (ss_origin source) + snd (aq_focus a)"
  using assms unfolding new_acquisition_def Let_def
  by (auto simp: local_pos_def clicked_row_def split: if_splits option.splits)

lemma new_acquisition_cells:
  assumes "new_acquisition ticket source anchor endpoint eoff focus = Inr a"
    "window doc meta (- uint (ss_served_offset source)) (ss_grid source)" "window doc meta (- uint eoff) endpoint"
  shows "aq_source a = source" "anchored_windows doc meta a" "collected doc meta a"
    "cell_under source (ss_grid source) anchor = Some (doc (fst (aq_anchor a)) ! snd (aq_anchor a))"
    "snd (aq_anchor a) < length (doc (fst (aq_anchor a)))"
    "cell_under source endpoint focus = Some (doc (fst (aq_focus a)) ! snd (aq_focus a))"
    "snd (aq_focus a) < length (doc (fst (aq_focus a)))"
    "aq_start a = min (min (fst (aq_anchor a)) (fst (aq_focus a))) 0" "aq_end a = max (fst (aq_anchor a)) (fst (aq_focus a))"
proof -
  obtain la lf where l: "local_pos source anchor = Some la" "local_pos source focus = Some lf"
    "cell_at (gs_rows_cells (ss_grid source)) (cp_row la) (cp_col la) \<noteq> None"
    "cell_at (gs_rows_cells endpoint) (cp_row lf) (cp_col lf) \<noteq> None"
    and a: "aq_source a = source" "aq_endpoint a = endpoint" "aq_endpoint_offset a = eoff" "aq_next a = aq_start a"
      "aq_rows a = []" "aq_row_copy a = []"
      "aq_anchor a = (int (cp_row la) - uint (ss_served_offset source), cp_col la)"
      "aq_focus a = (int (cp_row lf) - uint eoff, cp_col lf)"
      "aq_start a = min (min (fst (aq_anchor a)) (fst (aq_focus a))) 0" "aq_end a = max (fst (aq_anchor a)) (fst (aq_focus a))"
    using assms(1) unfolding new_acquisition_def Let_def by (auto split: if_splits option.splits)
  show "aq_source a = source" "aq_start a = min (min (fst (aq_anchor a)) (fst (aq_focus a))) 0"
    "aq_end a = max (fst (aq_anchor a)) (fst (aq_focus a))"
    by (fact a)+
  show "anchored_windows doc meta a" "collected doc meta a"
    using assms(2,3) by (simp_all add: anchored_windows_def collected_def a(1-6))
  have "cp_row la < length (gs_rows_cells (ss_grid source))" "cp_col la < length (gs_rows_cells (ss_grid source) ! cp_row la)"
    "cp_row lf < length (gs_rows_cells endpoint)" "cp_col lf < length (gs_rows_cells endpoint ! cp_row lf)"
    using l(3,4) by (simp_all add: cell_at_def split: if_splits)
  moreover from this have "gs_rows_cells (ss_grid source) ! cp_row la = doc (fst (aq_anchor a))"
    "gs_rows_cells endpoint ! cp_row lf = doc (fst (aq_focus a))"
    using assms(2,3) by (simp_all add: window_def a(7,8))
  ultimately show "cell_under source (ss_grid source) anchor = Some (doc (fst (aq_anchor a)) ! snd (aq_anchor a))"
    "snd (aq_anchor a) < length (doc (fst (aq_anchor a)))"
    "cell_under source endpoint focus = Some (doc (fst (aq_focus a)) ! snd (aq_focus a))"
    "snd (aq_focus a) < length (doc (fst (aq_focus a)))"
    by (simp_all add: cell_under_def l(1,2) cell_at_def a(7,8))
qed

lemma window_rows:
  assumes "gs_rows_cells g = map doc [i..j]" "gs_row_copy g = Some (map meta [i..j])"
    "gs_rows g = length (gs_rows_cells g)"
  shows "window doc meta i g"
  using assms by (auto simp: window_def)

lemma finish_parts:
  assumes "finish a = Some (sel, p, q)"
  shows "gs_rows_cells (ss_grid sel) = aq_rows a" "gs_row_copy (ss_grid sel) = Some (aq_row_copy a)"
    "ss_origin sel = ss_origin (aq_source a)" "ss_served_offset sel = of_int (- aq_start a)"
    "p = \<lparr>cp_col = cp_col (ss_origin (aq_source a)) + snd (aq_anchor a),
          cp_row = cp_row (ss_origin (aq_source a)) + nat (fst (aq_anchor a) - aq_start a)\<rparr>"
    "q = \<lparr>cp_col = cp_col (ss_origin (aq_source a)) + snd (aq_focus a),
          cp_row = cp_row (ss_origin (aq_source a)) + nat (fst (aq_focus a) - aq_start a)\<rparr>"
    "gs_rows (ss_grid sel) = length (aq_rows a)"
  using assms by (auto simp: finish_def Let_def split_def split: if_splits)

lemma finish_cell:
  assumes "collected doc meta a" "aq_end a < aq_next a" "aq_start a \<le> row" "row \<le> aq_end a" "col < length (doc row)"
    "finish a = Some (sel, p, q)"
    "pos = \<lparr>cp_col = cp_col (ss_origin (aq_source a)) + col, cp_row = cp_row (ss_origin (aq_source a)) + nat (row - aq_start a)\<rparr>"
  shows "cell_under sel (ss_grid sel) pos = Some (doc row ! col)"
proof -
  have sel: "gs_rows_cells (ss_grid sel) = aq_rows a" "ss_origin sel = ss_origin (aq_source a)"
    using assms(6) by (auto simp: finish_def Let_def split: if_splits)
  have "aq_rows a = map doc [aq_start a..aq_next a - 1]"
    using assms(1) by (simp add: collected_def)
  moreover have "nat (row - aq_start a) < length [aq_start a..aq_next a - 1]"
    using assms(2-4) by simp
  moreover have "[aq_start a..aq_next a - 1] ! nat (row - aq_start a) = row"
    using assms(2-4) by simp
  ultimately show ?thesis
    using assms(5) by (simp add: cell_under_def local_pos_def cell_at_def sel assms(7))
qed

lemma acquired_rows:
  assumes "new_acquisition ticket source anchor endpoint eoff focus = Inr a0"
    "window doc meta (- uint (ss_served_offset source)) (ss_grid source)" "window doc meta (- uint eoff) endpoint"
    "\<forall>reply \<in> set replies. \<forall>grid. pg_result reply = Inr grid \<longrightarrow>
       window doc meta (- uint (pr_offset (pg_request reply))) grid"
    "run_acquisition a0 replies = Inr a" "finish a = Some (sel, p, q)"
  shows "span_ok a" "same_target a0 a" "collected doc meta a" "aq_end a < aq_next a"
    "aq_rows a = map doc [aq_start a..aq_end a]" "aq_row_copy a = map meta [aq_start a..aq_end a]"
proof -
  note new = new_acquisition_cells [OF assms(1-3)]
  have "span_ok a0"
    using new_acquisition_ok [OF assms(1)] by simp
  then show a: "span_ok a" "same_target a0 a" "collected doc meta a"
    using run_acquisition_ok [OF assms(5)] collected_run [OF assms(5) new(2,3)] assms(4) by auto
  show done1: "aq_end a < aq_next a"
    using assms(6) by (auto simp: finish_def split: if_splits)
  then have "aq_next a - 1 = aq_end a"
    using a(1) by (simp add: span_ok_def)
  then show "aq_rows a = map doc [aq_start a..aq_end a]" "aq_row_copy a = map meta [aq_start a..aq_end a]"
    using a(3) by (simp_all add: collected_def)
qed

text \<open>
  C30: A long selection is an exact copy of the terminal's history between the two clicks. Suppose the
  frozen source, the viewport of the second click and every page received show rows of one document (the
  terminal at one revision), and let \<open>ar\<close> and \<open>fr\<close> be the rows of the document under the first and the second
  click. The finished selection holds the rows of the document from the earlier of the two to the
  later, each once and in order, with their wrap metadata, wherever the page boundaries fell; when both
  clicks are below the top of the live screen (row 0), the rows from row 0 on stand before them, because
  pages cannot start below row 0. The two ends of the selection point at \<open>ar\<close> and \<open>fr\<close>, in the clicked columns
  and at the clicked cells, so the rows from the first end on are the selected ones and nothing else;
  and the result is again a window of the document.
\<close>

theorem acquisition_exact:
  assumes "new_acquisition ticket source anchor endpoint eoff focus = Inr a0"
    "window doc meta (- uint (ss_served_offset source)) (ss_grid source)" "window doc meta (- uint eoff) endpoint"
    "\<forall>reply \<in> set replies. \<forall>grid. pg_result reply = Inr grid \<longrightarrow>
       window doc meta (- uint (pr_offset (pg_request reply))) grid"
    "run_acquisition a0 replies = Inr a" "finish a = Some (sel, p, q)"
    "ar = clicked_row source (ss_served_offset source) anchor" "fr = clicked_row source eoff focus"
  shows "gs_rows_cells (ss_grid sel) = map doc [min (min ar fr) 0..max ar fr] \<and>
    gs_row_copy (ss_grid sel) = Some (map meta [min (min ar fr) 0..max ar fr]) \<and>
    clicked_row sel (ss_served_offset sel) p = ar \<and> clicked_row sel (ss_served_offset sel) q = fr \<and>
    cp_col p = cp_col anchor \<and> cp_col q = cp_col focus \<and>
    drop (min (cp_row p) (cp_row q) - cp_row (ss_origin sel)) (gs_rows_cells (ss_grid sel)) =
      map doc [min ar fr..max ar fr] \<and>
    window doc meta (- uint (ss_served_offset sel)) (ss_grid sel) \<and>
    cell_under sel (ss_grid sel) p = cell_under source (ss_grid source) anchor \<and>
    cell_under sel (ss_grid sel) q = cell_under source endpoint focus \<and>
    cell_under source (ss_grid source) anchor \<noteq> None \<and> cell_under source endpoint focus \<noteq> None"
proof -
  note new = new_acquisition_cells [OF assms(1-3)]
  note clicked = new_acquisition_rows [OF assms(1), folded assms(7,8)]
  note got = acquired_rows [OF assms(1-6)]
  let ?start = "min (min ar fr) 0"
  have target: "aq_start a = ?start" "aq_end a = max ar fr" "aq_source a = source"
      "aq_anchor a = aq_anchor a0" "aq_focus a = aq_focus a0"
    using got(2) new(1,8,9) clicked(1,2) by (simp_all add: same_target_def)
  note fin = finish_parts [OF assms(6)]
  have sel: "gs_rows_cells (ss_grid sel) = map doc [?start..max ar fr]"
      "gs_row_copy (ss_grid sel) = Some (map meta [?start..max ar fr])"
      "ss_origin sel = ss_origin source" "ss_served_offset sel = of_int (- ?start)"
    using fin(1-4) got(5,6) target by simp_all
  have off: "uint (ss_served_offset sel) = - ?start"
    using got(1) target(1) unfolding sel(4) by (intro uint_of_int_small) (auto simp: span_ok_def HISTORY_ROWS_def)
  have ends: "cp_row p = cp_row (ss_origin source) + nat (ar - ?start)"
      "cp_row q = cp_row (ss_origin source) + nat (fr - ?start)"
      "cp_col p = cp_col anchor" "cp_col q = cp_col focus"
    using fin(5,6) target clicked by simp_all
  have "min (cp_row p) (cp_row q) - cp_row (ss_origin sel) = nat (min ar fr - ?start)"
    unfolding ends(1,2) sel(3) by (cases "ar \<le> fr") (simp_all add: min_def)
  then have "drop (min (cp_row p) (cp_row q) - cp_row (ss_origin sel)) (gs_rows_cells (ss_grid sel)) =
      map doc [min ar fr..max ar fr]"
    by (auto simp: sel(1) drop_map drop_upto min_def)
  moreover have "window doc meta (- uint (ss_served_offset sel)) (ss_grid sel)"
    using window_rows [OF sel(1,2)] fin(1,7) off by simp
  moreover have "clicked_row sel (ss_served_offset sel) p = ar" "clicked_row sel (ss_served_offset sel) q = fr"
    unfolding clicked_row_def ends(1,2) sel(3) off by auto
  moreover have "cell_under sel (ss_grid sel) p = cell_under source (ss_grid source) anchor"
    using finish_cell [OF got(3,4) _ _ _ assms(6) fin(5)] new got(2) by (simp add: same_target_def)
  moreover have "cell_under sel (ss_grid sel) q = cell_under source endpoint focus"
    using finish_cell [OF got(3,4) _ _ _ assms(6) fin(6)] new got(2) by (simp add: same_target_def)
  ultimately show ?thesis
    using new(4,6) sel(1,2) ends(3,4) by simp
qed

text \<open>Extending a selection with shift keeps the cell under the pointer.\<close>

lemma source_position_same_cell:
  assumes "source_position sel pos grid offset = Some q"
    "window doc meta (- uint (ss_served_offset sel)) (ss_grid sel)" "window doc meta (- uint offset) grid"
  shows "cell_under sel (ss_grid sel) q = cell_under sel grid pos \<and> cell_under sel grid pos \<noteq> None"
proof -
  obtain l r where l: "local_pos sel pos = Some l" "r = int (cp_row l) + uint (ss_served_offset sel) - uint offset" "0 \<le> r"
    "cell_at (gs_rows_cells grid) (cp_row l) (cp_col l) \<noteq> None"
    "cell_at (gs_rows_cells (ss_grid sel)) (nat r) (cp_col l) \<noteq> None"
    "q = \<lparr>cp_col = cp_col (ss_origin sel) + cp_col l, cp_row = cp_row (ss_origin sel) + nat r\<rparr>"
    using assms(1)
    by (auto simp: source_position_def try_i64_def Let_def bind_eq_Some_conv split: if_splits)
  have rows: "cp_row l < length (gs_rows_cells grid)" "nat r < length (gs_rows_cells (ss_grid sel))"
    using l(4,5) by (auto simp: cell_at_def split: if_splits)
  then have "gs_rows_cells grid ! cp_row l = doc (- uint offset + int (cp_row l))"
    "gs_rows_cells (ss_grid sel) ! nat r = doc (- uint (ss_served_offset sel) + int (nat r))"
    using assms(2,3) unfolding window_def by blast+
  moreover have "- uint offset + int (cp_row l) = - uint (ss_served_offset sel) + int (nat r)"
    using l(2,3) by simp
  ultimately have "gs_rows_cells grid ! cp_row l = gs_rows_cells (ss_grid sel) ! nat r"
    by simp
  then show ?thesis
    using l rows by (simp add: cell_under_def local_pos_def cell_at_def)
qed

section \<open>A concrete acquisition\<close>

definition plain_row :: row_copy where
  "plain_row = \<lparr>starts_line = Some True, soft_wrap = False, excluded_columns = []\<rparr>"

definition plain_page :: "nat \<Rightarrow> grid_snapshot" where
  "plain_page n = text_grid (replicate n [plain_cell ''a'']) (Some (replicate n plain_row))"

definition plain_source :: scrolled_selection where
  "plain_source =
     \<lparr>ss_grid = plain_page 1, ss_served_offset = 2, ss_origin = \<lparr>cp_col = 0, cp_row = 0\<rparr>, ss_live_alt_screen = False\<rparr>"

definition plain_start :: acquisition where
  "plain_start =
     \<lparr>aq_ticket = 1, aq_page = 0, aq_source = plain_source, aq_endpoint = plain_page 1, aq_endpoint_offset = 0,
      aq_anchor = (- 2, 0), aq_focus = (0, 0), aq_start = - 2, aq_next = - 2, aq_end = 0, aq_rows = [],
      aq_row_copy = [], aq_history_len = None\<rparr>"

definition plain_reply :: page_result where
  "plain_reply =
     \<lparr>pg_request = \<lparr>pr_ticket = 1, pr_page = 0, pr_generation = ''g'', pr_revision = 1, pr_cols = 1, pr_offset = 2,
                   pr_count = 3\<rparr>,
      pg_history_len = 5, pg_result = Inr (plain_page 3)\<rparr>"

definition plain_end :: acquisition where
  "plain_end =
     plain_start\<lparr>aq_page := 1, aq_next := 1, aq_rows := replicate 3 [plain_cell ''a''], aq_row_copy := replicate 3 plain_row,
       aq_history_len := Some 5\<rparr>"

lemma plain_page_simps [simp]:
  "gs_generation (plain_page n) = ''g''" "gs_revision (plain_page n) = 1" "gs_rows (plain_page n) = n"
  "gs_rows_cells (plain_page n) = replicate n [plain_cell ''a'']" "gs_row_copy (plain_page n) = Some (replicate n plain_row)"
  "gs_cols (plain_page n) = (if n = 0 then 0 else 1)"
  by (cases n; simp add: plain_page_def text_grid_def demo_grid_def)+

lemma plain_window: "window (\<lambda>_. [plain_cell ''a'']) (\<lambda>_. plain_row) start (plain_page n)"
  by (simp add: window_def)

lemma plain_new: "new_acquisition 1 plain_source \<lparr>cp_col = 0, cp_row = 0\<rparr> (plain_page 1) 0 \<lparr>cp_col = 0, cp_row = 0\<rparr> = Inr plain_start"
  by (simp add: new_acquisition_def plain_source_def local_pos_def cell_at_def plain_start_def HISTORY_ROWS_def HISTORY_CELLS_def)

lemma plain_request: "request plain_start = Some (pg_request plain_reply)"
  by (simp add: request_def plain_start_def plain_source_def plain_reply_def PAGE_ROWS_def)

lemma plain_append:
  "append_rows (plain_page 3) (- 2) (plain_start\<lparr>aq_history_len := Some 5\<rparr>) = Inr (plain_end\<lparr>aq_page := 0\<rparr>)"
proof -
  have "row_copy_cells_valid (replicate 3 [plain_cell ''a'']) (Some (replicate 3 plain_row))"
    by (simp add: row_copy_cells_valid_def row_copy_valid_def plain_row_def numeral_3_eq_3)
  then show ?thesis
    by (simp add: append_rows_def plain_start_def plain_end_def plain_source_def Let_def list_all_iff)
qed

lemma plain_run: "run_acquisition plain_start [plain_reply] = Inr plain_end"
proof -
  have "fill_live False (plain_end\<lparr>aq_page := 1\<rparr>) = Inr plain_end"
    by (simp add: fill_live.simps [of False] plain_end_def plain_start_def)
  moreover have "pg_result plain_reply = Inr (plain_page 3)" "pr_offset (pg_request plain_reply) = 2"
    "pg_history_len plain_reply = 5" "pr_generation (pg_request plain_reply) = ''g''" "pr_revision (pg_request plain_reply) = 1"
    "pr_cols (pg_request plain_reply) = 1" "pr_count (pg_request plain_reply) = 3" "aq_history_len plain_start = None"
    "aq_page plain_end = 1"
    by (simp_all add: plain_reply_def plain_start_def plain_end_def)
  ultimately show ?thesis
    using plain_append by (simp add: accept_def plain_request Let_def)
qed

theorem acquisition_exact_witness:
  "\<exists>sel p q. finish plain_end = Some (sel, p, q) \<and>
     gs_rows_cells (ss_grid sel) = [[plain_cell ''a''], [plain_cell ''a''], [plain_cell ''a'']] \<and>
     clicked_row sel (ss_served_offset sel) p = - 2 \<and> clicked_row sel (ss_served_offset sel) q = 0"
proof -
  obtain sel p q where fin: "finish plain_end = Some (sel, p, q)"
    by (simp add: finish_def plain_end_def plain_start_def Let_def)
  let ?o = "\<lparr>cp_col = 0, cp_row = 0\<rparr>"
  have "\<forall>reply \<in> set [plain_reply]. \<forall>grid. pg_result reply = Inr grid \<longrightarrow>
      window (\<lambda>_. [plain_cell ''a'']) (\<lambda>_. plain_row) (- uint (pr_offset (pg_request reply))) grid"
    using plain_window by (simp add: plain_reply_def)
  moreover have "ss_grid plain_source = plain_page 1"
    by (simp add: plain_source_def)
  moreover have "- 2 = clicked_row plain_source (ss_served_offset plain_source) ?o" "0 = clicked_row plain_source 0 ?o"
    by (simp_all add: clicked_row_def plain_source_def)
  ultimately have "gs_rows_cells (ss_grid sel) = map (\<lambda>_. [plain_cell ''a'']) [- 2..0] \<and>
      clicked_row sel (ss_served_offset sel) p = - 2 \<and> clicked_row sel (ss_served_offset sel) q = 0"
    using acquisition_exact [OF plain_new _ plain_window _ plain_run fin, of "- 2" 0] plain_window by simp
  moreover have "[- 2..0] = [- 2, - 1, 0 :: int]"
    by (simp add: upto.simps)
  ultimately show ?thesis
    using fin by simp
qed

theorem acquisition_completes_witness: "request plain_end = None \<and> finish plain_end \<noteq> None"
proof -
  have "finish plain_end \<noteq> None"
    by (simp add: finish_def plain_end_def plain_start_def Let_def)
  then show ?thesis
    using acquisition_completes [OF plain_new plain_run] by blast
qed

end
