(* ===== verification/Spec2Isabelle.thy ===== *)
theory Spec2Isabelle
  imports Link_Budget Output_Delivery Winsize_Owner Pane_Docking Bridge_Ledger Daemon_System Selection_Span
begin

text \<open>
  A verification library for Hydra, a terminal multiplexer whose PTYs live in a daemon
  (\<^verbatim>\<open>src/pty-daemon\<close>), are painted by a local renderer (\<^verbatim>\<open>src/maestro-renderer\<close>) and can be served to a
  remote browser by an agent (\<^verbatim>\<open>src/hydra-agent\<close>). The definitions are translated from the Rust sources,
  one per function or type, with the sources' names; \<^verbatim>\<open>u8\<close> to \<^verbatim>\<open>u64\<close> are words of that width,
  \<^verbatim>\<open>usize\<close> indices are naturals with \<open>usize_max\<close> written where the code saturates or checks,
  \<^verbatim>\<open>Result\<close> is a sum and every early return is a branch.

  \<^bold>\<open>The terminal stream.\<close> The daemon feeds PTY bytes to a terminal engine, stamps the rows that
  changed, and per attachment turns consecutive snapshots into damage frames; the renderer's gate
  checks each frame and applies it to its own grid.

  \<^item> \<open>Prelude\<close>: integer widths, checked and saturating arithmetic, results, list surgery, and two
    locales for machines that run on event sequences. \<open>stepping\<close> lifts an invariant from one step to
    a run, \<open>monotone_stepping\<close> adds a preorder that every step respects. They are interpreted for the
    gate (\<open>gate\<close>), the output arbiter (\<open>forwarder\<close>), the size owner (\<open>owner\<close>, \<open>spent\<close>) and its
    publisher (\<open>publisher\<close>), the pane layout (\<open>layout\<close>), the access gates (\<open>revocation\<close>, \<open>offers\<close>,
    \<open>setup_clock\<close>), the terminal bridge (\<open>bridge\<close>), the attachment fence (\<open>fence\<close>) and the whole
    daemon (\<open>pty_daemon\<close>) with its blocking pool (\<open>blocking_pool\<close>).
  \<^item> \<open>Wire\<close>: cells, snapshots, copy metadata and damage frames of \<^verbatim>\<open>maestro-renderer/src/wire.rs\<close> and
    \<^verbatim>\<open>maestro-protocol/src/row_copy.rs\<close>, with \<^verbatim>\<open>DamageFrame::validate\<close>.
  \<^item> \<open>Renderer_Sync\<close>: \<^verbatim>\<open>maestro-renderer/src/sync.rs\<close>, the gate \<^verbatim>\<open>SyncState\<close>. Lemmas: ops keep a grid
    rectangular, an event is applied whole or not at all, revisions never go back, retired
    generations and exited sessions never paint.
  \<^item> \<open>Damage_Gen\<close>: \<^verbatim>\<open>generate_damage\<close> and its helpers in \<^verbatim>\<open>pty-daemon/src/grid.rs\<close>. Lemmas: row diffs
    are exact, the emitted ops rebuild the next grid, a frame carries no more than it may.
  \<^item> \<open>Term_Grid\<close>: \<^verbatim>\<open>TermGrid\<close> of the same file: \<^verbatim>\<open>advance\<close>, \<^verbatim>\<open>resize\<close>, \<^verbatim>\<open>snapshot\<close>, \<^verbatim>\<open>scrollback\<close>. The VT
    engine is the external crate \<^verbatim>\<open>alacritty_terminal\<close>: a parameter record \<open>vt_engine\<close> whose relied-on
    behaviour is \<open>engine_shape\<close> (grids keep their size) and \<open>engine_reports\<close> (changed lines are
    reported as damage); \<open>unlink_engine\<close> shows both can hold.
  \<^item> \<open>Live_Stream\<close>: the forwarding task of the \<^verbatim>\<open>Attach\<close> request in \<^verbatim>\<open>pty-daemon/src/main.rs\<close> and the
    renderer's \<^verbatim>\<open>handle_pane_event_for_binding\<close> in \<^verbatim>\<open>client.rs\<close>; \<open>attachment_run\<close> interleaves PTY output,
    resizes, relayed frames and broadcast lags, without restriction.
  \<^item> \<open>Link_Budget\<close>: a concrete terminal with 257 hyperlink cells on which the row-stamp contract that
    \<^verbatim>\<open>grid.rs\<close> documents fails. The theorems on stamps assume \<open>links_fit\<close>, which excludes this case.

  \<^bold>\<open>Selecting text.\<close> A selection is a frozen copy of rows of one revision.

  \<^item> \<open>Text_Selection\<close>: \<^verbatim>\<open>maestro-renderer/src/terminal_selection.rs\<close>: projecting a selection on a scrolled
    viewport, words and logical lines. The Unicode table of \<^verbatim>\<open>is_alphanumeric\<close> is a parameter.
  \<^item> \<open>Selection_Span\<close>: \<^verbatim>\<open>selection_span.rs\<close>: collecting a long selection page by page. \<open>window\<close> says that a
    grid shows rows of one document; the finished selection is then the piece of it between the two
    clicked rows, after a prefix from row 0 where pages cannot start lower, and every acquisition ends.

  \<^bold>\<open>The daemon's registry.\<close> Clients connect, start and attach sessions, hand attachments over, kill,
  and publish on channels; every request works on one locked registry. The Unix side is modelled.

  \<^item> \<open>Channel_Log\<close>: \<^verbatim>\<open>pty-daemon/src/channel.rs\<close>: membership, the bounded replay log and its retention
    loop. \<^verbatim>\<open>serde_json::to_vec\<close> is the parameter \<open>to_vec\<close>.
  \<^item> \<open>Attachment_Fence\<close>: \<^verbatim>\<open>AttachmentFence\<close> and \<^verbatim>\<open>AttachmentGuard\<close> of \<^verbatim>\<open>session.rs\<close>: owner count,
    pending and retired handoff tokens.
  \<^item> \<open>Daemon_Registry\<close>: \<^verbatim>\<open>Daemon\<close> of \<^verbatim>\<open>daemon.rs\<close>: sessions, plain and conditional starts, the ledger of
    start operations, attachments, kill, listing, shutdown and channels. A fence is shared by the
    guards of several clients, so the fences live in a store and a session holds the address of its
    own. Whether the child starts, the file system, the random generations and the iteration order
    of the map are the input \<open>spawn_world\<close>; \<open>iterates_entries\<close> states that an iteration visits every entry
    once. A session's generation is fixed: its change at the end of the 64-bit revision counter, which
    \<open>Term_Grid\<close> has, is left out here.
  \<^item> \<open>Daemon_Clients\<close>: \<^verbatim>\<open>ClientState\<close> and \<^verbatim>\<open>handle_request\<close> of \<^verbatim>\<open>main.rs\<close>, every arm, and \<open>system_step\<close>:
    connections, requests, disconnections and child exits in any order. \<open>delivered\<close> tells which
    replies reach the outbound queue. Graceful shutdown ends the process and is not a step.
  \<^item> \<open>Daemon_Ownership\<close>, \<open>Daemon_System\<close>: the guards all clients hold form a multiset of links that the
    fences count exactly (\<open>owned\<close>); every request keeps it for all other clients. The properties: a
    session is in use exactly when somebody is attached, an attached session survives what others
    do, a start token is applied at most once, and effects reach only the generation a request names:
    \<open>io_step\<close> separates the check under the lock from the write, resize or kill that runs after it, in any
    order with other events.

  \<^bold>\<open>The agent's output path.\<close> Daemon events are admitted to a per-connection queue, optionally
  gzipped, cut into binary frames and interleaved fairly between panes.

  \<^item> \<open>Remote_Frame\<close>: \<^verbatim>\<open>hydra-agent/src/remote_frame.rs\<close> and the codecs of \<^verbatim>\<open>remote_peer.rs\<close>. The gzip
    encoder is the external crate \<^verbatim>\<open>flate2\<close>, the parameter record \<open>gz_encoder\<close>; the round trip relies on
    a decoder that inverts it (\<open>inflates\<close>) and \<open>run_encoder\<close> is an instance. It holds up to the 512-fold
    expansion the envelope admits; beyond it the event is refused. \<open>receive\<close> specifies the peer.
  \<^item> \<open>Output_Arbiter\<close>: \<^verbatim>\<open>TerminalOutputArbiter\<close> and the operations \<^verbatim>\<open>run_daemon_output_forwarder\<close>
    applies to it. Lemmas: exact accounting, and fairness with an explicit bound on the delay that holds
    while events are admitted, compressed and retired between the sends.
  \<^item> \<open>Output_Delivery\<close>: \<open>forwarding\<close> interleaves admissions, codec jobs, detaches and sends, and
    records the wire. Lemmas: what is completed has arrived, in order, on a channel that is attached.
    Admissions are bounded by the \<^verbatim>\<open>u64\<close> ticket counter, whose exhaustion the code does not handle.

  \<^bold>\<open>The agent's terminal bridge.\<close> The remote peer's requests pass the access gates and reach the daemon
  through a bridge that owns the routing table of attached sessions.

  \<^item> \<open>Access_Gate\<close>: \<^verbatim>\<open>remote_token.rs\<close>, \<^verbatim>\<open>remote_policy.rs\<close>, \<^verbatim>\<open>revocation.rs\<close>, \<^verbatim>\<open>input_rate.rs\<close>,
    \<^verbatim>\<open>seen_set.rs\<close> and \<^verbatim>\<open>setup_deadline.rs\<close>. Signatures, base64 and JSON are parameters.
  \<^item> \<open>Terminal_Bridge\<close>: \<^verbatim>\<open>remote_bridge.rs\<close>, generic in the backend trait: every message handler, input,
    routing, listings and their redaction, revocation and drop.
  \<^item> \<open>Bridge_Ledger\<close>: \<open>recording\<close> wraps any backend and logs the calls it receives. The handlers refine
    abstract moves on the routing table; hence the log is an exact ledger of attachments, input is
    bounded by the token bucket, retired targets never return and revocation closes the bridge.

  \<^bold>\<open>Who sizes a PTY.\<close>

  \<^item> \<open>Winsize_Owner\<close>: \<^verbatim>\<open>hydra-agent/src/winsize_owner.rs\<close>: presence, grace period, creation leases,
    deferred viewed attaches, local reclaims and the two published files with failing writes. Time is
    the millisecond count of the monotonic clock the code reads.

  \<^bold>\<open>Where the panes are.\<close>

  \<^item> \<open>Pane_Layout\<close>: \<^verbatim>\<open>maestro-shell/src/pane_layout.rs\<close>: the model, its transition tables and operations,
    panics included. After any sequence of calls the model is valid and no agent is lost.
  \<^item> \<open>Pane_Geometry\<close>: \<^verbatim>\<open>normalize_ratios\<close> and \<^verbatim>\<open>slot_rects\<close>. An \<^verbatim>\<open>f32\<close> is an exact rational and every
    operation rounds to 24 significant bits; stored ratios are finite. The rectangles tile the unit
    square, except in the two layouts whose cuts may cross (\<open>crossed_cuts_break_tiling\<close>).
  \<^item> \<open>Pane_Docking\<close>: on which side of the split pane a docked pane is drawn.

  \<^bold>\<open>This theory\<close> holds the properties that span the daemon and the renderer: within the link budget the pane
  mirrors the forwarder's baseline and a relayed frame brings it to the daemon's screen, a generated
  frame reproduces the grid it was generated for, and beyond the budget a stale row can remain.

  \<^bold>\<open>Fuel and bounds.\<close> No definition uses fuel: loops are structural recursions, folds, or \<open>function\<close>s
  with a termination proof. The retention loop of a channel is a \<open>partial_function\<close>, because on a
  corrupt byte count it would spin; \<open>channel_publish_terminates\<close> shows that it always returns. The
  retry of \<^verbatim>\<open>new_excluding\<close> searches the generations drawn, and is \<open>None\<close> when they are all the excluded one.
  Numeric limits are the sources' constants.

  \<^bold>\<open>Not modelled.\<close> JSON encoding and decoding (serde), sockets, WebRTC, threads and await points
  (operations that hold a lock are atomic steps; waiting for a blocked PTY or a full queue is not), PTY processes, the Windows backend, window systems
  and the GPU, cryptography, service managers, SQLite, and the TypeScript clients: these parts are
  calls into libraries and operating systems. The desktop application, the window layout and the
  project store are mostly such calls around large records; their pure rules are not modelled. Within
  modelled files:
  \<^verbatim>\<open>take_terminal_effects\<close> and the floating-point \<^verbatim>\<open>clamp_to_snapshot_budget\<close> of \<^verbatim>\<open>grid.rs\<close>, the
  recovery registry and scrollback cache of \<^verbatim>\<open>client.rs\<close>, log statistics, and the reading side of the
  owner files.
\<close>

section \<open>The live attachment, end to end\<close>

text \<open>
  C1: As long as no committed screen holds more hyperlink cells than one frame may carry, the pane
  mirrors the forwarder. Attach to a terminal and let any sequence of events follow: PTY output, resizes,
  relayed frames and broadcast lags. Suppose the engine honours its two contracts, every screen
  committed on the way keeps to the link budget (\<open>links_fit\<close>, 256 linked cells in all), the generations drawn
  are distinct and the 64-bit stamp counter does not reach its maximum. Then the pane's cached grid
  is the screen of the daemon's \<^verbatim>\<open>prev_snapshot\<close> and its gate stands at that snapshot's generation and
  revision, so the next frame extends what the renderer holds. Beyond the budget this fails (C4).
\<close>

theorem pane_mirrors_forwarder:
  assumes "engine_shape eng" "engine_reports eng" "tg_wf g" "stamps_bounded g"
    and "\<forall>g' \<in> set (committed eng evs g). links_fit safe g'"
    and "\<forall>g' \<in> set (committed eng evs g). tg_stamp_counter g' \<noteq> - 1"
    and "distinct (tg_generation g # drawn evs)"
    and "a = attachment_run eng safe (attach safe sid want_raw rec g) evs"
  shows "mirrors (fw_id (at_fw a)) (fw_prev_snapshot (at_fw a)) (at_pane a)"
  using attached_run_inv [OF assms(1-7)] assms(8) unfolding attached_inv_def by blast

text \<open>A run in which the terminal clears its links and the forwarder then recovers from a lag.\<close>

definition demo_attachment :: "attachment_event list \<Rightarrow> nat attachment" where
  "demo_attachment evs =
     attachment_run unlink_engine (\<lambda>_. True)
       (attach (\<lambda>_. True) ''s'' False Admitted demo_term_grid) evs"

lemma demo_run:
  "\<forall>g' \<in> set (committed unlink_engine [Commit ''h'' (Advance [0]), Lag Admitted] demo_term_grid).
     links_fit safe g'"
  "\<forall>g' \<in> set (committed unlink_engine [Commit ''h'' (Advance [0]), Lag Admitted] demo_term_grid).
     tg_stamp_counter g' \<noteq> - 1"
  "distinct (tg_generation demo_term_grid # drawn [Commit ''h'' (Advance [0]), Lag Admitted])"
proof -
  have "tg_stamp_counter (mutate unlink_engine ''h'' (Advance [0]) demo_term_grid) \<le> 1"
    using demo_links_fit(6) by (simp add: mutate_def advance_eq)
  then have "tg_stamp_counter (mutate unlink_engine ''h'' (Advance [0]) demo_term_grid) \<noteq> - 1"
    by (auto simp: word_le_nat_alt)
  then show
    "\<forall>g' \<in> set (committed unlink_engine [Commit ''h'' (Advance [0]), Lag Admitted] demo_term_grid).
       links_fit safe g'"
    "\<forall>g' \<in> set (committed unlink_engine [Commit ''h'' (Advance [0]), Lag Admitted] demo_term_grid).
       tg_stamp_counter g' \<noteq> - 1"
    using demo_links_fit(1,2,6) by (simp_all add: run_mutations_def)
  show "distinct (tg_generation demo_term_grid # drawn [Commit ''h'' (Advance [0]), Lag Admitted])"
    by (simp add: demo_term_grid_def new_with_generation_def)
qed

theorem pane_mirrors_forwarder_witness:
  "let a = demo_attachment [Commit ''h'' (Advance [0]), Lag Admitted] in
     mirrors (fw_id (at_fw a)) (fw_prev_snapshot (at_fw a)) (at_pane a)"
  unfolding Let_def
  by (rule pane_mirrors_forwarder [OF unlink_engine_contract demo_term_grid_wf demo_links_fit(5) demo_run
      demo_attachment_def])

text \<open>
  C2: Within the same limits as C1 (engine contracts, every committed screen in the link budget,
  distinct generations, stamp counter not exhausted), relaying catches up completely. Whenever the
  forwarder processes an output frame that is not already folded into its baseline, or recovers from
  a broadcast lag, the pane afterwards shows the daemon's current screen, however many frames the
  snapshot it took runs ahead of the one it was woken for. With more than 256 linked cells it may show
  a stale row instead (C4).
\<close>

theorem relayed_frame_shows_current_screen:
  assumes "engine_shape eng" "engine_reports eng" "tg_wf g" "stamps_bounded g"
    and "\<forall>g' \<in> set (committed eng evs g). links_fit safe g'"
    and "\<forall>g' \<in> set (committed eng evs g). tg_stamp_counter g' \<noteq> - 1"
    and "distinct (tg_generation g # drawn evs)"
    and "a = attachment_run eng safe (attach safe sid want_raw rec g) evs"
    and "r = RecvLagged \<or> (\<exists>frame. r = RecvFrame frame)" "\<not> folded_in r (at_fw a)"
  shows "shows_screen (snapshot safe (at_grid a)) (at_pane (forward safe r rec' a))"
proof -
  obtain fw' evs' where step: "fw_step None None (snapshot safe (at_grid a)) r (at_fw a) = (fw', evs')"
    by fastforce
  have "attached_inv safe a" using attached_run_inv [OF assms(1-7)] assms(8) by simp
  from forward_core(5) [OF this assms(9) step assms(10)] step
  show ?thesis by (simp add: forward_def Let_def)
qed

theorem relayed_frame_shows_current_screen_witness:
  "let a = demo_attachment [Commit ''h'' (Advance [0]), Lag Admitted] in
     shows_screen (snapshot (\<lambda>_. True) (at_grid a)) (at_pane (forward (\<lambda>_. True) RecvLagged Admitted a))"
  unfolding Let_def
  by (rule relayed_frame_shows_current_screen [OF unlink_engine_contract demo_term_grid_wf
      demo_links_fit(5) demo_run demo_attachment_def]) (simp_all add: folded_in_def)

text \<open>
  C3: A generated damage frame is never refused and never wrong. For two well-formed snapshots with
  sound row stamps, the frame the daemon generates passes the renderer's validation and, applied
  to the previous screen, yields the next screen cell for cell with its cursor, modes and copy
  metadata, whether it was encoded as row spans, one clear or a scroll.
\<close>

theorem generated_damage_reproduces_grid:
  assumes "wf_snapshot prev" "wf_snapshot nxt" "stamps_sound prev nxt"
    and "generate_damage prev nxt = Frame f" "same_screen held (on_wire prev)"
    and "ss_session_id s = sid" "ss_phase s \<noteq> Exited"
    and "ss_current s = Some (gs_generation prev, gs_revision prev)"
    and "gs_generation prev \<notin> ss_retired s"
  shows "\<exists>s' g. on_damage s sid (f\<lparr>df_id := sid\<rparr>) held = (s', Applied g) \<and>
     same_screen g (on_wire nxt) \<and> gs_base_revision g = gs_revision prev \<and>
     ss_current s' = Some (gs_generation nxt, gs_revision nxt) \<and> ss_phase s' = Synchronized"
  using generated_frame_applies [OF assms] by metis

text \<open>Two one-row screens: the second shows another glyph.\<close>

definition demo_snapshot :: "string \<Rightarrow> revision \<Rightarrow> daemon_snapshot" where
  "demo_snapshot glyph_text rv =
     grid_snapshot.extend
       ((demo_grid ''g'' rv)\<lparr>gs_rows_cells := [[demo_cell\<lparr>cell_text := glyph_text\<rparr>]]\<rparr>)
       \<lparr>dg_row_stamps = [rv]\<rparr>"

theorem generated_damage_reproduces_grid_witness:
  "\<exists>f s' g. generate_damage (demo_snapshot ''a'' 1) (demo_snapshot ''b'' 2) = Frame f \<and>
     on_damage ((new_sync ''s'')\<lparr>ss_current := Some (''g'', 1)\<rparr>) ''s'' (f\<lparr>df_id := ''s''\<rparr>)
       (on_wire (demo_snapshot ''a'' 1)) = (s', Applied g) \<and>
     same_screen g (on_wire (demo_snapshot ''b'' 2))"
proof -
  have wf: "wf_snapshot (demo_snapshot t rv)" for t rv
    by (simp add: demo_snapshot_def grid_snapshot.defs demo_grid_def demo_cell_def wf_snapshot_def
        SNAPSHOT_VERSION_def rect_def cell_is_valid_def wide_pairs_def linked_cells_def
        terminal_link_cells_within_cap_def row_copy_cells_valid_def row_copy_valid_def)
  have sound: "stamps_sound (demo_snapshot ''a'' 1) (demo_snapshot ''b'' 2)"
    by (simp add: demo_snapshot_def grid_snapshot.defs stamps_sound_def)
  note demo = demo_snapshot_def grid_snapshot.defs demo_grid_def demo_cell_def
  have "candidate_rows (demo_snapshot ''a'' 1) (demo_snapshot ''b'' 2) = Some [0]"
    by (simp add: demo candidate_rows_def)
  from generate_damage_one_candidate(1) [OF _ _ _ _ _ this, of 1 1]
  obtain f where f: "generate_damage (demo_snapshot ''a'' 1) (demo_snapshot ''b'' 2) = Frame f"
    by (simp add: demo same_shape_def rect_def uniform_blank_def is_canonical_blank_def)
  have "\<exists>s' g. on_damage ((new_sync ''s'')\<lparr>ss_current := Some (''g'', 1)\<rparr>) ''s'' (f\<lparr>df_id := ''s''\<rparr>)
       (on_wire (demo_snapshot ''a'' 1)) = (s', Applied g) \<and>
     same_screen g (on_wire (demo_snapshot ''b'' 2)) \<and>
     gs_base_revision g = gs_revision (demo_snapshot ''a'' 1) \<and>
     ss_current s' = Some (gs_generation (demo_snapshot ''b'' 2), gs_revision (demo_snapshot ''b'' 2)) \<and>
     ss_phase s' = Synchronized"
    by (rule generated_damage_reproduces_grid [OF wf wf sound f])
      (simp_all add: same_screen_def new_sync_def demo_snapshot_def grid_snapshot.defs demo_grid_def)
  with f show ?thesis by blast
qed

text \<open>
  C4: The stamp hint does go wrong when a screen holds more than 256 linked cells: \<^verbatim>\<open>snapshot\<close> shares
  one hyperlink budget between all rows, so removing the links of one row changes how an undamaged
  row below it renders. Under an engine that honours both contracts, relaying such an output chunk
  leaves the pane with a screen that is not the daemon's.
\<close>

theorem shared_link_budget_leaves_stale_row:
  "engine_shape unlink_engine \<and> engine_reports unlink_engine \<and>
   tg_wf linked_grid \<and> stamps_bounded linked_grid \<and>
   unlinked_grid = advance unlink_engine ''h'' [0] linked_grid \<and>
   at_pane stale_attachment =
     at_pane (forward any_url relayed_frame Admitted
       ((attach any_url ''s'' False Admitted linked_grid)\<lparr>at_grid := unlinked_grid\<rparr>)) \<and>
   \<not> shows_screen (snapshot any_url unlinked_grid) (at_pane stale_attachment)"
  using unlink_engine_contract linked_grid_ok stale_attachment_stale
  by (simp add: unlinked_grid_def stale_attachment_def)

end
